(* ===== verification/Uws_Prelude.thy ===== *)
theory Uws_Prelude
  imports Main "HOL-Library.Word" "HOL-Library.Sublist"
begin

text \<open>
  Shared vocabulary of the uWebSockets development.

  A \<open>char *\<close> buffer of the code is a list of bytes (\<open>8 word\<close>) that starts at the pointer; a
  pointer that moves forward is a suffix of that list. \<open>std::string_view\<close> is a byte list, and
  where the code distinguishes a null view from an empty one it is an option. \<open>char\<close> is signed,
  as on the x86 targets the project is built for: a comparison of a plain \<open>char\<close> with an
  \<open>int\<close> reads the byte with \<open>sint\<close>, one of an \<open>unsigned char\<close> with \<open>unat\<close> (or on the word).

  The theory holds the literals, the loops over bytes that several components share, and the
  facts about them that the component proofs use through \<open>scan_simps\<close> and \<open>bytes_simps\<close>.
\<close>

unbundle bit_operations_syntax

named_theorems bytes_simps \<open>evaluation of byte literals\<close>
named_theorems scan_simps \<open>loops that scan a buffer\<close>
named_theorems prefix_simps \<open>facts about comparing the front of a buffer\<close>

section \<open>Bytes and literals\<close>

type_synonym byte = "8 word"
type_synonym u16 = "16 word"
type_synonym u32 = "32 word"
type_synonym u64 = "64 word"

definition bytes :: "string \<Rightarrow> byte list" where
  "bytes s = map of_char s"

lemma bytes_Nil [bytes_simps, simp]: "bytes [] = []"
  by (simp add: bytes_def)

lemma bytes_Cons [bytes_simps]: "bytes (c # cs) = of_char c # bytes cs"
  by (simp add: bytes_def)

lemma length_bytes [simp]: "length (bytes s) = length s"
  by (simp add: bytes_def)

abbreviation CR :: byte where "CR \<equiv> 13"
abbreviation LF :: byte where "LF \<equiv> 10"
abbreviation TAB :: byte where "TAB \<equiv> 9"
abbreviation SP :: byte where "SP \<equiv> 32"
abbreviation COLON :: byte where "COLON \<equiv> 58"
abbreviation HYPHEN :: byte where "HYPHEN \<equiv> 45"
abbreviation SLASH :: byte where "SLASH \<equiv> 47"

abbreviation CRLF :: "byte list" where "CRLF \<equiv> [CR, LF]"

text \<open>A plain \<open>char\<close> promoted to \<open>int\<close>.\<close>

abbreviation schar :: "byte \<Rightarrow> int" where
  "schar b \<equiv> sint b"

lemma unat_byte_less [simp]: "unat (b::byte) < 256"
  using unsigned_less [where 'a = nat, of b] by simp

lemma unat_byte_le [simp]: "unat (b::byte) \<le> 255"
  using unat_byte_less [of b] by linarith

lemma uint_byte_less [simp]: "uint (b::byte) < 256"
  using unsigned_less [where 'a = int, of b] by simp

lemma shift_mod_256: "(u::int) < 256 \<Longrightarrow> 0 \<le> u \<Longrightarrow> (u + 128) mod 256 - 128 = (if u < 128 then u else u - 256)"
proof (cases "u < 128")
  case True
  assume "0 \<le> u"
  with True show ?thesis by simp
next
  case False assume "u < 256"
  have "(u + 128) mod 256 = (u - 128 + 256) mod 256" by (simp add: algebra_simps)
  also have "\<dots> = u - 128" using False \<open>u < 256\<close> by (simp only: mod_add_self2) simp
  finally show ?thesis using False by simp
qed

lemma schar_eq: "sint (b::byte) = (if uint b < 128 then uint b else uint b - 256)"
proof -
  have "sint b = signed_take_bit 7 (uint b)"
    by (simp only: sint_uint) simp
  also have "\<dots> = (uint b + 128) mod 256 - 128"
    by (simp only: signed_take_bit_eq_take_bit_shift take_bit_eq_mod) simp
  also have "\<dots> = (if uint b < 128 then uint b else uint b - 256)"
    by (rule shift_mod_256) simp_all
  finally show ?thesis .
qed

lemma schar_less_iff: "0 \<le> k \<Longrightarrow> k < 128 \<Longrightarrow> sint (b::byte) < k \<longleftrightarrow> uint b < k \<or> 128 \<le> uint b"
  unfolding schar_eq using uint_byte_less [of b] by (auto simp del: uint_byte_less)

lemma schar_greater_iff: "0 \<le> k \<Longrightarrow> k < 128 \<Longrightarrow> k < sint (b::byte) \<longleftrightarrow> k < uint b \<and> uint b < 128"
  unfolding schar_eq using uint_byte_less [of b] by (auto simp del: uint_byte_less)

lemma uint_less_numeral: "uint (b::'a::len word) < numeral k \<longleftrightarrow> unat b < numeral k"
  using of_nat_less_iff [where 'a = int, of "unat b" "numeral k"] by simp

lemma numeral_less_uint: "numeral k < uint (b::'a::len word) \<longleftrightarrow> numeral k < unat b"
  using of_nat_less_iff [where 'a = int, of "numeral k" "unat b"] by simp

lemma numeral_le_uint: "numeral k \<le> uint (b::'a::len word) \<longleftrightarrow> numeral k \<le> unat b"
  using of_nat_le_iff [where 'a = int, of "numeral k" "unat b"] by simp

lemma schar_greater_32: "32 < sint (b::byte) \<longleftrightarrow> 32 < unat b \<and> unat b < 128"
  by (simp add: schar_greater_iff uint_less_numeral numeral_less_uint)

section \<open>Scanning a buffer\<close>

text \<open>
  \<open>scanWhile P\<close> is the loop \<open>while (P(*p)) p++;\<close>. It returns what it passed over and where
  it stopped, and \<open>None\<close> when it runs off the buffer: a read out of bounds.
\<close>

fun scanWhile :: "(byte \<Rightarrow> bool) \<Rightarrow> byte list \<Rightarrow> (byte list \<times> byte list) option" where
  "scanWhile P [] = None"
| "scanWhile P (b # bs) =
     (if P b then map_option (\<lambda>(k, r). (b # k, r)) (scanWhile P bs) else Some ([], b # bs))"

lemma scanWhile_eq:
  "scanWhile P bs = (if \<exists>b\<in>set bs. \<not> P b then Some (takeWhile P bs, dropWhile P bs) else None)"
  by (induction bs) auto

lemma scanWhile_Some [scan_simps]:
  "\<exists>b\<in>set bs. \<not> P b \<Longrightarrow> scanWhile P bs = Some (takeWhile P bs, dropWhile P bs)"
  by (simp add: scanWhile_eq)

lemma scanWhile_SomeD:
  "scanWhile P bs = Some (k, r) \<Longrightarrow>
   bs = k @ r \<and> (\<forall>b\<in>set k. P b) \<and> r \<noteq> [] \<and> \<not> P (hd r)"
proof (induction bs arbitrary: k)
  case (Cons b bs)
  then show ?case by (fastforce split: if_splits)
qed simp

lemma scanWhile_length: "scanWhile P bs = Some (k, r) \<Longrightarrow> length bs = length k + length r"
  by (auto dest: scanWhile_SomeD)

text \<open>Loops over a \<open>string_view\<close>, which stop at its end.\<close>

lemma length_dropWhile_less:
  "xs \<noteq> [] \<Longrightarrow> P (hd xs) \<Longrightarrow> length (dropWhile P xs) < length xs"
  by (cases xs) (auto simp: le_imp_less_Suc length_dropWhile_le)

lemma takeWhile_append_stop:
  "\<forall>x\<in>set xs. P x \<Longrightarrow> \<not> P y \<Longrightarrow> takeWhile P (xs @ y # ys) = xs"
  by (simp add: takeWhile_tail)

lemma dropWhile_append_stop:
  "\<forall>x\<in>set xs. P x \<Longrightarrow> \<not> P y \<Longrightarrow> dropWhile P (xs @ y # ys) = y # ys"
  by (induction xs) auto

lemma takeWhile_prefix_stop:
  "\<exists>b\<in>set xs. \<not> P b \<Longrightarrow> takeWhile P (xs @ ys) = takeWhile P xs"
  by (induction xs) auto

lemma dropWhile_prefix_stop:
  "\<exists>b\<in>set xs. \<not> P b \<Longrightarrow> dropWhile P (xs @ ys) = dropWhile P xs @ ys"
  by (induction xs) auto

lemma takeWhile_fence: "\<not> P c \<Longrightarrow> takeWhile P (d @ c # t) = takeWhile P d"
  by (induction d) auto

lemma dropWhile_fence: "\<not> P c \<Longrightarrow> dropWhile P (d @ c # t) = dropWhile P d @ c # t"
  by (induction d) auto

lemma takeWhile_resume:
  assumes "\<And>b. P b \<Longrightarrow> Q b"
  shows "takeWhile Q d = takeWhile P d @ takeWhile Q (dropWhile P d)"
    and "dropWhile Q d = dropWhile Q (dropWhile P d)"
  by (induction d) (auto dest: assms)

section \<open>Searching\<close>

text \<open>\<open>string_view::find\<close> of a byte: the first index, or \<open>None\<close> for \<open>npos\<close>.\<close>

fun find_byte :: "byte \<Rightarrow> byte list \<Rightarrow> nat option" where
  "find_byte c [] = None"
| "find_byte c (b # bs) = (if b = c then Some 0 else map_option Suc (find_byte c bs))"

lemma find_byte_None [simp]: "find_byte c bs = None \<longleftrightarrow> c \<notin> set bs"
  by (induction bs) auto

lemma find_byte_SomeD:
  "find_byte c bs = Some i \<Longrightarrow> i < length bs \<and> bs ! i = c \<and> c \<notin> set (take i bs)"
  by (induction bs arbitrary: i) (auto split: if_splits)

lemma find_byte_append_Some:
  "c \<notin> set xs \<Longrightarrow> find_byte c ys = Some i \<Longrightarrow> find_byte c (xs @ ys) = Some (length xs + i)"
  by (induction xs) auto

lemma find_byte_append_stop: "c \<notin> set xs \<Longrightarrow> find_byte c (xs @ c # ys) = Some (length xs)"
  by (induction xs) auto

text \<open>\<open>string_view::find\<close> of a string: the first index where it occurs.\<close>

fun find_bytes :: "byte list \<Rightarrow> byte list \<Rightarrow> nat option" where
  "find_bytes pat [] = (if pat = [] then Some 0 else None)"
| "find_bytes pat (b # bs) =
     (if prefix pat (b # bs) then Some 0 else map_option Suc (find_bytes pat bs))"

lemma find_bytes_SomeD:
  "find_bytes pat bs = Some i \<Longrightarrow>
   i + length pat \<le> length bs \<and> take (length pat) (drop i bs) = pat"
proof (induction bs arbitrary: i)
  case Nil
  then show ?case by (simp split: if_splits)
next
  case (Cons b bs)
  show ?case
  proof (cases "prefix pat (b # bs)")
    case True
    with Cons.prems have "i = 0" by simp
    moreover obtain zs where "b # bs = pat @ zs" using True by (auto simp: prefix_def)
    ultimately show ?thesis by (metis add_0 append_eq_conv_conj drop0 length_append le_add1)
  next
    case False
    with Cons show ?thesis by auto
  qed
qed

section \<open>Little-endian words in memory\<close>

text \<open>
  \<open>memcpy(&word, p, 8)\<close> on the little-endian targets: byte \<open>i\<close> of memory is bits
  \<open>8 i \<dots> 8 i + 7\<close>.
\<close>

fun le_nat :: "byte list \<Rightarrow> nat" where
  "le_nat [] = 0"
| "le_nat (b # bs) = unat b + 256 * le_nat bs"

lemma le_nat_less: "le_nat bs < 256 ^ length bs"
proof (induction bs)
  case (Cons b bs)
  have "unat b + 256 * le_nat bs < 256 * Suc (le_nat bs)" by simp
  also have "\<dots> \<le> 256 * 256 ^ length bs" using Cons.IH by (simp only: Suc_le_eq mult_le_mono2)
  finally show ?case by simp
qed simp

lemma le_nat_append: "le_nat (xs @ ys) = le_nat xs + 256 ^ length xs * le_nat ys"
  by (induction xs) (auto simp: algebra_simps)

fun le_bytes :: "nat \<Rightarrow> nat \<Rightarrow> byte list" where
  "le_bytes 0 v = []"
| "le_bytes (Suc n) v = of_nat (v mod 256) # le_bytes n (v div 256)"

lemma length_le_bytes [simp]: "length (le_bytes n v) = n"
  by (induction n arbitrary: v) auto

lemma unat_of_nat_byte: "n < 256 \<Longrightarrow> unat (of_nat n :: byte) = n"
  by (simp add: unsigned_of_nat take_bit_nat_eq_self)

lemma le_nat_le_bytes: "v < 256 ^ n \<Longrightarrow> le_nat (le_bytes n v) = v"
proof (induction n arbitrary: v)
  case (Suc n)
  then have "v div 256 < 256 ^ n" by (simp add: less_mult_imp_div_less mult.commute)
  with Suc show ?case by (simp add: unat_of_nat_byte)
qed simp

lemma le_bytes_le_nat: "le_bytes (length bs) (le_nat bs) = bs"
proof (induction bs)
  case (Cons b bs)
  have "(unat b + 256 * le_nat bs) div 256 = le_nat bs" by simp
  with Cons show ?case by simp
qed simp

text \<open>
  \<open>cond_byte_swap\<close> on an integer of \<open>n\<close> bytes: the union is filled in memory order and its
  bytes are copied back in reverse.
\<close>

definition byte_swap :: "nat \<Rightarrow> nat \<Rightarrow> nat" where
  "byte_swap n v = le_nat (rev (le_bytes n v))"

lemma byte_swap_bytes: "length bs = n \<Longrightarrow> byte_swap n (le_nat bs) = le_nat (rev bs)"
  unfolding byte_swap_def by (metis le_bytes_le_nat)

lemma byte_swap_less: "byte_swap n v < 256 ^ n"
  using le_nat_less [of "rev (le_bytes n v)"] by (simp add: byte_swap_def)

lemma byte_swap_involution:
  assumes "v < 256 ^ n"
  shows "byte_swap n (byte_swap n v) = v"
proof -
  have "le_bytes n (byte_swap n v) = rev (le_bytes n v)"
    unfolding byte_swap_def using le_bytes_le_nat [of "rev (le_bytes n v)"] by simp
  then show ?thesis unfolding byte_swap_def [of n "byte_swap n v"] by (simp add: le_nat_le_bytes [OF assms])
qed

definition load64 :: "byte list \<Rightarrow> u64 option" where
  "load64 bs = (if length bs < 8 then None else Some (of_nat (le_nat (take 8 bs))))"

definition load32 :: "byte list \<Rightarrow> u32" where
  "load32 bs = of_nat (le_nat (take 4 bs))"

section \<open>Flag bits of a 64-bit word\<close>

lemma bit_of_nat_u64: "n < 64 \<Longrightarrow> bit (of_nat k :: u64) n \<longleftrightarrow> odd (k div 2 ^ n)"
  by (simp add: bit_of_nat_iff) (simp add: bit_iff_odd)

lemma and_flag: "n < 64 \<Longrightarrow> (of_nat k :: u64) AND 2 ^ n = 0 \<longleftrightarrow> even (k div 2 ^ n)"
  by (simp add: and_exp_eq_0_iff_not_bit bit_of_nat_u64)

lemma take_bit_of_nat_u64: "take_bit n (of_nat k :: u64) = of_nat (k mod 2 ^ n)"
  by (simp add: take_bit_of_nat flip: take_bit_eq_mod)

lemma bit_of_nat_less: "k < 2 ^ m \<Longrightarrow> bit (of_nat k :: u64) n \<Longrightarrow> n < m"
proof (rule ccontr)
  assume k: "k < 2 ^ m" and b: "bit (of_nat k :: u64) n" and "\<not> n < m"
  then have "k < 2 ^ n" by (meson le_less_trans less_le_trans not_less one_le_numeral power_increasing)
  moreover from b have "n < 64" using bit_imp_le_length by fastforce
  ultimately show False using b by (simp add: bit_of_nat_u64)
qed

lemma or_flag: "k < 2 ^ m \<Longrightarrow> m < 64 \<Longrightarrow> (of_nat k :: u64) OR 2 ^ m = of_nat (2 ^ m + k)"
proof -
  assume k: "k < 2 ^ m" and m: "m < 64"
  have "(of_nat k :: u64) + 2 ^ m = of_nat k OR 2 ^ m"
    by (rule disjunctive_add) (auto dest: bit_of_nat_less [OF k] simp: bit_exp_iff)
  then show ?thesis by (simp add: add.commute)
qed
lemma and_not_mask: "(w::u64) AND NOT (mask n) = w - take_bit n w"
proof -
  have "(w AND NOT (mask n)) + (w AND mask n) = (w AND NOT (mask n)) OR (w AND mask n)"
    by (rule disjunctive_add) (auto simp: bit_simps)
  also have "\<dots> = w" by (simp flip: bit.conj_disj_distrib)
  finally show ?thesis by (simp add: take_bit_eq_mask algebra_simps)
qed

section \<open>Finite sequences of steps\<close>

lemma fold_invariant:
  assumes "P s" and "\<And>x s. x \<in> set xs \<Longrightarrow> P s \<Longrightarrow> P (f x s)"
  shows "P (fold f xs s)"
  using assms by (induction xs arbitrary: s) auto

end
