(* ===== verification/Bloom_Filter.thy ===== *)
theory Bloom_Filter
  imports Uws_Prelude
begin

text \<open>
  The filter of \<open>src/src/BloomFilter.h\<close>: a \<open>std::bitset<256>\<close> indexed by a byte, four bits per key,
  taken from a multiplicative hash of four characters of the key. The interface the header
  lookup of \<open>HttpRequest\<close> relies on is the locale \<open>approx_filter\<close>: a key that was added is
  never denied. It is interpreted on the code's filter below.
\<close>

section \<open>The interface\<close>

locale approx_filter =
  fixes empty :: "'f"
    and insert_key :: "'k \<Rightarrow> 'f \<Rightarrow> 'f"
    and might_have :: "'f \<Rightarrow> 'k \<Rightarrow> bool"
  assumes insert_same: "might_have (insert_key k f) k"
    and insert_mono: "might_have f k \<Longrightarrow> might_have (insert_key k' f) k"
begin

lemma fold_mono: "might_have f k \<Longrightarrow> might_have (fold insert_key ks f) k"
  by (induction ks arbitrary: f) (auto intro: insert_mono)

lemma no_false_negative: "k \<in> set ks \<Longrightarrow> might_have (fold insert_key ks f) k"
  by (induction ks arbitrary: f) (auto intro: fold_mono insert_same)

text \<open>A lookup that asks the filter first finds what the lookup alone finds.\<close>

lemma guarded_lookup:
  assumes "\<And>k. k \<notin> set ks \<Longrightarrow> look k = None"
  shows "(if might_have (fold insert_key ks f) k then look k else None) = look k"
  using assms no_false_negative by (cases "k \<in> set ks") auto

end

section \<open>The filter of the code\<close>

type_synonym bitset256 = "byte \<Rightarrow> bool"

definition perfectHash :: "u32 \<Rightarrow> u32" where
  "perfectHash features = features * 1843993368"

text \<open>
  The \<open>union ScrambleArea\<close>: four bytes read as a little-endian \<open>uint32_t\<close> and back. Only
  called for keys of at least two characters, so every index is inside the key.
\<close>

definition scramble_val :: "byte list \<Rightarrow> u32" where
  "scramble_val p = load32 p"

definition scramble_bytes :: "u32 \<Rightarrow> byte list" where
  "scramble_bytes val = [ucast val, ucast (drop_bit 8 val), ucast (drop_bit 16 val), ucast (drop_bit 24 val)]"

definition getFeatures :: "byte list \<Rightarrow> u32" where
  "getFeatures key = scramble_val
     [key ! 0, key ! (length key - 1), key ! (length key - 2), key ! (length key div 2)]"

definition bloom_reset :: bitset256 where
  "bloom_reset = (\<lambda>_. False)"

definition mightHave :: "bitset256 \<Rightarrow> byte list \<Rightarrow> bool" where
  "mightHave bits key =
     (if length key < 2 then True
      else list_all bits (scramble_bytes (perfectHash (getFeatures key))))"

definition bloom_add :: "byte list \<Rightarrow> bitset256 \<Rightarrow> bitset256" where
  "bloom_add key bits =
     (if length key \<ge> 2
      then fold (\<lambda>p f. f(p := True)) (scramble_bytes (perfectHash (getFeatures key))) bits
      else bits)"

lemma fold_set_bits:
  "fold (\<lambda>p f. f(p := True)) ps f q \<longleftrightarrow> q \<in> set ps \<or> f q"
  by (induction ps arbitrary: f) auto

lemma bloom_add_same: "mightHave (bloom_add key f) key"
  by (auto simp: mightHave_def bloom_add_def list_all_iff fold_set_bits)

lemma bloom_add_mono: "mightHave f key \<Longrightarrow> mightHave (bloom_add key' f) key"
  by (auto simp: mightHave_def bloom_add_def list_all_iff fold_set_bits)

interpretation bloom: approx_filter bloom_reset bloom_add mightHave
  by unfold_locales (rule bloom_add_same, rule bloom_add_mono)

text \<open>C23: No false negatives: after any sequence of \<open>add\<close> on a filter in any state, \<open>mightHave\<close>
  answers true for every key that was added, whatever was added before or after it.\<close>

theorem bloom_no_false_negative:
  "\<forall>key \<in> set keys. mightHave (fold bloom_add keys f) key"
  using bloom.no_false_negative by blast

theorem bloom_no_false_negative_witness:
  "mightHave (fold bloom_add [bytes ''host'', bytes ''accept''] bloom_reset) (bytes ''host'')"
  using bloom_no_false_negative [of "[bytes ''host'', bytes ''accept'']" bloom_reset] by simp

end
