(* ===== verification/Utilities.thy ===== *)
theory Utilities
  imports Uws_Prelude
begin

text \<open>
  The number printers of \<open>src/src/Utilities.h\<close>. Each fills a local array from the least significant
  digit and copies it out backwards; the model keeps both loops (the array is a list, the copy is
  \<open>rev\<close>). The printers are used for chunk sizes and for Content-Length.
\<close>

section \<open>Hexadecimal\<close>

definition palette :: "byte list" where
  "palette = bytes ''0123456789abcdef''"

function u32toaHex_temp :: "u32 \<Rightarrow> byte list" where
  "u32toaHex_temp value =
     palette ! unat (value AND 15) #
     (let value' = drop_bit 4 value in if value' > 0 then u32toaHex_temp value' else [])"
  by pat_completeness auto

lemma unat_drop_bit_4: "unat (drop_bit 4 (v::'a::len word)) = unat v div 16"
  by (simp only: unat_drop_bit_eq) (simp add: drop_bit_eq_div)

termination u32toaHex_temp
proof (relation "measure unat")
  fix v x :: u32
  assume "x = drop_bit 4 v" and "0 < x"
  then have "unat x = unat v div 16" and "0 < unat x"
    by (simp_all add: unat_drop_bit_4 word_less_nat_alt)
  then show "(x, v) \<in> measure unat" by simp
qed simp

declare u32toaHex_temp.simps [simp del]

definition u32toaHex :: "u32 \<Rightarrow> byte list" where
  "u32toaHex value = rev (u32toaHex_temp value)"

text \<open>Reading a digit sequence back, most significant first.\<close>

definition hex_digit_value :: "byte \<Rightarrow> nat option" where
  "hex_digit_value b =
     (if 48 \<le> b \<and> b \<le> 57 then Some (unat b - 48)
      else if 97 \<le> b \<and> b \<le> 102 then Some (unat b - 87)
      else if 65 \<le> b \<and> b \<le> 70 then Some (unat b - 55) else None)"

definition hex_value :: "byte list \<Rightarrow> nat" where
  "hex_value ds = foldl (\<lambda>acc b. 16 * acc + (case hex_digit_value b of None \<Rightarrow> 0 | Some d \<Rightarrow> d)) 0 ds"

lemma palette_digit: "n < 16 \<Longrightarrow> hex_digit_value (palette ! n) = Some n"
proof -
  have "\<forall>n\<in>set [0..<16]. hex_digit_value (palette ! n) = Some n" by code_simp
  then show "n < 16 \<Longrightarrow> hex_digit_value (palette ! n) = Some n" by simp
qed

lemma unat_and_15: "unat ((v::'a::len word) AND 15) = unat v mod 16"
proof -
  have "v AND 15 = take_bit 4 v" by (simp add: take_bit_eq_mask mask_eq_exp_minus_1)
  then show ?thesis by (simp only: unsigned_take_bit_eq) (simp add: take_bit_eq_mod)
qed

lemma hex_value_temp: "hex_value (rev (u32toaHex_temp v)) = unat v"
proof (induction v rule: u32toaHex_temp.induct)
  case (1 v)
  have d: "hex_digit_value (palette ! (unat v mod 16)) = Some (unat v mod 16)"
    by (rule palette_digit) simp
  show ?case
  proof (cases "drop_bit 4 v > 0")
    case True
    then have "hex_value (rev (u32toaHex_temp (drop_bit 4 v))) = unat v div 16"
      using "1.IH" [OF refl] by (simp add: unat_drop_bit_4)
    with True d show ?thesis
      by (subst u32toaHex_temp.simps) (simp add: hex_value_def unat_and_15)
  next
    case False
    then have "unat v div 16 = 0"
      using unat_drop_bit_4 [of v] by (simp add: word_less_nat_alt)
    with False d show ?thesis
      by (subst u32toaHex_temp.simps) (simp add: hex_value_def unat_and_15)
  qed
qed

lemma hex_temp_digits: "\<forall>b\<in>set (u32toaHex_temp v). hex_digit_value b \<noteq> None"
proof (induction v rule: u32toaHex_temp.induct)
  case (1 v)
  have "hex_digit_value (palette ! (unat v mod 16)) \<noteq> None"
    by (subst palette_digit) simp_all
  with 1 show ?case by (subst u32toaHex_temp.simps) (simp add: unat_and_15 Let_def)
qed

lemma hex_temp_length: "unat v < 16 ^ Suc k \<Longrightarrow> length (u32toaHex_temp v) \<le> Suc k"
proof (induction v arbitrary: k rule: u32toaHex_temp.induct)
  case (1 v)
  show ?case
  proof (cases "drop_bit 4 v > 0")
    case True
    then have p: "0 < unat v div 16"
      using unat_drop_bit_4 [of v] by (simp add: word_less_nat_alt)
    then obtain k' where k: "k = Suc k'" using "1.prems" by (cases k) auto
    have "unat (drop_bit 4 v) < 16 ^ Suc k'"
      using "1.prems" k by (simp add: unat_drop_bit_4 less_mult_imp_div_less mult.commute)
    then have "length (u32toaHex_temp (drop_bit 4 v)) \<le> Suc k'"
      using "1.IH" [OF refl] True by blast
    with True k show ?thesis by (subst u32toaHex_temp.simps) simp
  next
    case False
    then show ?thesis by (subst u32toaHex_temp.simps) simp
  qed
qed

lemma u32toaHex_nonempty [simp]: "u32toaHex v \<noteq> []"
  by (simp add: u32toaHex_def u32toaHex_temp.simps [of v])

lemma u32toaHex_length: "length (u32toaHex v) \<le> 8"
proof -
  have "unat v < 16 ^ Suc 7" using unsigned_less [where 'a = nat, of v] by simp
  then show ?thesis using hex_temp_length [of v 7] by (simp add: u32toaHex_def)
qed

section \<open>Decimal\<close>

function u64toa_temp :: "u64 \<Rightarrow> byte list" where
  "u64toa_temp value =
     (ucast (value mod 10) + 48) #
     (let value' = value div 10 in if value' > 0 then u64toa_temp value' else [])"
  by pat_completeness auto
termination
proof (relation "measure unat")
  fix v x :: u64
  assume "x = v div 10" and "0 < x"
  then have "unat x = unat v div 10" and "0 < unat x"
    by (simp_all add: unat_div word_less_nat_alt)
  then show "(x, v) \<in> measure unat" by simp
qed simp

declare u64toa_temp.simps [simp del]

definition u64toa :: "u64 \<Rightarrow> byte list" where
  "u64toa value = rev (u64toa_temp value)"

definition dec_value :: "byte list \<Rightarrow> nat" where
  "dec_value ds = foldl (\<lambda>acc b. 10 * acc + (unat b - 48)) 0 ds"

lemma unat_dec_digit: "unat (ucast (v mod 10) + 48 :: byte) = unat (v::u64) mod 10 + 48"
proof -
  have m: "unat (v mod 10) = unat v mod 10" by (simp add: unat_mod)
  then have "unat (ucast (v mod 10) :: byte) = unat v mod 10"
    by (simp add: unsigned_ucast_eq take_bit_eq_mod)
  moreover have "unat v mod 10 < 10" by simp
  ultimately show ?thesis by (subst unat_plus_if') simp
qed

lemma dec_value_temp: "dec_value (rev (u64toa_temp v)) = unat v"
proof (induction v rule: u64toa_temp.induct)
  case (1 v)
  show ?case
  proof (cases "v div 10 > 0")
    case True
    then have "dec_value (rev (u64toa_temp (v div 10))) = unat v div 10"
      using "1.IH" [OF refl] by (simp add: unat_div)
    with True show ?thesis
      by (subst u64toa_temp.simps) (simp add: dec_value_def unat_dec_digit)
  next
    case False
    then have "unat v div 10 = 0"
      by (simp add: word_less_nat_alt unat_div)
    with False show ?thesis
      by (subst u64toa_temp.simps) (simp add: dec_value_def unat_dec_digit)
  qed
qed

lemma dec_temp_digits: "\<forall>b\<in>set (u64toa_temp v). 48 \<le> b \<and> b \<le> 57"
proof (induction v rule: u64toa_temp.induct)
  case (1 v)
  have "48 \<le> unat (ucast (v mod 10) + 48 :: byte) \<and> unat (ucast (v mod 10) + 48 :: byte) \<le> 57"
    unfolding unat_dec_digit using mod_less_divisor [of 10 "unat v"] by simp
  with 1 show ?case by (subst u64toa_temp.simps) (simp add: word_le_nat_alt Let_def)
qed

lemma dec_temp_length: "unat v < 10 ^ Suc k \<Longrightarrow> length (u64toa_temp v) \<le> Suc k"
proof (induction v arbitrary: k rule: u64toa_temp.induct)
  case (1 v)
  show ?case
  proof (cases "v div 10 > 0")
    case True
    then have p: "0 < unat v div 10" by (simp add: word_less_nat_alt unat_div)
    then obtain k' where k: "k = Suc k'" using "1.prems" by (cases k) auto
    have "unat (v div 10) < 10 ^ Suc k'"
      using "1.prems" k by (simp add: unat_div less_mult_imp_div_less mult.commute)
    then have "length (u64toa_temp (v div 10)) \<le> Suc k'"
      using "1.IH" [OF refl] True by blast
    with True k show ?thesis by (subst u64toa_temp.simps) simp
  next
    case False
    then show ?thesis by (subst u64toa_temp.simps) simp
  qed
qed

lemma u64toa_length: "length (u64toa v) \<le> 20"
proof -
  have "unat v < 10 ^ Suc 19" using unsigned_less [where 'a = nat, of v] by simp
  then show ?thesis using dec_temp_length [of v 19] by (simp add: u64toa_def)
qed

lemma u64toa_digits: "\<forall>b\<in>set (u64toa v). 48 \<le> b \<and> b \<le> 57"
  using dec_temp_digits by (simp add: u64toa_def)

lemma u64toa_value: "dec_value (u64toa v) = unat v"
  by (simp add: u64toa_def dec_value_temp)

lemma printers_value:
  "hex_value (u32toaHex v) = unat v \<and> length (u32toaHex v) \<le> 8 \<and>
   dec_value (u64toa w) = unat w \<and> length (u64toa w) \<le> 20"
  using hex_value_temp u32toaHex_length u64toa_value u64toa_length by (simp add: u32toaHex_def)


end
