(* ===== verification/Chunked_Encoding.thy ===== *)
theory Chunked_Encoding
  imports Uws_Prelude Utilities
begin

text \<open>
  The chunked transfer decoder of \<open>src/src/ChunkedEncoding.h\<close>. The whole decoder state is one
  \<open>uint64_t\<close>: bit 63 says that the size line is complete, bit 62 that chunked parsing goes on,
  the low 62 bits hold the size (plus the two bytes of the CRLF that ends the chunk). A
  \<open>std::string_view\<close> that the code shortens with \<open>remove_prefix\<close> is a byte list that is
  returned shortened.

  The lemmas: the size arithmetic never carries into the flag bits; every call consumes input or
  stops; a stream of well-formed chunks is decoded to its payload however it is cut into reads;
  and three closed facts on inputs that are not well formed.
\<close>

section \<open>The state word\<close>

definition STATE_HAS_SIZE :: u64 where "STATE_HAS_SIZE = push_bit 63 1"
definition STATE_IS_CHUNKED :: u64 where "STATE_IS_CHUNKED = push_bit 62 1"
definition STATE_SIZE_MASK :: u64 where "STATE_SIZE_MASK = NOT (push_bit 62 3)"
definition STATE_IS_ERROR :: u64 where "STATE_IS_ERROR = NOT 0"
definition STATE_SIZE_OVERFLOW :: u64 where "STATE_SIZE_OVERFLOW = push_bit 56 0x0F"

definition chunkSize :: "u64 \<Rightarrow> u64" where
  "chunkSize state = state AND STATE_SIZE_MASK"

definition decChunkSize :: "u64 \<Rightarrow> u32 \<Rightarrow> u64" where
  "decChunkSize state amount = (state AND NOT STATE_SIZE_MASK) OR (chunkSize state - ucast amount)"

definition hasChunkSize :: "u64 \<Rightarrow> bool" where
  "hasChunkSize state \<longleftrightarrow> state AND STATE_HAS_SIZE \<noteq> 0"

definition isParsingChunkedEncoding :: "u64 \<Rightarrow> bool" where
  "isParsingChunkedEncoding state \<longleftrightarrow> state AND NOT STATE_SIZE_MASK \<noteq> 0"

definition isParsingInvalidChunkedEncoding :: "u64 \<Rightarrow> bool" where
  "isParsingInvalidChunkedEncoding state \<longleftrightarrow> state = STATE_IS_ERROR"

section \<open>The size line\<close>

text \<open>The digit arithmetic is done on \<open>unsigned char\<close>, the result read as \<open>unsigned int\<close>.\<close>

definition hex_digit_number :: "byte \<Rightarrow> u32" where
  "hex_digit_number c =
     (let digit = (if 97 \<le> c then c - (97 - 58) else if 65 \<le> c then c - (65 - 58) else c)
      in ucast digit - 48)"

text \<open>
  The first loop of \<open>consumeHexNumber\<close>. The flag of the result is set when the function has
  returned from inside the loop.
\<close>

fun hexLoop :: "byte list \<Rightarrow> u64 \<Rightarrow> byte list \<times> u64 \<times> bool" where
  "hexLoop [] state = ([], state, False)"
| "hexLoop (c # data) state =
     (if schar c > 32 then
        (let number = hex_digit_number c in
         if number > 16 \<or> chunkSize state AND STATE_SIZE_OVERFLOW \<noteq> 0
         then (c # data, STATE_IS_ERROR, True)
         else hexLoop data (((state AND STATE_SIZE_MASK) * 16 + ucast number) OR STATE_IS_CHUNKED))
      else (c # data, state, False))"

definition consumeHexNumber :: "byte list \<Rightarrow> u64 \<Rightarrow> byte list \<times> u64" where
  "consumeHexNumber data state =
     (case hexLoop data state of (data, state, returned) \<Rightarrow>
      if returned then (data, state)
      else (case dropWhile (\<lambda>c. c \<noteq> LF) data of
              [] \<Rightarrow> ([], state)
            | _ # data \<Rightarrow> (data, (state + 2) OR (STATE_HAS_SIZE OR STATE_IS_CHUNKED))))"

section \<open>The next chunk\<close>

text \<open>The loop of "drop trailer mode"; the flag says that the function returned \<open>nullopt\<close>.\<close>

fun dropTrailer :: "byte list \<Rightarrow> u64 \<Rightarrow> byte list \<times> u64 \<times> bool" where
  "dropTrailer [] state = ([], state, False)"
| "dropTrailer (c # data) state =
     (if chunkSize state = 0 then (c # data, state, False)
      else (let state = decChunkSize state 1 in
            if chunkSize state = 0 then (data, 0, True) else dropTrailer data state))"

lemma hexLoop_length: "hexLoop data state = (data', state', r) \<Longrightarrow> length data' \<le> length data"
  by (induction data state rule: hexLoop.induct) (fastforce simp: Let_def split: if_splits)+

lemma hexLoop_not_returned:
  "hexLoop data state = (data', state', False) \<Longrightarrow>
   data' = dropWhile (\<lambda>c. schar c > 32) data"
  by (induction data state rule: hexLoop.induct) (auto simp: Let_def split: if_splits)

lemma hexLoop_returned: "hexLoop data state = (data', state', True) \<Longrightarrow> state' = STATE_IS_ERROR"
  by (induction data state rule: hexLoop.induct) (auto simp: Let_def split: if_splits)

lemma length_skip_line:
  "data \<noteq> [] \<Longrightarrow> dropWhile P data = data' \<Longrightarrow>
   (case dropWhile (\<lambda>c. c \<noteq> LF) data' of [] \<Rightarrow> 0 | _ # rest \<Rightarrow> length rest) < length data"
  using length_dropWhile_le [of P data] length_dropWhile_le [of "\<lambda>c. c \<noteq> LF" data']
  by (auto split: list.splits)

lemma consumeHexNumber_progress:
  assumes "data \<noteq> []" and "consumeHexNumber data state = (data', state')"
    and "\<not> isParsingInvalidChunkedEncoding state'"
  shows "length data' < length data"
proof -
  obtain d s r where h: "hexLoop data state = (d, s, r)" by (metis prod_cases3)
  have "\<not> r" using assms h hexLoop_returned [of data state d s]
    by (cases r) (auto simp: consumeHexNumber_def isParsingInvalidChunkedEncoding_def)
  then have "dropWhile (\<lambda>c. schar c > 32) data = d"
    using h hexLoop_not_returned [of data state d s] by simp
  from length_skip_line [OF assms(1) this] assms(2) h \<open>\<not> r\<close> show ?thesis
    by (auto simp: consumeHexNumber_def split: list.splits)
qed

lemma dropTrailer_length: "dropTrailer data state = (data', state', r) \<Longrightarrow> length data' \<le> length data"
  by (induction data state rule: dropTrailer.induct) (fastforce simp: Let_def split: if_splits)+

lemma dropTrailer_progress:
  "dropTrailer data state = (data', state', r) \<Longrightarrow> data \<noteq> [] \<Longrightarrow> chunkSize state \<noteq> 0 \<Longrightarrow>
   length data' < length data"
  by (cases data) (auto simp: Let_def dest!: dropTrailer_length split: if_splits)

lemma not_hasChunkSize_chunked [simp]: "\<not> hasChunkSize STATE_IS_CHUNKED"
  by (simp add: hasChunkSize_def STATE_HAS_SIZE_def STATE_IS_CHUNKED_def)

function getNextChunk :: "byte list \<Rightarrow> u64 \<Rightarrow> bool \<Rightarrow> byte list option \<times> byte list \<times> u64" where
  "getNextChunk data state trailer =
     (if data = [] then (None, data, state)
      else if state AND STATE_IS_CHUNKED = 0 \<and> hasChunkSize state \<and> chunkSize state \<noteq> 0 then
        (case dropTrailer data state of (data, state, returned) \<Rightarrow>
         if returned then (None, data, state) else getNextChunk data state trailer)
      else if \<not> hasChunkSize state then
        (case consumeHexNumber data state of (data, state) \<Rightarrow>
         if isParsingInvalidChunkedEncoding state then (None, data, state)
         else if hasChunkSize state \<and> chunkSize state = 2 then
           (Some [], data, (if trailer then 4 else 2) OR STATE_HAS_SIZE)
         else getNextChunk data state trailer)
      else if length data \<ge> unat (chunkSize state) then
        (let data' = drop (unat (chunkSize state)) data in
         if chunkSize state > 2
         then (Some (take (unat (chunkSize state) - 2) data), data', STATE_IS_CHUNKED)
         else getNextChunk data' STATE_IS_CHUNKED trailer)
      else
        (let emitSoon = (if chunkSize state > 2 then take (unat (chunkSize state) - 2) data else []);
             state = decChunkSize state (of_nat (length data)) OR STATE_IS_CHUNKED
         in (if emitSoon \<noteq> [] then Some emitSoon else None, [], state)))"
  by pat_completeness auto
termination
proof (relation "measure (\<lambda>(data, state, trailer). 2 * length data + (if hasChunkSize state then 1 else 0))",
       goal_cases)
  case 2
  then show ?case by (auto dest!: dropTrailer_progress [OF sym])
next
  case 3
  then show ?case by (auto dest!: consumeHexNumber_progress [OF _ sym])
next
  case 4
  then show ?case by auto
qed simp

declare getNextChunk.simps [simp del]

text \<open>
  The range-for over a \<open>ChunkIterator\<close>, as \<open>HttpParser\<close> writes it: the constructor and
  \<open>operator++\<close> call \<open>getNextChunk\<close>, \<open>operator!=\<close> against the end iterator asks whether there
  is a chunk. The result holds the chunks in order, what is left of the view, and the state.
\<close>

lemma getNextChunk_progress:
  "getNextChunk data state trailer = (Some c, data', state') \<Longrightarrow> length data' < length data"
proof (induction data state trailer rule: getNextChunk.induct)
  case (1 data state trailer)
  note step = "1.prems" [unfolded getNextChunk.simps [of data state trailer]]
  show ?case
  proof (cases "data = []")
    case True
    with step show ?thesis by simp
  next
    case ne: False
    consider (trailer) "state AND STATE_IS_CHUNKED = 0 \<and> hasChunkSize state \<and> chunkSize state \<noteq> 0"
      | (hex) "\<not> (state AND STATE_IS_CHUNKED = 0 \<and> hasChunkSize state \<and> chunkSize state \<noteq> 0)" "\<not> hasChunkSize state"
      | (data) "\<not> (state AND STATE_IS_CHUNKED = 0 \<and> hasChunkSize state \<and> chunkSize state \<noteq> 0)" "hasChunkSize state"
      by blast
    then show ?thesis
    proof cases
      case trailer
      obtain d1 s1 r where dt: "dropTrailer data state = (d1, s1, r)" by (metis prod_cases3)
      from step ne trailer dt have "\<not> r" and "getNextChunk d1 s1 trailer = (Some c, data', state')"
        by (auto split: if_splits)
      then have "length data' < length d1"
        using "1.IH"(1) [OF ne trailer dt [symmetric] refl] by blast
      with dropTrailer_length [OF dt] show ?thesis by simp
    next
      case hex
      obtain d2 s2 where ch: "consumeHexNumber data state = (d2, s2)" by fastforce
      show ?thesis
      proof (cases "isParsingInvalidChunkedEncoding s2")
        case True
        with step ne hex ch show ?thesis by simp
      next
        case False
        have le: "length d2 < length data" using consumeHexNumber_progress [OF ne ch False] .
        show ?thesis
        proof (cases "hasChunkSize s2 \<and> chunkSize s2 = 2")
          case True
          with step ne hex ch False le show ?thesis by simp
        next
          case f: False
          with step ne hex ch False have "getNextChunk d2 s2 trailer = (Some c, data', state')"
            by auto
          then have "length data' < length d2"
            using "1.IH"(2) [OF ne hex ch [symmetric] False f] by blast
          with le show ?thesis by simp
        qed
      qed
    next
      case data
      show ?thesis
      proof (cases "unat (chunkSize state) \<le> length data \<and> \<not> chunkSize state > 2")
        case True
        with step ne data have "getNextChunk (drop (unat (chunkSize state)) data) STATE_IS_CHUNKED trailer
            = (Some c, data', state')"
          by (auto simp: Let_def)
        then have "length data' < length (drop (unat (chunkSize state)) data)"
          using "1.IH"(3) [OF ne data(1) _ _ refl] True data(2) by blast
        then show ?thesis by simp
      next
        case False
        with step ne data show ?thesis
          by (auto simp: Let_def word_less_nat_alt split: if_splits)
      qed
    qed
  qed
qed

function chunkLoop :: "byte list \<Rightarrow> u64 \<Rightarrow> bool \<Rightarrow> byte list list \<times> byte list \<times> u64" where
  "chunkLoop data state trailer =
     (case getNextChunk data state trailer of
        (None, data, state) \<Rightarrow> ([], data, state)
      | (Some chunk, data, state) \<Rightarrow>
          (case chunkLoop data state trailer of (chunks, rest) \<Rightarrow> (chunk # chunks, rest)))"
  by pat_completeness auto
termination
  by (relation "measure (\<lambda>(data, state, trailer). length data)") (auto dest!: getNextChunk_progress [OF sym])

declare chunkLoop.simps [simp del]

section \<open>The state word as numbers\<close>

lemma STATE_SIZE_MASK_eq: "STATE_SIZE_MASK = mask 62"
  by (simp add: STATE_SIZE_MASK_def mask_eq_exp_minus_1)
lemma STATE_HAS_SIZE_eq: "STATE_HAS_SIZE = 2 ^ 63" by (simp add: STATE_HAS_SIZE_def)
lemma STATE_IS_CHUNKED_eq: "STATE_IS_CHUNKED = 2 ^ 62" by (simp add: STATE_IS_CHUNKED_def)

lemma chunkSize_of_nat: "chunkSize (of_nat k) = of_nat (k mod 2 ^ 62)"
  unfolding chunkSize_def STATE_SIZE_MASK_eq take_bit_eq_mask [symmetric] by (rule take_bit_of_nat_u64)

text \<open>
  The three kinds of live states: reading a size line with value \<open>v\<close> so far, \<open>v\<close> bytes of chunk
  and CRLF to go, \<open>v\<close> bytes of trailer to drop.
\<close>

definition st_size :: "nat \<Rightarrow> u64" where "st_size v = of_nat (2 ^ 62 + v)"
definition st_data :: "nat \<Rightarrow> u64" where "st_data v = of_nat (2 ^ 63 + (2 ^ 62 + v))"
definition st_trailer :: "nat \<Rightarrow> u64" where "st_trailer v = of_nat (2 ^ 63 + v)"

named_theorems state_simps \<open>flags and sizes of the state word\<close>

lemma unat_of_nat_u64: "k < 2 ^ 64 \<Longrightarrow> unat (of_nat k :: u64) = k"
  by (simp add: unsigned_of_nat take_bit_eq_mod)

lemma numeral_less_64: "(63::nat) < 64" "(62::nat) < 64"
  by simp_all

lemma flag_div_mod: "(v::nat) < n \<Longrightarrow> (k * n + v) div n = k" "(v::nat) < n \<Longrightarrow> (k * n + v) mod n = v"
  by simp_all

lemma hasChunkSize_of_nat: "hasChunkSize (of_nat k) \<longleftrightarrow> odd (k div 2 ^ 63)"
  unfolding hasChunkSize_def STATE_HAS_SIZE_eq by (subst and_flag) (rule numeral_less_64 refl)+

lemma is_chunked_of_nat: "of_nat k AND STATE_IS_CHUNKED = 0 \<longleftrightarrow> even (k div 2 ^ 62)"
  unfolding STATE_IS_CHUNKED_eq by (rule and_flag) (rule numeral_less_64)

lemma chunkSize_st [state_simps]:
  assumes "v < 2 ^ 62"
  shows "chunkSize (st_size v) = of_nat v" "chunkSize (st_data v) = of_nat v"
    "chunkSize (st_trailer v) = of_nat v"
proof -
  have "(2 ^ 62 + v) mod 2 ^ 62 = v" "(2 ^ 63 + (2 ^ 62 + v)) mod 2 ^ 62 = v"
    "(2 ^ 63 + v) mod 2 ^ 62 = v"
    using flag_div_mod(2) [OF assms, of 1] flag_div_mod(2) [OF assms, of 3]
      flag_div_mod(2) [OF assms, of 2] by simp_all
  then show "chunkSize (st_size v) = of_nat v" "chunkSize (st_data v) = of_nat v"
    "chunkSize (st_trailer v) = of_nat v"
    by (simp_all only: st_size_def st_data_def st_trailer_def chunkSize_of_nat)
qed

lemma flags_st [state_simps]:
  assumes "v < 2 ^ 62"
  shows "\<not> hasChunkSize (st_size v)" "hasChunkSize (st_data v)" "hasChunkSize (st_trailer v)"
    "st_data v AND STATE_IS_CHUNKED \<noteq> 0" "st_trailer v AND STATE_IS_CHUNKED = 0"
proof -
  have d: "(2 ^ 62 + v) div 2 ^ 63 = 0" "(2 ^ 63 + (2 ^ 62 + v)) div 2 ^ 63 = 1"
    "(2 ^ 63 + v) div 2 ^ 63 = 1" "(2 ^ 63 + (2 ^ 62 + v)) div 2 ^ 62 = 3"
    "(2 ^ 63 + v) div 2 ^ 62 = 2"
    using flag_div_mod(1) [of "2 ^ 62 + v" "2 ^ 63" 0] flag_div_mod(1) [of "2 ^ 62 + v" "2 ^ 63" 1]
      flag_div_mod(1) [of v "2 ^ 63" 1] flag_div_mod(1) [OF assms, of 3]
      flag_div_mod(1) [OF assms, of 2] assms by simp_all
  show "\<not> hasChunkSize (st_size v)" "hasChunkSize (st_data v)" "hasChunkSize (st_trailer v)"
    "st_data v AND STATE_IS_CHUNKED \<noteq> 0" "st_trailer v AND STATE_IS_CHUNKED = 0"
    by (simp_all only: st_size_def st_data_def st_trailer_def hasChunkSize_of_nat is_chunked_of_nat d) simp_all
qed

text \<open>How the operations move between these states.\<close>

lemma st_size_0: "st_size 0 = STATE_IS_CHUNKED"
  by (simp add: st_size_def STATE_IS_CHUNKED_eq)

lemma size_push_digit:
  assumes "16 * v + d < 2 ^ 62"
  shows "((st_size v AND STATE_SIZE_MASK) * 16 + of_nat d) OR STATE_IS_CHUNKED = st_size (16 * v + d)"
proof -
  have "v < 2 ^ 62" using assms by simp
  then have "st_size v AND STATE_SIZE_MASK = of_nat v"
    using chunkSize_st(1) by (simp add: chunkSize_def)
  then have "(st_size v AND STATE_SIZE_MASK) * 16 + of_nat d = of_nat (16 * v + d)" by simp
  then show ?thesis
    unfolding STATE_IS_CHUNKED_eq st_size_def by (simp only: or_flag [OF assms numeral_less_64(2)])
qed

lemma size_complete:
  assumes "v + 2 < 2 ^ 62"
  shows "(st_size v + 2) OR (STATE_HAS_SIZE OR STATE_IS_CHUNKED) = st_data (v + 2)"
proof -
  have "st_size v + 2 = of_nat (v + 2) OR 2 ^ 62"
    unfolding st_size_def by (simp only: or_flag [OF assms numeral_less_64(2)]) (simp add: algebra_simps)
  then have "(st_size v + 2) OR (STATE_HAS_SIZE OR STATE_IS_CHUNKED) = (of_nat (v + 2) OR 2 ^ 62) OR 2 ^ 63"
    unfolding STATE_IS_CHUNKED_eq STATE_HAS_SIZE_eq by (simp only: or.assoc or.commute or.left_commute or.idem or.left_idem)
  also have "of_nat (v + 2) OR 2 ^ 62 = (of_nat (2 ^ 62 + (v + 2)) :: u64)"
    by (rule or_flag [OF assms numeral_less_64(2)])
  also have "\<dots> OR 2 ^ 63 = of_nat (2 ^ 63 + (2 ^ 62 + (v + 2)))"
    using assms by (intro or_flag) simp_all
  finally show ?thesis by (simp only: st_data_def)
qed

lemma dec_st:
  assumes "v < 2 ^ 62" and "n \<le> v" and "n < 2 ^ 32"
  shows "decChunkSize (st_data v) (of_nat n) OR STATE_IS_CHUNKED = st_data (v - n)"
    and "decChunkSize (st_trailer v) (of_nat n) = st_trailer (v - n)"
proof -
  have u: "ucast (of_nat n :: u32) = (of_nat n :: u64)"
    using assms(3) by (simp only: unsigned_of_nat) (simp add: take_bit_nat_eq_self)
  have m: "v - n < 2 ^ 62" using assms by simp
  have diff: "(of_nat v :: u64) - of_nat n = of_nat (v - n)" using assms(2) by simp
  have high: "st_data v AND NOT STATE_SIZE_MASK = 2 ^ 63 OR 2 ^ 62" "st_trailer v AND NOT STATE_SIZE_MASK = 2 ^ 63"
  proof -
    have "st_data v AND NOT STATE_SIZE_MASK = st_data v - of_nat v"
      "st_trailer v AND NOT STATE_SIZE_MASK = st_trailer v - of_nat v"
      using chunkSize_st(2,3) [OF assms(1)]
      unfolding STATE_SIZE_MASK_eq chunkSize_def take_bit_eq_mask [symmetric] and_not_mask
      by (simp_all only:)
    then show "st_data v AND NOT STATE_SIZE_MASK = 2 ^ 63 OR 2 ^ 62" "st_trailer v AND NOT STATE_SIZE_MASK = 2 ^ 63"
      by (simp_all add: st_data_def st_trailer_def)
  qed
  have f63: "(2 ^ 63 :: u64) OR of_nat (v - n) = st_trailer (v - n)"
    using m or_flag [of "v - n" 63] by (simp only: or.commute [of "2 ^ 63"] st_trailer_def) simp
  have data: "(of_nat (v - n) OR 2 ^ 62) OR 2 ^ 63 = st_data (v - n)"
    using m by (simp only: or_flag [OF m numeral_less_64(2)] st_data_def) (subst or_flag; simp)
  then have f: "((2 ^ 63 :: u64) OR 2 ^ 62) OR of_nat (v - n) = st_data (v - n)"
    by (simp only: or.assoc or.commute or.left_commute)
  from data have idem: "st_data (v - n) OR STATE_IS_CHUNKED = st_data (v - n)"
    unfolding STATE_IS_CHUNKED_eq
    by (simp only: or.assoc or.commute or.left_commute or.idem or.left_idem flip: data)
  show "decChunkSize (st_data v) (of_nat n) OR STATE_IS_CHUNKED = st_data (v - n)"
    unfolding decChunkSize_def u chunkSize_st(2) [OF assms(1)] diff high f by (rule idem)
  show "decChunkSize (st_trailer v) (of_nat n) = st_trailer (v - n)"
    unfolding decChunkSize_def u chunkSize_st(3) [OF assms(1)] diff high by (rule f63)
qed

text \<open>The overflow test of \<open>consumeHexNumber\<close> looks at bits 56 to 59 of the size.\<close>

lemma STATE_SIZE_OVERFLOW_eq: "STATE_SIZE_OVERFLOW = push_bit 56 (mask 4)"
  by (simp add: STATE_SIZE_OVERFLOW_def mask_eq_exp_minus_1)

lemma no_overflow_bits: "v < 2 ^ 56 \<Longrightarrow> (of_nat v :: u64) AND STATE_SIZE_OVERFLOW = 0"
proof -
  assume "v < 2 ^ 56"
  then have "bit (of_nat v :: u64) n \<Longrightarrow> n < 56" for n by (rule bit_of_nat_less)
  then show ?thesis
    by (intro bit_eqI) (auto simp only: STATE_SIZE_OVERFLOW_eq bit_and_iff bit_push_bit_iff bit_0_eq bot_fun_def
        bot_bool_def dest: leD)
qed

lemma overflow_bits:
  assumes "2 ^ 56 \<le> v" and "v < 2 ^ 60"
  shows "(of_nat v :: u64) AND STATE_SIZE_OVERFLOW \<noteq> 0"
proof
  assume z: "(of_nat v :: u64) AND STATE_SIZE_OVERFLOW = 0"
  have "v < 2 ^ 64" using assms(2) by simp
  then have u: "unat (of_nat v :: u64) = v" by (rule unat_of_nat_u64)
  have "drop_bit 56 ((of_nat v :: u64) AND push_bit 56 (mask 4)) = drop_bit 56 (of_nat v) AND mask 4"
    by (intro bit_eqI) (auto simp: bit_simps)
  then have "take_bit 4 (drop_bit 56 (of_nat v :: u64)) = 0"
    using z by (simp only: STATE_SIZE_OVERFLOW_eq take_bit_eq_mask drop_bit_of_0)
  then have "unat (take_bit 4 (drop_bit 56 (of_nat v :: u64))) = 0" by (simp only: unsigned_0)
  moreover have "unat (take_bit 4 (drop_bit 56 (of_nat v :: u64))) = take_bit 4 (drop_bit 56 v)"
    by (simp only: unsigned_take_bit_eq unat_drop_bit_eq u)
  ultimately have "v div 2 ^ 56 mod 2 ^ 4 = 0"
    by (simp only: drop_bit_eq_div take_bit_eq_mod)
  moreover have "0 < v div 2 ^ 56" using assms(1) by (simp add: div_greater_zero_iff)
  moreover have "v div 2 ^ 56 < 2 ^ 4" using assms(2) by (simp add: less_mult_imp_div_less)
  ultimately show False by simp
qed

section \<open>Well-formed size lines\<close>

lemma hex_digit_facts:
  assumes "hex_digit_value b = Some d"
  shows "32 < sint b" "hex_digit_number b = of_nat d" "d < 16"
proof -
  consider "48 \<le> unat b" "unat b \<le> 57" "d = unat b - 48"
    | "97 \<le> unat b" "unat b \<le> 102" "d = unat b - 87"
    | "65 \<le> unat b" "unat b \<le> 70" "d = unat b - 55"
    using assms by (auto simp: hex_digit_value_def word_le_nat_alt split: if_splits)
  then have "32 < sint b \<and> hex_digit_number b = of_nat d \<and> d < 16"
  proof cases
    case 1
    have "ucast b = (of_nat (unat b) :: u32)" by simp
    then have "hex_digit_number b = of_nat (unat b) - of_nat 48"
      using 1 by (simp add: hex_digit_number_def Let_def word_le_nat_alt)
    with 1 show ?thesis by (simp add: schar_greater_32)
  next
    case 2
    have "unat (b - 39) = unat b - 39" using 2 by (simp add: unat_sub word_le_nat_alt)
    then have "ucast (b - 39) = (of_nat (unat b - 39) :: u32)"
      by (metis of_nat_unat)
    then have "hex_digit_number b = of_nat (unat b - 39) - of_nat 48"
      using 2 by (simp add: hex_digit_number_def Let_def word_le_nat_alt)
    also have "\<dots> = of_nat (unat b - 39 - 48)" using 2 by (intro of_nat_diff [symmetric]) simp
    finally show ?thesis using 2 by (simp add: schar_greater_32)
  next
    case 3
    have "unat (b - 7) = unat b - 7" using 3 by (simp add: unat_sub word_le_nat_alt)
    then have "ucast (b - 7) = (of_nat (unat b - 7) :: u32)"
      by (metis of_nat_unat)
    then have "hex_digit_number b = of_nat (unat b - 7) - of_nat 48"
      using 3 by (simp add: hex_digit_number_def Let_def word_le_nat_alt)
    also have "\<dots> = of_nat (unat b - 7 - 48)" using 3 by (intro of_nat_diff [symmetric]) simp
    finally show ?thesis using 3 by (simp add: schar_greater_32)
  qed
  then show "32 < sint b" "hex_digit_number b = of_nat d" "d < 16" by simp_all
qed

definition hex_push :: "nat \<Rightarrow> byte list \<Rightarrow> nat" where
  "hex_push v ds = foldl (\<lambda>acc b. 16 * acc + (case hex_digit_value b of None \<Rightarrow> 0 | Some d \<Rightarrow> d)) v ds"

abbreviation hex_digits :: "byte list \<Rightarrow> bool" where
  "hex_digits ds \<equiv> \<forall>b\<in>set ds. hex_digit_value b \<noteq> None"

lemma hex_push_simps [simp]:
  "hex_push v [] = v"
  "hex_push v (b # ds) = hex_push (16 * v + (case hex_digit_value b of None \<Rightarrow> 0 | Some d \<Rightarrow> d)) ds"
  by (simp_all add: hex_push_def)

lemma hex_push_append: "hex_push v (xs @ ys) = hex_push (hex_push v xs) ys"
  by (simp add: hex_push_def)

lemma hex_push_mono: "v \<le> hex_push v ds"
proof (induction ds arbitrary: v)
  case (Cons b ds)
  show ?case using Cons.IH [of "16 * v + (case hex_digit_value b of None \<Rightarrow> 0 | Some d \<Rightarrow> d)"] by simp
qed simp

lemma hexLoop_digit:
  assumes "hex_digit_value b = Some d" and "v < 2 ^ 56"
  shows "hexLoop (b # xs) (st_size v) = hexLoop xs (st_size (16 * v + d))"
proof -
  note f = hex_digit_facts [OF assms(1)]
  have v: "v < 2 ^ 62" using assms(2) by simp
  have n: "ucast (of_nat d :: u32) = (of_nat d :: u64)"
    using f(3) by (simp only: unsigned_of_nat) (simp add: take_bit_nat_eq_self)
  have le: "\<not> (of_nat d :: u32) > 16"
    using f(3) by (simp add: word_less_nat_alt unsigned_of_nat take_bit_nat_eq_self)
  have p: "((st_size v AND STATE_SIZE_MASK) * 16 + of_nat d) OR STATE_IS_CHUNKED = st_size (16 * v + d)"
    using f(3) assms(2) by (intro size_push_digit) simp
  show ?thesis
    using f(1) le by (simp add: Let_def f(2) n p chunkSize_st(1) [OF v] no_overflow_bits [OF assms(2)])
qed

lemma hexLoop_digits:
  "hex_digits ds \<Longrightarrow> hex_push v ds < 2 ^ 60 \<Longrightarrow>
   hexLoop (ds @ xs) (st_size v) = hexLoop xs (st_size (hex_push v ds))"
proof (induction ds arbitrary: v)
  case (Cons b ds)
  then obtain d where d: "hex_digit_value b = Some d" by auto
  have "16 * v + d \<le> hex_push v (b # ds)"
    using d hex_push_mono [of "16 * v + d" ds] by simp
  then have "v < 2 ^ 56" using Cons.prems(2) by simp
  then show ?case using Cons d by (simp only: append_Cons hexLoop_digit) simp
qed simp

lemma hexLoop_too_big:
  "hex_digits ds \<Longrightarrow> v < 2 ^ 60 \<Longrightarrow> 2 ^ 60 \<le> hex_push v ds \<Longrightarrow>
   snd (hexLoop (ds @ xs) (st_size v)) = (STATE_IS_ERROR, True)"
proof (induction ds arbitrary: v)
  case (Cons b ds)
  then obtain d where d: "hex_digit_value b = Some d" by auto
  show ?case
  proof (cases "v < 2 ^ 56")
    case True
    then have "16 * v + d < 2 ^ 60" using hex_digit_facts(3) [OF d] by simp
    then show ?thesis using Cons d True by (simp only: append_Cons hexLoop_digit) simp
  next
    case False
    then have "of_nat v AND STATE_SIZE_OVERFLOW \<noteq> (0::u64)" using Cons.prems(2) overflow_bits by simp
    moreover have "chunkSize (st_size v) = of_nat v" using Cons.prems(2) by (intro chunkSize_st) simp
    ultimately show ?thesis using hex_digit_facts [OF d] by (simp add: Let_def)
  qed
qed simp

text \<open>C14: A size line of hexadecimal digits is read exactly or refused: for any digits after the
  start state, the state holds their value when it is below \<open>2 ^ 60\<close>, and the decoder is in the
  error state when it is not. The 62-bit field never wraps.\<close>

theorem size_line_exact_or_error:
  assumes "hex_digits ds"
  shows "if hex_push 0 ds < 2 ^ 60
    then consumeHexNumber (ds @ CR # LF # rest) STATE_IS_CHUNKED = (rest, st_data (hex_push 0 ds + 2))
    else snd (consumeHexNumber (ds @ CR # LF # rest) STATE_IS_CHUNKED) = STATE_IS_ERROR"
proof (cases "hex_push 0 ds < 2 ^ 60")
  case True
  then have "hexLoop (ds @ CR # LF # rest) (st_size 0) = (CR # LF # rest, st_size (hex_push 0 ds), False)"
    using hexLoop_digits [OF assms True] by simp
  then show ?thesis
    using True size_complete [of "hex_push 0 ds"] by (simp add: consumeHexNumber_def flip: st_size_0)
next
  case False
  obtain d s r where h: "hexLoop (ds @ CR # LF # rest) (st_size 0) = (d, s, r)" by (metis prod_cases3)
  have e: "s = STATE_IS_ERROR" "r" using hexLoop_too_big [OF assms, of 0 "CR # LF # rest"] False h by simp_all
  show ?thesis using False h e by (simp add: consumeHexNumber_def st_size_0)
qed

section \<open>Well-formed bodies, in any fragmentation\<close>

text \<open>
  What a sender writes: every chunk as its size in hexadecimal (\<open>u32toaHex\<close>, as
  \<open>HttpResponse::write\<close> does), CRLF, the bytes, CRLF; then the zero chunk.
\<close>

fun encode_chunks :: "byte list list \<Rightarrow> byte list" where
  "encode_chunks [] = 48 # CRLF @ CRLF"
| "encode_chunks (c # cs) = u32toaHex (of_nat (length c)) @ CRLF @ c @ CRLF @ encode_chunks cs"

definition chunk_ok :: "byte list \<Rightarrow> bool" where
  "chunk_ok c \<longleftrightarrow> c \<noteq> [] \<and> length c + 2 < 2 ^ 32"

text \<open>
  The reads of one connection: while the parser state says that a chunked body is being parsed,
  every read goes through the chunk loop; what the last call leaves over starts the next request.
\<close>

fun chunk_feed :: "u64 \<Rightarrow> byte list list \<Rightarrow> byte list list \<times> byte list \<times> u64" where
  "chunk_feed state [] = ([], [], state)"
| "chunk_feed state (seg # segs) =
     (if isParsingChunkedEncoding state then
        (case chunkLoop seg state False of (chunks, left, state) \<Rightarrow>
         case chunk_feed state segs of (chunks', left', state') \<Rightarrow> (chunks @ chunks', left @ left', state'))
      else ([], concat (seg # segs), state))"

text \<open>
  \<open>expects k s stream p fin\<close>: the decoder in state \<open>s\<close> with \<open>stream\<close> still to come has the payload
  \<open>p\<close> left to emit, still owes the empty last chunk iff \<open>fin\<close>, and the bytes \<open>k\<close> follow the body.
\<close>

inductive expects :: "byte list \<Rightarrow> u64 \<Rightarrow> byte list \<Rightarrow> byte list \<Rightarrow> bool \<Rightarrow> bool" for k where
  size: "\<lbrakk>hex_digits ds; hex_push v ds = length c; chunk_ok c; \<forall>c\<in>set cs. chunk_ok c\<rbrakk> \<Longrightarrow>
    expects k (st_size v) (ds @ CR # LF # c @ CR # LF # encode_chunks cs @ k) (c @ concat cs) True"
| size_lf: "\<lbrakk>chunk_ok c; \<forall>c\<in>set cs. chunk_ok c\<rbrakk> \<Longrightarrow>
    expects k (st_size (length c)) (LF # c @ CR # LF # encode_chunks cs @ k) (c @ concat cs) True"
| body: "\<lbrakk>length c + 2 < 2 ^ 32; \<forall>c\<in>set cs. chunk_ok c\<rbrakk> \<Longrightarrow>
    expects k (st_data (length c + 2)) (c @ CR # LF # encode_chunks cs @ k) (c @ concat cs) True"
| body_lf: "\<forall>c\<in>set cs. chunk_ok c \<Longrightarrow>
    expects k (st_data 1) (LF # encode_chunks cs @ k) (concat cs) True"
| last: "\<lbrakk>hex_digits ds; hex_push v ds = 0\<rbrakk> \<Longrightarrow>
    expects k (st_size v) (ds @ CR # LF # CR # LF # k) [] True"
| last_lf: "expects k (st_size 0) (LF # CR # LF # k) [] True"
| trailer: "expects k (st_trailer 2) (CR # LF # k) [] False"
| trailer_lf: "expects k (st_trailer 1) (LF # k) [] False"
| finished: "expects k 0 k [] False"

lemma hex_push_0: "hex_push 0 ds = hex_value ds"
  by (simp add: hex_push_def hex_value_def)

lemma expects_encoded:
  assumes "\<forall>c\<in>set cs. chunk_ok c"
  shows "expects k (st_size 0) (encode_chunks cs @ k) (concat cs) True"
proof (cases cs)
  case Nil
  have "expects k (st_size 0) ([48] @ CR # LF # CR # LF # k) [] True"
    by (rule expects.last) (simp_all add: hex_digit_value_def)
  with Nil show ?thesis by simp
next
  case (Cons c cs')
  then have ok: "chunk_ok c" using assms by simp
  then have "length c < 2 ^ 32" by (simp add: chunk_ok_def)
  then have u: "unat (of_nat (length c) :: u32) = length c"
    by (simp add: unsigned_of_nat take_bit_nat_eq_self)
  have "expects k (st_size 0) (u32toaHex (of_nat (length c)) @ CR # LF # c @ CR # LF # encode_chunks cs' @ k)
      (c @ concat cs') True"
    using assms Cons ok printers_value [of "of_nat (length c)"] hex_temp_digits
    by (intro expects.size) (simp_all add: hex_push_0 u u32toaHex_def)
  with Cons show ?thesis by simp
qed

text \<open>The one-iteration equations of \<open>getNextChunk\<close>, for the three kinds of states.\<close>

lemma next_size:
  assumes "seg \<noteq> []" and "v < 2 ^ 62"
  shows "getNextChunk seg (st_size v) tr =
    (case consumeHexNumber seg (st_size v) of (data, state) \<Rightarrow>
       if isParsingInvalidChunkedEncoding state then (None, data, state)
       else if hasChunkSize state \<and> chunkSize state = 2 then
         (Some [], data, (if tr then 4 else 2) OR STATE_HAS_SIZE)
       else getNextChunk data state tr)"
  using assms by (subst getNextChunk.simps) (simp add: state_simps)

lemma unat_of_nat_62: "v < 2 ^ 62 \<Longrightarrow> unat (of_nat v :: u64) = v"
  by (rule unat_of_nat_u64) simp

lemma word_gt_2: "v < 2 ^ 62 \<Longrightarrow> (2 < (of_nat v :: u64)) = (2 < v)"
  by (simp add: word_less_nat_alt unat_of_nat_62)

lemma next_data_whole:
  assumes "seg \<noteq> []" and "v = length c + 2" and "v < 2 ^ 32" and "seg = c @ a # b # seg'"
  shows "getNextChunk seg (st_data v) tr =
    (if c = [] then getNextChunk seg' STATE_IS_CHUNKED tr else (Some c, seg', STATE_IS_CHUNKED))"
proof -
  have v: "v < 2 ^ 62" using assms(3) by simp
  note f = chunkSize_st(2) [OF v] flags_st(2,4) [OF v] unat_of_nat_62 [OF v] word_gt_2 [OF v]
  have l: "v \<le> length seg" "drop v seg = seg'" "take (v - 2) seg = c" "2 < v \<longleftrightarrow> c \<noteq> []"
    using assms(2,4) by simp_all
  show ?thesis
    using assms(1) l by (subst getNextChunk.simps) (simp add: f Let_def)
qed

lemma next_data_part:
  assumes "seg \<noteq> []" and "v < 2 ^ 32" and "length seg < v"
  shows "getNextChunk seg (st_data v) tr =
    (let e = (if 2 < v then take (v - 2) seg else []) in
     (if e \<noteq> [] then Some e else None, [], st_data (v - length seg)))"
proof -
  have v: "v < 2 ^ 62" using assms(2) by simp
  have d: "decChunkSize (st_data v) (of_nat (length seg)) OR STATE_IS_CHUNKED = st_data (v - length seg)"
    using assms by (intro dec_st(1) v) simp_all
  note f = chunkSize_st(2) [OF v] flags_st(2,4) [OF v] unat_of_nat_62 [OF v] word_gt_2 [OF v] d
  show ?thesis
    using assms(1,3) by (subst getNextChunk.simps) (simp add: f Let_def)
qed

lemma getNextChunk_Nil [simp]: "getNextChunk [] state tr = (None, [], state)"
  by (subst getNextChunk.simps) simp

lemma st_nonzero:
  assumes "v < 2 ^ 62"
  shows "st_size v \<noteq> 0" "st_data v \<noteq> 0" "st_trailer v \<noteq> 0"
proof -
  have "unat (st_size v) = 2 ^ 62 + v" "unat (st_data v) = 2 ^ 63 + (2 ^ 62 + v)"
    "unat (st_trailer v) = 2 ^ 63 + v"
    using assms unfolding st_size_def st_data_def st_trailer_def by (intro unat_of_nat_u64; simp)+
  then show "st_size v \<noteq> 0" "st_data v \<noteq> 0" "st_trailer v \<noteq> 0" by auto
qed

lemma split_prefix:
  assumes "seg @ rest = c @ a # b # tail"
  obtains (inside) c2 where "c = seg @ c2" "rest = c2 @ a # b # tail"
  | (cr) "seg = c @ [a]" "rest = b # tail"
  | (whole) seg2 where "seg = c @ a # b # seg2" "tail = seg2 @ rest"
proof -
  from assms consider c2 where "c = seg @ c2" "rest = c2 @ a # b # tail"
    | s where "seg = c @ s" "a # b # tail = s @ rest"
    by (auto simp: append_eq_append_conv2)
  then show ?thesis
  proof cases
    case 1
    then show ?thesis by (rule inside)
  next
    case (2 s)
    then show ?thesis
      by (cases s; cases "tl s") (auto intro: inside cr whole)
  qed
qed

text \<open>What \<open>consumeHexNumber\<close> does with the next read, in a size line.\<close>

lemma consumeHex_inside:
  assumes "hex_digits ds1" and "hex_push v ds1 < 2 ^ 60"
  shows "consumeHexNumber ds1 (st_size v) = ([], st_size (hex_push v ds1))"
    and "consumeHexNumber (ds1 @ [CR]) (st_size v) = ([], st_size (hex_push v ds1))"
    and "consumeHexNumber (ds1 @ CR # LF # seg2) (st_size v) = (seg2, st_data (hex_push v ds1 + 2))"
proof -
  have a: "hex_push v ds1 + 2 < 2 ^ 62" using assms(2) by simp
  note loop = hexLoop_digits [OF assms]
  show "consumeHexNumber ds1 (st_size v) = ([], st_size (hex_push v ds1))"
    using loop [of "[]"] by (simp add: consumeHexNumber_def)
  show "consumeHexNumber (ds1 @ [CR]) (st_size v) = ([], st_size (hex_push v ds1))"
    using loop [of "[CR]"] by (simp add: consumeHexNumber_def)
  show "consumeHexNumber (ds1 @ CR # LF # seg2) (st_size v) = (seg2, st_data (hex_push v ds1 + 2))"
    using loop [of "CR # LF # seg2"] by (simp add: consumeHexNumber_def size_complete [OF a])
qed

lemma consumeHex_lf:
  assumes "v + 2 < 2 ^ 62"
  shows "consumeHexNumber (LF # seg2) (st_size v) = (seg2, st_data (v + 2))"
  using size_complete [OF assms] by (simp add: consumeHexNumber_def)

lemma st_not_error:
  assumes "v < 2 ^ 61"
  shows "\<not> isParsingInvalidChunkedEncoding (st_size v)" "\<not> isParsingInvalidChunkedEncoding (st_data v)"
proof -
  have v: "v < 2 ^ 62" using assms by simp
  have e: "unat (chunkSize STATE_IS_ERROR) = 2 ^ 62 - 1"
    by (simp add: chunkSize_def STATE_IS_ERROR_def STATE_SIZE_MASK_def)
  have "unat (chunkSize (st_size v)) = v" "unat (chunkSize (st_data v)) = v"
    using chunkSize_st [OF v] unat_of_nat_62 [OF v] by simp_all
  with e assms show "\<not> isParsingInvalidChunkedEncoding (st_size v)" "\<not> isParsingInvalidChunkedEncoding (st_data v)"
    unfolding isParsingInvalidChunkedEncoding_def by (auto simp del: unsigned_minus_1_eq_mask)
qed

lemma st_nz [simp]: "st_size 0 \<noteq> 0" "st_data 1 \<noteq> 0" "st_trailer 2 \<noteq> 0"
  by (rule st_nonzero; simp)+

lemma st_data_nz: "v < 2 ^ 32 \<Longrightarrow> st_data v \<noteq> 0"
  by (rule st_nonzero) simp

text \<open>
  The outcome of a call on one read: with no chunk the same payload is still owed, with a chunk
  that chunk is the next part of it; the empty chunk is emitted once, when nothing else is owed.
\<close>

definition next_ok :: "byte list \<Rightarrow> byte list \<Rightarrow> byte list \<Rightarrow> bool \<Rightarrow> byte list option \<times> byte list \<times> u64 \<Rightarrow> bool" where
  "next_ok k rest p fin res = (case res of
     (None, seg', s') \<Rightarrow> expects k s' (seg' @ rest) p fin \<and> (seg' = [] \<or> s' = 0)
   | (Some c, seg', s') \<Rightarrow> (\<exists>p'. p = c @ p' \<and> expects k s' (seg' @ rest) p' (fin \<and> c \<noteq> [])) \<and>
       fin \<and> s' \<noteq> 0 \<and> (c = [] \<longrightarrow> p = []))"

lemma next_ok_none: "expects k s rest p fin \<Longrightarrow> next_ok k rest p fin (None, [], s)"
  by (simp add: next_ok_def)

lemma data2:
  "hasChunkSize (st_data 2)" "chunkSize (st_data 2) = 2" "2 OR STATE_HAS_SIZE = st_trailer 2"
  by (simp_all add: hasChunkSize_def chunkSize_def st_data_def st_trailer_def STATE_HAS_SIZE_def STATE_SIZE_MASK_def)

lemma st_data_Suc [simp]: "st_data (Suc (Suc 0)) = st_data 2"
  by (simp add: numeral_2_eq_2)

lemma trailer2:
  "st_trailer 2 AND STATE_IS_CHUNKED = 0" "hasChunkSize (st_trailer 2)" "chunkSize (st_trailer 2) = 2"
  "st_trailer 1 AND STATE_IS_CHUNKED = 0" "hasChunkSize (st_trailer 1)" "chunkSize (st_trailer 1) = 1"
  "decChunkSize (st_trailer 2) 1 = st_trailer 1" "chunkSize (decChunkSize (st_trailer 1) 1) = 0"
  by (simp_all add: hasChunkSize_def chunkSize_def decChunkSize_def st_trailer_def STATE_HAS_SIZE_def
      STATE_SIZE_MASK_def STATE_IS_CHUNKED_def)

lemma next_in_line:
  assumes "seg \<noteq> []" and "v < 2 ^ 60" and "w < 2 ^ 60"
    and "consumeHexNumber seg (st_size v) = ([], st_size w)"
  shows "getNextChunk seg (st_size v) False = (None, [], st_size w)"
proof -
  have "v < 2 ^ 62" "w < 2 ^ 61" "w < 2 ^ 62" using assms by simp_all
  then show ?thesis
    using next_size [OF assms(1), of v False] st_not_error(1) [of w] flags_st(1) [of w]
    by (simp add: assms(4))
qed

lemma next_line_done:
  assumes "seg \<noteq> []" and "v < 2 ^ 60" and "0 < n" and "n + 2 < 2 ^ 32"
    and "consumeHexNumber seg (st_size v) = (seg2, st_data (n + 2))"
  shows "getNextChunk seg (st_size v) False = getNextChunk seg2 (st_data (n + 2)) False"
proof -
  have b: "v < 2 ^ 62" "n + 2 < 2 ^ 61" "n + 2 < 2 ^ 62" using assms by simp_all
  have "unat (chunkSize (st_data (n + 2))) = n + 2"
    unfolding chunkSize_st(2) [OF b(3)] by (rule unat_of_nat_62 [OF b(3)])
  then have "chunkSize (st_data (n + 2)) \<noteq> 2" using assms(3) by auto
  then show ?thesis
    using next_size [OF assms(1) b(1), of False] st_not_error(2) [OF b(2)]
    by (simp add: assms(5) del: add_2_eq_Suc')
qed

lemma next_line_zero:
  assumes "seg \<noteq> []" and "v < 2 ^ 60" and "consumeHexNumber seg (st_size v) = (seg2, st_data 2)"
  shows "getNextChunk seg (st_size v) False = (Some [], seg2, st_trailer 2)"
proof -
  have "v < 2 ^ 62" using assms by simp
  then show ?thesis
    using next_size [OF assms(1), of v False] st_not_error(2) [of 2] by (simp add: assms(3) data2)
qed

lemma expects_size_line:
  assumes seg: "seg \<noteq> []" "seg @ rest = ds @ CR # LF # c @ CR # LF # encode_chunks cs @ k"
    and ds: "hex_digits ds" "hex_push v ds = length c" and ok: "chunk_ok c" "\<forall>c\<in>set cs. chunk_ok c"
    and IH: "\<And>seg2. expects k (st_data (length c + 2)) (seg2 @ rest) (c @ concat cs) True \<Longrightarrow>
      length seg2 < length seg \<Longrightarrow>
      next_ok k rest (c @ concat cs) True (getNextChunk seg2 (st_data (length c + 2)) False)"
  shows "next_ok k rest (c @ concat cs) True (getNextChunk seg (st_size v) False)"
proof -
  have len: "length c + 2 < 2 ^ 32" "0 < length c" using ok(1) by (simp_all add: chunk_ok_def)
  have h: "hex_push v ds < 2 ^ 60" using ds(2) len by simp
  have v: "v < 2 ^ 60" using hex_push_mono [of v ds] h by simp
  from seg(2) show ?thesis
  proof (cases rule: split_prefix)
    case (inside c2)
    then have dd: "hex_digits seg" "hex_digits c2" using ds(1) by auto
    have w: "hex_push v seg < 2 ^ 60" using inside hex_push_mono [of "hex_push v seg" c2] h
      by (simp add: hex_push_append)
    have "expects k (st_size (hex_push v seg)) rest (c @ concat cs) True"
      unfolding inside(2) using ds(2) inside(1) dd ok by (intro expects.size) (simp_all add: hex_push_append)
    then show ?thesis
      using next_in_line [OF seg(1) v w consumeHex_inside(1) [OF dd(1) w]] by (simp add: next_ok_none)
  next
    case cr
    have "expects k (st_size (length c)) rest (c @ concat cs) True"
      unfolding cr(2) by (rule expects.size_lf) (rule ok)+
    then show ?thesis
      using next_in_line [OF seg(1) v h] consumeHex_inside(2) [OF ds(1) h] ds(2) cr(1)
      by (simp add: next_ok_none)
  next
    case (whole seg2)
    have "expects k (st_data (length c + 2)) (seg2 @ rest) (c @ concat cs) True"
      unfolding whole(2) [symmetric] by (rule expects.body) (rule len ok)+
    then have "next_ok k rest (c @ concat cs) True (getNextChunk seg2 (st_data (length c + 2)) False)"
      by (rule IH) (simp add: whole(1))
    moreover have "consumeHexNumber seg (st_size v) = (seg2, st_data (length c + 2))"
      using consumeHex_inside(3) [OF ds(1) h, of seg2] ds(2) whole(1) by simp
    ultimately show ?thesis using next_line_done [OF seg(1) v len(2,1)] by simp
  qed
qed

lemma expects_size_lf:
  assumes seg: "seg \<noteq> []" "seg @ rest = LF # c @ CR # LF # encode_chunks cs @ k"
    and ok: "chunk_ok c" "\<forall>c\<in>set cs. chunk_ok c"
    and IH: "\<And>seg2. expects k (st_data (length c + 2)) (seg2 @ rest) (c @ concat cs) True \<Longrightarrow>
      length seg2 < length seg \<Longrightarrow>
      next_ok k rest (c @ concat cs) True (getNextChunk seg2 (st_data (length c + 2)) False)"
  shows "next_ok k rest (c @ concat cs) True (getNextChunk seg (st_size (length c)) False)"
proof -
  have len: "length c + 2 < 2 ^ 32" "0 < length c" using ok(1) by (simp_all add: chunk_ok_def)
  have b: "length c + 2 < 2 ^ 62" "length c < 2 ^ 60" using len by simp_all
  obtain seg2 where seg2: "seg = LF # seg2" "seg2 @ rest = c @ CR # LF # encode_chunks cs @ k"
    using seg by (cases seg) auto
  have "expects k (st_data (length c + 2)) (seg2 @ rest) (c @ concat cs) True"
    unfolding seg2(2) by (rule expects.body) (rule len ok)+
  then have "next_ok k rest (c @ concat cs) True (getNextChunk seg2 (st_data (length c + 2)) False)"
    by (rule IH) (simp add: seg2(1))
  moreover have "consumeHexNumber seg (st_size (length c)) = (seg2, st_data (length c + 2))"
    using consumeHex_lf [OF b(1), of seg2] seg2(1) by simp
  ultimately show ?thesis using next_line_done [OF seg(1) b(2) len(2,1)] by simp
qed

lemma expects_body:
  assumes seg: "seg \<noteq> []" "seg @ rest = c @ CR # LF # encode_chunks cs @ k"
    and len: "length c + 2 < 2 ^ 32" and ok: "\<forall>c\<in>set cs. chunk_ok c"
    and IH: "\<And>seg2. expects k (st_size 0) (seg2 @ rest) (concat cs) True \<Longrightarrow>
      length seg2 < length seg \<Longrightarrow> next_ok k rest (concat cs) True (getNextChunk seg2 (st_size 0) False)"
  shows "next_ok k rest (c @ concat cs) True (getNextChunk seg (st_data (length c + 2)) False)"
proof -
  note tail = expects_encoded [OF ok, of k]
  from seg(2) show ?thesis
  proof (cases rule: split_prefix)
    case (inside c2)
    have lt: "length seg < length c + 2" and pos: "2 < length c + 2" and tk: "take (length c) seg = seg"
      and dl: "length c + 2 - length seg = length c2 + 2"
      using inside seg(1) by auto
    have "getNextChunk seg (st_data (length c + 2)) False = (Some seg, [], st_data (length c2 + 2))"
      using next_data_part [OF seg(1) len lt, of False] pos seg(1) unfolding dl by (simp add: Let_def inside(1))
    moreover have "expects k (st_data (length c2 + 2)) rest (c2 @ concat cs) True"
      unfolding inside(2) using len inside(1) ok by (intro expects.body) simp_all
    moreover have "st_data (length c2 + 2) \<noteq> 0" using len inside(1) by (intro st_data_nz) simp
    ultimately show ?thesis using inside(1) seg(1) by (simp add: next_ok_def)
  next
    case cr
    have lt: "length seg < length c + 2" using cr by simp
    have "getNextChunk seg (st_data (length c + 2)) False = (if c \<noteq> [] then Some c else None, [], st_data 1)"
      using next_data_part [OF seg(1) len lt, of False] by (simp add: Let_def cr(1))
    moreover have "expects k (st_data 1) rest (concat cs) True"
      unfolding cr(2) by (rule expects.body_lf) (rule ok)
    ultimately show ?thesis by (simp add: next_ok_def del: One_nat_def)
  next
    case (whole seg2)
    have "getNextChunk seg (st_data (length c + 2)) False =
        (if c = [] then getNextChunk seg2 (st_size 0) False else (Some c, seg2, st_size 0))"
      using next_data_whole [OF seg(1) refl len whole(1), of False] by (simp add: st_size_0)
    moreover have "next_ok k rest (concat cs) True (getNextChunk seg2 (st_size 0) False)"
      using tail whole by (intro IH) simp_all
    ultimately show ?thesis using tail whole(2) by (simp add: next_ok_def [of _ _ _ _ "(Some c, seg2, st_size 0)"])
  qed
qed

lemma expects_body_lf:
  assumes seg: "seg \<noteq> []" "seg @ rest = LF # encode_chunks cs @ k" and ok: "\<forall>c\<in>set cs. chunk_ok c"
    and IH: "\<And>seg2. expects k (st_size 0) (seg2 @ rest) (concat cs) True \<Longrightarrow>
      length seg2 < length seg \<Longrightarrow> next_ok k rest (concat cs) True (getNextChunk seg2 (st_size 0) False)"
  shows "next_ok k rest (concat cs) True (getNextChunk seg (st_data 1) False)"
proof -
  obtain seg2 where seg2: "seg = LF # seg2" "seg2 @ rest = encode_chunks cs @ k"
    using seg by (cases seg) auto
  have e: "chunkSize (st_data 1) = 1" "hasChunkSize (st_data 1)" "st_data 1 AND STATE_IS_CHUNKED \<noteq> 0"
    using chunkSize_st(2) [of 1] flags_st(2,4) [of 1] by simp_all
  have "getNextChunk seg (st_data 1) False = getNextChunk seg2 (st_size 0) False"
    unfolding seg2(1) by (subst getNextChunk.simps) (simp add: e Let_def st_size_0 drop_Cons' del: One_nat_def)
  moreover have "next_ok k rest (concat cs) True (getNextChunk seg2 (st_size 0) False)"
    using expects_encoded [OF ok, of k] seg2 by (intro IH) simp_all
  ultimately show ?thesis by simp
qed

lemma expects_last:
  assumes seg: "seg \<noteq> []" "seg @ rest = ds @ CR # LF # CR # LF # k"
    and ds: "hex_digits ds" "hex_push v ds = 0"
  shows "next_ok k rest [] True (getNextChunk seg (st_size v) False)"
proof -
  have h: "hex_push v ds < 2 ^ 60" using ds(2) by simp
  have v: "v < 2 ^ 60" using hex_push_mono [of v ds] h by simp
  from seg(2) show ?thesis
  proof (cases rule: split_prefix)
    case (inside c2)
    then have dd: "hex_digits seg" "hex_digits c2" using ds(1) by auto
    have w: "hex_push v seg < 2 ^ 60" using inside hex_push_mono [of "hex_push v seg" c2] h
      by (simp add: hex_push_append)
    have "expects k (st_size (hex_push v seg)) rest [] True"
      unfolding inside(2) using ds(2) inside(1) dd by (intro expects.last) (simp_all add: hex_push_append)
    then show ?thesis
      using next_in_line [OF seg(1) v w consumeHex_inside(1) [OF dd(1) w]] by (simp add: next_ok_none)
  next
    case cr
    have "expects k (st_size 0) rest [] True" unfolding cr(2) by (rule expects.last_lf)
    then show ?thesis
      using next_in_line [OF seg(1) v h] consumeHex_inside(2) [OF ds(1) h] ds(2) cr(1)
      by (simp add: next_ok_none)
  next
    case (whole seg2)
    have "consumeHexNumber seg (st_size v) = (seg2, st_data 2)"
      using consumeHex_inside(3) [OF ds(1) h, of seg2] ds(2) whole(1) by simp
    moreover have "expects k (st_trailer 2) (seg2 @ rest) [] False"
      unfolding whole(2) [symmetric] by (rule expects.trailer)
    ultimately show ?thesis using next_line_zero [OF seg(1) v] by (simp add: next_ok_def)
  qed
qed

lemma expects_last_lf:
  assumes "seg \<noteq> []" "seg @ rest = LF # CR # LF # k"
  shows "next_ok k rest [] True (getNextChunk seg (st_size 0) False)"
proof -
  obtain seg2 where seg2: "seg = LF # seg2" "seg2 @ rest = CR # LF # k"
    using assms by (cases seg) auto
  have "consumeHexNumber seg (st_size 0) = (seg2, st_data 2)"
    using consumeHex_lf [of 0 seg2] seg2(1) by simp
  moreover have "expects k (st_trailer 2) (seg2 @ rest) [] False"
    unfolding seg2(2) by (rule expects.trailer)
  ultimately show ?thesis using next_line_zero [OF assms(1), of 0] by (simp add: next_ok_def)
qed

lemma expects_trailer:
  assumes "seg \<noteq> []" "seg @ rest = CR # LF # k"
  shows "next_ok k rest [] False (getNextChunk seg (st_trailer 2) False)"
proof -
  obtain seg2 where seg2: "seg = CR # seg2" "seg2 @ rest = LF # k"
    using assms by (cases seg) auto
  show ?thesis
  proof (cases seg2)
    case Nil
    then have "getNextChunk seg (st_trailer 2) False = (None, [], st_trailer 1)"
      unfolding seg2(1) by (subst getNextChunk.simps) (simp add: trailer2 Let_def del: One_nat_def)
    then show ?thesis using seg2 Nil expects.trailer_lf [of k] by (simp add: next_ok_none)
  next
    case (Cons x seg3)
    then have "getNextChunk seg (st_trailer 2) False = (None, seg3, 0)"
      unfolding seg2(1) by (subst getNextChunk.simps) (simp add: trailer2 Let_def del: One_nat_def)
    then show ?thesis using seg2 Cons expects.finished [of k] by (simp add: next_ok_def)
  qed
qed

lemma expects_trailer_lf:
  assumes "seg \<noteq> []" "seg @ rest = LF # k"
  shows "next_ok k rest [] False (getNextChunk seg (st_trailer 1) False)"
proof -
  obtain seg2 where seg2: "seg = LF # seg2" "seg2 @ rest = k"
    using assms by (cases seg) auto
  have "getNextChunk seg (st_trailer 1) False = (None, seg2, 0)"
    unfolding seg2(1) by (subst getNextChunk.simps) (simp add: trailer2 Let_def del: One_nat_def)
  then show ?thesis using seg2 expects.finished [of k] by (simp add: next_ok_def)
qed

lemma expects_next:
  assumes "expects k s (seg @ rest) p fin" and "seg \<noteq> []" and "s \<noteq> 0"
  shows "next_ok k rest p fin (getNextChunk seg s False)"
  using assms
proof (induction "length seg" arbitrary: seg s p fin rule: less_induct)
  case less
  have IH: "next_ok k rest p fin (getNextChunk seg2 s2 False)"
    if "expects k s2 (seg2 @ rest) p fin" "length seg2 < length seg" "s2 \<noteq> 0" for seg2 s2 p fin
    using that less.hyps [of seg2 s2 p fin] by (cases "seg2 = []") (auto intro: next_ok_none)
  note ne = less.prems(2)
  from less.prems(1) show ?case
  proof (cases rule: expects.cases)
    case (size ds v c cs)
    then have nz: "st_data (length c + 2) \<noteq> 0" by (intro st_nonzero) (simp add: chunk_ok_def)
    show ?thesis unfolding size(1,3,4)
      using IH [OF _ _ nz] by (rule expects_size_line [OF ne size(2,5,6,7,8)])
  next
    case (size_lf c cs)
    then have nz: "st_data (length c + 2) \<noteq> 0" by (intro st_nonzero) (simp add: chunk_ok_def)
    show ?thesis unfolding size_lf(1,3,4)
      using IH [OF _ _ nz] by (rule expects_size_lf [OF ne size_lf(2,5,6)])
  next
    case (body c cs)
    have nz: "st_size 0 \<noteq> 0" by (rule st_nonzero) simp
    show ?thesis unfolding body(1,3,4)
      using IH [OF _ _ nz] by (rule expects_body [OF ne body(2,5,6)])
  next
    case (body_lf cs)
    have nz: "st_size 0 \<noteq> 0" by (rule st_nonzero) simp
    show ?thesis unfolding body_lf(1,3,4)
      using IH [OF _ _ nz] by (rule expects_body_lf [OF ne body_lf(2,5)])
  next
    case (last ds v)
    show ?thesis unfolding last(1,3,4) by (rule expects_last [OF ne last(2,5,6)])
  next
    case last_lf
    show ?thesis unfolding last_lf(1,3,4) by (rule expects_last_lf [OF ne last_lf(2)])
  next
    case trailer
    show ?thesis unfolding trailer(1,3,4) using expects_trailer [OF ne trailer(2)] by simp
  next
    case trailer_lf
    show ?thesis unfolding trailer_lf(1,3,4) using expects_trailer_lf [OF ne trailer_lf(2)] by simp
  next
    case finished
    with less.prems(3) show ?thesis by simp
  qed
qed

text \<open>From one call to the loop over a read, and from there to all reads of the connection.\<close>

lemma expects_loop:
  assumes "expects k s (seg @ rest) p fin" and "s \<noteq> 0" and "chunkLoop seg s False = (cs, left, s')"
  shows "\<exists>p' fin'. expects k s' (left @ rest) p' fin' \<and> (left = [] \<or> s' = 0) \<and> p = concat cs @ p' \<and>
    (if fin = fin' then [] \<notin> set cs else fin \<and> p' = [] \<and> (\<exists>os. cs = os @ [[]] \<and> [] \<notin> set os)) \<and>
    (\<not> fin \<longrightarrow> cs = [])"
  using assms
proof (induction "length seg" arbitrary: seg s p fin cs rule: less_induct)
  case less
  obtain oc seg2 s2 where n: "getNextChunk seg s False = (oc, seg2, s2)" by (metis prod_cases3)
  have ok: "next_ok k rest p fin (oc, seg2, s2)"
  proof (cases "seg = []")
    case True
    with n less.prems show ?thesis by (auto simp: next_ok_none)
  next
    case False
    with expects_next [OF less.prems(1)] less.prems(2) show ?thesis unfolding n by simp
  qed
  show ?case
  proof (cases oc)
    case None
    with n less.prems(3) have "cs = []" "left = seg2" "s' = s2" by (simp_all add: chunkLoop.simps [of seg])
    with ok None show ?thesis by (auto simp: next_ok_def)
  next
    case (Some c)
    obtain cs2 where l: "chunkLoop seg2 s2 False = (cs2, left, s')" "cs = c # cs2"
      using n less.prems(3) Some by (auto simp: chunkLoop.simps [of seg] split: prod.splits)
    obtain p2 where p2: "p = c @ p2" "expects k s2 (seg2 @ rest) p2 (fin \<and> c \<noteq> [])" "fin"
      "c = [] \<longrightarrow> p = []" "s2 \<noteq> 0"
      using ok Some by (auto simp: next_ok_def)
    have lt: "length seg2 < length seg" using getNextChunk_progress n Some by blast
    from less.hyps [OF lt p2(2,5) l(1)] obtain p' fin' where
      h: "expects k s' (left @ rest) p' fin'" "left = [] \<or> s' = 0" "p2 = concat cs2 @ p'"
        "if (fin \<and> c \<noteq> []) = fin' then [] \<notin> set cs2 else (fin \<and> c \<noteq> []) \<and> p' = [] \<and> (\<exists>os. cs2 = os @ [[]] \<and> [] \<notin> set os)"
        "\<not> (fin \<and> c \<noteq> []) \<longrightarrow> cs2 = []"
      by blast
    show ?thesis
    proof (cases "c = []")
      case True
      with h p2 l(2) show ?thesis by (intro exI [of _ p'] exI [of _ fin']) (auto split: if_splits)
    next
      case False
      have "\<exists>os. c # cs2 = os @ [[]] \<and> [] \<notin> set os" if "\<exists>os. cs2 = os @ [[]] \<and> [] \<notin> set os"
        using that False by (metis append_Cons set_ConsD)
      with False h p2 l(2) show ?thesis
        by (intro exI [of _ p'] exI [of _ fin']) (auto split: if_splits)
    qed
  qed
qed

lemma parsing_flags:
  assumes "s AND STATE_IS_CHUNKED \<noteq> 0 \<or> hasChunkSize s"
  shows "isParsingChunkedEncoding s"
proof -
  have "s AND STATE_IS_CHUNKED = (s AND NOT STATE_SIZE_MASK) AND STATE_IS_CHUNKED"
    "s AND STATE_HAS_SIZE = (s AND NOT STATE_SIZE_MASK) AND STATE_HAS_SIZE"
    by (simp_all add: STATE_SIZE_MASK_def STATE_IS_CHUNKED_def STATE_HAS_SIZE_def and.assoc)
  with assms show ?thesis by (auto simp: isParsingChunkedEncoding_def hasChunkSize_def)
qed

lemma parsing_st:
  assumes "v < 2 ^ 62"
  shows "isParsingChunkedEncoding (st_size v)" "isParsingChunkedEncoding (st_data v)"
    "isParsingChunkedEncoding (st_trailer v)"
proof -
  have "(2 ^ 62 + v) div 2 ^ 62 = 1" using flag_div_mod(1) [OF assms, of 1] by simp
  then have "st_size v AND STATE_IS_CHUNKED \<noteq> 0" unfolding st_size_def is_chunked_of_nat by simp
  then show "isParsingChunkedEncoding (st_size v)" "isParsingChunkedEncoding (st_data v)"
    "isParsingChunkedEncoding (st_trailer v)"
    using flags_st [OF assms] by (auto intro: parsing_flags)
qed

lemma expects_state:
  assumes "expects k s str p fin"
  shows "isParsingChunkedEncoding s \<and> s \<noteq> 0 \<and> str \<noteq> [] \<or> s = 0 \<and> str = k \<and> p = [] \<and> \<not> fin"
  using assms
proof cases
  case (size ds v c cs)
  then have "v < 2 ^ 62" using hex_push_mono [of v ds] by (simp add: chunk_ok_def)
  with size(1,2) st_nonzero parsing_st show ?thesis by simp
next
  case (size_lf c cs)
  then have "length c < 2 ^ 62" by (simp add: chunk_ok_def)
  with size_lf(1,2) st_nonzero parsing_st show ?thesis by simp
next
  case (body c cs)
  then have "length c + 2 < 2 ^ 62" by simp
  with body(1,2) st_nonzero parsing_st show ?thesis by simp
next
  case (body_lf cs)
  then show ?thesis using st_nz parsing_st [of 1] by simp
next
  case (last ds v)
  then have "v < 2 ^ 62" using hex_push_mono [of v ds] by simp
  with last(1,2) st_nonzero parsing_st show ?thesis by simp
next
  case last_lf
  then show ?thesis using st_nz parsing_st [of 0] by simp
next
  case trailer
  then show ?thesis using st_nz parsing_st [of 2] by simp
next
  case trailer_lf
  then show ?thesis using st_nonzero [of 1] parsing_st [of 1] by simp
next
  case finished
  then show ?thesis by simp
qed

lemma expects_feed:
  "expects k s (concat segs) p fin \<Longrightarrow>
   \<exists>outs. chunk_feed s segs = (outs, k, 0) \<and> p = concat outs \<and>
     (if fin then \<exists>os. outs = os @ [[]] \<and> [] \<notin> set os else outs = [])"
proof (induction segs arbitrary: s p fin)
  case Nil
  then show ?case using expects_state [OF Nil] by simp
next
  case (Cons seg segs)
  show ?case
  proof (cases "s = 0")
    case True
    then show ?thesis using expects_state [OF Cons.prems]
      by (auto simp: isParsingChunkedEncoding_def)
  next
    case False
    obtain cs left s' where l: "chunkLoop seg s False = (cs, left, s')" by (metis prod_cases3)
    have par: "isParsingChunkedEncoding s" using expects_state [OF Cons.prems] False by simp
    have "expects k s (seg @ concat segs) p fin" using Cons.prems by simp
    from expects_loop [OF this False l] obtain p' fin' where
      h: "expects k s' (left @ concat segs) p' fin'" "left = [] \<or> s' = 0" "p = concat cs @ p'"
        "if fin = fin' then [] \<notin> set cs else fin \<and> p' = [] \<and> (\<exists>os. cs = os @ [[]] \<and> [] \<notin> set os)"
        "\<not> fin \<longrightarrow> cs = []" by blast
    show ?thesis
    proof (cases "s' = 0")
      case True
      with h expects_state [OF h(1)] have e: "left @ concat segs = k" "p' = []" "\<not> fin'" by auto
      have "chunk_feed 0 segs = ([], concat segs, 0)"
        by (cases segs) (simp_all add: isParsingChunkedEncoding_def)
      with e h par l True show ?thesis by (auto split: if_splits)
    next
      case nz: False
      then have "left = []" using h(2) by simp
      with h(1) have "expects k s' (concat segs) p' fin'" by simp
      from Cons.IH [OF this] obtain outs where
        o: "chunk_feed s' segs = (outs, k, 0)" "p' = concat outs"
          "if fin' then \<exists>os. outs = os @ [[]] \<and> [] \<notin> set os else outs = []" by blast
      have r: "chunk_feed s (seg # segs) = (cs @ outs, k, 0)" using par l o(1) \<open>left = []\<close> by simp
      show ?thesis
      proof (intro exI conjI, rule r)
        show "p = concat (cs @ outs)" using h(3) o(2) by simp
        show "if fin then \<exists>os. cs @ outs = os @ [[]] \<and> [] \<notin> set os else cs @ outs = []"
        proof (cases fin)
          case True
          then show ?thesis using h(4) o(3)
            by (cases fin') (auto simp flip: append_assoc)
        next
          case False
          then show ?thesis using h(4,5) o(3) by (auto split: if_splits)
        qed
      qed
    qed
  qed
qed

text \<open>C5: A body written as chunks and the zero chunk is decoded to exactly the payload that was
  written, in whatever pieces the network delivers it: the views emitted over all the reads
  concatenate to the payload, none but the last is empty, the last one (the end-of-body signal)
  is, the bytes after the body are left untouched and the decoder is back in its initial state.\<close>

theorem chunked_roundtrip:
  assumes "concat segs = encode_chunks cs @ k" and "\<forall>c\<in>set cs. chunk_ok c"
  shows "\<exists>outs. chunk_feed STATE_IS_CHUNKED segs = (outs @ [[]], k, 0) \<and>
    concat outs = concat cs \<and> [] \<notin> set outs"
proof -
  have "expects k STATE_IS_CHUNKED (concat segs) (concat cs) True"
    using expects_encoded [OF assms(2), of k] assms(1) by (simp add: st_size_0)
  from expects_feed [OF this] show ?thesis by auto
qed

theorem chunked_roundtrip_witness:
  "\<exists>outs. chunk_feed STATE_IS_CHUNKED
      [[53, CR], [LF, 1, 2, 3], [4, 5, CR, LF, 48], [CR, LF, CR], [LF, 71]] = (outs @ [[]], [71], 0) \<and>
    concat outs = [1, 2, 3, 4, 5] \<and> [] \<notin> set outs"
proof -
  have "u32toaHex 5 = [53]" by code_simp
  then show ?thesis
    using chunked_roundtrip [of "[[53, CR], [LF, 1, 2, 3], [4, 5, CR, LF, 48], [CR, LF, CR], [LF, 71]]"
        "[[1, 2, 3, 4, 5]]" "[71]"]
    by (simp add: chunk_ok_def)
qed

theorem size_line_exact_or_error_witness:
  "consumeHexNumber [49, 48, CR, LF, 7] STATE_IS_CHUNKED = ([7], st_data 18)"
  using size_line_exact_or_error [of "[49, 48]" "[7]"] by (simp add: hex_digit_value_def)

section \<open>Views, for any input\<close>

lemma dropTrailer_suffix: "dropTrailer data state = (data', state', r) \<Longrightarrow> suffix data' data"
  by (induction data state rule: dropTrailer.induct)
    (auto simp: Let_def intro: suffix_ConsI split: if_splits)

lemma hexLoop_suffix: "hexLoop data state = (data', state', r) \<Longrightarrow> suffix data' data"
  by (induction data state rule: hexLoop.induct)
    (auto simp: Let_def intro: suffix_ConsI split: if_splits)

lemma consumeHexNumber_suffix:
  assumes "consumeHexNumber data state = (data', state')"
  shows "suffix data' data"
proof -
  obtain d s r where h: "hexLoop data state = (d, s, r)" by (metis prod_cases3)
  have "suffix d data" using hexLoop_suffix [OF h] .
  moreover have "suffix data' d"
    using assms h suffix_dropWhile [of "\<lambda>c. c \<noteq> LF" d]
    by (auto simp: consumeHexNumber_def split: if_splits list.splits dest: suffix_ConsD)
  ultimately show ?thesis by (rule suffix_order.trans [rotated])
qed

definition view_inside :: "byte list \<Rightarrow> byte list option \<Rightarrow> byte list \<Rightarrow> bool" where
  "view_inside data oc data' \<longleftrightarrow> (\<exists>a b. data = a @ (case oc of None \<Rightarrow> [] | Some c \<Rightarrow> c) @ b @ data')"

lemma view_inside_suffix: "suffix d data \<Longrightarrow> view_inside d oc data' \<Longrightarrow> view_inside data oc data'"
  by (auto simp: view_inside_def suffix_def) (metis append.assoc)

lemma view_inside_none: "suffix d data \<Longrightarrow> view_inside data None d"
  by (auto simp: view_inside_def suffix_def)

lemma view_inside_Nil: "suffix d data \<Longrightarrow> view_inside data (Some []) d"
  by (auto simp: view_inside_def suffix_def)

lemma view_inside_take: "n \<le> m \<Longrightarrow> view_inside data (Some (take n data)) (drop m data)"
proof -
  assume "n \<le> m"
  then have "data = [] @ take n data @ drop n (take m data) @ drop m data"
    by (metis append_Nil append_assoc append_take_drop_id min.absorb1 take_take)
  then show ?thesis unfolding view_inside_def by (metis option.simps(5))
qed

lemma getNextChunk_view:
  "getNextChunk data state trailer = (oc, data', state') \<Longrightarrow> view_inside data oc data'"
proof (induction data state trailer rule: getNextChunk.induct)
  case (1 data state trailer)
  note step = "1.prems" [unfolded getNextChunk.simps [of data state trailer]]
  let ?T = "state AND STATE_IS_CHUNKED = 0 \<and> hasChunkSize state \<and> chunkSize state \<noteq> 0"
  consider (empty) "data = []" | (trailer) "data \<noteq> []" ?T
    | (hex) "data \<noteq> []" "\<not> ?T" "\<not> hasChunkSize state"
    | (data) "data \<noteq> []" "\<not> ?T" "hasChunkSize state"
    by blast
  then show ?case
  proof cases
    case empty
    with step show ?thesis by (auto intro: view_inside_none)
  next
    case trailer
    obtain d1 s1 r where dt: "dropTrailer data state = (d1, s1, r)" by (metis prod_cases3)
    show ?thesis
    proof (cases r)
      case True
      with step trailer dt dropTrailer_suffix [OF dt] show ?thesis by (auto intro: view_inside_none)
    next
      case False
      with step trailer dt have "getNextChunk d1 s1 trailer = (oc, data', state')" by auto
      with "1.IH"(1) [OF trailer dt [symmetric] refl False] dropTrailer_suffix [OF dt]
      show ?thesis by (blast intro: view_inside_suffix)
    qed
  next
    case hex
    obtain d2 s2 where ch: "consumeHexNumber data state = (d2, s2)" by fastforce
    note suf = consumeHexNumber_suffix [OF ch]
    show ?thesis
    proof (cases "isParsingInvalidChunkedEncoding s2 \<or> hasChunkSize s2 \<and> chunkSize s2 = 2")
      case True
      with step hex ch suf show ?thesis by (auto intro: view_inside_none view_inside_Nil split: if_splits)
    next
      case False
      with step hex ch have "getNextChunk d2 s2 trailer = (oc, data', state')" by auto
      moreover have "view_inside d2 oc data'"
        using "1.IH"(2) [OF hex ch [symmetric]] False calculation by blast
      ultimately show ?thesis using suf by (blast intro: view_inside_suffix)
    qed
  next
    case data
    show ?thesis
    proof (cases "unat (chunkSize state) \<le> length data \<and> \<not> chunkSize state > 2")
      case True
      with step data have "getNextChunk (drop (unat (chunkSize state)) data) STATE_IS_CHUNKED trailer
          = (oc, data', state')"
        by (auto simp: Let_def)
      then have "view_inside (drop (unat (chunkSize state)) data) oc data'"
        using "1.IH"(3) [OF data(1,2) _ _ refl] True data(3) by blast
      then show ?thesis using suffix_drop by (blast intro: view_inside_suffix)
    next
      case False
      have e: "view_inside data (Some (take n data)) []" for n
        using view_inside_take [of n "max n (length data)" data] by simp
      from False step data show ?thesis
        using e by (auto simp: Let_def intro: view_inside_take view_inside_none split: if_splits)
    qed
  qed
qed

lemma view_inside_consD:
  "view_inside data (Some c) d \<Longrightarrow> suffix d data \<and> subseq c data \<and> (\<forall>xs. subseq xs d \<longrightarrow> subseq (c @ xs) data) \<and> sublist c data"
  by (auto simp: view_inside_def suffix_def intro: list_emb_append_mono sublist_appendI
      list_emb_append2 [where P = "(=)"])


lemmas decode_eval = chunkLoop.simps getNextChunk.simps consumeHexNumber_def hex_digit_number_def chunkSize_def
  decChunkSize_def hasChunkSize_def isParsingChunkedEncoding_def isParsingInvalidChunkedEncoding_def schar_eq Let_def
  STATE_SIZE_MASK_def STATE_SIZE_OVERFLOW_def STATE_IS_CHUNKED_def STATE_HAS_SIZE_def STATE_IS_ERROR_def


text \<open>The decoder only stops at the end of the read, at the end of the body, or on an error.\<close>

lemma dropTrailer_stop:
  "dropTrailer data state = (data', state', True) \<Longrightarrow> state' = 0"
  by (induction data state rule: dropTrailer.induct) (auto simp: Let_def split: if_splits)

lemma getNextChunk_stops:
  "getNextChunk data state trailer = (None, data', state') \<Longrightarrow>
   data' = [] \<or> state' = 0 \<or> isParsingInvalidChunkedEncoding state'"
proof (induction data state trailer rule: getNextChunk.induct)
  case (1 data state trailer)
  note step = "1.prems" [unfolded getNextChunk.simps [of data state trailer]]
  let ?T = "state AND STATE_IS_CHUNKED = 0 \<and> hasChunkSize state \<and> chunkSize state \<noteq> 0"
  consider (empty) "data = []" | (trailer) "data \<noteq> []" ?T
    | (hex) "data \<noteq> []" "\<not> ?T" "\<not> hasChunkSize state"
    | (data) "data \<noteq> []" "\<not> ?T" "hasChunkSize state"
    by blast
  then show ?case
  proof cases
    case empty
    with step show ?thesis by auto
  next
    case trailer
    obtain d1 s1 r where dt: "dropTrailer data state = (d1, s1, r)" by (metis prod_cases3)
    show ?thesis
    proof (cases r)
      case True
      with step trailer dt dropTrailer_stop show ?thesis by auto
    next
      case False
      with step trailer dt have "getNextChunk d1 s1 trailer = (None, data', state')" by auto
      with "1.IH"(1) [OF trailer dt [symmetric] refl False] show ?thesis by blast
    qed
  next
    case hex
    obtain d2 s2 where ch: "consumeHexNumber data state = (d2, s2)" by fastforce
    show ?thesis
    proof (cases "isParsingInvalidChunkedEncoding s2 \<or> hasChunkSize s2 \<and> chunkSize s2 = 2")
      case True
      with step hex ch show ?thesis by (auto split: if_splits)
    next
      case False
      with step hex ch have "getNextChunk d2 s2 trailer = (None, data', state')" by auto
      with "1.IH"(2) [OF hex ch [symmetric]] False show ?thesis by blast
    qed
  next
    case data
    show ?thesis
    proof (cases "unat (chunkSize state) \<le> length data \<and> \<not> chunkSize state > 2")
      case True
      with step data have "getNextChunk (drop (unat (chunkSize state)) data) STATE_IS_CHUNKED trailer
          = (None, data', state')"
        by (auto simp: Let_def)
      with "1.IH"(3) [OF data(1,2) _ _ refl] True data(3) show ?thesis by blast
    next
      case False
      with step data show ?thesis by (auto simp: Let_def split: if_splits)
    qed
  qed
qed

lemma chunkLoop_stops:
  "chunkLoop data state trailer = (chunks, left, state') \<Longrightarrow>
   left = [] \<or> state' = 0 \<or> isParsingInvalidChunkedEncoding state'"
proof (induction data state trailer arbitrary: chunks rule: chunkLoop.induct)
  case (1 data state trailer)
  obtain oc d s where n: "getNextChunk data state trailer = (oc, d, s)" by (metis prod_cases3)
  show ?case
  proof (cases oc)
    case None
    with n "1.prems" getNextChunk_stops [of data state trailer d s] show ?thesis
      by (auto simp: chunkLoop.simps [of data])
  next
    case (Some c)
    obtain cs where "chunkLoop d s trailer = (cs, left, state')"
      using n "1.prems" Some by (auto simp: chunkLoop.simps [of data] split: prod.splits)
    then show ?thesis using "1.IH" [OF n [symmetric]] Some by auto
  qed
qed

lemma chunkLoop_suffix: "chunkLoop data state trailer = (chunks, left, state') \<Longrightarrow> suffix left data"
proof (induction data state trailer arbitrary: chunks rule: chunkLoop.induct)
  case (1 data state trailer)
  obtain oc d s where n: "getNextChunk data state trailer = (oc, d, s)" by (metis prod_cases3)
  have suf: "suffix d data" using getNextChunk_view [OF n] by (auto simp: view_inside_def suffix_def)
  show ?case
  proof (cases oc)
    case None
    with n "1.prems" suf show ?thesis by (auto simp: chunkLoop.simps [of data])
  next
    case (Some c)
    obtain cs where "chunkLoop d s trailer = (cs, left, state')"
      using n "1.prems" Some by (auto simp: chunkLoop.simps [of data] split: prod.splits)
    then show ?thesis using "1.IH" [OF n [symmetric]] Some suf by (auto intro: suffix_order.trans)
  qed
qed

section \<open>Inputs that are not well formed\<close>

text \<open>
  The digit test \<open>number > 16\<close> lets the value 16 pass: \<open>g\<close>, \<open>G\<close> and the byte 64 count as
  a digit, and so do the six bytes from \<open>:\<close> to \<open>?\<close>, which include the \<open>;\<close> of a chunk
  extension. A sixteenth in a full field sets only bit 60, which the overflow mask does not look
  at, so that sixteen characters wrap the field to a small size.
\<close>

lemma digit_sixteen: "hex_digit_number 103 = 16" "hex_digit_number 64 = 16" "hex_digit_number 59 = 11"
  by (simp_all add: decode_eval)

lemma chunk_extension_misread:
  "consumeHexNumber [53, 59, 97, CR, LF] STATE_IS_CHUNKED = ([], 0xC0000000000005BC)"
  by (simp add: decode_eval)

lemma size_wraps:
  "consumeHexNumber [70, 70, 70, 70, 70, 70, 70, 70, 70, 70, 70, 70, 70, 70, 103, 53, CR, LF] STATE_IS_CHUNKED = ([], 0xC000000000000007)"
  by (simp add: decode_eval)

text \<open>
  White space before the end of the line: read in one piece the rest of the line is skipped, but a
  read that ends in the middle of it goes on with the digit loop, which then takes the rest of
  the line for digits.
\<close>

lemma fragmentation_matters:
  "chunk_feed STATE_IS_CHUNKED [[49, SP, 49, CR, LF, 120, CR, LF]] = ([[120]], [], STATE_IS_CHUNKED)"
  "chunk_feed STATE_IS_CHUNKED [[49, SP], [49, CR, LF, 120, CR, LF]] = ([[120, CR, LF]], [], 0xC000000000000010)"
  by (simp_all add: decode_eval)

lemma empty_size_line_ends_body:
  "chunk_feed STATE_IS_CHUNKED [[CR, LF, CR, LF]] = ([[]], [], 0)"
  by (simp add: decode_eval)

end
