(* ===== verification/Query_Parser.thy ===== *)
theory Query_Parser
  imports Uws_Prelude
begin

text \<open>
  \<open>src/src/QueryParser.h\<close>: looking a key up in the raw query string and decoding its value in place.
  The code writes through a \<open>const\<close> view, so the model returns the buffer it leaves behind next
  to the view; a view with a null pointer is \<open>None\<close>. Indices are naturals: a request is at most
  \<open>HttpContext\<close>'s receive buffer long, far below the range of \<open>unsigned int\<close>.

  The lemmas: the in-place loop computes the pure decoder and leaves \<open>decoded @ tail\<close> in the
  buffer; a query built by percent-encoding is read back as the association list it was built from;
  a second read of a decoded value is not the same as the first.
\<close>

section \<open>The decoding loop\<close>

definition query_hex :: "byte \<Rightarrow> int" where
  "query_hex c = (let hex = schar c - 48 in if hex > 9 then (hex AND 223) - 7 else hex)"

definition hex_pair :: "byte \<Rightarrow> byte \<Rightarrow> byte" where
  "hex_pair c1 c2 = word_of_int (query_hex c1 * 16 + query_hex c2)"

text \<open>
  \<open>decodeLoop buf i out\<close> is the loop at read offset \<open>i\<close> and write offset \<open>out\<close>; \<open>buf\<close> is the
  memory of \<open>statementValue\<close>. The result is the final write offset (\<open>None\<close> for the early return) and
  the memory.
\<close>

function decodeLoop :: "byte list \<Rightarrow> nat \<Rightarrow> nat \<Rightarrow> nat option \<times> byte list" where
  "decodeLoop buf i out =
     (if i < length buf \<and> buf ! i \<noteq> 0 then
        (if buf ! i = 37 then
           (if i + 2 \<ge> length buf then (None, buf)
            else decodeLoop (buf[out := hex_pair (buf ! (i + 1)) (buf ! (i + 2))]) (i + 3) (out + 1))
         else if buf ! i = 43 then decodeLoop (buf[out := 32]) (i + 1) (out + 1)
         else decodeLoop (buf[out := buf ! i]) (i + 1) (out + 1))
      else (Some out, buf))"
  by pat_completeness auto
termination by (relation "measure (\<lambda>(buf, i, out). length buf - i)") auto

declare decodeLoop.simps [simp del]

definition decodeValue :: "byte list \<Rightarrow> byte list option \<times> byte list" where
  "decodeValue statementValue =
     (case decodeLoop statementValue 0 0 of
        (None, buf) \<Rightarrow> (None, buf)
      | (Some out, buf) \<Rightarrow>
          (Some (take out buf), if out < length buf then buf[out := 0] else buf))"

section \<open>The search for the key\<close>

function queryLoop :: "byte list \<Rightarrow> byte list \<Rightarrow> byte list option \<times> byte list" where
  "queryLoop key queryString =
     (if queryString = [] then (None, [])
      else
        (let statement = (case find_byte 38 (tl queryString) of
                            None \<Rightarrow> tl queryString | Some pos \<Rightarrow> take pos (tl queryString));
             rest = drop (length statement + 1) queryString
         in if statement \<noteq> [] \<and> hd statement = hd key then
              (case find_byte 61 statement of
                 None \<Rightarrow> (None, queryString)
               | Some equality \<Rightarrow>
                   if key = take equality statement then
                     (case decodeValue (drop (equality + 1) statement) of (value, buf) \<Rightarrow>
                        (value, take (equality + 2) queryString @ buf @ rest))
                   else (case queryLoop key rest of (value, buf) \<Rightarrow>
                           (value, take (length statement + 1) queryString @ buf)))
            else (case queryLoop key rest of (value, buf) \<Rightarrow>
                    (value, take (length statement + 1) queryString @ buf))))"
  by pat_completeness auto
termination by (relation "measure (\<lambda>(key, q). length q)") auto

declare queryLoop.simps [simp del]

definition getDecodedQueryValue :: "byte list \<Rightarrow> byte list \<Rightarrow> byte list option \<times> byte list" where
  "getDecodedQueryValue key rawQuery = (if key = [] then (None, rawQuery) else queryLoop key rawQuery)"

section \<open>The decoder as a function of the value\<close>

fun percent_decode :: "byte list \<Rightarrow> byte list option" where
  "percent_decode [] = Some []"
| "percent_decode (c # cs) =
     (if c = 0 then Some []
      else if c = 37 then
        (case cs of
           a # b # cs' \<Rightarrow> map_option (\<lambda>d. hex_pair a b # d) (percent_decode cs')
         | _ \<Rightarrow> None)
      else if c = 43 then map_option (\<lambda>d. 32 # d) (percent_decode cs)
      else map_option (\<lambda>d. c # d) (percent_decode cs))"

text \<open>
  What the loop has written is a prefix of the memory that the read offset has passed; the rest of
  the value has not been touched.
\<close>

lemma drop_update_below: "out \<le> i \<Longrightarrow> drop (Suc i) (buf[out := x]) = drop (Suc i) buf"
  by (simp add: drop_update_cancel)

lemma take_update_end: "out < length buf \<Longrightarrow> take (Suc out) (buf[out := x]) = take out buf @ [x]"
  by (simp add: take_Suc_conv_app_nth)

definition decodes_to :: "byte list \<Rightarrow> nat \<Rightarrow> byte list \<Rightarrow> nat option \<times> byte list \<Rightarrow> bool" where
  "decodes_to buf out r res \<longleftrightarrow> length (snd res) = length buf \<and>
     (case percent_decode r of
        None \<Rightarrow> fst res = None
      | Some d \<Rightarrow> fst res = Some (out + length d) \<and> take (out + length d) (snd res) = take out buf @ d)"

lemma decodes_to_push:
  assumes "decodes_to (buf[out := x]) (Suc out) r2 res" and "out < length buf"
    and "percent_decode r = map_option (\<lambda>d. x # d) (percent_decode r2)"
  shows "decodes_to buf out r res"
  using assms by (auto simp: decodes_to_def take_update_end split: option.splits)

lemma decodeLoop_pure:
  "out \<le> i \<Longrightarrow> drop i buf = r \<Longrightarrow> decodes_to buf out r (decodeLoop buf i out)"
proof (induction r arbitrary: buf i out rule: percent_decode.induct)
  case 1
  then have "\<not> i < length buf" by simp
  with 1 show ?case by (simp add: decodeLoop.simps [of buf] decodes_to_def)
next
  case (2 c cs)
  note le = "2.prems"(1)
  have i: "i < length buf" "buf ! i = c" "drop (Suc i) buf = cs" using "2.prems"(2)
    by (metis drop_all list.distinct(1) not_less, metis nth_via_drop, metis drop_Suc list.sel(3) tl_drop)
  have o: "out < length buf" using le i(1) by simp
  have cs: "drop (Suc i) (buf[out := x]) = cs" for x
    by (rule trans [OF drop_update_below [OF le] i(3)])
  have len: "length cs = length buf - Suc i" using i(3) by auto
  consider "c = 0" | "c = 37" | "c = 43" | "c \<noteq> 0" "c \<noteq> 37" "c \<noteq> 43" by blast
  then show ?case
  proof cases
    case 1
    then show ?thesis using i le by (simp add: decodeLoop.simps [of buf] decodes_to_def)
  next
    case pc: 2
    show ?thesis
    proof (cases "i + 2 < length buf")
      case False
      then have "length cs < 2" using len by simp
      then have "percent_decode (c # cs) = None" using pc by (auto split: list.splits)
      with False pc i show ?thesis by (simp add: decodeLoop.simps [of buf] decodes_to_def)
    next
      case True
      define a b rest where "a = buf ! (i + 1)" and "b = buf ! (i + 2)" and "rest = drop (i + 3) buf"
      have cs': "cs = a # b # rest"
        using i(3) True by (simp add: Cons_nth_drop_Suc [symmetric] numeral_3_eq_3 a_def b_def rest_def)
      have "drop (i + 3) (buf[out := hex_pair a b]) = rest"
        using le by (simp add: rest_def drop_update_cancel)
      from "2.IH"(1) [OF _ pc cs' refl _ this, of "Suc out"] pc le
      have "decodes_to (buf[out := hex_pair a b]) (Suc out) rest (decodeLoop (buf[out := hex_pair a b]) (i + 3) (Suc out))"
        by simp
      moreover have "decodeLoop buf i out = decodeLoop (buf[out := hex_pair a b]) (i + 3) (Suc out)"
        using True pc i by (simp add: decodeLoop.simps [of buf] a_def b_def)
      ultimately show ?thesis
        using pc by (intro decodes_to_push [OF _ o]) (simp_all add: cs')
    qed
  next
    case pl: 3
    have "decodeLoop buf i out = decodeLoop (buf[out := 32]) (Suc i) (Suc out)"
      using pl i by (simp add: decodeLoop.simps [of buf])
    with "2.IH"(2) [of "Suc out" "Suc i" "buf[out := 32]"] pl le cs [of 32]
    show ?thesis by (intro decodes_to_push [OF _ o]) simp_all
  next
    case 4
    have "decodeLoop buf i out = decodeLoop (buf[out := c]) (Suc i) (Suc out)"
      using 4 i by (simp add: decodeLoop.simps [of buf])
    with "2.IH"(3) [of "Suc out" "Suc i" "buf[out := c]"] 4 le cs [of c]
    show ?thesis by (intro decodes_to_push [OF _ o]) simp_all
  qed
qed

lemma percent_decode_length: "percent_decode r = Some d \<Longrightarrow> length d \<le> length r"
  by (induction r arbitrary: d rule: percent_decode.induct)
    (fastforce split: if_splits list.splits)+

lemma decodeValue_correct:
  "fst (decodeValue v) = percent_decode v \<and> length (snd (decodeValue v)) = length v \<and>
   (case percent_decode v of
      None \<Rightarrow> True
    | Some d \<Rightarrow> \<exists>tail. snd (decodeValue v) = d @ tail \<and> (tail = [] \<or> hd tail = 0))"
proof -
  have d: "decodes_to v 0 v (decodeLoop v 0 0)" by (rule decodeLoop_pure) simp_all
  obtain ro buf where r: "decodeLoop v 0 0 = (ro, buf)" by fastforce
  show ?thesis
  proof (cases "percent_decode v")
    case None
    with d r show ?thesis by (auto simp: decodes_to_def decodeValue_def)
  next
    case (Some d')
    with d r have s: "ro = Some (length d')" "take (length d') buf = d'" "length buf = length v"
      by (auto simp: decodes_to_def)
    have "length d' \<le> length v" using percent_decode_length Some by blast
    moreover have "buf = d' @ drop (length d') buf" using s(2) by (metis append_take_drop_id)
    moreover have "buf[length d' := 0] = d' @ 0 # drop (Suc (length d')) buf" if "length d' < length buf"
      using s(2) that by (simp add: upd_conv_take_nth_drop)
    ultimately show ?thesis using Some s r
      by (cases "length d' < length buf") (auto simp: decodeValue_def)
  qed
qed

text \<open>The in-place decoder is the pure one: it returns null exactly when the value is cut in the
  middle of an escape, else the decoded bytes, for which it leaves the memory holding them, a
  terminating zero when they are shorter than the value, and as many bytes as before.\<close>

theorem decodeValue_pure:
  "fst (decodeValue v) = percent_decode v \<and> length (snd (decodeValue v)) = length v \<and>
   (case percent_decode v of
      None \<Rightarrow> True
    | Some d \<Rightarrow> \<exists>tail. snd (decodeValue v) = d @ tail \<and> (tail = [] \<or> hd tail = 0))"
  by (rule decodeValue_correct)

section \<open>Reading back an encoded query\<close>

text \<open>
  The encoding of \<open>application/x-www-form-urlencoded\<close>: letters and digits as they are, a
  space as \<open>+\<close>, every other byte as an escape with upper-case digits.
\<close>

definition hex_upper :: "nat \<Rightarrow> byte" where
  "hex_upper n = of_nat (if n < 10 then n + 48 else n + 55)"

definition url_plain :: "byte \<Rightarrow> bool" where
  "url_plain b \<longleftrightarrow> 48 \<le> b \<and> b \<le> 57 \<or> 65 \<le> b \<and> b \<le> 90 \<or> 97 \<le> b \<and> b \<le> 122"

fun url_encode :: "byte list \<Rightarrow> byte list" where
  "url_encode [] = []"
| "url_encode (b # bs) =
     (if url_plain b then [b] else if b = SP then [43]
      else [37, hex_upper (unat b div 16), hex_upper (unat b mod 16)]) @ url_encode bs"

fun encode_pairs :: "(byte list \<times> byte list) list \<Rightarrow> byte list" where
  "encode_pairs [] = []"
| "encode_pairs [(k, v)] = k @ 61 # url_encode v"
| "encode_pairs ((k, v) # kvs) = k @ 61 # url_encode v @ 38 # encode_pairs kvs"

definition key_ok :: "byte list \<Rightarrow> bool" where
  "key_ok k \<longleftrightarrow> k \<noteq> [] \<and> 38 \<notin> set k \<and> 61 \<notin> set k"

lemma query_hex_upper: "n < 16 \<Longrightarrow> query_hex (hex_upper n) = int n"
proof -
  assume "n < 16"
  then have "n \<in> set [0..<16]" by simp
  moreover have "\<forall>n\<in>set [0..<16]. query_hex (hex_upper n) = int n" by code_simp
  ultimately show ?thesis by blast
qed

lemma hex_pair_upper: "hex_pair (hex_upper (unat b div 16)) (hex_upper (unat b mod 16)) = b"
proof -
  have "unat b div 16 < 16" using unat_byte_less [of b] by (simp add: less_mult_imp_div_less)
  then have "hex_pair (hex_upper (unat b div 16)) (hex_upper (unat b mod 16)) =
      word_of_int (int (unat b div 16) * 16 + int (unat b mod 16))"
    by (simp add: hex_pair_def query_hex_upper)
  also have "\<dots> = word_of_int (int (unat b div 16 * 16 + unat b mod 16))" by (simp only: of_nat_add of_nat_mult of_nat_numeral)
  also have "\<dots> = b" by (simp only: div_mult_mod_eq) simp
  finally show ?thesis .
qed

lemma url_plain_not_special: "url_plain b \<Longrightarrow> b \<noteq> 0 \<and> b \<noteq> 37 \<and> b \<noteq> 43 \<and> b \<noteq> 38"
  by (auto simp: url_plain_def)

lemma percent_decode_encode: "percent_decode (url_encode v) = Some v"
  by (induction v) (auto simp: hex_pair_upper url_plain_not_special)

lemma hex_upper_not_amp: "n < 16 \<Longrightarrow> hex_upper n \<noteq> 38"
proof -
  assume "n < 16"
  then have "n \<in> set [0..<16]" by simp
  moreover have "\<forall>n\<in>set [0..<16]. hex_upper n \<noteq> 38" by code_simp
  ultimately show ?thesis by blast
qed

lemma url_encode_no_amp: "38 \<notin> set (url_encode v)"
proof (induction v)
  case (Cons b v)
  have "unat b div 16 < 16" using unat_byte_less [of b] by (simp add: less_mult_imp_div_less)
  then show ?case using Cons url_plain_not_special hex_upper_not_amp [of "unat b div 16"]
      hex_upper_not_amp [of "unat b mod 16"] by auto
qed simp

text \<open>One statement of the query string.\<close>

lemma statement_end:
  assumes "38 \<notin> set s" and "q = [] \<or> hd q = 38"
  shows "(case find_byte 38 (s @ q) of None \<Rightarrow> s @ q | Some pos \<Rightarrow> take pos (s @ q)) = s"
proof (cases q)
  case Nil
  have "find_byte 38 s = None" using assms(1) by (simp only: find_byte_None not_False_eq_True)
  then show ?thesis by (simp only: Nil append_Nil2 option.case)
next
  case (Cons y q')
  then have "find_byte 38 (s @ q) = Some (length s)"
    using assms find_byte_append_stop [of 38 s q'] by simp
  then show ?thesis by simp
qed

lemma fst_case_pair: "fst (case p of (a, b) \<Rightarrow> (a, f a b)) = fst p"
  by (cases p) simp

lemma queryLoop_eq:
  assumes "(case find_byte 38 (s @ q) of None \<Rightarrow> s @ q | Some pos \<Rightarrow> take pos (s @ q)) = s"
  shows "queryLoop key (x # s @ q) =
    (if s \<noteq> [] \<and> hd s = hd key then
       (case find_byte 61 s of
          None \<Rightarrow> (None, x # s @ q)
        | Some equality \<Rightarrow>
            if key = take equality s then
              (case decodeValue (drop (equality + 1) s) of (value, buf) \<Rightarrow>
                 (value, take (equality + 2) (x # s @ q) @ buf @ q))
            else (case queryLoop key q of (value, buf) \<Rightarrow> (value, x # s @ buf)))
     else (case queryLoop key q of (value, buf) \<Rightarrow> (value, x # s @ buf)))"
proof -
  have d: "drop (length s + 1) (x # s @ q) = q" "take (length s + 1) (x # s @ q) = x # s"
    "x # s @ q \<noteq> []" "tl (x # s @ q) = s @ q"
    by simp_all
  show ?thesis
    by (subst queryLoop.simps) (simp only: d assms Let_def if_False append_Cons)
qed

lemma queryLoop_statement:
  assumes "38 \<notin> set s" and "q = [] \<or> hd q = 38"
  shows "fst (queryLoop key (x # s @ q)) =
    (if s \<noteq> [] \<and> hd s = hd key then
       (case find_byte 61 s of
          None \<Rightarrow> None
        | Some equality \<Rightarrow> if key = take equality s then fst (decodeValue (drop (equality + 1) s))
                            else fst (queryLoop key q))
     else fst (queryLoop key q))"
  unfolding queryLoop_eq [OF statement_end [OF assms]]
  by (cases "find_byte 61 s") (simp_all add: fst_case_pair del: find_byte_None)

lemma find_equality: "61 \<notin> set k \<Longrightarrow> find_byte 61 (k @ 61 # v) = Some (length k)"
  by (rule find_byte_append_stop)

lemma queryLoop_pairs:
  assumes "key_ok key" and "\<forall>(k, v)\<in>set kvs. key_ok k"
  shows "fst (queryLoop key (x # encode_pairs kvs)) = map_of kvs key"
  using assms(2)
proof (induction kvs arbitrary: x rule: encode_pairs.induct)
  case 1
  show ?case by (subst queryLoop.simps) (simp add: queryLoop.simps)
next
  case (2 k v)
  have "fst (queryLoop key []) = None" by (subst queryLoop.simps) simp
  then show ?case
    using 2 queryLoop_statement [of "k @ 61 # url_encode v" "[]" key x] find_equality [of k] assms(1)
      url_encode_no_amp decodeValue_correct [of "url_encode v"] percent_decode_encode [of v]
    by (auto simp: key_ok_def)
next
  case (3 k v kv kvs)
  have "fst (queryLoop key (38 # encode_pairs (kv # kvs))) = map_of (kv # kvs) key"
    using 3 by simp
  then show ?case
    using "3.prems" find_equality [of k] assms(1)
      queryLoop_statement [of "k @ 61 # url_encode v" "38 # encode_pairs (kv # kvs)" key x]
      url_encode_no_amp decodeValue_correct [of "url_encode v"] percent_decode_encode [of v]
    by (auto simp: key_ok_def)
qed

text \<open>C19: On a query string that was built by percent-encoding a list of parameters, looking a key
  up returns exactly what the list holds for it, byte for byte: the value of its first
  occurrence, or the null view when it is not there. Values may hold any bytes, zero included.\<close>

theorem query_roundtrip:
  assumes "key_ok key" and "\<forall>(k, v)\<in>set kvs. key_ok k"
  shows "fst (getDecodedQueryValue key (63 # encode_pairs kvs)) = map_of kvs key"
  using queryLoop_pairs [OF assms] assms(1) by (simp add: getDecodedQueryValue_def key_ok_def)

theorem query_roundtrip_witness:
  "fst (getDecodedQueryValue (bytes ''q'')
     (63 # encode_pairs [(bytes ''qa'', []), (bytes ''q'', [97, 32, 38, 0, 255])])) = Some [97, 32, 38, 0, 255]"
  using query_roundtrip [of "bytes ''q''" "[(bytes ''qa'', []), (bytes ''q'', [97, 32, 38, 0, 255])]"]
  by (simp add: key_ok_def bytes_simps)

lemma queryLoop_keeps_size: "length (snd (queryLoop key q)) = length q"
proof (induction "length q" arbitrary: q rule: less_induct)
  case less
  show ?case
  proof (cases q)
    case Nil
    then show ?thesis by (simp add: queryLoop.simps)
  next
    case (Cons x t)
    define s where "s = (case find_byte 38 t of None \<Rightarrow> t | Some pos \<Rightarrow> take pos t)"
    define rest where "rest = drop (length s) t"
    have t: "t = s @ rest"
      by (auto simp: s_def rest_def split: option.splits dest!: find_byte_SomeD)
    have eq: "(case find_byte 38 (s @ rest) of None \<Rightarrow> s @ rest | Some pos \<Rightarrow> take pos (s @ rest)) = s"
      by (simp only: t [symmetric] s_def [symmetric])
    have IH: "length (snd (queryLoop key rest)) = length rest"
      using Cons t by (intro less.hyps) simp
    have v: "length (snd (decodeValue w)) = length w" for w
      using decodeValue_correct [of w] by simp
    obtain r1 b1 where r1: "queryLoop key rest = (r1, b1)" by fastforce
    show ?thesis
    proof (cases "find_byte 61 s")
      case None
      then show ?thesis unfolding Cons t queryLoop_eq [OF eq] using IH by (simp add: r1 del: find_byte_None)
    next
      case (Some e)
      obtain r2 b2 where r2: "decodeValue (drop (e + 1) s) = (r2, b2)" by fastforce
      have "e < length s" using Some find_byte_SomeD by blast
      moreover have "length b2 = length s - (e + 1)" using v [of "drop (e + 1) s"] r2 by simp
      ultimately show ?thesis unfolding Cons t queryLoop_eq [OF eq]
        using IH r2 by (auto simp: r1 Some simp del: drop_append take_append)
    qed
  qed
qed

text \<open>The lookup never writes outside the query string: the buffer it leaves behind has the
  same length, whatever the query string holds.\<close>

theorem query_in_bounds: "length (snd (getDecodedQueryValue key rawQuery)) = length rawQuery"
  by (simp add: getDecodedQueryValue_def queryLoop_keeps_size)

section \<open>Reading twice\<close>

text \<open>
  The first lookup leaves the decoded bytes in the request: a second lookup of the same key decodes
  them once more, and a decoded \<open>&\<close> splits the statement, so that a value sent by the peer
  turns into a parameter of its own.
\<close>

lemma second_read_decodes_again:
  "let (v, q) = getDecodedQueryValue (bytes ''a'') (bytes ''?a=%2541'') in
   v = Some (bytes ''%41'') \<and> fst (getDecodedQueryValue (bytes ''a'') q) = Some (bytes ''A'')"
  by code_simp

lemma decoded_value_injects_parameter:
  "fst (getDecodedQueryValue (bytes ''b'') (bytes ''?a=%26b=1'')) = None"
  "fst (getDecodedQueryValue (bytes ''b'') (snd (getDecodedQueryValue (bytes ''a'') (bytes ''?a=%26b=1''))))
     = Some (bytes ''1'')"
  by code_simp+

end
