(* ===== verification/Proxy_Parser.thy ===== *)
theory Proxy_Parser
  imports Uws_Prelude
begin

text \<open>
  \<open>src/src/ProxyParser.h\<close>: the PROXY protocol v2 preamble. The union \<open>addr\<close> is its 36 bytes of
  memory (\<open>sizeof(proxy_addr)\<close>), whose members are ranges of it.

  The lemmas: the parser never consumes more than it was given nor more than 52 bytes, and changes
  nothing when it fails; what it stores for IPv4 and IPv6 is the address that was sent; the port is
  returned in network order.
\<close>

record ProxyParser =
  addr :: "byte list"
  family :: byte

definition sizeof_proxy_addr :: nat where "sizeof_proxy_addr = 36"

definition cond_byte_swap_u16 :: "u16 \<Rightarrow> u16" where
  "cond_byte_swap_u16 value = of_nat (byte_swap 2 (unat value))"

definition getSourceAddress :: "ProxyParser \<Rightarrow> byte list option" where
  "getSourceAddress p =
     (if family p = 0 then None
      else if drop_bit 4 (family p AND 0xf0) = 1 then Some (take 4 (addr p))
      else Some (take 16 (addr p)))"

definition load16 :: "byte list \<Rightarrow> u16" where
  "load16 bs = of_nat (le_nat (take 2 bs))"

definition getSourcePort :: "ProxyParser \<Rightarrow> u32" where
  "getSourcePort p =
     (if family p = 0 then 0
      else if drop_bit 4 (family p AND 0xf0) = 1 then ucast (load16 (drop 8 (addr p)))
      else ucast (load16 (drop 32 (addr p))))"

definition proxy_sig :: "byte list" where
  "proxy_sig = [0x0D, 0x0A, 0x0D, 0x0A, 0x00, 0x0D, 0x0A, 0x51, 0x55, 0x49, 0x54, 0x0A]"

definition proxy_parse :: "ProxyParser \<Rightarrow> byte list \<Rightarrow> (bool \<times> nat) \<times> ProxyParser" where
  "proxy_parse p data =
     (if length data < 4 then ((False, 0), p)
      else if take 4 data \<noteq> [CR, LF, CR, LF] then ((True, 0), p)
      else if length data < 16 then ((False, 0), p)
      else if take 12 data \<noteq> proxy_sig then ((False, 0), p)
      else if drop_bit 4 (data ! 12 AND 0xf0) \<noteq> 2 then ((False, 0), p)
      else (let hostLength = unat (cond_byte_swap_u16 (load16 (drop 14 data))) in
            if length data < 16 + hostLength then ((False, 0), p)
            else if sizeof_proxy_addr < hostLength then ((False, 0), p)
            else ((True, 16 + hostLength),
                  p\<lparr>family := data ! 13,
                    addr := take hostLength (drop 16 data) @ drop hostLength (addr p)\<rparr>)))"

lemma proxy_parse_consumed:
  assumes "proxy_parse p data = ((ok, consumed), p')"
  shows "consumed \<le> length data \<and> consumed \<le> 52 \<and> (consumed = 0 \<longrightarrow> p' = p) \<and> (\<not> ok \<longrightarrow> consumed = 0) \<and>
    (length (addr p) = sizeof_proxy_addr \<longrightarrow> length (addr p') = sizeof_proxy_addr)"
  using assms by (auto simp: proxy_parse_def Let_def sizeof_proxy_addr_def split: if_splits)

text \<open>The outcome does not depend on what an earlier preamble has stored, nor on what follows.\<close>

lemma proxy_parse_outcome: "fst (proxy_parse p data) = fst (proxy_parse p2 data)"
  by (simp add: proxy_parse_def Let_def)

lemma proxy_parse_local:
  assumes "fst (proxy_parse p (d @ x)) = (True, off)" and "4 \<le> length d" and "off \<le> length d"
  shows "fst (proxy_parse p2 (d @ y)) = (True, off)"
proof (cases "take 4 (d @ x) = [CR, LF, CR, LF]")
  case False
  then show ?thesis using assms(1,2) by (simp add: proxy_parse_def)
next
  case True
  then have off: "16 \<le> off" "take 12 (d @ x) = proxy_sig" "drop_bit 4 ((d @ x) ! 12 AND 0xf0) = 2"
    "off = 16 + unat (cond_byte_swap_u16 (load16 (drop 14 (d @ x))))"
    "\<not> sizeof_proxy_addr < unat (cond_byte_swap_u16 (load16 (drop 14 (d @ x))))"
    using assms(1,2) by (auto simp: proxy_parse_def Let_def split: if_splits)
  have l: "16 \<le> length d" using off(1) assms(3) by simp
  have e: "load16 (drop 14 (d @ z)) = load16 (drop 14 d)" for z using l by (simp add: load16_def)
  have f: "take 4 (d @ z) = take 4 d" "take 12 (d @ z) = take 12 d" "(d @ z) ! 12 = d ! 12" for z
    using l by (simp_all add: nth_append)
  show ?thesis using off assms(3) True l
    by (simp add: proxy_parse_def Let_def e f del: take_append drop_append)
qed

text \<open>C20: The preamble parser is bounded by its input: it never reports more consumed than the read
  holds or than 52 bytes, a failure consumes nothing and leaves the stored address alone, and the
  copy into the 36-byte union stays inside it.\<close>

theorem proxy_parse_bounds:
  assumes "proxy_parse p data = ((ok, consumed), p')" and "length (addr p) = sizeof_proxy_addr"
  shows "consumed \<le> length data \<and> consumed \<le> 52 \<and> length (addr p') = sizeof_proxy_addr \<and>
    (consumed = 0 \<longrightarrow> p' = p) \<and> (\<not> ok \<longrightarrow> consumed = 0)"
  using proxy_parse_consumed [OF assms(1)] assms(2) by simp

section \<open>What a proxy sends\<close>

definition be16 :: "nat \<Rightarrow> byte list" where
  "be16 n = rev (le_bytes 2 n)"

definition proxy_header :: "byte \<Rightarrow> byte list \<Rightarrow> byte list" where
  "proxy_header fam payload = proxy_sig @ [0x21, fam] @ be16 (length payload) @ payload"

lemma length_be16 [simp]: "length (be16 n) = 2"
  by (simp add: be16_def)

lemma unat_of_nat_u16: "n < 65536 \<Longrightarrow> unat (of_nat n :: u16) = n"
  by (simp add: unsigned_of_nat take_bit_nat_eq_self)

lemma host_length:
  assumes "n < 65536"
  shows "unat (cond_byte_swap_u16 (load16 (be16 n @ rest))) = n"
proof -
  have l: "le_nat (be16 n) < 65536" using le_nat_less [of "be16 n"] by (simp add: be16_def)
  have "byte_swap 2 (le_nat (be16 n)) = le_nat (rev (be16 n))"
    by (rule byte_swap_bytes) (simp add: be16_def)
  also have "\<dots> = n" using assms by (simp add: be16_def le_nat_le_bytes)
  finally have "byte_swap 2 (le_nat (be16 n)) = n" .
  moreover have "take 2 (be16 n @ rest) = be16 n" by (simp add: be16_def)
  ultimately show ?thesis using l assms
    by (simp only: cond_byte_swap_u16_def load16_def unat_of_nat_u16)
qed

lemma proxy_parse_header:
  assumes "length payload \<le> 36"
  shows "proxy_parse p (proxy_header fam payload @ rest) =
    ((True, 16 + length payload), p\<lparr>family := fam, addr := payload @ drop (length payload) (addr p)\<rparr>)"
proof -
  define d where "d = proxy_header fam payload @ rest"
  have f: "length d = 16 + length payload + length rest" "take 4 d = [CR, LF, CR, LF]"
    "take 12 d = proxy_sig" "d ! 12 = 0x21" "d ! 13 = fam"
    "drop 14 d = be16 (length payload) @ payload @ rest" "drop 16 d = payload @ rest"
    by (simp_all add: d_def proxy_header_def proxy_sig_def)
  have h: "unat (cond_byte_swap_u16 (load16 (be16 (length payload) @ payload @ rest))) = length payload"
    by (rule host_length) (use assms in simp)
  have v: "drop_bit 4 ((0x21 :: byte) AND 0xf0) = 2" by simp
  show ?thesis unfolding d_def [symmetric]
    using assms by (simp add: proxy_parse_def Let_def h sizeof_proxy_addr_def f v)
qed

text \<open>C21: The address a proxy announces is the address the server reports: for an IPv4 or IPv6
  preamble as the protocol defines it, followed by any bytes, the parser consumes exactly the
  preamble and \<open>getSourceAddress\<close> returns the source address in it.\<close>

theorem proxy_address_roundtrip:
  assumes "length src = (if is_inet then 4 else 16)" and "length dst = length src"
  shows "\<exists>p'. proxy_parse p (proxy_header (if is_inet then 0x11 else 0x21)
      (src @ dst @ be16 sport @ be16 dport) @ rest) = ((True, 16 + (2 * length src + 4)), p') \<and>
    getSourceAddress p' = Some src"
proof -
  have "length (src @ dst @ be16 sport @ be16 dport) = 2 * length src + 4"
    using assms(2) by (simp add: be16_def)
  then show ?thesis using assms
    by (cases is_inet) (auto simp: proxy_parse_header getSourceAddress_def)
qed

theorem proxy_parse_bounds_witness:
  "\<exists>ok consumed p'. proxy_parse \<lparr>addr = replicate 36 0, family = 0\<rparr>
      (proxy_header 0x11 (replicate 12 7) @ [71]) = ((ok, consumed), p') \<and> consumed \<le> 52"
proof -
  obtain ok consumed p' where r: "proxy_parse \<lparr>addr = replicate 36 0, family = 0\<rparr>
      (proxy_header 0x11 (replicate 12 7) @ [71]) = ((ok, consumed), p')"
    by (metis prod.collapse)
  then show ?thesis using proxy_parse_bounds [OF r] by (simp add: sizeof_proxy_addr_def)
qed

theorem proxy_address_roundtrip_witness:
  "\<exists>p'. proxy_parse \<lparr>addr = replicate 36 0, family = 0\<rparr> (proxy_header 0x11 ([10, 0, 0, 1] @ [10, 0, 0, 2] @ be16 443 @ be16 80) @ [71])
      = ((True, 28), p') \<and> getSourceAddress p' = Some [10, 0, 0, 1]"
  using proxy_address_roundtrip [where is_inet = True and src = "[10, 0, 0, 1]" and dst = "[10, 0, 0, 2]"
      and sport = 443 and dport = 80 and rest = "[71]" and p = "\<lparr>addr = replicate 36 0, family = 0\<rparr>"]
  by simp

text \<open>
  The port is loaded with the byte order of the machine and never swapped, unlike the length: port
  443 is reported as 47873. A header without an address (family 0x11, length 0) reports the
  memory of an earlier header, or of none.
\<close>

lemma source_port_not_swapped:
  "getSourcePort (snd (proxy_parse p (proxy_header 0x11 ([10, 0, 0, 1] @ [10, 0, 0, 2] @ [1, 187] @ [0, 80])))) = 47873"
  by (simp add: proxy_parse_header [where rest = "[]", simplified] getSourcePort_def load16_def)

lemma short_address_keeps_old:
  "getSourceAddress (snd (proxy_parse p (proxy_header 0x11 []))) = Some (take 4 (addr p))"
  by (simp add: proxy_parse_header [where rest = "[]" and payload = "[]", simplified] getSourceAddress_def)

end
