(* ===== verification/Http_Scan.thy ===== *)
theory Http_Scan
  imports Uws_Prelude Utilities
begin

text \<open>
  The scanning primitives of \<open>src/src/HttpParser.h\<close>: the word-at-a-time tests, the two loops built on
  them, the field-name loop with its fast path, and the content-length reader.

  The lemmas: \<open>hasLess\<close> is exact for every bound up to 128, so a scan over eight-byte words stops
  where a scan over bytes would; it reads at most seven bytes past that place; the field-name loop
  accepts exactly the tokens of RFC 9110 and lower-cases them; the integer reader is exact.
\<close>

section \<open>Words of eight bytes\<close>

definition hasLess :: "u64 \<Rightarrow> u64 \<Rightarrow> u64" where
  "hasLess x n = (x - (NOT 0 div 255) * n) AND NOT x AND ((NOT 0 div 255) * 128)"

text \<open>The number whose \<open>k\<close> bytes are all \<open>n\<close>.\<close>

fun rep_bytes :: "nat \<Rightarrow> int \<Rightarrow> int" where
  "rep_bytes 0 n = 0"
| "rep_bytes (Suc k) n = n + 256 * rep_bytes k n"

lemma bit_low_byte: "0 \<le> a \<Longrightarrow> a < 256 \<Longrightarrow> bit (a + 256 * (z::int)) (8 + j) = bit z j"
proof -
  assume "0 \<le> a" "a < 256"
  then have "(a + 256 * z) div 256 = z" by simp
  moreover have "bit (a + 256 * z) (8 + j) = bit ((a + 256 * z) div 2 ^ 8) j"
    by (simp only: bit_iff_odd div_exp_eq)
  ultimately show ?thesis by simp
qed

lemma bit_7_byte: "0 \<le> a \<Longrightarrow> a < 256 \<Longrightarrow> bit (a + 256 * (z::int)) 7 \<longleftrightarrow> 128 \<le> a"
proof -
  assume a: "0 \<le> a" "a < 256"
  have "(a + 256 * z) div 128 = (a + (2 * z) * 128) div 128" by (simp add: algebra_simps)
  also have "\<dots> = 2 * z + a div 128" by (rule div_mult_self1) simp
  also have "a div 128 = (if 128 \<le> a then 1 else 0)"
    using a by (simp add: div_pos_geq)
  finally show ?thesis by (simp add: bit_iff_odd)
qed

lemma ex_less_Suc_byte: "(\<exists>i<Suc k. P i) \<longleftrightarrow> P 0 \<or> (\<exists>i<k. P (Suc i))"
  by (metis less_Suc_eq_0_disj)

lemma less_bytes_bits:
  assumes "0 \<le> n" and "n \<le> 128"
  shows "(\<exists>i<length bs. bit (int (le_nat bs) - rep_bytes (length bs) n) (8 * i + 7) \<and>
            \<not> bit (int (le_nat bs)) (8 * i + 7)) \<longleftrightarrow> (\<exists>b\<in>set bs. uint b < n)"
proof (induction bs)
  case (Cons b bs)
  let ?X = "int (le_nat bs)" and ?N = "rep_bytes (length bs) n"
  have X: "int (le_nat (b # bs)) = uint b + 256 * ?X" by simp
  have X7: "bit (uint b + 256 * ?X) 7 \<longleftrightarrow> 128 \<le> uint b" by (rule bit_7_byte) simp_all
  have Xi: "bit (uint b + 256 * ?X) (8 * Suc i + 7) = bit ?X (8 * i + 7)" for i
    using bit_low_byte [of "uint b" ?X "8 * i + 7"] by (simp add: add.commute add.left_commute)
  show ?case
  proof (cases "uint b < n")
    case True
    have D: "uint b + 256 * ?X - (n + 256 * ?N) = (uint b - n + 256) + 256 * (?X - ?N - 1)"
      by (simp add: algebra_simps)
    have "bit (uint b + 256 * ?X - (n + 256 * ?N)) 7"
      unfolding D using True assms unsigned_greater_eq [where 'a = int, of b]
      by (subst bit_7_byte) linarith+
    moreover have "\<not> bit (uint b + 256 * ?X) 7" unfolding X7 using True assms by simp
    ultimately show ?thesis using True
      by (simp only: length_Cons ex_less_Suc_byte X rep_bytes.simps) simp
  next
    case False
    have D: "uint b + 256 * ?X - (n + 256 * ?N) = (uint b - n) + 256 * (?X - ?N)"
      by (simp add: algebra_simps)
    have l: "0 \<le> uint b - n" "uint b - n < 256" using False assms uint_byte_less [of b] by linarith+
    have "\<not> (bit (uint b + 256 * ?X - (n + 256 * ?N)) 7 \<and> \<not> bit (uint b + 256 * ?X) 7)"
      unfolding D X7 bit_7_byte [OF l] using assms by linarith
    moreover have "bit (uint b + 256 * ?X - (n + 256 * ?N)) (8 * Suc i + 7) = bit (?X - ?N) (8 * i + 7)" for i
      unfolding D using bit_low_byte [OF l, of "?X - ?N" "8 * i + 7"] by (simp add: add.commute add.left_commute)
    ultimately show ?thesis using Cons.IH False
      by (simp only: length_Cons ex_less_Suc_byte X rep_bytes.simps Xi mult_0_right add_0) simp
  qed
qed simp

lemma high_bits: "bit ((NOT 0 div 255) * 128 :: u64) j \<longleftrightarrow> (\<exists>i<8. j = 8 * i + 7)"
proof (cases "j < 64")
  case True
  have "\<forall>j\<in>set [0..<64]. bit (0x8080808080808080 :: u64) j \<longleftrightarrow> j mod 8 = 7" by code_simp
  then have "bit (0x8080808080808080 :: u64) j \<longleftrightarrow> j mod 8 = 7" using True by simp
  also have "\<dots> \<longleftrightarrow> (\<exists>i<8. j = 8 * i + 7)" using True by presburger
  finally show ?thesis by simp
next
  case False
  then have "\<not> bit ((NOT 0 div 255) * 128 :: u64) j" using bit_imp_le_length by fastforce
  then show ?thesis using False by auto
qed

lemma hasLess_bits:
  "hasLess x n \<noteq> 0 \<longleftrightarrow> (\<exists>i<8. bit (x - (NOT 0 div 255) * n) (8 * i + 7) \<and> \<not> bit x (8 * i + 7))"
proof -
  have "j < 64" if "bit (hasLess x n) j" for j using bit_imp_le_length [OF that] by simp
  then have "hasLess x n \<noteq> 0 \<longleftrightarrow> (\<exists>j. bit (hasLess x n) j)" by (auto simp: bit_eq_iff)
  also have "\<dots> \<longleftrightarrow> (\<exists>j. bit (x - (NOT 0 div 255) * n) j \<and> \<not> bit x j \<and> (\<exists>i<8. j = 8 * i + 7))"
    unfolding hasLess_def bit_and_iff high_bits
    by (auto simp: bit_not_iff)
  finally show ?thesis by auto
qed

lemma rep_bytes_8: "rep_bytes 8 n = n * 0x0101010101010101"
  by (simp add: numeral_eq_Suc)

lemma hasLess_exact:
  assumes "load64 p = Some w" and "n \<le> 128"
  shows "hasLess w (of_nat n) \<noteq> 0 \<longleftrightarrow> (\<exists>b\<in>set (take 8 p). unat b < n)"
proof -
  let ?bs = "take 8 p" and ?X = "int (le_nat (take 8 p))"
  have len: "length ?bs = 8" and w: "w = word_of_int ?X"
    using assms(1) by (auto simp: load64_def split: if_splits)
  have r: "(NOT 0 div 255 :: u64) = word_of_int 0x0101010101010101" by simp
  have D: "w - (NOT 0 div 255) * of_nat n = word_of_int (?X - rep_bytes 8 (int n))"
    unfolding rep_bytes_8 w r by (simp add: wi_hom_syms mult.commute)
  have b: "bit (word_of_int z :: u64) (8 * i + 7) = bit z (8 * i + 7)" if "i < 8" for z i
    using that by (simp add: bit_word_of_int_iff)
  have "hasLess w (of_nat n) \<noteq> 0 \<longleftrightarrow>
      (\<exists>i<8. bit (?X - rep_bytes 8 (int n)) (8 * i + 7) \<and> \<not> bit ?X (8 * i + 7))"
    unfolding hasLess_bits D unfolding w using b by blast
  also have "\<dots> \<longleftrightarrow> (\<exists>b\<in>set ?bs. uint b < int n)"
    using less_bytes_bits [of "int n" ?bs] assms(2) unfolding len by simp
  also have "\<dots> \<longleftrightarrow> (\<exists>b\<in>set ?bs. unat b < n)"
    by (metis of_nat_less_iff of_nat_unat)
  finally show ?thesis .
qed

section \<open>Scanning for a low byte\<close>

text \<open>
  The loop of \<open>tryConsumeFieldValue\<close> (bound 32) and of the URL in \<open>consumeRequestLine\<close> (bound
  33): whole words while none of their bytes is below the bound, then single bytes. \<open>None\<close> is a
  load that is not inside the buffer.
\<close>

function scanBelow :: "nat \<Rightarrow> byte list \<Rightarrow> (byte list \<times> byte list) option" where
  "scanBelow n p =
     (case load64 p of
        None \<Rightarrow> None
      | Some word \<Rightarrow>
          if hasLess word (of_nat n) \<noteq> 0 then scanWhile (\<lambda>b. n \<le> unat b) p
          else map_option (\<lambda>(k, r). (take 8 p @ k, r)) (scanBelow n (drop 8 p)))"
  by pat_completeness auto
termination by (relation "measure (\<lambda>(n, p). length p)") (auto simp: load64_def split: if_splits)

declare scanBelow.simps [simp del]

definition tryConsumeFieldValue :: "byte list \<Rightarrow> (byte list \<times> byte list) option" where
  "tryConsumeFieldValue p = scanBelow 32 p"

lemma scanBelow_stops:
  assumes "n \<le> 128" and "\<exists>b\<in>set d. unat b < n" and "8 \<le> length s + 1"
  shows "scanBelow n (d @ s) = Some (takeWhile (\<lambda>b. n \<le> unat b) (d @ s), dropWhile (\<lambda>b. n \<le> unat b) (d @ s))"
  using assms(2)
proof (induction "length d" arbitrary: d rule: less_induct)
  case less
  let ?P = "\<lambda>b. n \<le> unat b"
  have "d \<noteq> []" using less.prems by auto
  then have "8 \<le> length (d @ s)" using assms(3) by (cases d) auto
  then obtain w where w: "load64 (d @ s) = Some w" by (simp add: load64_def)
  note ex = hasLess_exact [OF w assms(1)]
  show ?case
  proof (cases "hasLess w (of_nat n) \<noteq> 0")
    case True
    then obtain b where "b \<in> set (take 8 (d @ s))" "unat b < n" using ex by blast
    then have "\<exists>b\<in>set (d @ s). \<not> ?P b" by (meson in_set_takeD not_less)
    then show ?thesis using True w by (simp add: scanBelow.simps [of n "d @ s"] scan_simps)
  next
    case False
    then have all: "\<forall>b\<in>set (take 8 (d @ s)). ?P b" using ex by force
    have "8 < length d"
    proof (rule ccontr)
      assume "\<not> 8 < length d"
      then have "set d \<subseteq> set (take 8 (d @ s))" by simp
      with all less.prems show False by force
    qed
    then have t: "take 8 (d @ s) = take 8 d" "drop 8 (d @ s) = drop 8 d @ s" by simp_all
    have "\<exists>b\<in>set (drop 8 d). unat b < n"
      using less.prems all unfolding t by (metis append_take_drop_id Un_iff not_less set_append)
    from less.hyps [OF _ this] \<open>8 < length d\<close>
    have "scanBelow n (drop 8 d @ s) = Some (takeWhile ?P (drop 8 d @ s), dropWhile ?P (drop 8 d @ s))"
      by simp
    moreover have "takeWhile ?P (take 8 d @ drop 8 d @ s) = take 8 d @ takeWhile ?P (drop 8 d @ s)"
      "dropWhile ?P (take 8 d @ drop 8 d @ s) = dropWhile ?P (drop 8 d @ s)"
      using all unfolding t by (simp_all add: takeWhile_append2 dropWhile_append2)
    moreover have "take 8 d @ drop 8 d @ s = d @ s" by (metis append.assoc append_take_drop_id)
    moreover have "8 - length d = 0" using \<open>8 < length d\<close> by simp
    ultimately show ?thesis using False w by (simp add: scanBelow.simps [of n "d @ s"])
  qed
qed

lemma scanBelow_SomeD:
  assumes "scanBelow n p = Some (k, r)" and "n \<le> 128"
  shows "p = k @ r \<and> (\<forall>b\<in>set k. n \<le> unat b) \<and> r \<noteq> [] \<and> unat (hd r) < n"
  using assms
proof (induction n p arbitrary: k rule: scanBelow.induct)
  case (1 n p)
  from "1.prems"(1) obtain w where w: "load64 p = Some w"
    by (cases "load64 p") (auto simp: scanBelow.simps [of n p])
  note eq = scanBelow.simps [of n p] and ex = hasLess_exact [OF w "1.prems"(2)]
  show ?case
  proof (cases "hasLess w (of_nat n) \<noteq> 0")
    case True
    then have "scanWhile (\<lambda>b. n \<le> unat b) p = Some (k, r)" using "1.prems"(1) w eq by simp
    from scanWhile_SomeD [OF this] show ?thesis by (simp add: not_le)
  next
    case False
    then obtain k2 where k2: "scanBelow n (drop 8 p) = Some (k2, r)" "k = take 8 p @ k2"
      using "1.prems"(1) w eq by auto
    have "\<forall>b\<in>set (take 8 p). n \<le> unat b" using False ex by force
    moreover have "drop 8 p = k2 @ r \<and> (\<forall>b\<in>set k2. n \<le> unat b) \<and> r \<noteq> [] \<and> unat (hd r) < n"
      using "1.IH" [OF w] False k2(1) "1.prems"(2) by blast
    ultimately show ?thesis using k2(2) by (metis Un_iff append.assoc append_take_drop_id set_append)
  qed
qed

text \<open>C17: The word-at-a-time scan reads where a byte-at-a-time scan would stop: with a byte below the
  bound in the data and seven bytes of padding behind it, every eight-byte load is inside the
  buffer and the scan ends at the first byte below the bound.\<close>

theorem scan_equals_byte_scan:
  assumes "\<exists>b\<in>set d. unat b < 32" and "7 \<le> length padding"
  shows "tryConsumeFieldValue (d @ padding) =
    Some (takeWhile (\<lambda>b. 31 < unat b) d, dropWhile (\<lambda>b. 31 < unat b) d @ padding)"
proof -
  have s: "(\<lambda>b::byte. 32 \<le> unat b) = (\<lambda>b. 31 < unat b)" by auto
  have "\<exists>b\<in>set d. \<not> 31 < unat b" using assms(1) by force
  then show ?thesis
    using scanBelow_stops [OF _ assms(1), of padding] assms(2)
    by (simp add: tryConsumeFieldValue_def s takeWhile_prefix_stop dropWhile_prefix_stop)
qed

theorem scan_equals_byte_scan_witness:
  "tryConsumeFieldValue ([97, 98, 99, 100, 101, 102, 103, 104, 105, CR] @ [97, 0, 0, 0, 0, 0, 0]) =
     Some ([97, 98, 99, 100, 101, 102, 103, 104, 105], [CR] @ [97, 0, 0, 0, 0, 0, 0])"
  using scan_equals_byte_scan [of "[97, 98, 99, 100, 101, 102, 103, 104, 105, CR]" "[97, 0, 0, 0, 0, 0, 0]"]
  by simp

section \<open>Field names\<close>

definition isUnlikelyFieldNameByte :: "byte \<Rightarrow> bool" where
  "isUnlikelyFieldNameByte c \<longleftrightarrow>
     (c = 126 \<or> c = 124 \<or> c = 96 \<or> c = 95 \<or> c = 94 \<or> c = 46 \<or> c = 43 \<or> c = 42 \<or> c = 33) \<or>
     (c \<ge> 48 \<and> c \<le> 57) \<or> (c \<le> 39 \<and> c \<ge> 35)"

text \<open>The byte is a reference parameter; the result holds the byte the call leaves behind.\<close>

definition isFieldNameByteFastLowercased :: "byte \<Rightarrow> bool \<times> byte" where
  "isFieldNameByteFastLowercased c =
     (if (c \<ge> 97 \<and> c \<le> 122) \<or> c = HYPHEN then (True, c)
      else if c \<ge> 65 \<and> c \<le> 90 then (True, c OR 32)
      else if isUnlikelyFieldNameByte c then (True, c)
      else (False, c))"

definition upper_char :: "byte \<Rightarrow> bool" where "upper_char c \<longleftrightarrow> schar c \<ge> 65 \<and> schar c \<le> 90"
definition lower_char :: "byte \<Rightarrow> bool" where "lower_char c \<longleftrightarrow> schar c \<ge> 97 \<and> schar c \<le> 122"

text \<open>The generic loop, and the function with its fast path. The results are the name as it is in
  memory afterwards and the suffix the returned pointer stands on.\<close>

fun genericFieldName :: "byte list \<Rightarrow> (byte list \<times> byte list) option" where
  "genericFieldName [] = None"
| "genericFieldName (c # p) =
     (case isFieldNameByteFastLowercased c of
        (True, c') \<Rightarrow> map_option (\<lambda>(k, r). (c' # k, r)) (genericFieldName p)
      | (False, c') \<Rightarrow> Some ([], c' # p))"

function consumeFieldName :: "byte list \<Rightarrow> (byte list \<times> byte list) option" where
  "consumeFieldName p =
     (case scanWhile upper_char p of
        None \<Rightarrow> None
      | Some (u, p1) \<Rightarrow>
          (case scanWhile lower_char p1 of
             None \<Rightarrow> None
           | Some (l, p2) \<Rightarrow>
               (case p2 of
                  [] \<Rightarrow> None
                | c # p3 \<Rightarrow>
                    if c = COLON then Some (map (\<lambda>b. b OR 32) u @ l, p2)
                    else if c = HYPHEN then
                      map_option (\<lambda>(k, r). (map (\<lambda>b. b OR 32) u @ l @ HYPHEN # k, r)) (consumeFieldName p3)
                    else if \<not> upper_char c then
                      map_option (\<lambda>(k, r). (map (\<lambda>b. b OR 32) u @ l @ k, r)) (genericFieldName p2)
                    else map_option (\<lambda>(k, r). (map (\<lambda>b. b OR 32) u @ l @ k, r)) (consumeFieldName p2))))"
  by pat_completeness auto
termination
proof (relation "measure length", goal_cases)
  case (2 p a u p1 b l p2 c p3)
  then show ?case by (auto dest!: scanWhile_length)
next
  case (3 p a u p1 b l p2 c p3)
  then have s: "scanWhile upper_char p = Some (u, p1)" "scanWhile lower_char p1 = Some (l, p2)"
    "p2 = c # p3" "upper_char c" by simp_all
  have "l \<noteq> []" using scanWhile_SomeD [OF s(1)] scanWhile_SomeD [OF s(2)] s(3,4) by auto
  then show ?case using scanWhile_length [OF s(1)] scanWhile_length [OF s(2)] by (cases l) auto
qed simp

declare consumeFieldName.simps [simp del]

text \<open>The characters of a token, RFC 9110 5.6.2, and the lower case of a letter.\<close>

definition tchar :: "byte \<Rightarrow> bool" where
  "tchar c \<longleftrightarrow> c \<in> set (bytes ''!#$%&*+-.^_`|~'') \<or> c = 39 \<or>
     48 \<le> unat c \<and> unat c \<le> 57 \<or> 65 \<le> unat c \<and> unat c \<le> 90 \<or> 97 \<le> unat c \<and> unat c \<le> 122"

definition lower_byte :: "byte \<Rightarrow> byte" where
  "lower_byte c = (if 65 \<le> unat c \<and> unat c \<le> 90 then c + 32 else c)"

lemma or_32: "65 \<le> unat c \<Longrightarrow> unat c \<le> 90 \<Longrightarrow> c OR 32 = (c + 32 :: byte)"
proof -
  assume "65 \<le> unat c" "unat c \<le> 90"
  then have m: "unat c \<in> set [65..<91]" unfolding set_upt atLeastLessThan_iff by simp
  have "\<forall>n\<in>set [65..<91]. (of_nat n OR 32 :: byte) = of_nat n + 32" by (simp add: upt_conv_Cons)
  from bspec [OF this m] show ?thesis by simp
qed

lemma byte_eq_iff: "(c :: byte) = d \<longleftrightarrow> unat c = unat d"
  by (simp add: word_unat_eq_iff)

lemma tchar_iff: "tchar c \<longleftrightarrow> unat c \<in> {33, 35, 36, 37, 38, 39, 42, 43, 45, 46, 94, 95, 96, 124, 126} \<or>
    48 \<le> unat c \<and> unat c \<le> 57 \<or> 65 \<le> unat c \<and> unat c \<le> 90 \<or> 97 \<le> unat c \<and> unat c \<le> 122"
  unfolding tchar_def by (simp add: bytes_simps byte_eq_iff) blast

lemma fieldNameByte_tchar: "isFieldNameByteFastLowercased c = (tchar c, if tchar c then lower_byte c else c)"
proof (cases "65 \<le> unat c \<and> unat c \<le> 90")
  case True
  then have "c OR 32 = c + 32" by (simp add: or_32)
  with True show ?thesis
    by (auto simp: isFieldNameByteFastLowercased_def tchar_iff lower_byte_def word_le_nat_alt byte_eq_iff)
next
  case False
  have "isUnlikelyFieldNameByte c \<or> 97 \<le> unat c \<and> unat c \<le> 122 \<or> unat c = 45 \<longleftrightarrow> tchar c"
    using False unfolding isUnlikelyFieldNameByte_def tchar_iff by (simp add: word_le_nat_alt byte_eq_iff) arith
  then show ?thesis using False
    by (auto simp: isFieldNameByteFastLowercased_def lower_byte_def word_le_nat_alt byte_eq_iff)
qed

lemma upper_char_iff: "upper_char c \<longleftrightarrow> 65 \<le> unat c \<and> unat c \<le> 90"
  unfolding upper_char_def schar_eq unat_eq_nat_uint using uint_byte_less [of c] unsigned_greater_eq [where 'a = int, of c] by arith

lemma lower_char_iff: "lower_char c \<longleftrightarrow> 97 \<le> unat c \<and> unat c \<le> 122"
  unfolding lower_char_def schar_eq unat_eq_nat_uint using uint_byte_less [of c] unsigned_greater_eq [where 'a = int, of c] by arith

lemma upper_char_tchar: "upper_char c \<Longrightarrow> tchar c \<and> c OR 32 = lower_byte c"
  by (simp add: upper_char_iff tchar_iff lower_byte_def or_32)

lemma lower_char_tchar: "lower_char c \<Longrightarrow> tchar c \<and> lower_byte c = c"
  by (simp add: lower_char_iff tchar_iff lower_byte_def)

lemma genericFieldName_tchar:
  "genericFieldName p = map_option (\<lambda>(k, r). (map lower_byte k, r)) (scanWhile tchar p)"
  by (induction p) (auto simp: fieldNameByte_tchar option.map_comp o_def split_def)

lemma scanWhile_prefix:
  assumes "\<forall>b\<in>set k. P b"
  shows "scanWhile P (k @ r) = map_option (\<lambda>(k', r'). (k @ k', r')) (scanWhile P r)"
  using assms by (induction k) (auto simp: option.map_comp o_def split_def option.map_ident)

lemma map_lower_upper: "\<forall>b\<in>set u. upper_char b \<Longrightarrow> map (\<lambda>b. b OR 32) u = map lower_byte u"
  using upper_char_tchar by auto

lemma map_lower_lower: "\<forall>b\<in>set l. lower_char b \<Longrightarrow> map lower_byte l = l"
  using lower_char_tchar by (auto intro: map_idI)

lemma tchar_separators [simp]: "\<not> tchar COLON" "\<not> tchar CR" "\<not> tchar LF" "tchar HYPHEN" "lower_byte HYPHEN = HYPHEN"
  by (simp_all add: tchar_iff lower_byte_def)

lemma consumeFieldName_tokens:
  "consumeFieldName p = map_option (\<lambda>(k, r). (map lower_byte k, r)) (scanWhile tchar p)"
proof (induction p rule: consumeFieldName.induct)
  case (1 p)
  note eq = consumeFieldName.simps [of p]
  show ?case
  proof (cases "scanWhile upper_char p")
    case None
    then have "\<forall>b\<in>set p. upper_char b" by (auto simp: scanWhile_eq split: if_splits)
    then have "scanWhile tchar p = None" using upper_char_tchar by (auto simp: scanWhile_eq)
    then show ?thesis using None eq by simp
  next
    case (Some up)
    obtain u p1 where up: "up = (u, p1)" by fastforce
    have u: "p = u @ p1" "\<forall>b\<in>set u. upper_char b" using scanWhile_SomeD Some up by blast+
    have ut: "\<forall>b\<in>set u. tchar b" using u upper_char_tchar by blast
    show ?thesis
    proof (cases "scanWhile lower_char p1")
      case None
      then have "\<forall>b\<in>set p1. lower_char b" by (auto simp: scanWhile_eq split: if_splits)
      then have "\<forall>b\<in>set p1. tchar b" using lower_char_tchar by blast
      then have "scanWhile tchar p = None" using u ut by (auto simp: scanWhile_eq)
      then show ?thesis using None Some up eq by simp
    next
      case (Some lp)
      obtain l p2 where lp: "lp = (l, p2)" by fastforce
      have l: "p1 = l @ p2" "\<forall>b\<in>set l. lower_char b" "p2 \<noteq> []" using scanWhile_SomeD Some lp by blast+
      obtain c p3 where p2: "p2 = c # p3" using l(3) by (cases p2) auto
      have lt: "\<forall>b\<in>set (u @ l). tchar b" using ut l lower_char_tchar by auto
      have p: "p = (u @ l) @ p2" using u l by simp
      have low: "map (\<lambda>b. b OR 32) u @ l = map lower_byte (u @ l)"
        using map_lower_upper u map_lower_lower l by simp
      note sc = scanWhile_prefix [OF lt, of p2, folded p]
      note eq' = eq [unfolded \<open>scanWhile upper_char p = Some up\<close> up, simplified Some lp p2 option.case prod.case list.case]
      consider "c = COLON" | "c = HYPHEN" | "c \<noteq> COLON" "c \<noteq> HYPHEN" "\<not> upper_char c"
        | "c \<noteq> COLON" "c \<noteq> HYPHEN" "upper_char c" by blast
      then show ?thesis
      proof cases
        case 1
        then show ?thesis using eq' sc low p2 by simp
      next
        case 2
        have "consumeFieldName p3 = map_option (\<lambda>(k, r). (map lower_byte k, r)) (scanWhile tchar p3)"
          using "1.IH"(1) [OF \<open>scanWhile upper_char p = Some up\<close> up [symmetric] Some lp [symmetric] p2] 2 by simp
        then show ?thesis using eq' sc 2 p2 map_lower_upper [OF u(2)] map_lower_lower [OF l(2)]
          by (simp add: option.map_comp o_def split_def)
      next
        case 3
        then show ?thesis using eq' sc p2 map_lower_upper [OF u(2)] map_lower_lower [OF l(2)]
          by (simp add: option.map_comp o_def split_def genericFieldName_tchar del: genericFieldName.simps scanWhile.simps)
      next
        case 4
        have "consumeFieldName p2 = map_option (\<lambda>(k, r). (map lower_byte k, r)) (scanWhile tchar p2)"
          using "1.IH"(2) [OF \<open>scanWhile upper_char p = Some up\<close> up [symmetric] Some lp [symmetric] p2] 4 by blast
        then show ?thesis using eq' sc 4 p2 map_lower_upper [OF u(2)] map_lower_lower [OF l(2)]
          by (simp add: option.map_comp o_def split_def del: scanWhile.simps)
      qed
    qed
  qed
qed

text \<open>The field-name loop, fast path included, is the token scan of RFC 9110: it stops at the
  first byte that is not a token character and leaves the name in lower case. It runs off the
  buffer only when that scan does.\<close>

theorem field_name_is_token:
  "consumeFieldName p = map_option (\<lambda>(k, r). (map lower_byte k, r)) (scanWhile tchar p)"
  by (rule consumeFieldName_tokens)

section \<open>Content length\<close>

definition UINT64_MAX :: u64 where "UINT64_MAX = NOT 0"

text \<open>The loop returns early on a byte that is not a digit; \<open>char\<close> is compared as a signed int.\<close>

fun digitLoop :: "u64 \<Rightarrow> byte list \<Rightarrow> u64" where
  "digitLoop v [] = v"
| "digitLoop v (c # cs) =
     (if schar c < 48 \<or> schar c > 57 then UINT64_MAX else digitLoop (v * 10 + (ucast c - 48)) cs)"

definition toUnsignedInteger :: "byte list \<Rightarrow> u64" where
  "toUnsignedInteger str = (if length str > 18 then UINT64_MAX else digitLoop 0 str)"

lemma u64_push_digit:
  assumes "schar c \<ge> 48" and "schar c \<le> 57" and "v < 10 ^ 17"
  shows "(of_nat v :: u64) * 10 + (ucast c - 48) = of_nat (10 * v + (unat c - 48)) \<and> 48 \<le> unat c \<and> unat c \<le> 57"
proof -
  have c: "48 \<le> unat c" "unat c \<le> 57"
    using assms(1,2) unfolding schar_eq unat_eq_nat_uint
    using uint_byte_less [of c] unsigned_greater_eq [where 'a = int, of c] by arith+
  have "(ucast c :: u64) = of_nat (unat c)" by (simp add: of_nat_unat)
  then show ?thesis using c by (simp add: of_nat_diff algebra_simps)
qed

definition is_digit :: "byte \<Rightarrow> bool" where "is_digit c \<longleftrightarrow> 48 \<le> unat c \<and> unat c \<le> 57"

lemma schar_digit: "schar c < 48 \<or> schar c > 57 \<longleftrightarrow> \<not> is_digit c"
  unfolding is_digit_def schar_eq unat_eq_nat_uint
  using uint_byte_less [of c] unsigned_greater_eq [where 'a = int, of c] by arith

abbreviation dec_push :: "nat \<Rightarrow> byte list \<Rightarrow> nat" where
  "dec_push v ds \<equiv> foldl (\<lambda>acc b. 10 * acc + (unat b - 48)) v ds"

lemma dec_push_less: "list_all is_digit ds \<Longrightarrow> dec_push v ds < (v + 1) * 10 ^ length ds"
proof (induction ds arbitrary: v)
  case (Cons d ds)
  then have "dec_push (10 * v + (unat d - 48)) ds < (10 * v + (unat d - 48) + 1) * 10 ^ length ds" by simp
  also have "\<dots> \<le> (10 * (v + 1)) * 10 ^ length ds"
    using Cons.prems by (intro mult_right_mono) (auto simp: is_digit_def)
  finally show ?case by (simp add: algebra_simps)
qed simp

lemma digitLoop_exact:
  assumes "v < 10 ^ k" and "k + length s \<le> 18"
  shows "digitLoop (of_nat v) s = (if list_all is_digit s then of_nat (dec_push v s) else UINT64_MAX)"
  using assms
proof (induction s arbitrary: v k)
  case (Cons c s)
  show ?case
  proof (cases "is_digit c")
    case True
    then have sc: "schar c \<ge> 48" "schar c \<le> 57" using schar_digit [of c] by linarith+
    have "k \<le> 17" using Cons.prems by simp
    then have "(10::nat) ^ k \<le> 10 ^ 17" by (rule power_increasing) simp
    then have v: "v < 10 ^ 17" using Cons.prems(1) by (rule less_le_trans [rotated])
    define w where "w = 10 * v + (unat c - 48)"
    have lt: "w < 10 ^ Suc k" using True Cons.prems(1) unfolding w_def is_digit_def power_Suc by linarith
    note push = u64_push_digit [OF sc v, folded w_def]
    have "digitLoop (of_nat v) (c # s) = digitLoop (of_nat w) s"
      using True schar_digit [of c] push by simp
    moreover have "digitLoop (of_nat w) s = (if list_all is_digit s then of_nat (dec_push w s) else UINT64_MAX)"
      using Cons.IH [OF lt] Cons.prems(2) by simp
    moreover have "dec_push v (c # s) = dec_push w s" by (simp add: w_def)
    ultimately show ?thesis using True by (simp only: list.pred_inject simp_thms)
  next
    case False
    then show ?thesis using schar_digit [of c] by simp
  qed
qed simp

lemma toUnsignedInteger_value:
  "toUnsignedInteger s =
     (if length s \<le> 18 \<and> list_all is_digit s then of_nat (dec_value s) else UINT64_MAX) \<and>
   (toUnsignedInteger s = UINT64_MAX \<or> unat (toUnsignedInteger s) < 10 ^ 18)"
proof (cases "length s \<le> 18 \<and> list_all is_digit s")
  case True
  have "dec_value s < 1 * 10 ^ length s" using dec_push_less [of s 0] True by (simp add: dec_value_def)
  moreover have "(10::nat) ^ length s \<le> 10 ^ 18" by (rule power_increasing) (use True in simp_all)
  ultimately have lt: "dec_value s < 10 ^ 18" by linarith
  have "toUnsignedInteger s = of_nat (dec_value s)"
    using digitLoop_exact [of 0 0 s] True by (simp add: toUnsignedInteger_def dec_value_def)
  moreover have "unat (of_nat (dec_value s) :: u64) = dec_value s"
    using lt by (simp add: unsigned_of_nat take_bit_nat_eq_self)
  ultimately show ?thesis using True lt by simp
next
  case False
  then have "toUnsignedInteger s = UINT64_MAX"
    using digitLoop_exact [of 0 0 s] by (auto simp: toUnsignedInteger_def)
  then show ?thesis using False by auto
qed


end
