(* ===== verification/Http_Head.thy ===== *)
theory Http_Head
  imports Uws_Prelude Http_Scan Proxy_Parser
begin

text \<open>
  The head of a request: \<open>consumeRequestLine\<close> and \<open>getHeaders\<close> of \<open>src/src/HttpParser.h\<close>. A pointer is the
  suffix of memory that starts at it, padding included; \<open>end\<close> is the length \<open>e\<close> of the suffix that
  starts at \<open>end\<close>, so that pointers compare by length. \<open>None\<close> is a read outside memory.

  The lemmas: on a fenced buffer every read is inside; a head is accepted if and only if it has the
  grammar of a request, and then the header array holds exactly its lines; what the parser leaves
  in memory on failure is the input with some letters of field names in lower case.
\<close>

section \<open>Errors and results\<close>

definition HTTP_ERROR_505_HTTP_VERSION_NOT_SUPPORTED :: nat where
  "HTTP_ERROR_505_HTTP_VERSION_NOT_SUPPORTED = 1"
definition HTTP_ERROR_431_REQUEST_HEADER_FIELDS_TOO_LARGE :: nat where
  "HTTP_ERROR_431_REQUEST_HEADER_FIELDS_TOO_LARGE = 2"
definition HTTP_ERROR_400_BAD_REQUEST :: nat where
  "HTTP_ERROR_400_BAD_REQUEST = 3"

definition UWS_HTTP_MAX_HEADERS_COUNT :: nat where "UWS_HTTP_MAX_HEADERS_COUNT = 100"

type_synonym Header = "byte list \<times> byte list"

text \<open>\<open>nullptr\<close>, the pointer 1, and a pointer past the line, with the views put in \<open>header\<close>.\<close>

datatype line_result = LineAgain | LineError | Line Header "byte list"

definition http_1_1 :: "byte list" where
  "http_1_1 = [SP, 72, 84, 84, 80, SLASH, 49, 46, 49, CR, LF]"

definition consumeRequestLine :: "byte list \<Rightarrow> nat \<Rightarrow> line_result option" where
  "consumeRequestLine data e =
     (case scanWhile (\<lambda>b. schar b > 32) data of
        Some (method, c # q) \<Rightarrow>
          if length q = e then Some LineAgain
          else if c = SP \<and> q = [] then None
          else if c = SP \<and> hd q = SLASH then
            (case scanBelow 33 q of
               None \<Rightarrow> None
             | Some (url, r) \<Rightarrow>
                 if length r \<le> e + 11 then
                   (let n = (if e \<le> length r then min 11 (length r - e) else 11) in
                    if length r < n then None
                    else if take n r = take n http_1_1 then Some LineAgain else Some LineError)
                 else if take 11 r = http_1_1 then Some (Line (method, url) (drop 11 r))
                 else if hd r = CR then Some LineAgain else Some LineError)
          else if c = CR then Some LineAgain else Some LineError
      | _ \<Rightarrow> None)"

text \<open>The loop that goes on past tabs; \<open>ok\<close> says that it stopped on CR.\<close>

function fieldValueLoop :: "byte list \<Rightarrow> (byte list \<times> byte list \<times> bool) option" where
  "fieldValueLoop p =
     (case tryConsumeFieldValue p of
        Some (v, c # r) \<Rightarrow>
          if c = CR then Some (v, c # r, True)
          else if c = TAB then map_option (\<lambda>(v', r', ok). (v @ TAB # v', r', ok)) (fieldValueLoop r)
          else Some (v, c # r, False)
      | _ \<Rightarrow> None)"
  by pat_completeness auto
termination
proof (relation "measure length", goal_cases)
  case (2 p a v b c r)
  then have "scanBelow 32 p = Some (v, c # r)" by (simp add: tryConsumeFieldValue_def)
  from scanBelow_SomeD [OF this] show ?case by auto
qed simp

declare fieldValueLoop.simps [simp del]

text \<open>\<open>back() < 33\<close> and \<open>front() < 33\<close> compare plain \<open>char\<close>.\<close>

definition trim_value :: "byte list \<Rightarrow> byte list" where
  "trim_value v = dropWhile (\<lambda>b. schar b < 33) (rev (dropWhile (\<lambda>b. schar b < 33) (rev v)))"

text \<open>
  The result of \<open>getHeaders\<close>: a nonzero return value is \<open>HeadDone\<close> with the lines of the header
  array (up to its terminator) and the memory behind the head; zero is \<open>HeadFail\<close> with \<open>err\<close> and
  the memory as the field-name loop has left it.
\<close>

datatype head_result = HeadDone "Header list" "byte list" | HeadFail nat "byte list"

definition after_field :: "byte list \<Rightarrow> Header \<Rightarrow> head_result \<Rightarrow> head_result" where
  "after_field passed h res = (case res of
     HeadDone hs rest \<Rightarrow> HeadDone (h # hs) rest
   | HeadFail err memory \<Rightarrow> HeadFail err (passed @ memory))"

fun headerLoop :: "nat \<Rightarrow> byte list \<Rightarrow> nat \<Rightarrow> head_result option" where
  "headerLoop 0 p e = Some (HeadFail HTTP_ERROR_431_REQUEST_HEADER_FIELDS_TOO_LARGE p)"
| "headerLoop (Suc n) p e =
     (case consumeFieldName p of
        Some (key, c # q) \<Rightarrow>
          if c \<noteq> COLON then
            Some (HeadFail (if length (c # q) = e then 0 else HTTP_ERROR_400_BAD_REQUEST) (key @ c # q))
          else
            (case fieldValueLoop q of
               None \<Rightarrow> None
             | Some (v, r, False) \<Rightarrow> Some (HeadFail HTTP_ERROR_400_BAD_REQUEST (key @ COLON # q))
             | Some (v, r, True) \<Rightarrow>
                 (case r of
                    _ # d # p' \<Rightarrow>
                      if d = LF then
                        (let passed = key @ COLON # v @ [CR, LF]; h = (key, trim_value v) in
                         case p' of
                           [] \<Rightarrow> None
                         | c' # p'' \<Rightarrow>
                             if c' = CR then
                               (case p'' of
                                  [] \<Rightarrow> None
                                | d' # rest \<Rightarrow>
                                    if d' = LF then Some (HeadDone [h] rest)
                                    else Some (HeadFail (if length p'' > e then HTTP_ERROR_400_BAD_REQUEST else 0)
                                                 (passed @ p')))
                             else map_option (after_field passed h) (headerLoop n p' e))
                      else Some (HeadFail 0 (key @ COLON # q))
                  | _ \<Rightarrow> None))
      | _ \<Rightarrow> None)"

definition requestHead :: "byte list \<Rightarrow> nat \<Rightarrow> head_result option" where
  "requestHead p e =
     (case consumeRequestLine p e of
        None \<Rightarrow> None
      | Some LineAgain \<Rightarrow> Some (HeadFail 0 p)
      | Some LineError \<Rightarrow> Some (HeadFail HTTP_ERROR_505_HTTP_VERSION_NOT_SUPPORTED p)
      | Some (Line h q) \<Rightarrow>
          map_option (after_field (take (length p - length q) p) h)
            (headerLoop (UWS_HTTP_MAX_HEADERS_COUNT - 2) q e))"

text \<open>\<open>reserved\<close> is the proxy parser of a build with \<open>UWS_WITH_PROXY\<close>, else \<open>None\<close>.\<close>

definition getHeaders ::
  "byte list \<Rightarrow> nat \<Rightarrow> ProxyParser option \<Rightarrow> (head_result \<times> ProxyParser option) option" where
  "getHeaders p e reserved =
     (case reserved of
        None \<Rightarrow> map_option (\<lambda>res. (res, None)) (requestHead p e)
      | Some pp \<Rightarrow>
          (case proxy_parse pp (take (length p - e) p) of
             ((False, _), pp') \<Rightarrow> Some (HeadFail 0 p, Some pp')
           | ((True, offset), pp') \<Rightarrow>
               map_option
                 (\<lambda>res. (case res of
                            HeadDone hs rest \<Rightarrow> HeadDone hs rest
                          | HeadFail err memory \<Rightarrow> HeadFail err (take offset p @ memory), Some pp'))
                 (requestHead (drop offset p) e)))"

section \<open>The grammar\<close>

text \<open>A line that is stored before trimming; the name is as it came from the network.\<close>

definition field_ok :: "Header \<Rightarrow> bool" where
  "field_ok kv \<longleftrightarrow> list_all tchar (fst kv) \<and> list_all (\<lambda>b. 32 \<le> unat b \<or> b = TAB) (snd kv)"

definition field_bytes :: "Header \<Rightarrow> byte list" where
  "field_bytes kv = fst kv @ COLON # snd kv @ CRLF"

definition field_header :: "Header \<Rightarrow> Header" where
  "field_header kv = (map lower_byte (fst kv), trim_value (snd kv))"

definition fields_bytes :: "Header list \<Rightarrow> byte list" where
  "fields_bytes kvs = concat (map field_bytes kvs) @ CRLF"

definition request_ok :: "byte list \<Rightarrow> byte list \<Rightarrow> Header list \<Rightarrow> bool" where
  "request_ok method url kvs \<longleftrightarrow> list_all (\<lambda>b. schar b > 32) method \<and>
     url \<noteq> [] \<and> hd url = SLASH \<and> list_all (\<lambda>b. 33 \<le> unat b) url \<and>
     kvs \<noteq> [] \<and> length kvs \<le> 98 \<and> list_all field_ok kvs"

definition request_bytes :: "byte list \<Rightarrow> byte list \<Rightarrow> Header list \<Rightarrow> byte list" where
  "request_bytes method url kvs = method @ SP # url @ http_1_1 @ fields_bytes kvs"

section \<open>Scans on a fenced buffer\<close>

lemma scanBelow_fence:
  assumes "unat c < n" and "n \<le> 128" and "7 \<le> length t"
  shows "scanBelow n (d @ c # t) =
    Some (takeWhile (\<lambda>b. n \<le> unat b) d, dropWhile (\<lambda>b. n \<le> unat b) d @ c # t)"
proof -
  have "\<exists>b\<in>set (d @ [c]). unat b < n" using assms(1) by auto
  from scanBelow_stops [OF assms(2) this, of t] assms(1,3) show ?thesis
    by (simp add: takeWhile_fence dropWhile_fence)
qed

lemma scanWhile_fence:
  assumes "\<not> P CR"
  shows "scanWhile P (d @ CR # t) = Some (takeWhile P d, dropWhile P d @ CR # t)"
  using assms by (induction d) auto

definition value_byte :: "byte \<Rightarrow> bool" where "value_byte b \<longleftrightarrow> 32 \<le> unat b \<or> b = TAB"

lemma value_byte_tab: "value_byte TAB"
  by (simp add: value_byte_def)

lemma fieldValueLoop_fence:
  assumes "7 \<le> length t"
  shows "fieldValueLoop (d @ CR # t) =
    Some (takeWhile value_byte d, dropWhile value_byte d @ CR # t,
          dropWhile value_byte d = [] \<or> hd (dropWhile value_byte d) = CR)"
proof (induction "length d" arbitrary: d rule: less_induct)
  case less
  let ?P = "\<lambda>b::byte. 32 \<le> unat b"
  have sc: "tryConsumeFieldValue (d @ CR # t) = Some (takeWhile ?P d, dropWhile ?P d @ CR # t)"
    unfolding tryConsumeFieldValue_def by (rule scanBelow_fence) (use assms in simp_all)
  have "\<And>b. ?P b \<Longrightarrow> value_byte b" by (simp add: value_byte_def)
  note tw = takeWhile_resume [where d = d, OF this]
  show ?case
  proof (cases "dropWhile ?P d")
    case Nil
    show ?thesis by (subst fieldValueLoop.simps) (simp add: sc tw Nil del: dropWhile_eq_Nil_conv)
  next
    case (Cons c d2)
    then have c: "\<not> ?P c" by (metis hd_dropWhile list.distinct(1) list.sel(1))
    consider "c = CR" | "c = TAB" | "c \<noteq> CR" "c \<noteq> TAB" by blast
    then show ?thesis
    proof cases
      case 1
      then show ?thesis
        by (subst fieldValueLoop.simps) (simp add: sc tw [unfolded Cons] Cons value_byte_def)
    next
      case 2
      have "length d2 < length d" using length_dropWhile_le [of ?P d] Cons by simp
      from less.hyps [OF this] show ?thesis
        using 2 by (subst fieldValueLoop.simps) (simp add: sc tw [unfolded Cons] Cons value_byte_tab)
    next
      case 3
      then show ?thesis using c
        by (subst fieldValueLoop.simps) (simp add: sc tw [unfolded Cons] Cons value_byte_def)
    qed
  qed
qed

lemma fieldValueLoop_SomeD:
  "fieldValueLoop p = Some (v, r, ok) \<Longrightarrow>
   p = v @ r \<and> list_all value_byte v \<and> r \<noteq> [] \<and> ok = (hd r = CR)"
proof (induction p arbitrary: v rule: fieldValueLoop.induct)
  case (1 p)
  from "1.prems" obtain v1 c r1 where sc: "tryConsumeFieldValue p = Some (v1, c # r1)"
    by (auto simp: fieldValueLoop.simps [of p] split: option.splits list.splits)
  then have s: "p = v1 @ c # r1" "\<forall>b\<in>set v1. 32 \<le> unat b"
    unfolding tryConsumeFieldValue_def using scanBelow_SomeD [of 32 p v1 "c # r1"] by simp_all
  have v1: "list_all value_byte v1" using s(2) by (simp add: value_byte_def list_all_iff)
  have eq: "(if c = CR then Some (v1, c # r1, True)
      else if c = TAB then map_option (\<lambda>(v', r', ok). (v1 @ TAB # v', r', ok)) (fieldValueLoop r1)
      else Some (v1, c # r1, False)) = Some (v, r, ok)"
    using "1.prems" by (simp add: fieldValueLoop.simps [of p] sc)
  consider "c = CR" | "c = TAB" | "c \<noteq> CR" "c \<noteq> TAB" by blast
  then show ?case
  proof cases
    case 2
    then obtain v' where "fieldValueLoop r1 = Some (v', r, ok)" "v = v1 @ TAB # v'"
      using eq by auto
    with "1.IH" [OF sc refl refl _ 2] show ?thesis using s 2 v1 value_byte_tab by auto
  qed (use eq s v1 in auto)
qed

section \<open>Accepted heads have the grammar\<close>

lemma consumeFieldName_SomeD:
  assumes "consumeFieldName p = Some (key, q)"
  shows "\<exists>k. p = k @ q \<and> list_all tchar k \<and> key = map lower_byte k \<and> q \<noteq> []"
  using assms by (auto simp: consumeFieldName_tokens list_all_iff dest!: scanWhile_SomeD)

lemma field_ok_iff: "field_ok (k, v) \<longleftrightarrow> list_all tchar k \<and> list_all value_byte v"
  by (simp add: field_ok_def value_byte_def list_all_iff)

lemma fields_bytes_Cons: "fields_bytes (kv # kvs) = field_bytes kv @ fields_bytes kvs"
  by (simp add: fields_bytes_def)

lemma after_field_done:
  "map_option (after_field passed h) res = Some (HeadDone hs rest) \<longleftrightarrow>
   (\<exists>hs'. res = Some (HeadDone hs' rest) \<and> hs = h # hs')"
  by (cases res) (auto simp: after_field_def split: head_result.splits)

lemma headerLoop_done:
  assumes "headerLoop n p e = Some (HeadDone hs rest)"
  shows "\<exists>kvs. p = fields_bytes kvs @ rest \<and> kvs \<noteq> [] \<and> length kvs \<le> n \<and> list_all field_ok kvs \<and>
    hs = map field_header kvs"
  using assms
proof (induction n arbitrary: p hs)
  case (Suc n)
  obtain key c q where k: "consumeFieldName p = Some (key, c # q)"
    using Suc.prems by (auto split: option.splits list.splits)
  then obtain k where kk: "p = k @ c # q" "list_all tchar k" "key = map lower_byte k"
    using consumeFieldName_SomeD by blast
  have c: "c = COLON" using Suc.prems k by (auto split: if_splits)
  obtain v r where v: "fieldValueLoop q = Some (v, r, True)"
    using Suc.prems k c by (auto split: option.splits bool.splits)
  then have vv: "q = v @ r" "list_all value_byte v" "hd r = CR" "r \<noteq> []"
    using fieldValueLoop_SomeD by blast+
  obtain p' where r: "r = CR # LF # p'"
    using Suc.prems k c v vv(3) by (auto split: list.splits if_splits)
  have fo: "field_ok (k, v)" using kk vv by (simp add: field_ok_iff)
  have pp: "p = field_bytes (k, v) @ p'" using kk c vv r by (simp add: field_bytes_def)
  have fh: "field_header (k, v) = (key, trim_value v)" by (simp add: field_header_def kk(3))
  obtain c' p'' where p': "p' = c' # p''" using Suc.prems k c v r by (cases p') auto
  show ?case
  proof (cases "c' = CR")
    case True
    then obtain r2 where "p'' = LF # r2" "hs = [(key, trim_value v)]" "rest = r2"
      using Suc.prems k c v r p' by (auto simp: Let_def split: list.splits if_splits)
    then show ?thesis using pp fo fh p' True
      by (intro exI [of _ "[(k, v)]"]) (simp add: fields_bytes_def)
  next
    case False
    then obtain hs' where hs': "headerLoop n p' e = Some (HeadDone hs' rest)" "hs = (key, trim_value v) # hs'"
      using Suc.prems k c v r p' by (auto simp: Let_def after_field_done simp del: map_option_eq_Some)
    then obtain kvs where "p' = fields_bytes kvs @ rest" "kvs \<noteq> []" "length kvs \<le> n" "list_all field_ok kvs"
      "hs' = map field_header kvs"
      using Suc.IH by blast
    then show ?thesis using pp fo fh hs'(2)
      by (intro exI [of _ "(k, v) # kvs"]) (simp add: fields_bytes_Cons)
  qed
qed simp

lemma consumeRequestLine_line:
  assumes "consumeRequestLine p e = Some (Line (m, u) q)"
  shows "p = m @ SP # u @ http_1_1 @ q \<and> list_all (\<lambda>b. schar b > 32) m \<and> u \<noteq> [] \<and> hd u = SLASH \<and>
    list_all (\<lambda>b. 33 \<le> unat b) u"
proof -
  obtain m' c q1 where s: "scanWhile (\<lambda>b. schar b > 32) p = Some (m', c # q1)"
    using assms by (auto simp: consumeRequestLine_def split: option.splits list.splits)
  have c: "c = SP" "q1 \<noteq> []" "hd q1 = SLASH" "m' = m"
    using assms s by (auto simp: consumeRequestLine_def Let_def split: if_splits option.splits)
  obtain u' r where u: "scanBelow 33 q1 = Some (u', r)"
    using assms s c by (auto simp: consumeRequestLine_def Let_def split: if_splits option.splits)
  have t: "take 11 r = http_1_1" "q = drop 11 r" "u' = u"
    using assms s c u by (auto simp: consumeRequestLine_def Let_def split: if_splits)
  have "r = http_1_1 @ q" using t by (metis append_take_drop_id)
  moreover note scanBelow_SomeD [OF u] scanWhile_SomeD [OF s]
  moreover have "u \<noteq> []"
    using calculation c t(3) by (cases u) (auto simp: http_1_1_def)
  ultimately show ?thesis using c t(3) by (cases u) (auto simp: list_all_iff)
qed

lemma requestHead_done:
  assumes "requestHead p e = Some (HeadDone hs rest)"
  shows "\<exists>m u kvs. p = request_bytes m u kvs @ rest \<and> request_ok m u kvs \<and> hs = (m, u) # map field_header kvs"
proof -
  obtain h q where l: "consumeRequestLine p e = Some (Line h q)"
    using assms by (auto simp: requestHead_def split: option.splits line_result.splits)
  obtain m u where h: "h = (m, u)" by fastforce
  obtain hs' where hs: "headerLoop 98 q e = Some (HeadDone hs' rest)" "hs = h # hs'"
    using assms l by (auto simp: requestHead_def after_field_done UWS_HTTP_MAX_HEADERS_COUNT_def
        simp del: map_option_eq_Some)
  obtain kvs where "q = fields_bytes kvs @ rest" "kvs \<noteq> []" "length kvs \<le> 98" "list_all field_ok kvs"
    "hs' = map field_header kvs"
    using headerLoop_done [OF hs(1)] by blast
  with consumeRequestLine_line [OF l [unfolded h]] hs(2) h show ?thesis
    by (intro exI [of _ m] exI [of _ u] exI [of _ kvs]) (simp add: request_bytes_def request_ok_def)
qed

section \<open>Heads with the grammar are accepted\<close>

lemma takeWhile_all: "list_all P xs \<Longrightarrow> takeWhile P xs = xs"
  and dropWhile_all: "list_all P xs \<Longrightarrow> dropWhile P xs = []"
  by (simp_all add: list_all_iff)

lemma consumeFieldName_name:
  assumes "list_all tchar k" and "\<not> tchar c"
  shows "consumeFieldName (k @ c # q) = Some (map lower_byte k, c # q)"
proof -
  have "scanWhile tchar (k @ c # q) = Some (k, c # q)"
    using assms by (simp add: scanWhile_eq takeWhile_fence dropWhile_fence takeWhile_all dropWhile_all)
  then show ?thesis by (simp add: consumeFieldName_tokens)
qed

lemma fieldValueLoop_value:
  assumes "list_all value_byte v" and "7 \<le> length t"
  shows "fieldValueLoop (v @ CR # t) = Some (v, CR # t, True)"
  using fieldValueLoop_fence [OF assms(2), of v] assms(1) by (simp add: takeWhile_all dropWhile_all)

lemma fields_bytes_not_empty: "\<exists>c t. fields_bytes kvs = c # t \<and> (kvs = [] \<or> c = CR \<longrightarrow> kvs = [] \<and> t = [LF])"
  if "list_all field_ok kvs"
proof (cases kvs)
  case (Cons kv kvs')
  then have t: "list_all tchar (fst kv)" using that by (cases kv) (simp add: field_ok_iff)
  show ?thesis
  proof (cases "fst kv")
    case (Cons c k)
    then have "tchar c" using t by simp
    then have "c \<noteq> CR" by auto
    with Cons \<open>kvs = kv # kvs'\<close> show ?thesis by (simp add: fields_bytes_Cons field_bytes_def)
  qed (use Cons in \<open>simp add: fields_bytes_Cons field_bytes_def\<close>)
qed (simp add: fields_bytes_def)

lemma headerLoop_complete:
  assumes "7 \<le> length rest"
  shows "kvs \<noteq> [] \<Longrightarrow> length kvs \<le> n \<Longrightarrow> list_all field_ok kvs \<Longrightarrow>
    headerLoop n (fields_bytes kvs @ rest) e = Some (HeadDone (map field_header kvs) rest)"
proof (induction n arbitrary: kvs)
  case (Suc n)
  then obtain k v kvs' where kvs: "kvs = (k, v) # kvs'" by (metis list.exhaust prod.exhaust)
  have ok: "list_all tchar k" "list_all value_byte v" "list_all field_ok kvs'"
    using Suc.prems(3) kvs by (simp_all add: field_ok_iff)
  let ?t = "LF # fields_bytes kvs' @ rest"
  have p: "fields_bytes kvs @ rest = k @ COLON # v @ CR # ?t"
    by (simp add: kvs fields_bytes_Cons field_bytes_def)
  have n: "consumeFieldName (k @ COLON # v @ CR # ?t) = Some (map lower_byte k, COLON # v @ CR # ?t)"
    by (rule consumeFieldName_name) (use ok in simp_all)
  have v: "fieldValueLoop (v @ CR # ?t) = Some (v, CR # ?t, True)"
    by (rule fieldValueLoop_value) (use ok assms in simp_all)
  have h: "field_header (k, v) = (map lower_byte k, trim_value v)" by (simp add: field_header_def)
  obtain c t where ct: "fields_bytes kvs' = c # t" "kvs' = [] \<or> c = CR \<longrightarrow> kvs' = [] \<and> t = [LF]"
    using fields_bytes_not_empty [OF ok(3)] by blast
  show ?case
  proof (cases "kvs' = []")
    case True
    then have "fields_bytes kvs' = CR # [LF]" by (simp add: fields_bytes_def)
    with n v True show ?thesis unfolding p by (simp add: Let_def kvs h)
  next
    case False
    then have "c \<noteq> CR" using ct(2) by blast
    moreover have "headerLoop n (fields_bytes kvs' @ rest) e = Some (HeadDone (map field_header kvs') rest)"
      using Suc.IH [OF False] Suc.prems(2) kvs ok(3) by simp
    ultimately show ?thesis unfolding p using ct(1) n v
      by (simp add: Let_def kvs h after_field_def)
  qed
qed simp

lemma consumeRequestLine_complete:
  assumes "list_all (\<lambda>b. schar b > 32) m" and "u \<noteq> []" and "hd u = SLASH" and "list_all (\<lambda>b. 33 \<le> unat b) u"
    and "e < length q"
  shows "consumeRequestLine (m @ SP # u @ http_1_1 @ q) e = Some (Line (m, u) q)"
proof -
  have s: "scanWhile (\<lambda>b. schar b > 32) (m @ SP # u @ http_1_1 @ q) = Some (m, SP # u @ http_1_1 @ q)"
    using assms(1) by (simp add: scanWhile_eq takeWhile_fence dropWhile_fence takeWhile_all dropWhile_all)
  have "scanBelow 33 (u @ SP # [72, 84, 84, 80, SLASH, 49, 46, 49, CR, LF] @ q) =
      Some (u, SP # [72, 84, 84, 80, SLASH, 49, 46, 49, CR, LF] @ q)"
    using scanBelow_fence [of SP 33] assms(4) by (simp add: takeWhile_all dropWhile_all)
  then have b: "scanBelow 33 (u @ http_1_1 @ q) = Some (u, http_1_1 @ q)" by (simp add: http_1_1_def)
  have "length http_1_1 = 11" by (simp add: http_1_1_def)
  then show ?thesis using assms(2,3,5) s b by (simp add: consumeRequestLine_def Let_def)
qed

lemma requestHead_complete:
  assumes "request_ok m u kvs" and "e \<le> length rest" and "7 \<le> length rest"
  shows "requestHead (request_bytes m u kvs @ rest) e = Some (HeadDone ((m, u) # map field_header kvs) rest)"
proof -
  have "consumeRequestLine (m @ SP # u @ http_1_1 @ (fields_bytes kvs @ rest)) e =
      Some (Line (m, u) (fields_bytes kvs @ rest))"
    using assms by (intro consumeRequestLine_complete) (auto simp: request_ok_def fields_bytes_def)
  moreover have "headerLoop 98 (fields_bytes kvs @ rest) e = Some (HeadDone (map field_header kvs) rest)"
    using assms by (intro headerLoop_complete) (auto simp: request_ok_def)
  ultimately show ?thesis
    by (simp add: requestHead_def request_bytes_def UWS_HTTP_MAX_HEADERS_COUNT_def after_field_def)
qed

section \<open>Memory\<close>

text \<open>The fence that the caller writes behind the data, and the padding behind it.\<close>

abbreviation fenced :: "byte list \<Rightarrow> byte list \<Rightarrow> byte list" where
  "fenced d padding \<equiv> d @ CR # 97 # padding"

definition lower_rel :: "byte list \<Rightarrow> byte list \<Rightarrow> bool" where
  "lower_rel p p' \<longleftrightarrow> list_all2 (\<lambda>a b. b = a \<or> b = lower_byte a) p p'"

lemma lower_rel_refl [simp]: "lower_rel p p"
  by (simp add: lower_rel_def list_all2_refl)

lemma lower_rel_map [simp]: "lower_rel p (map lower_byte p)"
  by (simp add: lower_rel_def list_all2_map2 list_all2_refl)

lemma lower_rel_append: "lower_rel p p' \<Longrightarrow> lower_rel q q' \<Longrightarrow> lower_rel (p @ q) (p' @ q')"
  by (simp add: lower_rel_def list_all2_appendI)

lemma lower_rel_Cons: "lower_rel p p' \<Longrightarrow> lower_rel (c # p) (c # p')"
  by (simp add: lower_rel_def)

lemma lower_rel_name: "lower_rel (k @ q) (map lower_byte k @ q)"
  by (rule lower_rel_append) simp_all

lemma lower_rel_passed:
  "lower_rel p p' \<Longrightarrow> lower_rel (k @ COLON # v @ CR # LF # p) ((map lower_byte k @ COLON # v @ [CR, LF]) @ p')"
  by (simp add: lower_rel_append lower_rel_Cons)

lemma lower_rel_length: "lower_rel p p' \<Longrightarrow> length p' = length p"
  unfolding lower_rel_def by (simp add: list_all2_lengthD)

definition head_memory_ok :: "byte list \<Rightarrow> head_result \<Rightarrow> bool" where
  "head_memory_ok p res = (case res of HeadDone hs rest \<Rightarrow> True | HeadFail err memory \<Rightarrow> lower_rel p memory)"

lemma head_memory_simps [simp]:
  "head_memory_ok p (HeadDone hs rest)" "head_memory_ok p (HeadFail err memory) = lower_rel p memory"
  by (simp_all add: head_memory_ok_def)

lemma consumeFieldName_fence:
  "\<exists>k d'. d = k @ d' \<and> consumeFieldName (d @ CR # t) = Some (map lower_byte k, d' @ CR # t)"
proof (intro exI conjI)
  show "d = takeWhile tchar d @ dropWhile tchar d" by simp
  show "consumeFieldName (d @ CR # t) = Some (map lower_byte (takeWhile tchar d), dropWhile tchar d @ CR # t)"
    by (simp add: consumeFieldName_tokens scanWhile_fence)
qed

lemma fence_head: "c # q = d @ CR # t \<Longrightarrow> c \<noteq> CR \<Longrightarrow> \<exists>d'. d = c # d' \<and> q = d' @ CR # t"
  by (cases d) auto

lemma fieldValueLoop_fence_ex:
  assumes "7 \<le> length t"
  shows "\<exists>v d'. d = v @ d' \<and> fieldValueLoop (d @ CR # t) = Some (v, d' @ CR # t, hd (d' @ CR # t) = CR)"
proof (intro exI conjI)
  show "d = takeWhile value_byte d @ dropWhile value_byte d" by simp
  show "fieldValueLoop (d @ CR # t) = Some (takeWhile value_byte d, dropWhile value_byte d @ CR # t,
      hd (dropWhile value_byte d @ CR # t) = CR)"
    unfolding fieldValueLoop_fence [OF assms] by (cases "dropWhile value_byte d") (simp_all del: dropWhile_eq_Nil_conv)
qed

text \<open>What the loop body does once a field value has been scanned up to a CR.\<close>

definition after_value :: "nat \<Rightarrow> nat \<Rightarrow> byte list \<Rightarrow> byte list \<Rightarrow> byte list \<Rightarrow> head_result option" where
  "after_value n e key v r =
     (case r of
        _ # d # p' \<Rightarrow>
          if d = LF then
            (case p' of
               [] \<Rightarrow> None
             | c' # p'' \<Rightarrow>
                 if c' = CR then
                   (case p'' of
                      [] \<Rightarrow> None
                    | d' # rest \<Rightarrow>
                        if d' = LF then Some (HeadDone [(key, trim_value v)] rest)
                        else Some (HeadFail (if length p'' > e then HTTP_ERROR_400_BAD_REQUEST else 0)
                                     ((key @ COLON # v @ [CR, LF]) @ p')))
                 else map_option (after_field (key @ COLON # v @ [CR, LF]) (key, trim_value v)) (headerLoop n p' e))
          else Some (HeadFail 0 (key @ COLON # v @ r))
      | _ \<Rightarrow> None)"

lemma headerLoop_Suc:
  assumes "consumeFieldName p = Some (key, COLON # q)" and "fieldValueLoop q = Some (v, r, True)"
  shows "headerLoop (Suc n) p e = after_value n e key v r"
proof -
  have "q = v @ r" using fieldValueLoop_SomeD [OF assms(2)] by blast
  then show ?thesis using assms unfolding after_value_def headerLoop.simps Let_def by simp
qed

lemma after_field_memory:
  assumes "head_memory_ok p res"
  shows "head_memory_ok (k @ COLON # v @ CR # LF # p) (after_field (map lower_byte k @ COLON # v @ [CR, LF]) h res)"
  using lower_rel_passed assms by (cases res) (auto simp: after_field_def)

lemma after_value_safe:
  assumes IH: "\<And>d. \<exists>res. headerLoop n (fenced d padding) e = Some res \<and> head_memory_ok (fenced d padding) res"
    and "hd (fenced d padding) = CR"
  shows "\<exists>res. after_value n e (map lower_byte k) v (fenced d padding) = Some res \<and>
    head_memory_ok (k @ COLON # v @ fenced d padding) res"
proof -
  let ?F = "CR # 97 # padding"
  obtain x p' where xp: "d @ ?F = CR # x # p'" using assms(2)
    by (cases d; cases "tl d") auto
  show ?thesis
  proof (cases "x = LF")
    case False
    then show ?thesis using lower_rel_name [of k "COLON # v @ CR # x # p'"] unfolding xp
      by (simp add: after_value_def)
  next
    case True
    then obtain d2 where d2: "p' = d2 @ ?F" using xp by (cases d; cases "tl d") auto
    show ?thesis
    proof (cases "hd p' = CR")
      case True
      then obtain y p2 where "p' = CR # y # p2" using d2 by (cases d2; cases "tl d2") auto
      then show ?thesis using \<open>x = LF\<close> lower_rel_name [of k "COLON # v @ CR # LF # CR # y # p2"] unfolding xp
        by (simp add: after_value_def)
    next
      case False
      have "p' \<noteq> []" using d2 by simp
      then obtain c' p2 where p2: "p' = c' # p2" "c' \<noteq> CR" using False by (cases p') auto
      obtain res where "headerLoop n p' e = Some res" "head_memory_ok p' res" using IH [of d2] d2 by blast
      with p2 \<open>x = LF\<close> after_field_memory [of p' res] show ?thesis unfolding xp
        by (simp add: after_value_def)
    qed
  qed
qed

lemma headerLoop_safe:
  assumes "6 \<le> length padding"
  shows "\<exists>res. headerLoop n (fenced d padding) e = Some res \<and> head_memory_ok (fenced d padding) res"
proof (induction n arbitrary: d)
  case (Suc n)
  let ?F = "CR # 97 # padding"
  obtain k d1 where d: "d = k @ d1" "consumeFieldName (d @ ?F) = Some (map lower_byte k, d1 @ ?F)"
    using consumeFieldName_fence by blast
  obtain c q where cq: "d1 @ ?F = c # q" by (cases d1) auto
  have P: "d @ ?F = k @ c # q" using d(1) cq by simp
  show ?case
  proof (cases "c = COLON")
    case False
    then show ?thesis using d(2) cq P lower_rel_name [of k "c # q"] by simp
  next
    case True
    then obtain d2 where q: "d1 = COLON # d2" "q = d2 @ ?F" using fence_head [OF cq [symmetric]] by auto
    obtain v d3 where v: "d2 = v @ d3" "fieldValueLoop q = Some (v, d3 @ ?F, hd (d3 @ ?F) = CR)"
      using fieldValueLoop_fence_ex [of "97 # padding" d2] assms unfolding q(2) by auto
    have N: "consumeFieldName (fenced d padding) = Some (map lower_byte k, COLON # q)" using d(2) cq True by simp
    show ?thesis
    proof (cases "hd (d3 @ ?F) = CR")
      case False
      then show ?thesis using N v(2) P True lower_rel_name [of k "COLON # q"] by simp
    next
      case ok: True
      have "headerLoop (Suc n) (fenced d padding) e = after_value n e (map lower_byte k) v (d3 @ ?F)"
        using headerLoop_Suc [OF N] v(2) ok by simp
      moreover have "fenced d padding = k @ COLON # v @ d3 @ ?F" using P True q v by simp
      ultimately show ?thesis using after_value_safe [OF Suc.IH ok, of k v] by simp
    qed
  qed
qed simp

lemma consumeRequestLine_safe:
  assumes "6 \<le> length padding" and "e = length padding + 2"
  shows "\<exists>res. consumeRequestLine (fenced d padding) e = Some res \<and>
    (\<forall>h q. res = Line h q \<longrightarrow> (\<exists>d1 d2. d = d1 @ d2 \<and> q = fenced d2 padding))"
proof -
  let ?F = "CR # 97 # padding"
  have s: "scanWhile (\<lambda>b. schar b > 32) (d @ ?F) =
      Some (takeWhile (\<lambda>b. schar b > 32) d, dropWhile (\<lambda>b. schar b > 32) d @ ?F)"
    by (rule scanWhile_fence) simp
  define m d1 where "m = takeWhile (\<lambda>b. schar b > 32) d" and "d1 = dropWhile (\<lambda>b. schar b > 32) d"
  note s' = s [folded m_def d1_def]
  have d: "d = m @ d1" by (simp add: m_def d1_def)
  show ?thesis
  proof (cases d1)
    case Nil
    then show ?thesis using s' assms by (simp add: consumeRequestLine_def)
  next
    case (Cons c d2)
    note eq = s' [unfolded Cons]
    show ?thesis
    proof (cases "c = SP \<and> hd (d2 @ ?F) = SLASH \<and> length (d2 @ ?F) \<noteq> e")
      case False
      then show ?thesis using eq by (auto simp: consumeRequestLine_def)
    next
      case True
      define u r where "u = takeWhile (\<lambda>b. 33 \<le> unat b) d2" and "r = dropWhile (\<lambda>b. 33 \<le> unat b) d2"
      have b: "scanBelow 33 (d2 @ ?F) = Some (u, r @ ?F)"
        unfolding u_def r_def by (rule scanBelow_fence) (use assms(1) in simp_all)
      have d2: "d2 = u @ r" by (simp add: u_def r_def)
      have tr: "take 11 r = http_1_1 \<Longrightarrow> r = http_1_1 @ drop 11 r" by (metis append_take_drop_id)
      have "drop 11 (r @ ?F) = drop 11 r @ ?F" if "\<not> length (r @ ?F) \<le> e + 11" using that assms(2) by simp
      then show ?thesis using True eq b assms(2) d d2 Cons
        by (auto simp: consumeRequestLine_def Let_def intro!: exI [of _ "m @ SP # u @ take 11 r"] tr)
    qed
  qed
qed

lemma requestHead_safe:
  assumes "6 \<le> length padding" and "e = length padding + 2"
  shows "\<exists>res. requestHead (fenced d padding) e = Some res \<and> head_memory_ok (fenced d padding) res"
proof -
  let ?p = "fenced d padding"
  obtain lr where lr: "consumeRequestLine ?p e = Some lr"
    "\<And>h q. lr = Line h q \<Longrightarrow> \<exists>d1 d2. d = d1 @ d2 \<and> q = fenced d2 padding"
    using consumeRequestLine_safe [OF assms] by blast
  show ?thesis
  proof (cases lr)
    case (Line h q)
    then obtain d1 d2 where d: "d = d1 @ d2" "q = fenced d2 padding" using lr(2) by blast
    then obtain res where r: "headerLoop 98 q e = Some res" "head_memory_ok q res"
      using headerLoop_safe [OF assms(1)] by blast
    have "take (length ?p - length q) ?p = d1" using d by simp
    then show ?thesis using lr(1) Line r d lower_rel_append [OF lower_rel_refl [of d1], of q]
      by (cases res) (auto simp: requestHead_def UWS_HTTP_MAX_HEADERS_COUNT_def after_field_def)
  qed (use lr(1) in \<open>simp_all add: requestHead_def\<close>)
qed

section \<open>The head lies in front of the fence\<close>

text \<open>Every CR is followed by LF; so the CR of the fence cannot be part of a head.\<close>

fun crlf_closed :: "byte list \<Rightarrow> bool" where
  "crlf_closed [] = True"
| "crlf_closed [c] = (c \<noteq> CR)"
| "crlf_closed (c # d # p) = ((c = CR \<longrightarrow> d = LF) \<and> crlf_closed (d # p))"

lemma crlf_closed_Cons: "crlf_closed (c # p) \<Longrightarrow> crlf_closed p"
  by (cases p) auto

lemma crlf_closed_append: "crlf_closed p \<Longrightarrow> crlf_closed q \<Longrightarrow> crlf_closed (p @ q)"
proof (induction p rule: crlf_closed.induct)
  case (2 c)
  then show ?case by (cases q) auto
qed auto

lemma crlf_closed_no_CR: "CR \<notin> set p \<Longrightarrow> crlf_closed p"
  by (induction p rule: crlf_closed.induct) auto

lemma crlf_closed_fields: "list_all field_ok kvs \<Longrightarrow> crlf_closed (fields_bytes kvs)"
proof (induction kvs)
  case (Cons kv kvs)
  have "CR \<notin> set (fst kv @ COLON # snd kv)"
    using Cons.prems by (auto simp: field_ok_def list_all_iff)
  then have "crlf_closed ((fst kv @ COLON # snd kv) @ [CR, LF])"
    by (intro crlf_closed_append [OF crlf_closed_no_CR]) simp_all
  then have "crlf_closed (field_bytes kv)" by (simp add: field_bytes_def)
  with Cons show ?case by (simp add: fields_bytes_Cons crlf_closed_append)
qed (simp add: fields_bytes_def)

lemma crlf_closed_request:
  assumes "request_ok m u kvs"
  shows "crlf_closed (request_bytes m u kvs)"
proof -
  have "CR \<notin> set (m @ SP # u)" using assms by (auto simp: request_ok_def list_all_iff)
  then have "crlf_closed (m @ SP # u)" by (rule crlf_closed_no_CR)
  moreover have "crlf_closed http_1_1" by (simp add: http_1_1_def)
  moreover have "crlf_closed (fields_bytes kvs)" using assms by (simp add: request_ok_def crlf_closed_fields)
  ultimately have "crlf_closed ((m @ SP # u) @ http_1_1 @ fields_bytes kvs)" by (blast intro: crlf_closed_append)
  then show ?thesis by (simp add: request_bytes_def)
qed

lemma head_before_fence:
  "crlf_closed h \<Longrightarrow> h @ rest = fenced d padding \<Longrightarrow> \<exists>r. d = h @ r \<and> rest = fenced r padding"
proof (induction h arbitrary: d)
  case (Cons c h)
  have cl: "crlf_closed h" using Cons.prems(1) by (rule crlf_closed_Cons)
  show ?case
  proof (cases d)
    case Nil
    then have "c = CR" "h @ rest = 97 # padding" using Cons.prems(2) by simp_all
    then show ?thesis using Cons.prems(1) by (cases h) auto
  next
    case (Cons x d')
    then show ?thesis using Cons.IH [OF cl, of d'] \<open>(c # h) @ rest = fenced d padding\<close> by auto
  qed
qed auto

text \<open>
  Acceptance on a fenced buffer, in both directions. With a padding of 32 bytes, two of which hold
  the fence, \<open>length padding\<close> is 30.
\<close>

lemma requestHead_iff:
  assumes "6 \<le> length padding" and "e = length padding + 2"
  shows "requestHead (fenced d padding) e = Some (HeadDone hs rest) \<longleftrightarrow>
    (\<exists>m u kvs r. d = request_bytes m u kvs @ r \<and> rest = fenced r padding \<and> request_ok m u kvs \<and>
       hs = (m, u) # map field_header kvs)" (is "?L \<longleftrightarrow> ?R")
proof
  assume ?L
  then obtain m u kvs where g: "fenced d padding = request_bytes m u kvs @ rest" "request_ok m u kvs"
    "hs = (m, u) # map field_header kvs"
    using requestHead_done by blast
  from head_before_fence [OF crlf_closed_request [OF g(2)] g(1) [symmetric]] g show ?R by blast
next
  assume ?R
  then obtain m u kvs r where g: "d = request_bytes m u kvs @ r" "rest = fenced r padding" "request_ok m u kvs"
    "hs = (m, u) # map field_header kvs" by blast
  from requestHead_complete [OF g(3), of e rest] g assms show ?L by simp
qed

section \<open>Heads in fragments\<close>

text \<open>Lower-casing letters of field names does not change whether a head is complete, nor its size.\<close>

lemma lower_byte_tchar: "tchar (lower_byte b) \<longleftrightarrow> tchar b"
  by (auto simp: tchar_iff lower_byte_def unat_word_ariths)

lemma unat_lower_byte: "unat (lower_byte b) = (if 65 \<le> unat b \<and> unat b \<le> 90 then unat b + 32 else unat b)"
  by (simp add: lower_byte_def unat_word_ariths)

lemma lower_rel_appendD:
  "lower_rel p (xs @ ys) \<Longrightarrow> \<exists>xs' ys'. p = xs' @ ys' \<and> lower_rel xs' xs \<and> lower_rel ys' ys"
  unfolding lower_rel_def by (auto simp: list_all2_append2)

lemma lower_rel_ConsD:
  "lower_rel p (y # ys) \<Longrightarrow> \<exists>x xs. p = x # xs \<and> (y = x \<or> y = lower_byte x) \<and> lower_rel xs ys"
  unfolding lower_rel_def by (auto simp: list_all2_Cons2)

lemma lower_rel_class:
  assumes "\<And>x. P (lower_byte x) \<Longrightarrow> P x"
  shows "lower_rel p q \<Longrightarrow> list_all P q \<Longrightarrow> list_all P p"
  unfolding lower_rel_def by (induction p q rule: list_all2_induct) (auto dest: assms)

lemma lower_rel_fixed:
  "lower_rel p q \<Longrightarrow> list_all (\<lambda>b. unat b < 97) q \<Longrightarrow> p = q"
  unfolding lower_rel_def
proof (induction p q rule: list_all2_induct)
  case (Cons x xs y ys)
  then have "unat x < 97 \<or> y = lower_byte x" by auto
  then have "x = y" using Cons by (auto simp: lower_byte_def unat_word_ariths split: if_splits)
  with Cons show ?case by simp
qed simp

lemma schar_gt_32_lower: "schar (lower_byte x) > 32 \<Longrightarrow> schar x > 32"
  by (simp add: schar_greater_32 unat_lower_byte split: if_splits)

lemma field_unlower:
  assumes "lower_rel p (field_bytes kv)" and "field_ok kv"
  shows "\<exists>kv'. p = field_bytes kv' \<and> field_ok kv'"
proof -
  obtain k v where kv: "kv = (k, v)" by fastforce
  have ok: "list_all tchar k" "list_all value_byte v" using assms(2) by (simp_all add: kv field_ok_iff)
  from assms(1) obtain k' v' where p: "p = k' @ [COLON] @ v' @ [CR, LF]" "lower_rel k' k" "lower_rel v' v"
    unfolding kv field_bytes_def
    by (fastforce dest!: lower_rel_appendD lower_rel_ConsD [of _ COLON]
        dest: lower_rel_fixed [of _ "[CR, LF]"] lower_rel_fixed [of "[_]" "[COLON]"]
        simp: lower_byte_def unat_word_ariths split: if_splits)
  have "list_all tchar k'" by (rule lower_rel_class [OF _ p(2) ok(1)]) (simp add: lower_byte_tchar)
  moreover have "list_all value_byte v'"
    by (rule lower_rel_class [OF _ p(3) ok(2)])
      (auto simp: value_byte_def unat_lower_byte byte_eq_iff split: if_splits)
  ultimately show ?thesis using p(1) by (intro exI [of _ "(k', v')"]) (simp add: field_bytes_def field_ok_iff)
qed

lemma fields_unlower:
  "lower_rel p (fields_bytes kvs) \<Longrightarrow> list_all field_ok kvs \<Longrightarrow>
   \<exists>kvs'. p = fields_bytes kvs' \<and> list_all field_ok kvs' \<and> length kvs' = length kvs"
proof (induction kvs arbitrary: p)
  case Nil
  then have "p = [CR, LF]" by (intro lower_rel_fixed) (simp_all add: fields_bytes_def)
  then show ?case by (intro exI [of _ "[]"]) (simp add: fields_bytes_def)
next
  case (Cons kv kvs)
  then obtain p1 p2 where p: "p = p1 @ p2" "lower_rel p1 (field_bytes kv)" "lower_rel p2 (fields_bytes kvs)"
    unfolding fields_bytes_Cons using lower_rel_appendD by blast
  obtain kv' where kv': "p1 = field_bytes kv'" "field_ok kv'" using field_unlower [OF p(2)] Cons.prems(2) by auto
  obtain kvs' where "p2 = fields_bytes kvs'" "list_all field_ok kvs'" "length kvs' = length kvs"
    using Cons.IH [OF p(3)] Cons.prems(2) by auto
  with p kv' show ?case by (intro exI [of _ "kv' # kvs'"]) (simp add: fields_bytes_Cons)
qed

lemma request_unlower:
  assumes "lower_rel p (request_bytes m u kvs)" and "request_ok m u kvs"
  shows "\<exists>m' u' kvs'. p = request_bytes m' u' kvs' \<and> request_ok m' u' kvs'"
proof -
  have "request_bytes m u kvs = m @ [SP] @ u @ http_1_1 @ fields_bytes kvs" by (simp add: request_bytes_def)
  then have "lower_rel p (m @ [SP] @ u @ http_1_1 @ fields_bytes kvs)" using assms(1) by simp
  then obtain m' q1 where 1: "p = m' @ q1" "lower_rel m' m" "lower_rel q1 ([SP] @ u @ http_1_1 @ fields_bytes kvs)"
    using lower_rel_appendD by blast
  obtain s' q2 where 2: "q1 = s' @ q2" "lower_rel s' [SP]" "lower_rel q2 (u @ http_1_1 @ fields_bytes kvs)"
    using lower_rel_appendD [OF 1(3)] by blast
  obtain u' q3 where 3: "q2 = u' @ q3" "lower_rel u' u" "lower_rel q3 (http_1_1 @ fields_bytes kvs)"
    using lower_rel_appendD [OF 2(3)] by blast
  obtain h' f' where 4: "q3 = h' @ f'" "lower_rel h' http_1_1" "lower_rel f' (fields_bytes kvs)"
    using lower_rel_appendD [OF 3(3)] by blast
  have p: "p = m' @ s' @ u' @ h' @ f'" using 1 2 3 4 by simp
  note r = 1(2) 2(2) 3(2) 4(2,3)
  have s: "s' = [SP]" by (rule lower_rel_fixed [OF r(2)]) simp
  have h: "h' = http_1_1" by (rule lower_rel_fixed [OF r(4)]) (simp add: http_1_1_def)
  have ok: "list_all (\<lambda>b. schar b > 32) m" "list_all (\<lambda>b. 33 \<le> unat b) u" "list_all field_ok kvs"
    using assms(2) by (simp_all add: request_ok_def)
  obtain kvs' where f: "f' = fields_bytes kvs'" "list_all field_ok kvs'" "length kvs' = length kvs"
    using fields_unlower [OF r(5) ok(3)] by blast
  have "list_all (\<lambda>b. schar b > 32) m'" by (rule lower_rel_class [OF schar_gt_32_lower r(1) ok(1)])
  moreover have "list_all (\<lambda>b. 33 \<le> unat b) u'"
    by (rule lower_rel_class [OF _ r(3) ok(2)]) (simp add: unat_lower_byte split: if_splits)
  moreover have "u' \<noteq> [] \<and> hd u' = SLASH"
  proof -
    obtain u2 where "u = SLASH # u2" using assms(2) by (cases u) (auto simp: request_ok_def)
    then obtain x xs where x: "u' = x # xs" "SLASH = x \<or> SLASH = lower_byte x"
      using lower_rel_ConsD [of u' SLASH u2] r(3) by auto
    then have "x = SLASH" by (auto simp: lower_byte_def byte_eq_iff unat_word_ariths split: if_splits)
    with x show ?thesis by simp
  qed
  ultimately have "request_ok m' u' kvs'" using assms(2) f by (auto simp: request_ok_def)
  with p s h f show ?thesis by (intro exI [of _ m'] exI [of _ u'] exI [of _ kvs']) (simp add: request_bytes_def)
qed

section \<open>With a proxy in front\<close>

text \<open>
  \<open>head_in proxied d off h\<close>: the data \<open>d\<close> starts with a proxy preamble of \<open>off\<close> bytes (none if
  the build has no proxy support) and then a complete request head \<open>h\<close>.
\<close>

definition preamble :: "bool \<Rightarrow> byte list \<Rightarrow> nat \<Rightarrow> bool" where
  "preamble proxied d off \<longleftrightarrow>
     (if proxied then fst (proxy_parse \<lparr>addr = [], family = 0\<rparr> d) = (True, off) else off = 0)"

definition request_head :: "byte list \<Rightarrow> bool" where
  "request_head h \<longleftrightarrow> (\<exists>m u kvs. h = request_bytes m u kvs \<and> request_ok m u kvs)"

definition head_in :: "bool \<Rightarrow> byte list \<Rightarrow> nat \<Rightarrow> byte list \<Rightarrow> byte list \<Rightarrow> bool" where
  "head_in proxied d off h r \<longleftrightarrow> preamble proxied d off \<and> off \<le> length d \<and> drop off d = h @ r \<and> request_head h"

lemma request_head_length: "request_head h \<Longrightarrow> 16 \<le> length h"
proof -
  assume "request_head h"
  then obtain m u kvs where h: "h = request_bytes m u kvs" "kvs \<noteq> []" "u \<noteq> []"
    by (auto simp: request_head_def request_ok_def)
  have "5 \<le> length (fields_bytes kvs)"
    using h(2) by (cases kvs) (simp_all add: fields_bytes_Cons fields_bytes_def field_bytes_def)
  moreover have "length http_1_1 = 11" by (simp add: http_1_1_def)
  ultimately show ?thesis by (simp add: h(1) request_bytes_def)
qed

lemma head_in_prefix:
  assumes "head_in proxied (d @ x) off h r" and "off + length h \<le> length d"
  shows "\<exists>r'. head_in proxied d off h r'"
proof -
  have h: "request_head h" "preamble proxied (d @ x) off" "drop off (d @ x) = h @ r"
    using assms(1) by (simp_all add: head_in_def)
  have "4 \<le> length d" "off \<le> length d" using request_head_length [OF h(1)] assms(2) by simp_all
  then have "preamble proxied d off"
    using h(2) proxy_parse_local [of "\<lparr>addr = [], family = 0\<rparr>" d x off "\<lparr>addr = [], family = 0\<rparr>" "[]"]
    by (simp add: preamble_def)
  moreover have "drop off d = h @ drop (length h) (drop off d)"
  proof -
    have "drop off d @ x = h @ r" using h(3) \<open>off \<le> length d\<close> by simp
    then have "take (length h) (drop off d @ x) = h" by simp
    then have "take (length h) (drop off d) = h" using assms(2) by simp
    then show ?thesis by (metis append_take_drop_id)
  qed
  ultimately show ?thesis using h \<open>off \<le> length d\<close> by (auto simp: head_in_def)
qed

lemma head_in_lower:
  assumes "preamble proxied d off" and "off \<le> length d" and "lower_rel (drop off d) t"
    and "head_in proxied (take off d @ t) off2 h r"
  shows "\<exists>h r. head_in proxied d off h r"
proof -
  have l: "length t = length d - off" using lower_rel_length [OF assms(3)] by simp
  have "off2 = off"
  proof (cases "proxied \<and> off \<noteq> 0")
    case True
    then have o: "fst (proxy_parse \<lparr>addr = [], family = 0\<rparr> (take off d @ drop off d)) = (True, off)"
      using assms(1) by (simp add: preamble_def)
    then have "4 \<le> off" using True by (auto simp: proxy_parse_def Let_def split: if_splits)
    then have "fst (proxy_parse \<lparr>addr = [], family = 0\<rparr> (take off d @ t)) = (True, off)"
      using proxy_parse_local [OF o, of _ t] assms(2) by simp
    then show ?thesis using assms(4) True by (simp add: head_in_def preamble_def)
  next
    case False
    show ?thesis
    proof (cases proxied)
      case True
      then have off: "off = 0" using False by simp
      then have d: "4 \<le> length d" "take 4 d \<noteq> [CR, LF, CR, LF]"
        using assms(1) True by (auto simp: preamble_def proxy_parse_def Let_def split: if_splits)
      have "lower_rel (take 4 d) (take 4 t)" using assms(3) off by (simp add: lower_rel_def list_all2_takeI)
      then have "take 4 t \<noteq> [CR, LF, CR, LF]" using d(2) lower_rel_fixed [of "take 4 d" "[CR, LF, CR, LF]"] by auto
      then show ?thesis using assms(4) True off l d(1)
        by (auto simp: head_in_def preamble_def proxy_parse_def split: if_splits)
    next
      case no: False
      then show ?thesis using assms(1,4) by (simp add: head_in_def preamble_def)
    qed
  qed
  then have t: "t = h @ r" "request_head h" using assms(2,4) by (simp_all add: head_in_def)
  then obtain a b where ab: "drop off d = a @ b" "lower_rel a h" using lower_rel_appendD assms(3) by blast
  then have "request_head a" using request_unlower t(2) unfolding request_head_def by blast
  with ab assms(1,2) show ?thesis by (auto simp: head_in_def)
qed

text \<open>\<open>getHeaders\<close> on a fenced buffer, with or without a proxy parser.\<close>

definition proxied_of :: "ProxyParser option \<Rightarrow> bool" where
  "proxied_of reserved \<longleftrightarrow> reserved \<noteq> None"

lemma getHeaders_done:
  assumes "getHeaders (fenced d padding) (length padding + 2) reserved = Some (HeadDone hs rest, reserved')"
    and "6 \<le> length padding"
  shows "\<exists>off h r. head_in (proxied_of reserved) d off h r \<and> rest = fenced r padding \<and>
    (\<exists>m u kvs. h = request_bytes m u kvs \<and> request_ok m u kvs \<and> hs = (m, u) # map field_header kvs) \<and>
    length d = off + length h + length r \<and> proxied_of reserved' = proxied_of reserved"
proof (cases reserved)
  case None
  then have "requestHead (fenced d padding) (length padding + 2) = Some (HeadDone hs rest)" "reserved' = None"
    using assms(1) by (auto simp: getHeaders_def)
  with iffD1 [OF requestHead_iff [OF assms(2) refl]] None show ?thesis
    by (fastforce simp: head_in_def preamble_def request_head_def proxied_of_def)
next
  case (Some pp)
  obtain ok off pp' where pr: "proxy_parse pp d = ((ok, off), pp')" by (metis prod.collapse)
  have le: "off \<le> length d" using proxy_parse_consumed [OF pr] by simp
  have ok: ok "reserved' = Some pp'" using assms(1) Some pr
    by (auto simp: getHeaders_def split: bool.splits)
  have "requestHead (fenced (drop off d) padding) (length padding + 2) = Some (HeadDone hs rest)"
  proof -
    obtain z where "requestHead (fenced (drop off d) padding) (length padding + 2) = Some z"
      "(case z of HeadDone hs rest \<Rightarrow> HeadDone hs rest
        | HeadFail err memory \<Rightarrow> HeadFail err (take off (fenced d padding) @ memory)) = HeadDone hs rest"
      using assms(1) Some pr ok le by (auto simp: getHeaders_def)
    then show ?thesis by (cases z) auto
  qed
  from iffD1 [OF requestHead_iff [OF assms(2) refl] this] obtain m u kvs r where
    g: "drop off d = request_bytes m u kvs @ r" "rest = fenced r padding" "request_ok m u kvs"
      "hs = (m, u) # map field_header kvs" by blast
  have "preamble True d off" unfolding preamble_def
    using pr ok proxy_parse_outcome [of pp d "\<lparr>addr = [], family = 0\<rparr>"] by simp
  moreover have "length d = off + length (request_bytes m u kvs) + length r"
    using arg_cong [OF g(1), of length] le by simp
  ultimately show ?thesis using g Some ok le
    by (intro exI [of _ off] exI [of _ "request_bytes m u kvs"] exI [of _ r])
      (auto simp: head_in_def request_head_def proxied_of_def)
qed

lemma getHeaders_complete:
  assumes "head_in (proxied_of reserved) d off h r" and "6 \<le> length padding"
  shows "\<exists>hs rest reserved'. getHeaders (fenced d padding) (length padding + 2) reserved = Some (HeadDone hs rest, reserved')"
proof -
  obtain m u kvs where h: "drop off d = request_bytes m u kvs @ r" "request_ok m u kvs" "off \<le> length d"
    "preamble (proxied_of reserved) d off"
    using assms(1) by (auto simp: head_in_def request_head_def)
  have R: "requestHead (fenced (drop off d) padding) (length padding + 2) =
      Some (HeadDone ((m, u) # map field_header kvs) (fenced r padding))"
    using iffD2 [OF requestHead_iff [OF assms(2) refl]] h by blast
  show ?thesis
  proof (cases reserved)
    case None
    then show ?thesis using R h by (simp add: getHeaders_def preamble_def proxied_of_def)
  next
    case (Some pp)
    then obtain pp' where "proxy_parse pp d = ((True, off), pp')"
      using h(4) proxy_parse_outcome [of pp d "\<lparr>addr = [], family = 0\<rparr>"]
      by (cases "proxy_parse pp d") (auto simp: preamble_def proxied_of_def)
    then show ?thesis using Some R h(3) by (simp add: getHeaders_def)
  qed
qed

lemma getHeaders_safe:
  assumes "6 \<le> length padding"
  shows "\<exists>res reserved'. getHeaders (fenced d padding) (length padding + 2) reserved = Some (res, reserved') \<and>
    proxied_of reserved' = proxied_of reserved \<and>
    (case res of
       HeadDone hs rest \<Rightarrow> True
     | HeadFail err memory \<Rightarrow> length memory = length d + length padding + 2 \<and>
         (\<exists>off t. (preamble (proxied_of reserved) d off \<or> off = length d) \<and> off \<le> length d \<and>
            take (length d) memory = take off d @ t \<and> lower_rel (drop off d) t))"
proof -
  have lr: "length memory = length d' + length padding + 2 \<and> lower_rel d' (take (length d') memory)"
    if "lower_rel (fenced d' padding) memory" for d' memory
  proof -
    have "lower_rel (take (length d') (fenced d' padding)) (take (length d') memory)"
      using that unfolding lower_rel_def by (rule list_all2_takeI)
    then show ?thesis using lower_rel_length [OF that] by simp
  qed
  show ?thesis
  proof (cases reserved)
    case None
    obtain res where r: "requestHead (fenced d padding) (length padding + 2) = Some res"
      "head_memory_ok (fenced d padding) res"
      using requestHead_safe [OF assms refl] by blast
    show ?thesis
    proof (cases res)
      case (HeadFail err memory)
      then have "lower_rel d (take (length d) memory)" "length memory = length d + length padding + 2"
        using lr r(2) by auto
      then show ?thesis using None HeadFail r(1)
        by (auto simp: getHeaders_def proxied_of_def preamble_def intro!: exI [of _ 0])
    qed (use None r in \<open>simp add: getHeaders_def proxied_of_def\<close>)
  next
    case (Some pp)
    obtain ok off pp' where pr: "proxy_parse pp d = ((ok, off), pp')" by (metis prod.collapse)
    show ?thesis
    proof (cases ok)
      case False
      then show ?thesis using Some pr
        by (auto simp: getHeaders_def proxied_of_def lower_rel_def intro!: exI [of _ "length d"])
    next
      case True
      have le: "off \<le> length d" using proxy_parse_consumed [OF pr] by simp
      have pre: "preamble True d off" unfolding preamble_def
        using pr True proxy_parse_outcome [of pp d "\<lparr>addr = [], family = 0\<rparr>"] by simp
      obtain res where r: "requestHead (fenced (drop off d) padding) (length padding + 2) = Some res"
        "head_memory_ok (fenced (drop off d) padding) res"
        using requestHead_safe [OF assms refl] by blast
      show ?thesis
      proof (cases res)
        case (HeadFail err memory)
        then have m: "lower_rel (drop off d) (take (length d - off) memory)"
          "length memory = length (drop off d) + length padding + 2"
          using lr [of "drop off d" memory] r(2) by auto
        then show ?thesis using Some True HeadFail r(1) pr pre le
          by (auto simp: getHeaders_def proxied_of_def intro!: exI [of _ off])
      qed (use Some pr True r le in \<open>simp add: getHeaders_def proxied_of_def\<close>)
    qed
  qed
qed

section \<open>Properties\<close>

text \<open>C11: Parsing a request head never reads outside the receive buffer: on data with the CR fence and
  at least eight bytes behind its end (the caller guarantees 32), whatever the bytes, every load
  and every comparison is inside the buffer; on success the head is a non-empty prefix of the
  data and the rest of memory is untouched, on failure memory has kept its size.\<close>

theorem head_memory_safe:
  assumes "6 \<le> length padding"
  shows "\<exists>res reserved'. getHeaders (fenced d padding) (length padding + 2) reserved = Some (res, reserved') \<and>
    (case res of
       HeadDone hs rest \<Rightarrow> \<exists>h r. d = h @ r \<and> h \<noteq> [] \<and> rest = fenced r padding
     | HeadFail err memory \<Rightarrow> length memory = length (fenced d padding))"
proof -
  obtain res reserved' where g: "getHeaders (fenced d padding) (length padding + 2) reserved = Some (res, reserved')"
    "case res of HeadDone hs rest \<Rightarrow> True
     | HeadFail err memory \<Rightarrow> length memory = length d + length padding + 2 \<and>
         (\<exists>off t. (preamble (proxied_of reserved) d off \<or> off = length d) \<and> off \<le> length d \<and>
            take (length d) memory = take off d @ t \<and> lower_rel (drop off d) t)"
    using getHeaders_safe [OF assms, of d reserved] by blast
  show ?thesis
  proof (cases res)
    case (HeadDone hs rest)
    with getHeaders_done [OF _ assms] g(1) obtain off h r where h: "head_in (proxied_of reserved) d off h r"
      "rest = fenced r padding"
      by blast
    have "d = (take off d @ h) @ r" using h(1) unfolding head_in_def by (metis append.assoc append_take_drop_id)
    moreover have "h \<noteq> []" using h(1) request_head_length [of h] by (auto simp: head_in_def)
    ultimately have "d = (take off d @ h) @ r \<and> take off d @ h \<noteq> [] \<and> rest = fenced r padding"
      using h(2) by simp
    then have "\<exists>h r. d = h @ r \<and> h \<noteq> [] \<and> rest = fenced r padding" by (intro exI)
    then have "case res of HeadDone hs rest \<Rightarrow> \<exists>h r. d = h @ r \<and> h \<noteq> [] \<and> rest = fenced r padding
        | HeadFail err memory \<Rightarrow> length memory = length (fenced d padding)"
      unfolding HeadDone head_result.case .
    with g(1) show ?thesis by (intro exI conjI)
  qed (use g in auto)
qed

theorem head_memory_safe_witness:
  "\<exists>res reserved'. getHeaders (fenced [71, 69] [1, 2, 3, 4, 5, 6]) (length [1 :: byte, 2, 3, 4, 5, 6] + 2) None = Some (res, reserved') \<and>
    (case res of
       HeadDone hs rest \<Rightarrow> \<exists>h r. [71, 69] = h @ r \<and> h \<noteq> [] \<and> rest = fenced r [1, 2, 3, 4, 5, 6]
     | HeadFail err memory \<Rightarrow> length memory = length (fenced [71, 69] [1, 2, 3, 4, 5, 6]))"
  by (rule head_memory_safe) simp



text \<open>
  A field name may be empty. \<open>HttpRequest\<close> iterates up to the first empty name, which it takes for
  the end of the array, so such a line hides all lines behind it. Trimming compares the value's
  bytes as signed: it also removes bytes from 128 on, that is, any UTF-8 text at either end.
\<close>

lemma empty_name_accepted: "field_ok ([], [])"
  by (simp add: field_ok_def)

lemma trim_removes_text: "trim_value [32, 0xC3, 0xA9, 97, 0xC3, 0xA9] = [97]"
  by (simp add: trim_value_def schar_less_iff)

end
