(* ===== verification/Http_Parser.thy ===== *)
theory Http_Parser
  imports Uws_Prelude Bloom_Filter Chunked_Encoding Query_Parser Http_Scan Http_Head
begin

text \<open>
  \<open>HttpRequest\<close> and the streaming part of \<open>HttpParser\<close> in \<open>src/src/HttpParser.h\<close>: what is kept between
  reads (the fallback buffer and the length of the body that is still to come), and the calls out
  to the request and data handlers. A handler is a function from its arguments and an
  application state to the pointer it returns and the new state; pointers are \<open>u64\<close> values.

  Views into the head are copies: the handler may lower-case the method and decode query values in
  place, but only inside the head, which the parser does not read again.

  The lemmas: the parser state stays well formed over all reads, whatever the bytes; no read is out
  of bounds and no counter underflows; every request the handler sees has exactly one host and not
  both body framings; the Bloom filter does not change what a header lookup finds.
\<close>

section \<open>HttpRequest\<close>

record HttpRequest =
  headers :: "Header list"
  ancientHttp :: bool
  querySeparator :: nat
  didYield :: bool
  bf :: bitset256
  currentParameters :: "int \<times> byte list list"
  currentParameterOffsets :: "(byte list \<times> nat) list option"

definition isAncient :: "HttpRequest \<Rightarrow> bool" where "isAncient req = ancientHttp req"
definition getYield :: "HttpRequest \<Rightarrow> bool" where "getYield req = didYield req"
definition setYield :: "bool \<Rightarrow> HttpRequest \<Rightarrow> HttpRequest" where "setYield yield req = req\<lparr>didYield := yield\<rparr>"

text \<open>What \<open>HeaderIterator\<close> and the loops \<open>for (h = headers; (++h)->key.length(); )\<close> pass over.\<close>

definition header_iter :: "Header list \<Rightarrow> Header list" where
  "header_iter hs = takeWhile (\<lambda>h. fst h \<noteq> []) (tl hs)"

text \<open>Names are tokens, without a zero byte, so equal length and \<open>strncmp\<close> is equality.\<close>

definition find_header :: "Header list \<Rightarrow> byte list \<Rightarrow> byte list option" where
  "find_header hs key = map_option snd (find (\<lambda>h. fst h = key) (header_iter hs))"

definition getHeader :: "HttpRequest \<Rightarrow> byte list \<Rightarrow> byte list option" where
  "getHeader req lowerCasedHeader =
     (if mightHave (bf req) lowerCasedHeader then find_header (headers req) lowerCasedHeader else None)"

definition view :: "byte list option \<Rightarrow> byte list" where
  "view v = (case v of None \<Rightarrow> [] | Some b \<Rightarrow> b)"

definition getUrl :: "HttpRequest \<Rightarrow> byte list" where
  "getUrl req = take (querySeparator req) (snd (hd (headers req)))"

definition getFullUrl :: "HttpRequest \<Rightarrow> byte list" where
  "getFullUrl req = snd (hd (headers req))"

definition getCaseSensitiveMethod :: "HttpRequest \<Rightarrow> byte list" where
  "getCaseSensitiveMethod req = fst (hd (headers req))"

definition getMethod :: "HttpRequest \<Rightarrow> byte list \<times> HttpRequest" where
  "getMethod req =
     (let m = map (\<lambda>b. b OR 32) (fst (hd (headers req))) in
      (m, req\<lparr>headers := (m, snd (hd (headers req))) # tl (headers req)\<rparr>))"

definition getQuery :: "HttpRequest \<Rightarrow> byte list option" where
  "getQuery req =
     (let value = snd (hd (headers req)) in
      if querySeparator req < length value then Some (drop (querySeparator req + 1) value) else None)"

definition getQuery_key :: "HttpRequest \<Rightarrow> byte list \<Rightarrow> byte list option \<times> HttpRequest" where
  "getQuery_key req key =
     (let value = snd (hd (headers req)) in
      case getDecodedQueryValue key (drop (querySeparator req) value) of (result, query) \<Rightarrow>
        (result, req\<lparr>headers := (fst (hd (headers req)), take (querySeparator req) value @ query) # tl (headers req)\<rparr>))"

definition setParameters :: "int \<times> byte list list \<Rightarrow> HttpRequest \<Rightarrow> HttpRequest" where
  "setParameters parameters req = req\<lparr>currentParameters := parameters\<rparr>"

definition setParameterOffsets :: "(byte list \<times> nat) list option \<Rightarrow> HttpRequest \<Rightarrow> HttpRequest" where
  "setParameterOffsets offsets req = req\<lparr>currentParameterOffsets := offsets\<rparr>"

definition getParameter_index :: "HttpRequest \<Rightarrow> nat \<Rightarrow> byte list option" where
  "getParameter_index req index =
     (if fst (currentParameters req) < int index then None else Some (snd (currentParameters req) ! index))"

definition getParameter :: "HttpRequest \<Rightarrow> byte list \<Rightarrow> byte list option" where
  "getParameter req name =
     (case currentParameterOffsets req of
        None \<Rightarrow> None
      | Some offsets \<Rightarrow>
          (case map_of offsets name of None \<Rightarrow> None | Some index \<Rightarrow> getParameter_index req index))"

section \<open>The parser\<close>

text \<open>The default of \<open>UWS_HTTP_MAX_HEADERS_SIZE\<close>.\<close>

definition MAX_FALLBACK_SIZE :: nat where "MAX_FALLBACK_SIZE = 4096"
definition MINIMUM_HTTP_POST_PADDING :: nat where "MINIMUM_HTTP_POST_PADDING = 32"
definition FULLPTR :: u64 where "FULLPTR = NOT 0"

record HttpParser =
  fallback :: "byte list"
  remainingStreamingBytes :: u64

type_synonym 's request_handler = "u64 \<Rightarrow> HttpRequest \<Rightarrow> 's \<Rightarrow> u64 \<times> 's"
type_synonym 's data_handler = "u64 \<Rightarrow> byte list \<Rightarrow> bool \<Rightarrow> 's \<Rightarrow> u64 \<times> 's"

definition maxRemainingBodyLength :: "HttpParser \<Rightarrow> u64" where
  "maxRemainingBodyLength parser =
     (if isParsingChunkedEncoding (remainingStreamingBytes parser) then UINT64_MAX
      else remainingStreamingBytes parser)"

text \<open>The loop that fills the filter; \<open>None\<close> is the return for a second host.\<close>

definition str_host :: "byte list" where "str_host = bytes ''host''"
definition str_transfer_encoding :: "byte list" where "str_transfer_encoding = bytes ''transfer-encoding''"
definition str_content_length :: "byte list" where "str_content_length = bytes ''content-length''"

fun addHeaders :: "Header list \<Rightarrow> HttpRequest \<Rightarrow> HttpRequest option" where
  "addHeaders [] req = Some req"
| "addHeaders (h # hs) req =
     (if mightHave (bf req) (fst h) \<and> fst h = str_host \<and> getHeader req str_host \<noteq> None then None
      else addHeaders hs (req\<lparr>bf := bloom_add (fst h) (bf req)\<rparr>))"

definition emitChunks :: "'s data_handler \<Rightarrow> u64 \<Rightarrow> byte list list \<Rightarrow> 's \<Rightarrow> 's" where
  "emitChunks dataHandler user chunks s = fold (\<lambda>chunk s. snd (dataHandler user chunk (chunk = []) s)) chunks s"

text \<open>
  The loop of \<open>fenceAndConsumePostPadded\<close>; \<open>p\<close> is memory from \<open>data\<close> on, and \<open>end\<close> is
  \<open>data + length\<close>. The result: the pair the function returns, the parser, memory from the place
  after what was consumed, the proxy parser and the application state.
\<close>

type_synonym 's fence_result = "(nat \<times> u64) \<times> HttpParser \<times> byte list \<times> ProxyParser option \<times> 's"

definition check_request :: "Header list \<Rightarrow> HttpRequest \<Rightarrow> HttpRequest option" where
  "check_request hs req =
     (case addHeaders (header_iter hs) (req\<lparr>headers := hs, ancientHttp := False, bf := bloom_reset\<rparr>) of
        None \<Rightarrow> None
      | Some req \<Rightarrow>
          if getHeader req str_host = None then None
          else if view (getHeader req str_transfer_encoding) \<noteq> [] \<and> view (getHeader req str_content_length) \<noteq> []
          then None
          else Some (req\<lparr>querySeparator := (case find_byte 63 (snd (hd hs)) of
                              None \<Rightarrow> length (snd (hd hs)) | Some i \<Rightarrow> i)\<rparr>))"

lemma getHeaders_shorter:
  assumes "getHeaders p e reserved = Some (HeadDone hs rest, reserved')"
  shows "length rest < length p"
proof -
  have S: "length rest < length q" if "requestHead q e = Some (HeadDone hs rest)" for q
    using requestHead_done [OF that] by (auto simp: request_bytes_def)
  show ?thesis
  proof (cases reserved)
    case None
    then show ?thesis using assms S by (auto simp: getHeaders_def)
  next
    case (Some pp)
    obtain ok off pp' where pr: "proxy_parse pp (take (length p - e) p) = ((ok, off), pp')"
      by (metis prod.collapse)
    obtain z where "requestHead (drop off p) e = Some z"
      "(case z of HeadDone hs rest \<Rightarrow> HeadDone hs rest
        | HeadFail err memory \<Rightarrow> HeadFail err (take off p @ memory)) = HeadDone hs rest"
      using assms Some pr by (auto simp: getHeaders_def split: bool.splits)
    then have "requestHead (drop off p) e = Some (HeadDone hs rest)" by (cases z) auto
    from S [OF this] show ?thesis by simp
  qed
qed

function fenceLoop ::
  "bool \<Rightarrow> 's request_handler \<Rightarrow> 's data_handler \<Rightarrow> u64 \<Rightarrow> byte list \<Rightarrow> nat \<Rightarrow> nat \<Rightarrow>
   ProxyParser option \<Rightarrow> HttpRequest \<Rightarrow> HttpParser \<Rightarrow> 's \<Rightarrow> 's fence_result option" where
  "fenceLoop CONSUME_MINIMALLY rh dh user p len consumedTotal reserved req parser s =
     (if len = 0 then Some ((consumedTotal, user), parser, p, reserved, s)
      else
        (case getHeaders p (length p - len) reserved of
           None \<Rightarrow> None
         | Some (HeadFail err memory, reserved) \<Rightarrow>
             Some (if err \<noteq> 0 then (err, FULLPTR) else (consumedTotal, user), parser, memory, reserved, s)
         | Some (HeadDone hs rest, reserved) \<Rightarrow>
             (let consumed = length p - length rest; len = len - consumed;
                  consumedTotal = consumedTotal + consumed
              in
              if consumed > MAX_FALLBACK_SIZE then
                Some ((HTTP_ERROR_431_REQUEST_HEADER_FIELDS_TOO_LARGE, FULLPTR), parser, rest, reserved, s)
              else
                (case check_request hs req of
                   None \<Rightarrow> Some ((HTTP_ERROR_400_BAD_REQUEST, FULLPTR), parser, rest, reserved, s)
                 | Some req \<Rightarrow>
                     (case rh user req s of (returnedUser, s) \<Rightarrow>
                        if returnedUser \<noteq> user then Some ((consumedTotal, returnedUser), parser, rest, reserved, s)
                        else if view (getHeader req str_transfer_encoding) \<noteq> [] then
                          (if CONSUME_MINIMALLY then
                             Some ((consumedTotal, user), parser\<lparr>remainingStreamingBytes := STATE_IS_CHUNKED\<rparr>,
                                   rest, reserved, s)
                           else
                             (case chunkLoop (take len rest) STATE_IS_CHUNKED False of (chunks, left, state) \<Rightarrow>
                                (let s = emitChunks dh user chunks s;
                                     parser = parser\<lparr>remainingStreamingBytes := state\<rparr>
                                 in
                                 if isParsingInvalidChunkedEncoding state then
                                   Some ((HTTP_ERROR_400_BAD_REQUEST, FULLPTR), parser, rest, reserved, s)
                                 else fenceLoop CONSUME_MINIMALLY rh dh user (drop (len - length left) rest)
                                        (length left) (consumedTotal + (len - length left)) reserved req parser s)))
                        else if view (getHeader req str_content_length) \<noteq> [] then
                          (let n = toUnsignedInteger (view (getHeader req str_content_length));
                               parser = parser\<lparr>remainingStreamingBytes := n\<rparr>
                           in
                           if n = UINT64_MAX then
                             Some ((HTTP_ERROR_400_BAD_REQUEST, FULLPTR), parser, rest, reserved, s)
                           else if CONSUME_MINIMALLY then Some ((consumedTotal, user), parser, rest, reserved, s)
                           else
                             (let emittable = min (unat n) len;
                                  s = snd (dh user (take emittable rest) (emittable = unat n) s);
                                  parser = parser\<lparr>remainingStreamingBytes := n - of_nat emittable\<rparr>
                              in fenceLoop CONSUME_MINIMALLY rh dh user (drop emittable rest) (len - emittable)
                                   (consumedTotal + emittable) reserved req parser s))
                        else
                          (let s = snd (dh user [] True s) in
                           if CONSUME_MINIMALLY then Some ((consumedTotal, user), parser, rest, reserved, s)
                           else fenceLoop CONSUME_MINIMALLY rh dh user rest len consumedTotal reserved req parser s))))))"
  by pat_completeness auto
termination
proof (relation "measure (\<lambda>(c, rh, dh, user, p, len, ct, reserved, req, parser, s). length p)", goal_cases)
qed (auto dest!: getHeaders_shorter)

declare fenceLoop.simps [simp del]

text \<open>The fence is two stores behind the data; \<open>None\<close> when they are outside memory.\<close>

definition fenceAndConsumePostPadded ::
  "bool \<Rightarrow> 's request_handler \<Rightarrow> 's data_handler \<Rightarrow> u64 \<Rightarrow> byte list \<Rightarrow> nat \<Rightarrow>
   ProxyParser option \<Rightarrow> HttpRequest \<Rightarrow> HttpParser \<Rightarrow> 's \<Rightarrow> 's fence_result option" where
  "fenceAndConsumePostPadded CONSUME_MINIMALLY rh dh user p len reserved req parser s =
     (if length p < len + 2 then None
      else fenceLoop CONSUME_MINIMALLY rh dh user (p[len := CR, len + 1 := 97]) len 0 reserved req parser s)"

text \<open>
  The block that continues a body, which \<open>consumePostPadded\<close> holds twice: either it returns, or
  it goes on with the data behind the body.
\<close>

datatype 's body_result = BodyReturn "nat \<times> u64" HttpParser 's | BodyContinue "byte list" nat HttpParser 's

definition consumeBody :: "'s data_handler \<Rightarrow> u64 \<Rightarrow> byte list \<Rightarrow> nat \<Rightarrow> HttpParser \<Rightarrow> 's \<Rightarrow> 's body_result" where
  "consumeBody dh user p len parser s =
     (if isParsingChunkedEncoding (remainingStreamingBytes parser) then
        (case chunkLoop (take len p) (remainingStreamingBytes parser) False of (chunks, left, state) \<Rightarrow>
           (let s = emitChunks dh user chunks s; parser = parser\<lparr>remainingStreamingBytes := state\<rparr> in
            if isParsingInvalidChunkedEncoding state then BodyReturn (HTTP_ERROR_400_BAD_REQUEST, FULLPTR) parser s
            else BodyContinue (drop (len - length left) p) (length left) parser s))
      else
        (let n = unat (remainingStreamingBytes parser) in
         if n \<ge> len then
           (case dh user (take len p) (n = len) s of (returnedUser, s) \<Rightarrow>
              BodyReturn (0, returnedUser)
                (parser\<lparr>remainingStreamingBytes := remainingStreamingBytes parser - of_nat len\<rparr>) s)
         else
           (case dh user (take n p) True s of (returnedUser, s) \<Rightarrow>
              if returnedUser \<noteq> user then BodyReturn (0, returnedUser) (parser\<lparr>remainingStreamingBytes := 0\<rparr>) s
              else BodyContinue (drop n p) (len - n) (parser\<lparr>remainingStreamingBytes := 0\<rparr>) s)))"

text \<open>The last part of \<open>consumePostPadded\<close>: parse the read in place and keep what is left.\<close>

type_synonym 's consume_result = "(nat \<times> u64) \<times> HttpParser \<times> ProxyParser option \<times> 's"

definition consumeRead ::
  "'s request_handler \<Rightarrow> 's data_handler \<Rightarrow> u64 \<Rightarrow> byte list \<Rightarrow> nat \<Rightarrow>
   ProxyParser option \<Rightarrow> HttpRequest \<Rightarrow> HttpParser \<Rightarrow> 's \<Rightarrow> 's consume_result option" where
  "consumeRead rh dh user p len reserved req parser s =
     (case fenceAndConsumePostPadded False rh dh user p len reserved req parser s of
        None \<Rightarrow> None
      | Some ((first, second), parser, memory, reserved, s) \<Rightarrow>
          if second \<noteq> user then Some ((first, second), parser, reserved, s)
          else if len < first then None
          else
            (let len = len - first in
             if len \<noteq> 0 then
               (if len < MAX_FALLBACK_SIZE then
                  Some ((0, user), parser\<lparr>fallback := fallback parser @ take len memory\<rparr>, reserved, s)
                else Some ((HTTP_ERROR_431_REQUEST_HEADER_FIELDS_TOO_LARGE, FULLPTR), parser, reserved, s))
             else Some ((0, user), parser, reserved, s)))"

definition fresh_request :: HttpRequest where
  "fresh_request = \<lparr>headers = [], ancientHttp = False, querySeparator = 0, didYield = False,
     bf = bloom_reset, currentParameters = (0, []), currentParameterOffsets = None\<rparr>"

text \<open>
  \<open>slack\<close> is the memory that \<open>reserve\<close> leaves behind the fallback string: at least
  \<open>MINIMUM_HTTP_POST_PADDING\<close> bytes of any content. An offset that would underflow is \<open>None\<close>.
\<close>

definition consumePostPadded ::
  "'s request_handler \<Rightarrow> 's data_handler \<Rightarrow> byte list \<Rightarrow> u64 \<Rightarrow> byte list \<Rightarrow> nat \<Rightarrow>
   ProxyParser option \<Rightarrow> HttpParser \<Rightarrow> 's \<Rightarrow> 's consume_result option" where
  "consumePostPadded rh dh slack user p len reserved parser s =
     (let req = fresh_request in
      if remainingStreamingBytes parser \<noteq> 0 then
        (case consumeBody dh user p len parser s of
           BodyReturn result parser s \<Rightarrow> Some (result, parser, reserved, s)
         | BodyContinue p len parser s \<Rightarrow> consumeRead rh dh user p len reserved req parser s)
      else if fallback parser \<noteq> [] then
        (let had = length (fallback parser);
             maxCopyDistance = min (MAX_FALLBACK_SIZE - had) len;
             parser = parser\<lparr>fallback := fallback parser @ take maxCopyDistance p\<rparr>;
             size = length (fallback parser)
         in
         (case fenceAndConsumePostPadded True rh dh user (fallback parser @ slack) size reserved req parser s of
            None \<Rightarrow> None
          | Some ((first, second), parser, memory, reserved, s) \<Rightarrow>
              if second \<noteq> user then Some ((first, second), parser, reserved, s)
              else if first \<noteq> 0 then
                (if first < had \<or> len < first - had then None
                 else
                   (let parser = parser\<lparr>fallback := []\<rparr>; p = drop (first - had) p; len = len - (first - had) in
                    if remainingStreamingBytes parser \<noteq> 0 then
                      (case consumeBody dh user p len parser s of
                         BodyReturn result parser s \<Rightarrow> Some (result, parser, reserved, s)
                       | BodyContinue p len parser s \<Rightarrow> consumeRead rh dh user p len reserved req parser s)
                    else consumeRead rh dh user p len reserved req parser s))
              else
                (let parser = parser\<lparr>fallback := take size memory\<rparr> in
                 if length (fallback parser) = MAX_FALLBACK_SIZE then
                   Some ((HTTP_ERROR_431_REQUEST_HEADER_FIELDS_TOO_LARGE, FULLPTR), parser, reserved, s)
                 else Some ((0, user), parser, reserved, s))))
      else consumeRead rh dh user p len reserved req parser s)"

section \<open>Headers and the filter\<close>

lemma addHeaders_fields:
  "addHeaders hs req = Some req' \<Longrightarrow>
   headers req' = headers req \<and> ancientHttp req' = ancientHttp req \<and> bf req' = fold bloom_add (map fst hs) (bf req) \<and> didYield req' = didYield req"
  by (induction hs arbitrary: req) (auto split: if_splits)

lemma find_header_None: "k \<notin> set (map fst (header_iter hs)) \<Longrightarrow> find_header hs k = None"
  by (force simp: find_header_def find_None_iff)

text \<open>The header lookup with the filter in front is the lookup; the filter is used through its interface.\<close>

lemma getHeader_transparent:
  assumes "bf req = fold bloom_add (map fst (header_iter (headers req))) bloom_reset"
  shows "getHeader req k = find_header (headers req) k"
  unfolding getHeader_def assms using find_header_None by (rule bloom.guarded_lookup)

lemma addHeaders_one_host:
  assumes "addHeaders hs req = Some req'" and "find_header (headers req) str_host \<noteq> None"
  shows "length (filter (\<lambda>h. fst h = str_host) hs) \<le> (if mightHave (bf req) str_host then 0 else 1)"
  using assms
proof (induction hs arbitrary: req)
  case (Cons h hs)
  let ?bf = "bloom_add (fst h) (bf req)"
  have "addHeaders hs (req\<lparr>bf := ?bf\<rparr>) = Some req'" using Cons.prems(1) by (simp split: if_splits)
  from Cons.IH [OF this] Cons.prems(2)
  have IH: "length (filter (\<lambda>h. fst h = str_host) hs) \<le> (if mightHave ?bf str_host then 0 else 1)" by simp
  show ?case
  proof (cases "fst h = str_host")
    case True
    then have "\<not> mightHave (bf req) str_host"
      using Cons.prems by (auto simp: getHeader_def split: if_splits)
    then show ?thesis using IH True bloom_add_same [of str_host "bf req"] by simp
  next
    case False
    then show ?thesis using IH bloom_add_mono [of "bf req" str_host "fst h"]
      by (cases "mightHave (bf req) str_host") (auto split: if_splits)
  qed
qed simp

text \<open>What \<open>check_request\<close> lets through.\<close>

definition good_request :: "HttpRequest \<Rightarrow> bool" where
  "good_request req \<longleftrightarrow>
     length (filter (\<lambda>h. fst h = str_host) (header_iter (headers req))) = 1 \<and>
     (view (find_header (headers req) str_transfer_encoding) = [] \<or>
      view (find_header (headers req) str_content_length) = []) \<and>
     (\<forall>k. getHeader req k = find_header (headers req) k) \<and>
     querySeparator req = length (takeWhile (\<lambda>b. b \<noteq> 63) (getFullUrl req)) \<and> \<not> ancientHttp req"

lemma find_byte_takeWhile:
  "(case find_byte c bs of None \<Rightarrow> length bs | Some i \<Rightarrow> i) = length (takeWhile (\<lambda>b. b \<noteq> c) bs)"
  by (induction bs) (auto split: option.splits simp del: find_byte_None)

lemma find_header_filter:
  "find_header hs k \<noteq> None \<longleftrightarrow> filter (\<lambda>h. fst h = k) (header_iter hs) \<noteq> []"
  by (force simp: find_header_def find_None_iff filter_empty_conv)

lemma check_request_good:
  assumes "check_request hs req = Some req'"
  shows "good_request req' \<and> headers req' = hs \<and> didYield req' = didYield req"
proof -
  let ?req0 = "req\<lparr>headers := hs, ancientHttp := False, bf := bloom_reset\<rparr>"
  obtain req1 where a: "addHeaders (header_iter hs) ?req0 = Some req1"
    "getHeader req1 str_host \<noteq> None"
    "\<not> (view (getHeader req1 str_transfer_encoding) \<noteq> [] \<and> view (getHeader req1 str_content_length) \<noteq> [])"
    "req' = req1\<lparr>querySeparator := length (takeWhile (\<lambda>b. b \<noteq> 63) (snd (hd hs)))\<rparr>"
    using assms unfolding check_request_def find_byte_takeWhile by (auto split: option.splits if_splits)
  have f: "headers req1 = hs" "bf req1 = fold bloom_add (map fst (header_iter hs)) bloom_reset"
    "didYield req1 = didYield req" using addHeaders_fields [OF a(1)] by simp_all
  have t: "getHeader req1 k = find_header hs k" for k
    using getHeader_transparent [of req1 k] f by simp
  have t': "getHeader req' k = find_header hs k" for k
    using getHeader_transparent [of req' k] f a(4) by simp
  have "ancientHttp req1 = False" using addHeaders_fields [OF a(1)] by simp
  moreover have "length (filter (\<lambda>h. fst h = str_host) (header_iter hs)) \<le> 1"
    using addHeaders_one_host [OF a(1)] a(2) t by (simp split: if_splits)
  moreover have "filter (\<lambda>h. fst h = str_host) (header_iter hs) \<noteq> []"
    using a(2) t find_header_filter by metis
  ultimately show ?thesis using a f t t'
    by (cases "filter (\<lambda>h. fst h = str_host) (header_iter hs)") (auto simp: good_request_def getFullUrl_def)
qed

section \<open>One pass over a fenced buffer\<close>

definition no_head :: "bool \<Rightarrow> byte list \<Rightarrow> bool" where
  "no_head proxied d \<longleftrightarrow> \<not> (\<exists>off h r. head_in proxied d off h r)"

lemma no_head_Nil [simp]: "no_head proxied []"
  using request_head_length [of "[]"] by (auto simp: no_head_def head_in_def)

lemma getHeaders_fail:
  assumes "getHeaders (fenced d padding) (length padding + 2) reserved = Some (HeadFail err memory, reserved')"
    and "6 \<le> length padding"
  shows "no_head (proxied_of reserved) d \<and> no_head (proxied_of reserved) (take (length d) memory) \<and>
    length memory = length d + length padding + 2 \<and> proxied_of reserved' = proxied_of reserved"
proof -
  have nd: "no_head (proxied_of reserved) d"
    using getHeaders_complete [OF _ assms(2)] assms(1) by (fastforce simp: no_head_def)
  obtain off t where m: "length memory = length d + length padding + 2" "proxied_of reserved' = proxied_of reserved"
    "preamble (proxied_of reserved) d off \<or> off = length d" "off \<le> length d"
    "take (length d) memory = take off d @ t" "lower_rel (drop off d) t"
    using getHeaders_safe [OF assms(2), of d reserved] assms(1) by auto
  have "no_head (proxied_of reserved) (take (length d) memory)"
  proof (cases "off = length d")
    case True
    then have "t = []" using lower_rel_length [OF m(6)] by simp
    then show ?thesis using nd True m(5) by simp
  next
    case False
    then have pre: "preamble (proxied_of reserved) d off" using m(3) by blast
    show ?thesis
    proof (rule ccontr)
      assume "\<not> no_head (proxied_of reserved) (take (length d) memory)"
      then obtain off2 h r where "head_in (proxied_of reserved) (take off d @ t) off2 h r"
        unfolding no_head_def m(5) by blast
      from head_in_lower [OF pre m(4,6) this] nd show False by (auto simp: no_head_def)
    qed
  qed
  with nd m show ?thesis by blast
qed

text \<open>
  The state of the application is kept in an invariant \<open>I\<close> by both handlers, when the request
  handler is called with a good request only.
\<close>

definition keeps :: "'s request_handler \<Rightarrow> 's data_handler \<Rightarrow> ('s \<Rightarrow> bool) \<Rightarrow> bool" where
  "keeps rh dh I \<longleftrightarrow> (\<forall>user req s. good_request req \<longrightarrow> I s \<longrightarrow> I (snd (rh user req s))) \<and>
     (\<forall>user d fin s. I s \<longrightarrow> I (snd (dh user d fin s)))"

lemma keeps_rh: "keeps rh dh I \<Longrightarrow> good_request req \<Longrightarrow> I s \<Longrightarrow> rh user req s = (u, s') \<Longrightarrow> I s'"
  unfolding keeps_def by (metis snd_conv)

lemma keeps_dh: "keeps rh dh I \<Longrightarrow> I s \<Longrightarrow> I (snd (dh user d fin s))"
  by (simp add: keeps_def)

lemma keeps_emit: "keeps rh dh I \<Longrightarrow> I s \<Longrightarrow> I (emitChunks dh user chunks s)"
  unfolding emitChunks_def by (rule fold_invariant) (auto intro: keeps_dh)

definition fence_post :: "bool \<Rightarrow> bool \<Rightarrow> u64 \<Rightarrow> byte list \<Rightarrow> nat \<Rightarrow> HttpParser \<Rightarrow> ('s \<Rightarrow> bool) \<Rightarrow> 's fence_result option \<Rightarrow> bool" where
  "fence_post cm proxied user d ct parser I res \<longleftrightarrow>
     (\<exists>first second parser' memory reserved' s'.
        res = Some ((first, second), parser', memory, reserved', s') \<and> I s' \<and>
        proxied_of reserved' = proxied \<and> fallback parser' = fallback parser \<and>
        (second = user \<longrightarrow>
           (\<exists>n. n \<le> length d \<and> first + n = ct + length d \<and> n \<le> length memory \<and>
              (if cm then (n = length d \<and> no_head proxied (take n memory)) \<and> remainingStreamingBytes parser' = remainingStreamingBytes parser \<or>
                  (\<exists>off h r. head_in proxied d off h r \<and> first = ct + off + length h)
               else (n = 0 \<or> remainingStreamingBytes parser' = 0) \<and> no_head proxied (take n memory)))))"

lemma fence_post_error: "second \<noteq> user \<Longrightarrow> I s' \<Longrightarrow> proxied_of reserved' = proxied \<Longrightarrow> fallback parser' = fallback parser \<Longrightarrow>
    fence_post cm proxied user d ct parser I (Some ((first, second), parser', memory, reserved', s'))"
  by (simp add: fence_post_def)

lemma fence_post_weaken:
  assumes "fence_post cm proxied user d2 ct2 parser2 I res" and "length d2 \<le> length d"
    and "ct2 + length d2 = ct + length d" and "fallback parser2 = fallback parser" and "\<not> cm"
  shows "fence_post cm proxied user d ct parser I res"
proof -
  obtain first second parser' memory reserved' s' where r: "res = Some ((first, second), parser', memory, reserved', s')"
    "I s'" "proxied_of reserved' = proxied" "fallback parser' = fallback parser2"
    "second = user \<longrightarrow> (\<exists>n. n \<le> length d2 \<and> first + n = ct2 + length d2 \<and> n \<le> length memory \<and>
        (n = 0 \<or> remainingStreamingBytes parser' = 0) \<and> no_head proxied (take n memory))"
    using assms(1) [unfolded fence_post_def] assms(5) by (simp only: if_False) blast
  have "second = user \<longrightarrow> (\<exists>n. n \<le> length d \<and> first + n = ct + length d \<and> n \<le> length memory \<and>
        (n = 0 \<or> remainingStreamingBytes parser' = 0) \<and> no_head proxied (take n memory))"
  proof
    assume "second = user"
    then obtain n where "n \<le> length d2 \<and> first + n = ct2 + length d2 \<and> n \<le> length memory \<and>
        (n = 0 \<or> remainingStreamingBytes parser' = 0) \<and> no_head proxied (take n memory)"
      using r(5) by blast
    with assms(2,3) show "\<exists>n. n \<le> length d \<and> first + n = ct + length d \<and> n \<le> length memory \<and>
        (n = 0 \<or> remainingStreamingBytes parser' = 0) \<and> no_head proxied (take n memory)"
      by (intro exI [of _ n]) simp
  qed
  with r assms(4,5) show ?thesis by (simp add: fence_post_def)
qed

lemma take_fenced: "take (length d) (fenced d padding) = d" by simp

text \<open>The framing of the body behind a head, when the whole read is parsed in place.\<close>

lemma chunk_split:
  assumes "chunkLoop r state False = (chunks, left, state')"
  shows "drop (length r - length left) (fenced r padding) = fenced left padding \<and> length left \<le> length r"
proof -
  have "suffix left r" using chunkLoop_suffix [OF assms] .
  then obtain x where "r = x @ left" by (auto simp: suffix_def)
  then show ?thesis by simp
qed

text \<open>The part of the loop body behind the checks; \<open>r\<close> is the data behind the head.\<close>

definition after_head where
  "after_head CONSUME_MINIMALLY rh dh user r padding consumedTotal reserved req parser s =
     (case rh user req s of (returnedUser, s) \<Rightarrow>
        if returnedUser \<noteq> user then Some ((consumedTotal, returnedUser), parser, fenced r padding, reserved, s)
        else if view (getHeader req str_transfer_encoding) \<noteq> [] then
          (if CONSUME_MINIMALLY then
             Some ((consumedTotal, user), parser\<lparr>remainingStreamingBytes := STATE_IS_CHUNKED\<rparr>,
                   fenced r padding, reserved, s)
           else
             (case chunkLoop (take (length r) (fenced r padding)) STATE_IS_CHUNKED False of (chunks, left, state) \<Rightarrow>
                (let s = emitChunks dh user chunks s;
                     parser = parser\<lparr>remainingStreamingBytes := state\<rparr>
                 in
                 if isParsingInvalidChunkedEncoding state then
                   Some ((HTTP_ERROR_400_BAD_REQUEST, FULLPTR), parser, fenced r padding, reserved, s)
                 else fenceLoop CONSUME_MINIMALLY rh dh user (drop (length r - length left) (fenced r padding))
                        (length left) (consumedTotal + (length r - length left)) reserved req parser s)))
        else if view (getHeader req str_content_length) \<noteq> [] then
          (let n = toUnsignedInteger (view (getHeader req str_content_length));
               parser = parser\<lparr>remainingStreamingBytes := n\<rparr>
           in
           if n = UINT64_MAX then
             Some ((HTTP_ERROR_400_BAD_REQUEST, FULLPTR), parser, fenced r padding, reserved, s)
           else if CONSUME_MINIMALLY then Some ((consumedTotal, user), parser, fenced r padding, reserved, s)
           else
             (let emittable = min (unat n) (length r);
                  s = snd (dh user (take emittable (fenced r padding)) (emittable = unat n) s);
                  parser = parser\<lparr>remainingStreamingBytes := n - of_nat emittable\<rparr>
              in fenceLoop CONSUME_MINIMALLY rh dh user (drop emittable (fenced r padding)) (length r - emittable)
                   (consumedTotal + emittable) reserved req parser s))
        else
          (let s = snd (dh user [] True s) in
           if CONSUME_MINIMALLY then Some ((consumedTotal, user), parser, fenced r padding, reserved, s)
           else fenceLoop CONSUME_MINIMALLY rh dh user (fenced r padding) (length r) consumedTotal reserved req parser s))"

lemma minus_of_unat: "(n :: u64) - of_nat (unat n) = 0"
  by simp

lemma fence_post_done:
  assumes "cm" and "head_in proxied d off h r' \<and> ct0 + off + length h = ct \<and> length r \<le> length d"
    and "ct + length r = ct0 + length d" and "I s'" and "proxied_of reserved = proxied" and "fallback parser' = fallback parser"
  shows "fence_post cm proxied user d ct0 parser I (Some ((ct, user), parser', fenced r padding, reserved, s'))"
proof -
  have "\<exists>off h r. head_in proxied d off h r \<and> ct = ct0 + off + length h" using assms(2) by metis
  then have "\<exists>n. n \<le> length d \<and> ct + n = ct0 + length d \<and> n \<le> length (fenced r padding) \<and>
      (n = length d \<and> no_head proxied (take n (fenced r padding)) \<and>
         remainingStreamingBytes parser' = remainingStreamingBytes parser \<or>
       (\<exists>off h r. head_in proxied d off h r \<and> ct = ct0 + off + length h))"
    using assms(2,3) by (intro exI [of _ "length r"]) simp
  then show ?thesis using assms(1,4,5,6) by (simp add: fence_post_def)
qed

lemma after_head_post:
  assumes user: "user \<noteq> FULLPTR" and keeps: "keeps rh dh I" and I: "I s" and good: "good_request req"
    and rem: "remainingStreamingBytes parser = 0"
    and head: "cm \<Longrightarrow> \<exists>off h r'. head_in proxied d off h r' \<and> ct0 + off + length h = ct \<and> length r \<le> length d"
    and total: "ct + length r = ct0 + length d" and le: "length r \<le> length d" and prox: "proxied_of reserved = proxied"
    and rec: "\<And>r' ct' parser' s' req'. \<lbrakk>length r' \<le> length r; ct' + length r' = ct + length r;
        fallback parser' = fallback parser; r' = [] \<or> remainingStreamingBytes parser' = 0; I s'; \<not> cm\<rbrakk> \<Longrightarrow>
      fence_post cm proxied user d ct0 parser I
        (fenceLoop cm rh dh user (fenced r' padding) (length r') ct' reserved req' parser' s')"
  shows "fence_post cm proxied user d ct0 parser I (after_head cm rh dh user r padding ct reserved req parser s)"
proof -
  obtain ret s1 where rh: "rh user req s = (ret, s1)" by fastforce
  have I1: "I s1" using keeps_rh [OF keeps good I rh] .
  have err: "fence_post cm proxied user d ct0 parser I (Some ((n, FULLPTR), parser', m, reserved, s'))"
    if "fallback parser' = fallback parser" "I s'" for n parser' m s'
    using user prox that by (intro fence_post_error) auto
  have fin: "fence_post cm proxied user d ct0 parser I (Some ((ct, user), parser', fenced r padding, reserved, s'))"
    if "cm" "fallback parser' = fallback parser" "I s'" for parser' s'
    using head [OF that(1)] that total prox by (blast intro: fence_post_done)
  show ?thesis
  proof (cases "ret = user")
    case False
    then show ?thesis using I1 prox by (simp add: after_head_def rh fence_post_def)
  next
    case ret: True
    consider (te) "view (getHeader req str_transfer_encoding) \<noteq> []"
      | (cl) "view (getHeader req str_transfer_encoding) = []" "view (getHeader req str_content_length) \<noteq> []"
      | (none) "view (getHeader req str_transfer_encoding) = []" "view (getHeader req str_content_length) = []"
      by blast
    then show ?thesis
    proof cases
      case te
      obtain chunks left state where ch: "chunkLoop r STATE_IS_CHUNKED False = (chunks, left, state)"
        by (metis prod_cases3)
      show ?thesis
      proof (cases cm)
        case True
        then show ?thesis using fin I1 by (simp add: after_head_def rh ret te)
      next
        case False
        note sp = chunk_split [OF ch, of padding]
        let ?P = "parser\<lparr>remainingStreamingBytes := state\<rparr>" and ?S = "emitChunks dh user chunks s1"
        have IS: "I ?S" using keeps_emit [OF keeps I1] .
        have A: "after_head cm rh dh user r padding ct reserved req parser s =
          (if isParsingInvalidChunkedEncoding state then
             Some ((HTTP_ERROR_400_BAD_REQUEST, FULLPTR), ?P, fenced r padding, reserved, ?S)
           else fenceLoop cm rh dh user (fenced left padding) (length left) (ct + (length r - length left)) reserved req ?P ?S)"
          using sp False unfolding after_head_def rh prod.case take_fenced ch Let_def by (simp add: ret te)
        have R: "fence_post cm proxied user d ct0 parser I
            (fenceLoop cm rh dh user (fenced left padding) (length left) (ct + (length r - length left)) reserved req ?P ?S)"
          if "\<not> isParsingInvalidChunkedEncoding state"
          using IS that chunkLoop_stops [OF ch] sp False by (intro rec) auto
        show ?thesis unfolding A using err [of ?P ?S] IS R by simp
      qed
    next
      case cl
      let ?n = "toUnsignedInteger (view (getHeader req str_content_length))"
      let ?e = "min (unat ?n) (length r)"
      let ?P = "parser\<lparr>remainingStreamingBytes := ?n - of_nat ?e\<rparr>"
      let ?S = "snd (dh user (take ?e (fenced r padding)) (?e = unat ?n) s1)"
      have IS: "I ?S" by (rule keeps_dh [OF keeps I1])
      have dr: "drop ?e (fenced r padding) = fenced (drop ?e r) padding" by simp
      have A: "after_head cm rh dh user r padding ct reserved req parser s =
          (if ?n = UINT64_MAX then
             Some ((HTTP_ERROR_400_BAD_REQUEST, FULLPTR), parser\<lparr>remainingStreamingBytes := ?n\<rparr>, fenced r padding, reserved, s1)
           else if cm then Some ((ct, user), parser\<lparr>remainingStreamingBytes := ?n\<rparr>, fenced r padding, reserved, s1)
           else fenceLoop cm rh dh user (fenced (drop ?e r) padding) (length (drop ?e r)) (ct + ?e) reserved req ?P ?S)"
        unfolding after_head_def rh prod.case Let_def dr by (simp add: ret cl)
      have "drop ?e r = [] \<or> remainingStreamingBytes ?P = 0"
        by (cases "unat ?n \<le> length r") (simp_all add: min_def)
      then have R: "fence_post cm proxied user d ct0 parser I
          (fenceLoop cm rh dh user (fenced (drop ?e r) padding) (length (drop ?e r)) (ct + ?e) reserved req ?P ?S)" if "\<not> cm"
        using IS that by (intro rec) simp_all
      show ?thesis unfolding A using err I1 fin R by auto
    next
      case none
      have IS: "I (snd (dh user [] True s1))" by (rule keeps_dh [OF keeps I1])
      show ?thesis
      proof (cases cm)
        case True
        then show ?thesis using fin IS by (simp add: after_head_def rh ret none Let_def)
      next
        case False
        then have "fence_post cm proxied user d ct0 parser I
          (fenceLoop cm rh dh user (fenced r padding) (length r) ct reserved req parser (snd (dh user [] True s1)))"
          using IS rem by (intro rec) simp_all
        then show ?thesis using False by (simp add: after_head_def rh ret none Let_def)
      qed
    qed
  qed
qed

lemma fenceLoop_post:
  assumes pad: "6 \<le> length padding" and user: "user \<noteq> FULLPTR" and keeps: "keeps rh dh I"
  shows "d = [] \<or> remainingStreamingBytes parser = 0 \<Longrightarrow> I s \<Longrightarrow>
    fence_post cm (proxied_of reserved) user d ct parser I
      (fenceLoop cm rh dh user (fenced d padding) (length d) ct reserved req parser s)"
proof (induction "length d" arbitrary: d ct reserved req parser s rule: less_induct)
  case less
  let ?p = "fenced d padding"
  note eq = fenceLoop.simps [of cm rh dh user ?p "length d" ct reserved req parser s]
  show ?case
  proof (cases "d = []")
    case True
    then show ?thesis unfolding eq using less.prems by (auto simp: fence_post_def)
  next
    case False
    have e: "length ?p - length d = length padding + 2" by simp
    obtain res reserved1 where g: "getHeaders ?p (length padding + 2) reserved = Some (res, reserved1)"
      using getHeaders_safe [OF pad, of d reserved] by blast
    show ?thesis
    proof (cases res)
      case (HeadFail err memory)
      note f = getHeaders_fail [OF g [unfolded HeadFail] pad]
      have "fenceLoop cm rh dh user ?p (length d) ct reserved req parser s =
          Some (if err \<noteq> 0 then (err, FULLPTR) else (ct, user), parser, memory, reserved1, s)"
        unfolding eq e g HeadFail using False by simp
      then show ?thesis using f user less.prems False
        by (cases "err = 0") (auto simp: fence_post_def intro!: exI [of _ "length d"])
    next
      case (HeadDone hs rest)
      obtain off h r where h: "head_in (proxied_of reserved) d off h r" "rest = fenced r padding"
        "length d = off + length h + length r" "proxied_of reserved1 = proxied_of reserved"
        using getHeaders_done [OF g [unfolded HeadDone] pad] by blast
      have hl: "0 < length h" using request_head_length [of h] h(1) by (auto simp: head_in_def)
      have c: "length ?p - length rest = off + length h" "length d - (off + length h) = length r"
        using h(2,3) by simp_all
      have rem: "remainingStreamingBytes parser = 0" using less.prems False by blast
      let ?ct = "ct + (off + length h)"
      have E: "fenceLoop cm rh dh user ?p (length d) ct reserved req parser s =
        (if off + length h > MAX_FALLBACK_SIZE then
           Some ((HTTP_ERROR_431_REQUEST_HEADER_FIELDS_TOO_LARGE, FULLPTR), parser, rest, reserved1, s)
         else case check_request hs req of
             None \<Rightarrow> Some ((HTTP_ERROR_400_BAD_REQUEST, FULLPTR), parser, rest, reserved1, s)
           | Some req1 \<Rightarrow> after_head cm rh dh user r padding ?ct reserved1 req1 parser s)"
        unfolding eq e g HeadDone option.case prod.case head_result.case Let_def c
        unfolding after_head_def h(2) Let_def using False by simp
      have err: "fence_post cm (proxied_of reserved) user d ct parser I (Some ((n, FULLPTR), parser, rest, reserved1, s))" for n
        using user less.prems(2) h(4) by (intro fence_post_error) auto
      have post: "fence_post cm (proxied_of reserved) user d ct parser I
          (after_head cm rh dh user r padding ?ct reserved1 req1 parser s)" if "good_request req1" for req1
      proof (rule after_head_post [OF user keeps less.prems(2) that rem])
        show "cm \<Longrightarrow> \<exists>off h' r'. head_in (proxied_of reserved) d off h' r' \<and> ct + off + length h' = ?ct \<and> length r \<le> length d"
          using h by (intro exI [of _ off] exI [of _ h] exI [of _ r]) simp
        fix r' :: "byte list" and ct' s' req' and parser' :: HttpParser
        assume a: "length r' \<le> length r" "ct' + length r' = ?ct + length r" "fallback parser' = fallback parser"
          "r' = [] \<or> remainingStreamingBytes parser' = 0" "I s'"
        assume "\<not> cm"
        have "length r' < length d" using a(1) h(3) hl by linarith
        from less.hyps [OF this a(4,5), of reserved1 ct' req'] h(4)
        have "fence_post cm (proxied_of reserved) user r' ct' parser' I
          (fenceLoop cm rh dh user (fenced r' padding) (length r') ct' reserved1 req' parser' s')" by simp
        then show "fence_post cm (proxied_of reserved) user d ct parser I
          (fenceLoop cm rh dh user (fenced r' padding) (length r') ct' reserved1 req' parser' s')"
          by (rule fence_post_weaken) (use a h(3) \<open>\<not> cm\<close> in simp_all)
      qed (use h(3,4) in simp_all)
      show ?thesis
      proof (cases "check_request hs req")
        case None
        then show ?thesis unfolding E using err by simp
      next
        case (Some req1)
        then have "good_request req1" using check_request_good by blast
        then show ?thesis unfolding E using err post Some by simp
      qed
    qed
  qed
qed

section \<open>A read\<close>

definition parser_ok :: "bool \<Rightarrow> HttpParser \<Rightarrow> bool" where
  "parser_ok proxied parser \<longleftrightarrow> length (fallback parser) < MAX_FALLBACK_SIZE \<and>
     (fallback parser = [] \<or> remainingStreamingBytes parser = 0) \<and> no_head proxied (fallback parser)"

definition consume_post :: "bool \<Rightarrow> u64 \<Rightarrow> ('s \<Rightarrow> bool) \<Rightarrow> 's consume_result option \<Rightarrow> bool" where
  "consume_post proxied user I res \<longleftrightarrow>
     (\<exists>first second parser' reserved' s'. res = Some ((first, second), parser', reserved', s') \<and> I s' \<and>
        proxied_of reserved' = proxied \<and> (second = user \<longrightarrow> parser_ok proxied parser'))"

lemma fence_write:
  assumes "2 \<le> length pad"
  shows "(d @ pad)[length d := CR, length d + 1 := 97] = fenced d (drop 2 pad)"
proof -
  obtain a b t where "pad = a # b # t" using assms by (cases pad; cases "tl pad") auto
  then show ?thesis by (simp add: list_update_append)
qed

lemma fenceAndConsume_fenced:
  assumes "2 \<le> length pad"
  shows "fenceAndConsumePostPadded cm rh dh user (d @ pad) (length d) reserved req parser s =
    fenceLoop cm rh dh user (fenced d (drop 2 pad)) (length d) 0 reserved req parser s"
  unfolding fenceAndConsumePostPadded_def fence_write [OF assms] using assms by simp

lemma consumeRead_post:
  assumes "8 \<le> length pad" and "user \<noteq> FULLPTR" and "keeps rh dh I" and "I s"
    and "d = [] \<or> remainingStreamingBytes parser = 0" and "fallback parser = []"
  shows "consume_post (proxied_of reserved) user I
    (consumeRead rh dh user (d @ pad) (length d) reserved req parser s)"
proof -
  have "fence_post False (proxied_of reserved) user d 0 parser I
    (fenceAndConsumePostPadded False rh dh user (d @ pad) (length d) reserved req parser s)"
    using fenceLoop_post [of "drop 2 pad" user rh dh I d parser s False reserved 0 req] assms
    by (simp add: fenceAndConsume_fenced)
  then obtain first second parser' memory reserved' s' where
    r: "fenceAndConsumePostPadded False rh dh user (d @ pad) (length d) reserved req parser s =
      Some ((first, second), parser', memory, reserved', s')"
    "I s'" "proxied_of reserved' = proxied_of reserved" "fallback parser' = []"
    "second = user \<longrightarrow> (\<exists>n. n \<le> length d \<and> first + n = 0 + length d \<and> n \<le> length memory \<and>
        (n = 0 \<or> remainingStreamingBytes parser' = 0) \<and> no_head (proxied_of reserved) (take n memory))"
    using assms(6) unfolding fence_post_def by (simp only: if_False) blast
  show ?thesis
  proof (cases "second = user")
    case False
    then show ?thesis using r by (simp add: consumeRead_def consume_post_def)
  next
    case True
    then obtain n where n: "n \<le> length d" "first + n = length d" "n \<le> length memory"
      "n = 0 \<or> remainingStreamingBytes parser' = 0" "no_head (proxied_of reserved) (take n memory)"
      using r(5) by auto
    have l: "length d - first = n" "\<not> length d < first" using n(2) by simp_all
    have z: "0 < MAX_FALLBACK_SIZE" by (simp add: MAX_FALLBACK_SIZE_def)
    show ?thesis using r n l True assms(2) z
      by (auto simp: consumeRead_def consume_post_def Let_def parser_ok_def min_absorb2)
  qed
qed

definition body_post :: "u64 \<Rightarrow> byte list \<Rightarrow> HttpParser \<Rightarrow> ('s \<Rightarrow> bool) \<Rightarrow> byte list \<Rightarrow> 's body_result \<Rightarrow> bool" where
  "body_post user pad parser I d res = (case res of
     BodyReturn (first, second) parser' s' \<Rightarrow> I s' \<and> fallback parser' = fallback parser
   | BodyContinue p len parser' s' \<Rightarrow> I s' \<and> fallback parser' = fallback parser \<and>
       (\<exists>d'. p = d' @ pad \<and> len = length d' \<and> suffix d' d \<and> (d' = [] \<or> remainingStreamingBytes parser' = 0)))"

lemma consumeBody_post:
  assumes "keeps rh dh I" and "I s"
  shows "body_post user pad parser I d (consumeBody dh user (d @ pad) (length d) parser s)"
proof (cases "isParsingChunkedEncoding (remainingStreamingBytes parser)")
  case True
  obtain chunks left state where ch: "chunkLoop d (remainingStreamingBytes parser) False = (chunks, left, state)"
    by (metis prod_cases3)
  have suf: "suffix left d" using chunkLoop_suffix [OF ch] .
  then have "drop (length d - length left) (d @ pad) = left @ pad" by (auto simp: suffix_def)
  then show ?thesis using True ch suf keeps_emit [OF assms, of user chunks] chunkLoop_stops [OF ch]
    by (auto simp: consumeBody_def Let_def body_post_def)
next
  case False
  let ?n = "unat (remainingStreamingBytes parser)"
  obtain ret1 s1 where 1: "dh user d (?n = length d) s = (ret1, s1)" by fastforce
  obtain ret2 s2 where 2: "dh user (take ?n d) True s = (ret2, s2)" by fastforce
  have I: "I s1" "I s2" using keeps_dh [OF assms, of user d "?n = length d"] keeps_dh [OF assms, of user "take ?n d" True] 1 2
    by simp_all
  show ?thesis
  proof (cases "length d \<le> ?n")
    case True
    then show ?thesis using False 1 I by (simp add: consumeBody_def Let_def body_post_def)
  next
    case lt: False
    then have "take ?n (d @ pad) = take ?n d" "drop ?n (d @ pad) = drop ?n d @ pad" by simp_all
    with lt False 2 I show ?thesis
      by (auto simp: consumeBody_def Let_def body_post_def suffix_drop intro!: exI [of _ "drop ?n d"])
  qed
qed

text \<open>A body that goes on, and then whatever follows it in the read.\<close>

lemma body_then_read_post:
  assumes "8 \<le> length pad" and "user \<noteq> FULLPTR" and "keeps rh dh I" and "I s" and "fallback parser = []"
  shows "consume_post (proxied_of reserved) user I
    (case consumeBody dh user (d @ pad) (length d) parser s of
       BodyReturn result parser s \<Rightarrow> Some (result, parser, reserved, s)
     | BodyContinue p len parser s \<Rightarrow> consumeRead rh dh user p len reserved req parser s)"
proof -
  note b = consumeBody_post [OF assms(3,4), of user pad parser d]
  have z: "0 < MAX_FALLBACK_SIZE" by (simp add: MAX_FALLBACK_SIZE_def)
  show ?thesis
  proof (cases "consumeBody dh user (d @ pad) (length d) parser s")
    case (BodyReturn result parser' s')
    obtain first second where "result = (first, second)" by fastforce
    with BodyReturn b assms(5) z show ?thesis by (simp add: body_post_def consume_post_def parser_ok_def)
  next
    case (BodyContinue p len parser' s')
    then obtain d' where d': "I s'" "fallback parser' = []" "p = d' @ pad" "len = length d'"
      "d' = [] \<or> remainingStreamingBytes parser' = 0"
      using b assms(5) by (auto simp: body_post_def)
    show ?thesis using consumeRead_post [OF assms(1-3) d'(1,5,2)] BodyContinue d'(3,4) by simp
  qed
qed

lemma consumePostPadded_post:
  assumes "32 \<le> length pad" and "32 \<le> length slack" and "user \<noteq> FULLPTR" and "keeps rh dh I" and "I s"
    and "parser_ok (proxied_of reserved) parser"
  shows "consume_post (proxied_of reserved) user I
    (consumePostPadded rh dh slack user (d @ pad) (length d) reserved parser s)"
proof -
  have pad: "8 \<le> length pad" using assms(1) by simp
  consider (body) "remainingStreamingBytes parser \<noteq> 0"
    | (fallback) "remainingStreamingBytes parser = 0" "fallback parser \<noteq> []"
    | (fresh) "remainingStreamingBytes parser = 0" "fallback parser = []" by blast
  then show ?thesis
  proof cases
    case body
    then have "fallback parser = []" using assms(6) by (simp add: parser_ok_def)
    from body_then_read_post [OF pad assms(3-5) this, where reserved = reserved and d = d and req = fresh_request] body
    show ?thesis by (simp add: consumePostPadded_def)
  next
    case fresh
    then show ?thesis using consumeRead_post [OF pad assms(3-5) _ fresh(2)]
      by (simp add: consumePostPadded_def)
  next
    case fallback
    define F where "F = fallback parser"
    define m where "m = min (MAX_FALLBACK_SIZE - length F) (length d)"
    define fb where "fb = F @ take m d"
    define parser1 where "parser1 = parser\<lparr>fallback := fb\<rparr>"
    have F: "length F < MAX_FALLBACK_SIZE" "no_head (proxied_of reserved) F" "F \<noteq> []"
      using assms(6) fallback(2) by (simp_all add: parser_ok_def F_def)
    have m: "m \<le> length d" "length fb = length F + m" "length fb \<le> MAX_FALLBACK_SIZE" "take m (d @ pad) = take m d"
      using F(1) by (simp_all add: m_def fb_def)
    have "fence_post True (proxied_of reserved) user fb 0 parser1 I
      (fenceAndConsumePostPadded True rh dh user (fb @ slack) (length fb) reserved fresh_request parser1 s)"
      using fenceLoop_post [of "drop 2 slack" user rh dh I fb parser1 s True reserved 0 fresh_request] assms fallback(1)
      by (simp add: fenceAndConsume_fenced parser1_def)
    then obtain first second parser2 memory reserved2 s2 where
      r: "fenceAndConsumePostPadded True rh dh user (fb @ slack) (length fb) reserved fresh_request parser1 s =
        Some ((first, second), parser2, memory, reserved2, s2)"
      "I s2" "proxied_of reserved2 = proxied_of reserved" "fallback parser2 = fallback parser1"
      "second = user \<longrightarrow> (\<exists>n. n \<le> length fb \<and> first + n = 0 + length fb \<and> n \<le> length memory \<and>
         ((n = length fb \<and> no_head (proxied_of reserved) (take n memory)) \<and>
            remainingStreamingBytes parser2 = remainingStreamingBytes parser1 \<or>
          (\<exists>off h r. head_in (proxied_of reserved) fb off h r \<and> first = 0 + off + length h)))"
      unfolding fence_post_def by (simp only: if_True) blast
    have C: "consumePostPadded rh dh slack user (d @ pad) (length d) reserved parser s =
      (if second \<noteq> user then Some ((first, second), parser2, reserved2, s2)
       else if first \<noteq> 0 then
         (if first < length F \<or> length d < first - length F then None
          else if remainingStreamingBytes parser2 \<noteq> 0 then
            (case consumeBody dh user (drop (first - length F) (d @ pad)) (length d - (first - length F))
                    (parser2\<lparr>fallback := []\<rparr>) s2 of
               BodyReturn result parser s \<Rightarrow> Some (result, parser, reserved2, s)
             | BodyContinue p len parser s \<Rightarrow> consumeRead rh dh user p len reserved2 fresh_request parser s)
          else consumeRead rh dh user (drop (first - length F) (d @ pad)) (length d - (first - length F)) reserved2
                 fresh_request (parser2\<lparr>fallback := []\<rparr>) s2)
       else if length (take (length fb) memory) = MAX_FALLBACK_SIZE then
         Some ((HTTP_ERROR_431_REQUEST_HEADER_FIELDS_TOO_LARGE, FULLPTR), parser2\<lparr>fallback := take (length fb) memory\<rparr>, reserved2, s2)
       else Some ((0, user), parser2\<lparr>fallback := take (length fb) memory\<rparr>, reserved2, s2))"
      using fallback r(1) unfolding consumePostPadded_def Let_def F_def [symmetric] m_def [symmetric] m(4) fb_def [symmetric]
        parser1_def [symmetric]
      by (simp add: parser1_def [symmetric]) (auto simp: parser1_def)
    show ?thesis
    proof (cases "second = user")
      case False
      then show ?thesis unfolding C using r(2,3) by (simp add: consume_post_def)
    next
      case True
      then obtain n where n: "n \<le> length fb" "first + n = length fb" "n \<le> length memory"
        "n = length fb \<and> no_head (proxied_of reserved) (take n memory) \<and>
            remainingStreamingBytes parser2 = remainingStreamingBytes parser1 \<or>
          (\<exists>off h r. head_in (proxied_of reserved) fb off h r \<and> first = off + length h)"
        using r(5) by auto
      show ?thesis
      proof (cases "first = 0")
        case first: True
        then have "n = length fb" "\<not> (\<exists>off h r. head_in (proxied_of reserved) fb off h r \<and> first = off + length h)"
          using n(2) request_head_length [of "[]"] by (auto simp: head_in_def)
        then have "no_head (proxied_of reserved) (take (length fb) memory)" "remainingStreamingBytes parser2 = 0"
          "length (take (length fb) memory) = length fb"
          using n fallback(1) by (auto simp: parser1_def)
        then show ?thesis unfolding C using True first r(2,3) assms(3) m(3)
          by (auto simp: consume_post_def parser_ok_def)
      next
        case pos: False
        then obtain off h x where h: "head_in (proxied_of reserved) fb off h x" "first = off + length h"
          using n by auto
        have "\<not> first \<le> length F"
          using head_in_prefix [OF h(1) [unfolded fb_def]] F(2) h(2) by (auto simp: no_head_def)
        then have le: "\<not> first < length F" "\<not> length d < first - length F" using n(2) m(1,2) by simp_all
        define k where "k = first - length F"
        define parser3 where "parser3 = parser2\<lparr>fallback := []\<rparr>"
        have k: "drop k (d @ pad) = drop k d @ pad" "length d - k = length (drop k d)" "fallback parser3 = []"
          using le by (simp_all add: k_def parser3_def)
        have "consumePostPadded rh dh slack user (d @ pad) (length d) reserved parser s =
          (if remainingStreamingBytes parser3 \<noteq> 0 then
             (case consumeBody dh user (drop k d @ pad) (length (drop k d)) parser3 s2 of
                BodyReturn result parser s \<Rightarrow> Some (result, parser, reserved2, s)
              | BodyContinue p len parser s \<Rightarrow> consumeRead rh dh user p len reserved2 fresh_request parser s)
           else consumeRead rh dh user (drop k d @ pad) (length (drop k d)) reserved2 fresh_request parser3 s2)"
          unfolding C k_def [symmetric] parser3_def [symmetric] k(1,2) using True pos le
          by (simp add: k_def parser3_def)
        then show ?thesis
          using body_then_read_post [OF pad assms(3,4) r(2) k(3), where reserved = reserved2 and d = "drop k d" and req = fresh_request]
            consumeRead_post [OF pad assms(3,4) r(2) _ k(3), where reserved = reserved2 and d = "drop k d" and req = fresh_request]
            r(3) by simp
      qed
    qed
  qed
qed

section \<open>All reads of a connection\<close>

text \<open>Reads until a handler or an error ends the parsing; \<open>pad\<close> is the padding of the receive buffer.\<close>

definition initial_parser :: HttpParser where
  "initial_parser = \<lparr>fallback = [], remainingStreamingBytes = 0\<rparr>"

fun reads_run ::
  "'s request_handler \<Rightarrow> 's data_handler \<Rightarrow> byte list \<Rightarrow> byte list \<Rightarrow> u64 \<Rightarrow> ProxyParser option \<Rightarrow>
   HttpParser \<Rightarrow> 's \<Rightarrow> byte list list \<Rightarrow> (u64 \<times> HttpParser \<times> ProxyParser option \<times> 's) option" where
  "reads_run rh dh slack pad user reserved parser s [] = Some (user, parser, reserved, s)"
| "reads_run rh dh slack pad user reserved parser s (d # ds) =
     (case consumePostPadded rh dh slack user (d @ pad) (length d) reserved parser s of
        None \<Rightarrow> None
      | Some ((first, second), parser, reserved, s) \<Rightarrow>
          if second \<noteq> user then Some (second, parser, reserved, s)
          else reads_run rh dh slack pad user reserved parser s ds)"

lemma parser_ok_initial: "parser_ok proxied initial_parser"
  by (simp add: parser_ok_def initial_parser_def MAX_FALLBACK_SIZE_def)

lemma reads_run_post:
  assumes "32 \<le> length pad" and "32 \<le> length slack" and "user \<noteq> FULLPTR" and "keeps rh dh I"
  shows "I s \<Longrightarrow> parser_ok (proxied_of reserved) parser \<Longrightarrow>
    \<exists>second parser' reserved' s'. reads_run rh dh slack pad user reserved parser s ds =
      Some (second, parser', reserved', s') \<and> I s' \<and> (second = user \<longrightarrow> parser_ok (proxied_of reserved) parser')"
proof (induction ds arbitrary: reserved parser s)
  case (Cons d ds)
  from consumePostPadded_post [OF assms Cons.prems, of d] obtain first second parser' reserved' s' where
    c: "consumePostPadded rh dh slack user (d @ pad) (length d) reserved parser s =
        Some ((first, second), parser', reserved', s')" "I s'"
      "proxied_of reserved' = proxied_of reserved" "second = user \<longrightarrow> parser_ok (proxied_of reserved) parser'"
    by (auto simp: consume_post_def)
  show ?case
  proof (cases "second = user")
    case True
    then show ?thesis using Cons.IH [of s' reserved' parser'] c by simp
  qed (use c in simp)
qed simp

text \<open>C2: The parser is safe for every peer: over any sequence of reads of any bytes, with the 32
  bytes of padding that the event loop guarantees and handlers that return anything, no read is
  outside memory and no offset underflows, in particular the distance from the fallback buffer
  back into the read. While parsing goes on, what is kept for the next read is below the limit,
  and nothing is kept while a body is outstanding.\<close>

theorem http_reads_safe:
  assumes "32 \<le> length pad" and "32 \<le> length slack" and "user \<noteq> FULLPTR"
  shows "\<exists>second parser' reserved' s'.
    reads_run rh dh slack pad user reserved initial_parser s ds = Some (second, parser', reserved', s') \<and>
    (if second = user then length (fallback parser') < MAX_FALLBACK_SIZE \<and>
       (fallback parser' = [] \<or> remainingStreamingBytes parser' = 0) else True)"
proof -
  have "keeps rh dh (\<lambda>_. True)" by (simp add: keeps_def)
  from reads_run_post [OF assms this _ parser_ok_initial, where s = s and reserved = reserved and ds = ds]
  obtain second parser' reserved' s' where
    r: "reads_run rh dh slack pad user reserved initial_parser s ds = Some (second, parser', reserved', s')"
      "second = user \<longrightarrow> parser_ok (proxied_of reserved) parser'" by auto
  from r(2) have "if second = user then length (fallback parser') < MAX_FALLBACK_SIZE \<and>
       (fallback parser' = [] \<or> remainingStreamingBytes parser' = 0) else True"
    by (simp add: parser_ok_def)
  with r(1) show ?thesis by (intro exI conjI)
qed

theorem http_reads_safe_witness:
  "\<exists>second parser' reserved' s'.
    reads_run (\<lambda>u req n. (u, n + 1)) (\<lambda>u d fin n. (u, n)) (replicate 32 0) (replicate 32 7) 1 None initial_parser (0 :: nat)
      [[71, 69], [84, 32]] = Some (second, parser', reserved', s') \<and>
    (if second = 1 then length (fallback parser') < MAX_FALLBACK_SIZE \<and>
       (fallback parser' = [] \<or> remainingStreamingBytes parser' = 0) else True)"
  by (rule http_reads_safe) (simp_all add: FULLPTR_def)



section \<open>A body with a content length\<close>

lemma not_chunked_small: "n < 2 ^ 62 \<Longrightarrow> \<not> isParsingChunkedEncoding (of_nat n)"
proof -
  assume "n < 2 ^ 62"
  then have "take_bit 62 (of_nat n :: u64) = of_nat n" by (simp add: take_bit_of_nat_u64)
  then show ?thesis
    unfolding isParsingChunkedEncoding_def STATE_SIZE_MASK_eq and_not_mask by simp
qed



section \<open>Requests that are treated wrongly\<close>

text \<open>
  The check for a second host trusts the filter: when the names before the first host set its four
  bits, the filter answers yes, the lookup finds that first host, and a valid request is refused.
  One name with the same four characters is enough.
\<close>

lemma valid_request_refused:
  "check_request [(bytes ''GET'', bytes ''/''), (bytes ''hasst'', []), (bytes ''host'', bytes ''a'')] fresh_request = None"
  by (simp add: check_request_def header_iter_def str_host_def bytes_simps fresh_request_def mightHave_def
      bloom_reset_def bloom_add_def getFeatures_def perfectHash_def scramble_val_def scramble_bytes_def load32_def
      getHeader_def find_header_def unsigned_of_nat take_bit_nat_eq_self)

text \<open>
  A line with an empty name ends every iteration over the array: what follows it is neither counted
  nor found, so a second host or a transfer encoding behind it is not seen by the checks.
\<close>

lemma empty_name_hides:
  "header_iter [(m, u), (str_host, [97]), ([], []), (str_host, [98]), (str_transfer_encoding, [99])] = [(str_host, [97])]"
  by (simp add: header_iter_def str_host_def bytes_simps)

end
