(* ===== verification/Router_Dispatch.thy ===== *)
theory Router_Dispatch
  imports Http_Router
begin

text \<open>
  What \<open>route\<close> of \<open>HttpRouter.h\<close> computes. The lazily filled cache of URL segments is the pure
  split of the URL, cut at \<open>MAX_URL_SEGMENTS\<close>; the walk over the tree calls the handlers of the
  pure list of candidates, in its order and with its parameters, and stops at the first that takes
  the request. The walk stays inside both arrays and the list of handlers.
\<close>

section \<open>The URL cache\<close>

function url_segments :: "byte list \<Rightarrow> byte list list" where
  "url_segments u = (if u = [] then []
     else takeWhile (\<lambda>b. b \<noteq> SLASH) (tl u) # url_segments (dropWhile (\<lambda>b. b \<noteq> SLASH) (tl u)))"
  by pat_completeness auto
termination
  by (relation "measure length") (auto simp: le_imp_less_Suc length_dropWhile_le neq_Nil_conv)

declare url_segments.simps [simp del]

lemma url_segments_Nil [simp]: "url_segments [] = []"
  by (simp add: url_segments.simps)

text \<open>The segments the router looks at.\<close>

definition segments :: "byte list \<Rightarrow> byte list list" where
  "segments u = take MAX_URL_SEGMENTS (url_segments u)"

lemma length_segments: "length (segments u) \<le> MAX_URL_SEGMENTS"
  by (simp add: segments_def)

definition cached :: "'a HttpRouter \<Rightarrow> nat" where
  "cached r = nat (urlSegmentTop r + 1)"

definition cache_ok :: "byte list \<Rightarrow> 'a HttpRouter \<Rightarrow> bool" where
  "cache_ok u r \<longleftrightarrow> -1 \<le> urlSegmentTop r \<and> length (urlSegmentVector r) = MAX_URL_SEGMENTS \<and>
     cached r \<le> length (segments u) \<and>
     take (cached r) (urlSegmentVector r) = take (cached r) (url_segments u) \<and>
     url_segments (currentUrl r) = drop (cached r) (url_segments u)"

lemma cache_ok_setUrl:
  "length (urlSegmentVector r) = MAX_URL_SEGMENTS \<Longrightarrow> cache_ok u (setUrl u r)"
  by (simp add: cache_ok_def setUrl_def cached_def)

lemma find_byte_split:
  "(case find_byte c bs of None \<Rightarrow> length bs | Some k \<Rightarrow> k) = length (takeWhile (\<lambda>b. b \<noteq> c) bs)"
  by (induction bs) (auto split: option.split simp del: find_byte_None)

lemma take_length_takeWhile: "take (length (takeWhile P bs)) bs = takeWhile P bs"
  by (metis append_eq_conv_conj takeWhile_dropWhile_id)

lemma drop_length_takeWhile: "drop (length (takeWhile P bs)) bs = dropWhile P bs"
  by (metis append_eq_conv_conj takeWhile_dropWhile_id)

text \<open>Reading segment \<open>i\<close> when every earlier one has been read.\<close>

definition only_cache :: "'a HttpRouter \<Rightarrow> 'a HttpRouter \<Rightarrow> bool" where
  "only_cache r r' \<longleftrightarrow> cached r \<le> cached r' \<and>
     (\<exists>v t c. r' = r\<lparr>urlSegmentVector := v, urlSegmentTop := t, currentUrl := c\<rparr>)"

lemma only_cache_refl [simp]: "only_cache r r"
  unfolding only_cache_def
  by (rule conjI [OF order_refl], rule exI [of _ "urlSegmentVector r"], rule exI [of _ "urlSegmentTop r"],
      rule exI [of _ "currentUrl r"]) simp

lemma url_segments_drop:
  assumes "url_segments c = drop k (url_segments u)" "c \<noteq> []"
  shows "k < length (url_segments u) \<and> url_segments u ! k = takeWhile (\<lambda>b. b \<noteq> SLASH) (tl c) \<and>
    url_segments (dropWhile (\<lambda>b. b \<noteq> SLASH) (tl c)) = drop (Suc k) (url_segments u)"
proof -
  have e: "drop k (url_segments u) = takeWhile (\<lambda>b. b \<noteq> SLASH) (tl c) # url_segments (dropWhile (\<lambda>b. b \<noteq> SLASH) (tl c))"
    using assms by (subst (asm) url_segments.simps) simp
  then have k: "k < length (url_segments u)" using linorder_not_le by fastforce
  then show ?thesis using e Cons_nth_drop_Suc [OF k] by simp
qed

lemma getUrlSegment_spec:
  assumes ok: "cache_ok u r" and i: "i \<le> cached r"
  shows "\<exists>r'. getUrlSegment i r = Some (if i < length (segments u) then Some (segments u ! i) else None, r') \<and>
    cache_ok u r' \<and> only_cache r r' \<and> (i < length (segments u) \<longrightarrow> Suc i \<le> cached r')"
proof (cases "i < cached r")
  case True
  then have ni: "\<not> int i > urlSegmentTop r" by (simp add: cached_def)
  have "i < length (segments u)" "i < length (urlSegmentVector r)"
    using True ok length_segments [of u] by (auto simp: cache_ok_def)
  moreover have "urlSegmentVector r ! i = url_segments u ! i"
    using ok True by (metis cache_ok_def nth_take)
  ultimately show ?thesis
    using ok ni True by (intro exI [of _ r]) (auto simp: getUrlSegment_def segments_def)
next
  case False
  with i have k: "cached r = i" by simp
  then have top: "int i = urlSegmentTop r + 1" using ok by (auto simp: cached_def cache_ok_def)
  have seg: "url_segments (currentUrl r) = drop i (url_segments u)" using ok k by (simp add: cache_ok_def)
  show ?thesis
  proof (cases "currentUrl r = [] \<or> i > MAX_URL_SEGMENTS - 1")
    case True
    then have "\<not> i < length (segments u)"
      using seg by (auto simp: segments_def MAX_URL_SEGMENTS_def)
    then show ?thesis using True top ok
      by (intro exI [of _ r]) (auto simp: getUrlSegment_def)
  next
    case False
    then have m: "i < MAX_URL_SEGMENTS" by (auto simp: MAX_URL_SEGMENTS_def)
    note d = url_segments_drop [OF seg] 
    have len: "i < length (segments u)" using d False m by (simp add: segments_def)
    let ?u = "drop 1 (currentUrl r)"
    define w where "w = takeWhile (\<lambda>b. b \<noteq> SLASH) ?u"
    define r' where "r' = r\<lparr>urlSegmentVector := (urlSegmentVector r)[i := w], urlSegmentTop := urlSegmentTop r + 1,
      currentUrl := dropWhile (\<lambda>b. b \<noteq> SLASH) ?u\<rparr>"
    have w: "w = url_segments u ! i" using d False by (simp add: w_def drop_Suc)
    have c': "cached r' = Suc i" using top by (simp add: r'_def cached_def)
    have lv: "length (urlSegmentVector r) = MAX_URL_SEGMENTS" using ok by (simp add: cache_ok_def)
    have "take (Suc i) ((urlSegmentVector r)[i := w]) = take (Suc i) (url_segments u)"
      using ok k m lv d False w by (simp add: take_Suc_conv_app_nth cache_ok_def)
    then have "cache_ok u r'" using c' lv d False len top
      by (simp add: cache_ok_def) (simp add: r'_def drop_Suc)
    moreover have "only_cache r r'" using c' k by (auto simp: only_cache_def r'_def)
    moreover have "getUrlSegment i r = Some (Some w, r')"
      using False top m lv unfolding getUrlSegment_def Let_def find_byte_split take_length_takeWhile drop_length_takeWhile w_def [symmetric]
      by (simp add: r'_def w_def drop_Suc)
    ultimately show ?thesis using len w c' by (intro exI [of _ r']) (simp add: segments_def)
  qed
qed
section \<open>The candidates of a URL\<close>

text \<open>
  The handler ids a URL reaches below a node, with the parameters each would see, in the order
  the code tries them; \<open>first_true\<close> runs them until one takes the request.
\<close>

fun candidates :: "Node \<Rightarrow> byte list list \<Rightarrow> byte list list \<Rightarrow> (u32 \<times> byte list list) list"
  and childCandidates :: "Node list \<Rightarrow> byte list \<Rightarrow> byte list list \<Rightarrow> byte list list \<Rightarrow> (u32 \<times> byte list list) list" where
  "candidates (Node n cs hs hp) segs ps =
    (case segs of [] \<Rightarrow> map (\<lambda>h. (h, ps)) hs | s # ss \<Rightarrow> childCandidates cs s ss ps)"
| "childCandidates [] s ss ps = []"
| "childCandidates (p # cs) s ss ps =
    (if is_wild (node_name p) then map (\<lambda>h. (h, ps)) (node_handlers p)
     else if is_param (node_name p) \<and> s \<noteq> [] then candidates p ss (ps @ [s])
     else if node_name p = s then candidates p ss ps else []) @ childCandidates cs s ss ps"

fun first_true :: "'a handler list \<Rightarrow> (u32 \<times> byte list list) list \<Rightarrow> 'a \<Rightarrow> byte list list option \<times> 'a" where
  "first_true hs [] a = (None, a)"
| "first_true hs ((h, ps) # cs) a =
    (case (hs ! handler_index h) ps a of (took, a) \<Rightarrow> if took then (Some ps, a) else first_true hs cs a)"

lemma first_true_append:
  "first_true hs (xs @ ys) a =
    (case first_true hs xs a of (Some ps, a) \<Rightarrow> (Some ps, a) | (None, a) \<Rightarrow> first_true hs ys a)"
  by (induction xs arbitrary: a) (auto split: prod.splits option.splits)

fun node_ids :: "Node \<Rightarrow> u32 set" where
  "node_ids (Node n cs hs hp) = set hs \<union> (\<Union>c \<in> set cs. node_ids c)"

definition stack_ok :: "nat \<Rightarrow> 'a HttpRouter \<Rightarrow> bool" where
  "stack_ok i r \<longleftrightarrow> length (params r) = MAX_URL_SEGMENTS \<and> -1 \<le> paramsTop r \<and> paramsTop r < int i"

text \<open>What a step of the walk does, given the candidates it covers.\<close>

definition kept :: "byte list \<Rightarrow> 'a HttpRouter \<Rightarrow> 'a HttpRouter \<Rightarrow> bool" where
  "kept u r r' \<longleftrightarrow> cache_ok u r' \<and> cached r \<le> cached r' \<and>
     handlers r' = handlers r \<and> root r' = root r \<and> length (params r') = length (params r)"

definition told :: "'a HttpRouter \<Rightarrow> byte list list option \<times> 'a \<Rightarrow> bool \<Rightarrow> 'a HttpRouter \<Rightarrow> bool" where
  "told r res took r' \<longleftrightarrow> userData r' = snd res \<and>
     (case fst res of Some ps \<Rightarrow> took \<and> visible r' = ps
      | None \<Rightarrow> \<not> took \<and> visible r' = visible r \<and> paramsTop r' = paramsTop r)"

definition covers :: "byte list \<Rightarrow> 'a HttpRouter \<Rightarrow> (u32 \<times> byte list list) list \<Rightarrow>
    (bool \<times> 'a HttpRouter) option \<Rightarrow> bool" where
  "covers u r cands res \<longleftrightarrow> (case res of None \<Rightarrow> False
     | Some (took, r') \<Rightarrow> kept u r r' \<and> told r (first_true (handlers r) cands (userData r)) took r')"

lemma kept_trans: "kept u r r' \<Longrightarrow> kept u r' r'' \<Longrightarrow> kept u r r''"
  by (simp add: kept_def)

lemma covers_none: "cache_ok u r \<Longrightarrow> covers u r [] (Some (False, r))"
  by (simp add: covers_def kept_def told_def)

lemma covers_or_else_from:
  assumes m: "covers u r1 xs m" and r1: "kept u r r1" "userData r1 = userData r"
    and k: "\<And>r'. kept u r1 r' \<Longrightarrow> visible r' = visible r1 \<Longrightarrow> paramsTop r' = paramsTop r1 \<Longrightarrow>
      kept u r' (f r') \<and> userData (f r') = userData r' \<and> visible (f r') = visible r \<and>
      paramsTop (f r') = paramsTop r \<and> covers u (f r') ys (k r')"
  shows "covers u r (xs @ ys) (or_else m k)"
proof -
  have h1: "handlers r1 = handlers r" using r1 by (simp add: kept_def)
  obtain took r' where r': "m = Some (took, r')" "kept u r1 r'"
    and t: "told r1 (first_true (handlers r) xs (userData r)) took r'"
    using m h1 r1 by (auto simp: covers_def split: option.splits)
  obtain o1 a where f: "first_true (handlers r) xs (userData r) = (o1, a)" by fastforce
  note k1 = kept_trans [OF r1(1) r'(2)]
  show ?thesis
  proof (cases o1)
    case (Some ps)
    then show ?thesis using r' k1 t f by (simp add: covers_def or_else_def first_true_append told_def)
  next
    case None
    then have v: "visible r' = visible r1" "paramsTop r' = paramsTop r1" "userData r' = a" "\<not> took"
      using t f by (simp_all add: told_def)
    let ?r = "f r'"
    have e: "kept u r' ?r" "userData ?r = a" "visible ?r = visible r" "paramsTop ?r = paramsTop r"
      "covers u ?r ys (k r')"
      using k [OF r'(2) v(1, 2)] v by simp_all
    from e(5) obtain took2 r'' where k2: "k r' = Some (took2, r'')" "kept u ?r r''"
      "told ?r (first_true (handlers ?r) ys (userData ?r)) took2 r''"
      by (auto simp: covers_def split: option.splits)
    note k3 = kept_trans [OF k1 kept_trans [OF e(1) k2(2)]]
    have h: "handlers ?r = handlers r" using kept_trans [OF k1 e(1)] by (simp add: kept_def)
    have "told r (first_true (handlers r) ys a) took2 r''"
      using k2(3) e h by (simp add: told_def split: option.splits)
    then show ?thesis using r' k2 v f None k3
      by (simp add: covers_def or_else_def first_true_append)
  qed
qed

lemma covers_or_else:
  assumes "cache_ok u r" "covers u r xs m"
    and "\<And>r'. kept u r r' \<Longrightarrow> visible r' = visible r \<Longrightarrow> paramsTop r' = paramsTop r \<Longrightarrow> covers u r' ys (k r')"
  shows "covers u r (xs @ ys) (or_else m k)"
  using assms by (intro covers_or_else_from [where f = "\<lambda>r. r"]) (auto simp: kept_def)

lemma visible_userData [simp]: "visible (r\<lparr>userData := a\<rparr>) = visible r"
  by (simp add: visible_def getParameters_def)

lemma runHandlers_covers:
  "cache_ok u r \<Longrightarrow> (\<And>h. h \<in> set hs \<Longrightarrow> handler_index h < length (handlers r)) \<Longrightarrow>
   covers u r (map (\<lambda>h. (h, visible r)) hs) (runHandlers hs r)"
proof (induction hs arbitrary: r)
  case Nil
  then show ?case by (simp add: covers_none)
next
  case (Cons h hs)
  obtain took a where t: "(handlers r ! handler_index h) (visible r) (userData r) = (took, a)" by fastforce
  have c: "cache_ok u (r\<lparr>userData := a\<rparr>)" using Cons.prems by (simp add: cache_ok_def cached_def)
  then have "covers u (r\<lparr>userData := a\<rparr>) (map (\<lambda>h. (h, visible r)) hs) (runHandlers hs (r\<lparr>userData := a\<rparr>))"
    using Cons.IH [OF c] Cons.prems by simp
  then show ?case using Cons.prems t c
    by (auto simp: covers_def kept_def told_def cached_def split: option.splits)
qed

lemma push_visible:
  assumes "stack_ok i r" "i < MAX_URL_SEGMENTS"
  obtains r' where "push_param s r = Some r'" "visible r' = visible r @ [s]"
    "stack_ok (Suc i) r'" "paramsTop r' = paramsTop r + 1" "kept u r r' = cache_ok u r" "userData r' = userData r"
proof -
  let ?t = "nat (paramsTop r + 1)"
  have t: "?t < length (params r)" "nat (2 + paramsTop r) = Suc ?t" using assms by (auto simp: stack_ok_def)
  then have "take (nat (2 + paramsTop r)) ((params r)[?t := s]) = take ?t (params r) @ [s]"
    by (simp add: take_Suc_conv_app_nth)
  then show ?thesis using assms t
    by (intro that [of "r\<lparr>params := (params r)[?t := s], paramsTop := paramsTop r + 1\<rparr>"])
      (simp_all add: push_param_def Let_def visible_def getParameters_def stack_ok_def kept_def cached_def cache_ok_def)
qed

lemma pop_visible:
  assumes "visible r' = visible r @ [s]" "paramsTop r' = paramsTop r + 1" "stack_ok i r" "stack_ok (Suc i) r''"
    "paramsTop r'' = paramsTop r'" "visible r'' = visible r'" "i < MAX_URL_SEGMENTS"
  shows "visible (pop_param r'') = visible r" "paramsTop (pop_param r'') = paramsTop r"
proof -
  define t where "t = nat (paramsTop r + 1)"
  have t: "nat (2 + paramsTop r) = Suc t" "Suc t \<le> length (params r'')" "paramsTop r'' = paramsTop r + 1"
    using assms by (auto simp: stack_ok_def t_def)
  then have "visible (pop_param r'') = butlast (visible r'')"
    by (simp add: visible_def pop_param_def getParameters_def butlast_take flip: t_def)
  then show "visible (pop_param r'') = visible r" using assms by simp
  show "paramsTop (pop_param r'') = paramsTop r" using t by (simp add: pop_param_def)
qed

section \<open>The walk\<close>

definition ids_ok :: "'a HttpRouter \<Rightarrow> u32 set \<Rightarrow> bool" where
  "ids_ok r S \<longleftrightarrow> (\<forall>h \<in> S. handler_index h < length (handlers r))"

lemma walk_covers:
  "cache_ok u r \<Longrightarrow> stack_ok i r \<Longrightarrow> i \<le> cached r \<Longrightarrow> ids_ok r (node_ids n) \<Longrightarrow>
   covers u r (candidates n (drop i (segments u)) (visible r)) (executeHandlers n i r)"
  "cache_ok u r \<Longrightarrow> stack_ok i r \<Longrightarrow> Suc i \<le> cached r \<Longrightarrow> i < length (segments u) \<Longrightarrow>
   segment = segments u ! i \<Longrightarrow> ids_ok r (\<Union>c \<in> set cs. node_ids c) \<Longrightarrow>
   covers u r (childCandidates cs segment (drop (Suc i) (segments u)) (visible r)) (childrenLoop cs segment i r)"
proof (induction n i r and cs segment i r rule: executeHandlers_childrenLoop.induct)
  case (1 n cs hs hp i r)
  obtain r' where g: "getUrlSegment i r = Some (if i < length (segments u) then Some (segments u ! i) else None, r')"
    and c: "cache_ok u r'" "only_cache r r'" and s: "i < length (segments u) \<Longrightarrow> Suc i \<le> cached r'"
    using getUrlSegment_spec [OF "1.prems"(1, 3)] by blast
  have k: "kept u r r'" "visible r' = visible r" "stack_ok i r' = stack_ok i r" "userData r' = userData r"
    "paramsTop r' = paramsTop r" "\<And>S. ids_ok r' S = ids_ok r S" "handlers r' = handlers r"
    using c by (auto simp: kept_def only_cache_def visible_def getParameters_def stack_ok_def ids_ok_def)
  have lift: "covers u r' cands res \<Longrightarrow> covers u r cands res" for cands res
    using k kept_trans [OF k(1)] by (auto simp: covers_def told_def split: option.splits)
  show ?case
  proof (cases "i < length (segments u)")
    case True
    have "covers u r' (childCandidates cs (segments u ! i) (drop (Suc i) (segments u)) (visible r'))
      (childrenLoop cs (segments u ! i) i r')"
      using "1.IH" [OF g, of "Some (segments u ! i)" r' "segments u ! i"] True c s k "1.prems"
      by (auto simp: ids_ok_def)
    then show ?thesis using True g k lift by (simp flip: Cons_nth_drop_Suc)
  next
    case False
    then have "covers u r' (map (\<lambda>h. (h, visible r')) hs) (runHandlers hs r')"
      using c k "1.prems" by (intro runHandlers_covers) (auto simp: ids_ok_def)
    then show ?thesis using False g k lift by simp
  qed
next
  case (2 segment i r)
  then show ?case by (simp add: covers_none)
next
  case (3 p ps segment i r)
  let ?rest = "childCandidates ps segment (drop (Suc i) (segments u)) (visible r)"
  have ctx: "cache_ok u r'" "stack_ok i r'" "Suc i \<le> cached r'" "ids_ok r' (\<Union>c \<in> set ps. node_ids c)"
    if "kept u r r'" "paramsTop r' = paramsTop r" for r'
    using that "3.prems" by (auto simp: kept_def stack_ok_def ids_ok_def)
  have ids: "ids_ok r (node_ids p)" "\<And>h. h \<in> set (node_handlers p) \<Longrightarrow> handler_index h < length (handlers r)"
    using "3.prems"(6) by (cases p; auto simp: ids_ok_def)+
  note len = "3.prems"(4) and seg = "3.prems"(5)
  have im: "i < MAX_URL_SEGMENTS" using len length_segments [of u] by simp
  consider (wild) "is_wild (node_name p)"
    | (param) "\<not> is_wild (node_name p)" "is_param (node_name p) \<and> segment \<noteq> []"
    | (static) "\<not> is_wild (node_name p)" "\<not> (is_param (node_name p) \<and> segment \<noteq> [])" "node_name p = segment"
    | (no) "\<not> is_wild (node_name p)" "\<not> (is_param (node_name p) \<and> segment \<noteq> [])" "node_name p \<noteq> segment"
    by blast
  then show ?case
  proof cases
    case wild
    have "covers u r' ?rest (childrenLoop ps segment i r')"
      if "kept u r r'" "visible r' = visible r" "paramsTop r' = paramsTop r" for r'
      using "3.IH"(1) [OF wild ctx(1-3) len seg ctx(4)] that by metis
    then show ?thesis using wild runHandlers_covers [OF "3.prems"(1) ids(2)] "3.prems"(1)
      by (simp add: covers_or_else)
  next
    case param
    obtain r1 where r1: "push_param segment r = Some r1" "visible r1 = visible r @ [segment]" "stack_ok (Suc i) r1"
      "paramsTop r1 = paramsTop r + 1" "kept u r r1 = cache_ok u r" "userData r1 = userData r"
      using push_visible [OF "3.prems"(2) im] by metis
    have k1: "kept u r r1" using r1 "3.prems"(1) by simp
    have e: "covers u r1 (candidates p (drop (Suc i) (segments u)) (visible r1)) (executeHandlers p (Suc i) r1)"
      using "3.IH"(2) [OF param r1(1)] k1 r1(3) "3.prems"(3) ids(1) by (simp add: kept_def ids_ok_def)
    have more: "kept u r' (pop_param r') \<and> userData (pop_param r') = userData r' \<and> visible (pop_param r') = visible r \<and>
        paramsTop (pop_param r') = paramsTop r \<and> covers u (pop_param r') ?rest (childrenLoop ps segment i (pop_param r'))"
      if k: "kept u r1 r'" and v: "visible r' = visible r1" "paramsTop r' = paramsTop r1" for r'
    proof -
      have s: "stack_ok (Suc i) r'" using r1(3) k v by (simp add: stack_ok_def kept_def)
      have p: "visible (pop_param r') = visible r" "paramsTop (pop_param r') = paramsTop r"
        using pop_visible [OF r1(2, 4) "3.prems"(2) s v(2, 1) im] .
      have kp: "kept u r' (pop_param r')" using k by (simp add: kept_def pop_param_def cache_ok_def cached_def)
      have kr: "kept u r (pop_param r')" using kept_trans [OF k1 kept_trans [OF k kp]] .
      have "userData (pop_param r') = userData r'" by (simp add: pop_param_def)
      then show ?thesis
        using "3.IH"(3) [OF param r1(1) ctx(1-3) [OF kr p(2)] len seg ctx(4) [OF kr p(2)]] kp p by simp
    qed
    show ?thesis
      using covers_or_else_from [where f = pop_param and k = "\<lambda>r. childrenLoop ps segment i (pop_param r)", OF e k1 r1(6) more]
        param r1 by simp
  next
    case static
    have "covers u r' ?rest (childrenLoop ps segment i r')"
      if "kept u r r'" "visible r' = visible r" "paramsTop r' = paramsTop r" for r'
      using "3.IH"(5) [OF static ctx(1-3) len seg ctx(4)] that by metis
    moreover have "covers u r (candidates p (drop (Suc i) (segments u)) (visible r)) (executeHandlers p (Suc i) r)"
      using "3.IH"(4) [OF static] "3.prems" ids(1) by (simp add: stack_ok_def)
    ultimately show ?thesis using static "3.prems"(1) by (auto simp: covers_or_else)
  next
    case no
    then show ?thesis using "3.IH"(6) [OF no] "3.prems" by (auto simp: ids_ok_def)
  qed
qed

section \<open>Routing\<close>

definition methodCandidates :: "Node \<Rightarrow> byte list \<Rightarrow> byte list list \<Rightarrow> (u32 \<times> byte list list) list" where
  "methodCandidates rt meth segs =
    (case List.find (\<lambda>p. node_name p = meth) (children rt) of None \<Rightarrow> [] | Some p \<Rightarrow> candidates p segs [])"

text \<open>The handlers of the method, and then those of the last method node.\<close>

definition routeCandidates :: "Node \<Rightarrow> byte list \<Rightarrow> byte list \<Rightarrow> (u32 \<times> byte list list) list" where
  "routeCandidates rt meth url = methodCandidates rt meth (segments url) @
     (if children rt = [] then [] else candidates (last (children rt)) (segments url) [])"

definition router_sane :: "'a HttpRouter \<Rightarrow> bool" where
  "router_sane r \<longleftrightarrow> length (urlSegmentVector r) = MAX_URL_SEGMENTS \<and> length (params r) = MAX_URL_SEGMENTS \<and>
     ids_ok r (node_ids (root r))"

lemma find_child_find:
  "List.find P cs = map_option (\<lambda>j. cs ! j) (find_child P cs)"
  by (induction cs) (auto simp: option.map_comp o_def)

lemma find_child_length: "find_child P cs = Some j \<Longrightarrow> j < length cs"
  by (induction cs arbitrary: j) (auto split: if_splits)

lemma child_ids: "c \<in> set (children n) \<Longrightarrow> h \<in> node_ids c \<Longrightarrow> h \<in> node_ids n"
  by (cases n) auto

lemma route_covers:
  assumes "router_sane r"
  shows "covers url (reset_params (setUrl url r)) (routeCandidates (root r) meth url) (route meth url r)"
proof -
  let ?r = "reset_params (setUrl url r)"
  have ok: "cache_ok url ?r" "stack_ok 0 ?r" "visible ?r = []" "root ?r = root r"
    using assms cache_ok_setUrl [of r url]
    by (simp_all add: router_sane_def cache_ok_def cached_def reset_params_def setUrl_def stack_ok_def visible_def getParameters_def)
  have ids: "ids_ok r' (node_ids c)" if "c \<in> set (children (root r))" "kept url ?r r'" for c r'
    using assms that child_ids [of c "root r"] by (auto simp: router_sane_def ids_ok_def kept_def reset_params_def setUrl_def)
  have walk: "covers url r' (candidates c (segments url) []) (executeHandlers c 0 r')"
    if "c \<in> set (children (root r))" "kept url ?r r'" "visible r' = visible ?r" "paramsTop r' = paramsTop ?r" for c r'
    using walk_covers(1) [of url r' 0 c] that ok ids [OF that(1, 2)] by (simp add: kept_def stack_ok_def)
  have own: "covers url ?r (methodCandidates (root r) meth (segments url))
     (case find_child (\<lambda>p. node_name p = meth) (children (root ?r)) of
                  None \<Rightarrow> Some (False, ?r)
                | Some j \<Rightarrow> executeHandlers (children (root ?r) ! j) 0 ?r)"
    using ok walk [of _ ?r] find_child_length
    by (auto simp: methodCandidates_def find_child_find covers_none kept_def split: option.splits)
  have any: "covers url r' (if children (root r) = [] then [] else candidates (last (children (root r))) (segments url) [])
      (if children (root r') = [] then Some (False, r') else executeHandlers (last (children (root r'))) 0 r')"
    if "kept url ?r r'" "visible r' = visible ?r" "paramsTop r' = paramsTop ?r" for r'
    using that ok walk [OF _ that, of "last (children (root r))"] by (simp add: covers_none kept_def)
  show ?thesis using covers_or_else [OF ok(1) own any] unfolding route_def routeCandidates_def Let_def .
qed

lemma route_dispatch:
  assumes "router_sane r"
  shows "\<exists>r'. route meth url r = Some (fst (first_true (handlers r) (routeCandidates (root r) meth url) (userData r)) \<noteq> None, r') \<and>
    userData r' = snd (first_true (handlers r) (routeCandidates (root r) meth url) (userData r)) \<and>
    handlers r' = handlers r \<and> root r' = root r \<and> router_sane r' \<and>
    (\<forall>ps. fst (first_true (handlers r) (routeCandidates (root r) meth url) (userData r)) = Some ps \<longrightarrow> visible r' = ps)"
proof -
  have e: "handlers (reset_params (setUrl url r)) = handlers r" "userData (reset_params (setUrl url r)) = userData r"
    "root (reset_params (setUrl url r)) = root r" "params (reset_params (setUrl url r)) = params r"
    by (simp_all add: reset_params_def setUrl_def)
  from route_covers [OF assms, of url meth] e assms show ?thesis
    by (auto simp: covers_def kept_def told_def router_sane_def ids_ok_def cache_ok_def split: option.splits)
qed

end
