(* ===== verification/Router_Update.thy ===== *)
theory Router_Update
  imports Router_Dispatch
begin

text \<open>
  What \<open>add\<close> and \<open>remove\<close> of \<open>HttpRouter.h\<close> do to the table of routes, and the invariant of the
  matching tree that both keep: children ordered by priority and kind, methods ordered and
  distinct, ids sorted, inside the list of handlers and with different indices.
\<close>

section \<open>Ordered insertion\<close>

lemma upper_bound_spec:
  "sorted_wrt (\<lambda>x y. lt v x \<longrightarrow> lt v y) xs \<Longrightarrow>
   upper_bound lt v xs \<le> length xs \<and> (\<forall>x \<in> set (take (upper_bound lt v xs) xs). \<not> lt v x) \<and>
   (\<forall>x \<in> set (drop (upper_bound lt v xs) xs). lt v x)"
proof (induction lt v xs rule: upper_bound.induct)
  case (1 lt v xs)
  show ?case
  proof (cases "xs = []")
    case True
    then show ?thesis by (simp add: upper_bound.simps)
  next
    case False
    define half where "half = length xs div 2"
    define lo where "lo = take half xs"
    define m where "m = xs ! half"
    define hi where "hi = drop (Suc half) xs"
    have half: "half < length xs" using False by (simp add: half_def)
    have e: "xs = lo @ m # hi" unfolding lo_def hi_def m_def by (rule id_take_nth_drop [OF half])
    have len: "length lo = half" using half by (simp add: lo_def)
    have sorted: "sorted_wrt (\<lambda>x y. lt v x \<longrightarrow> lt v y) lo" "sorted_wrt (\<lambda>x y. lt v x \<longrightarrow> lt v y) hi"
      "\<forall>x \<in> set lo. lt v x \<longrightarrow> lt v m" "\<forall>x \<in> set hi. lt v m \<longrightarrow> lt v x"
      using "1.prems" unfolding e sorted_wrt_append sorted_wrt.simps list.set by blast+
    show ?thesis
    proof (cases "lt v m")
      case True
      have ub: "upper_bound lt v xs = upper_bound lt v lo"
        using False True unfolding lo_def m_def half_def by (subst upper_bound.simps) (simp add: Let_def)
      note ih = "1.IH"(1) [OF False half_def True [unfolded m_def], folded lo_def, OF sorted(1)]
      have d: "take (upper_bound lt v lo) xs = take (upper_bound lt v lo) lo"
        "drop (upper_bound lt v lo) xs = drop (upper_bound lt v lo) lo @ m # hi" "upper_bound lt v lo \<le> length xs"
        using ih unfolding e by simp_all
      show ?thesis unfolding ub d set_append list.set using ih True sorted(4) d(3) by blast
    next
      case False
      have ub: "upper_bound lt v xs = Suc half + upper_bound lt v hi"
        using \<open>xs \<noteq> []\<close> False unfolding hi_def m_def half_def by (subst upper_bound.simps) (simp add: Let_def)
      note ih = "1.IH"(2) [OF \<open>xs \<noteq> []\<close> half_def False [unfolded m_def], folded hi_def, OF sorted(2)]
      have d: "take (Suc half + upper_bound lt v hi) xs = lo @ m # take (upper_bound lt v hi) hi"
        "drop (Suc half + upper_bound lt v hi) xs = drop (upper_bound lt v hi) hi"
        "Suc half + upper_bound lt v hi \<le> length xs"
        using ih len unfolding e by simp_all
      show ?thesis unfolding ub d set_append list.set using ih False sorted(3) d(3) by blast
    qed
  qed
qed

lemma sorted_wrt_insert_at:
  assumes "sorted_wrt R xs" "\<And>x. x \<in> set (take k xs) \<Longrightarrow> R x v" "\<And>x. x \<in> set (drop k xs) \<Longrightarrow> R v x"
  shows "sorted_wrt R (insert_at k v xs)"
proof -
  have "sorted_wrt R (take k xs @ drop k xs)" using assms(1) by simp
  then have "sorted_wrt R (take k xs)" "sorted_wrt R (drop k xs)"
    "\<forall>x \<in> set (take k xs). \<forall>y \<in> set (drop k xs). R x y"
    unfolding sorted_wrt_append by blast+
  then show ?thesis using assms(2, 3) unfolding insert_at_def by (simp add: sorted_wrt_append)
qed

lemma set_insert_at [simp]: "set (insert_at k v xs) = insert v (set xs)"
  unfolding insert_at_def by (metis append_take_drop_id list.simps(15) set_append Un_insert_right)

lemma map_insert_at: "map f (insert_at k v xs) = insert_at k (f v) (map f xs)"
  by (simp add: insert_at_def take_map drop_map)

lemma distinct_insert_at: "distinct (insert_at k v xs) \<longleftrightarrow> distinct xs \<and> v \<notin> set xs"
proof -
  have "distinct (insert_at k v xs) \<longleftrightarrow> distinct (take k xs @ drop k xs) \<and> v \<notin> set (take k xs @ drop k xs)"
    unfolding insert_at_def distinct_append set_append by auto
  then show ?thesis by (simp only: append_take_drop_id)
qed

lemma nth_insert_at: "k \<le> length xs \<Longrightarrow> insert_at k v xs ! k = v"
  by (simp add: insert_at_def nth_append)

lemma length_insert_at [simp]: "length (insert_at k v xs) = Suc (length xs)"
  by (simp add: insert_at_def)

section \<open>The invariant of the tree\<close>

definition node_key :: "Node \<Rightarrow> byte list \<times> bool" where
  "node_key c = (node_name c, isHighPriority c)"

definition key_le :: "byte list \<times> bool \<Rightarrow> byte list \<times> bool \<Rightarrow> bool" where
  "key_le a b \<longleftrightarrow> snd a \<and> \<not> snd b \<or> snd a = snd b \<and> lexicalOrder (fst b) \<le> lexicalOrder (fst a)"

definition keys_ok :: "(byte list \<times> bool) list \<Rightarrow> bool" where
  "keys_ok ks \<longleftrightarrow> sorted_wrt key_le ks \<and> distinct ks \<and> (\<forall>k \<in> set ks. is_param (fst k) \<longrightarrow> fst k = [COLON])"

fun node_ok :: "Node \<Rightarrow> bool" where
  "node_ok (Node n cs hs hp) \<longleftrightarrow> sorted hs \<and> keys_ok (map node_key cs) \<and> (\<forall>c \<in> set cs. node_ok c)"

definition root_ok :: "Node \<Rightarrow> bool" where
  "root_ok rt \<longleftrightarrow> distinct (map node_name (children rt)) \<and> node_handlers rt = [] \<and>
     (\<forall>c \<in> set (children rt). \<not> isHighPriority c \<and> node_ok c)"

definition methods_sorted :: "Node \<Rightarrow> bool" where
  "methods_sorted rt \<longleftrightarrow> sorted (map (\<lambda>c. MethodKey (node_name c)) (children rt))"

definition router_ok :: "'a HttpRouter \<Rightarrow> bool" where
  "router_ok r \<longleftrightarrow> router_sane r \<and> root_ok (root r) \<and> methods_sorted (root r) \<and>
     inj_on handler_index (node_ids (root r)) \<and> length (handlers r) < 2 ^ 28"

lemma node_ok_iff:
  "node_ok n \<longleftrightarrow> sorted (node_handlers n) \<and> keys_ok (map node_key (children n)) \<and> (\<forall>c \<in> set (children n). node_ok c)"
  by (cases n) simp

lemma node_ids_iff: "node_ids n = set (node_handlers n) \<union> (\<Union>c \<in> set (children n). node_ids c)"
  by (cases n) simp

lemma subseq_set: "subseq xs ys \<Longrightarrow> set xs \<subseteq> set ys"
  by (induction rule: list_emb.induct) auto

lemma subseq_distinct: "subseq xs ys \<Longrightarrow> distinct ys \<Longrightarrow> distinct xs"
  by (induction rule: list_emb.induct) (auto dest: subseq_set)

lemma subseq_sorted_wrt: "subseq xs ys \<Longrightarrow> sorted_wrt R ys \<Longrightarrow> sorted_wrt R xs"
  by (induction rule: list_emb.induct) (auto dest: subseq_set)

lemma keys_ok_subseq: "subseq ks' ks \<Longrightarrow> keys_ok ks \<Longrightarrow> keys_ok ks'"
  unfolding keys_ok_def
  by (auto dest: subseq_set subseq_distinct subseq_sorted_wrt)

section \<open>Removing\<close>

lemma HANDLER_MASK_mask: "HANDLER_MASK = mask 28"
  by (simp add: HANDLER_MASK_def mask_eq_exp_minus_1)

lemma handler_index_alt: "handler_index h = unat h mod 2 ^ 28"
  unfolding handler_index_def HANDLER_MASK_mask take_bit_eq_mask [symmetric] unsigned_take_bit_eq by (rule take_bit_eq_mod)

lemma low_and_high:
  assumes "unat (x::u32) < 2 ^ 28"
  shows "x AND (y AND NOT HANDLER_MASK) = 0"
proof -
  have t: "take_bit 28 x = x"
    using assms by (metis take_bit_nat_eq_self unsigned_take_bit_eq word_unat_eq_iff)
  have "n < 28" if "bit x n" for n using that t by (metis bit_take_bit_iff)
  then show ?thesis unfolding HANDLER_MASK_mask by (auto intro!: bit_eqI simp: bit_simps)
qed

lemma mask_split: "(h AND HANDLER_MASK) + (h AND NOT HANDLER_MASK) = h"
  by (subst disjunctive_add_eq_or) (auto intro!: bit_eqI simp: bit_simps)

lemma mask_greater: "it AND HANDLER_MASK > h AND HANDLER_MASK \<longleftrightarrow> handler_index h < handler_index it"
  by (simp add: handler_index_def word_less_nat_alt)

lemma shift_handler_minus:
  assumes "handler_index h < handler_index it"
  shows "shift_handler h it = it - 1" "unat (shift_handler h it) = unat it - 1"
    "handler_index (shift_handler h it) = handler_index it - 1"
proof -
  let ?a = "it AND HANDLER_MASK"
  have pos: "0 < unat ?a" using assms by (simp add: handler_index_def)
  have "unat (?a - 1) = unat ?a - 1" using pos by (simp add: unat_minus_one unat_gt_0)
  moreover have "unat ?a < 2 ^ 28" using handler_index_alt [of it] by (simp add: handler_index_def)
  ultimately have "unat (?a - 1) < 2 ^ 28" by simp
  then have dis: "(?a - 1) AND (it AND NOT HANDLER_MASK) = 0" by (rule low_and_high)
  have "shift_handler h it = (?a - 1) + (it AND NOT HANDLER_MASK)"
    using assms by (simp add: shift_handler_def mask_greater disjunctive_add_eq_or [OF dis])
  also have "\<dots> = it - 1" using mask_split [of it] by (simp add: algebra_simps)
  finally show e: "shift_handler h it = it - 1" .
  have "it \<noteq> 0" using assms by (auto simp: handler_index_def)
  then show u: "unat (shift_handler h it) = unat it - 1" unfolding e by (simp add: unat_minus_one)
  show "handler_index (shift_handler h it) = handler_index it - 1"
    using assms unfolding handler_index_alt u by (cases "unat it") (auto simp: mod_Suc split: if_splits)
qed

lemma cullHandlers_eq: "cullHandlers h hs = map (shift_handler h) (filter (\<lambda>x. x \<noteq> h) hs)"
  by (induction hs) (auto simp: mask_greater shift_handler_def)

definition kept_ids :: "u32 \<Rightarrow> (u32 \<times> byte list list) list \<Rightarrow> (u32 \<times> byte list list) list" where
  "kept_ids h cs = map (\<lambda>(x, ps). (shift_handler h x, ps)) (filter (\<lambda>(x, ps). x \<noteq> h) cs)"

lemma kept_ids_simps [simp]:
  "kept_ids h [] = []" "kept_ids h (xs @ ys) = kept_ids h xs @ kept_ids h ys"
  by (simp_all add: kept_ids_def)

lemma kept_ids_cull: "map (\<lambda>x. (x, ps)) (cullHandlers h hs) = kept_ids h (map (\<lambda>x. (x, ps)) hs)"
  by (induction hs) (auto simp: cullHandlers_eq kept_ids_def)

lemma cullNode_name [simp]: "node_name (snd (cullNode b h n)) = node_name n" "isHighPriority (snd (cullNode b h n)) = isHighPriority n"
  by (cases n; simp add: Let_def)+

lemma cullNode_handlers: "node_handlers (snd (cullNode True h n)) = cullHandlers h (node_handlers n)"
  by (cases n; simp add: Let_def)

lemma cullNode_removed: "fst (cullNode b h n) \<Longrightarrow> candidates (snd (cullNode b h n)) segs ps = [] \<and>
    node_handlers (snd (cullNode b h n)) = []"
  by (cases n) (auto simp: Let_def split: list.split)

lemma cull_candidates:
  "candidates (snd (cullNode True h n)) segs ps = kept_ids h (candidates n segs ps)"
  "childCandidates (cullChildren h cs) s ss ps = kept_ids h (childCandidates cs s ss ps)"
proof (induction True h n and h cs arbitrary: segs ps and s ss ps rule: cullNode_cullChildren.induct)
  case (1 h n cs hs hp)
  then show ?case by (simp add: Let_def kept_ids_cull split: list.split)
next
  case (2 h)
  then show ?case by simp
next
  case (3 h c cs)
  obtain rem c' where c: "cullNode True h c = (rem, c')" by fastforce
  have e: "node_name c' = node_name c" "node_handlers c' = cullHandlers h (node_handlers c)"
    using cullNode_name(1) [of True h c] cullNode_handlers [of h c] c by simp_all
  have cand: "candidates c' segs ps = kept_ids h (candidates c segs ps)" for segs ps
    using "3.hyps"(1) c by simp
  show ?case
  proof (cases rem)
    case True
    then have r: "candidates c' segs ps = []" "cullHandlers h (node_handlers c) = []" for segs ps
      using cullNode_removed [of True h c] c e by simp_all
    have w: "kept_ids h (map (\<lambda>x. (x, ps)) (node_handlers c)) = []"
      using r kept_ids_cull [of ps h "node_handlers c"] by simp
    show ?thesis using "3.hyps"(2) [OF c [symmetric]] True c w r(1) cand by simp
  next
    case False
    then show ?thesis using "3.hyps"(3) [OF c [symmetric]] c e cand by (auto simp: kept_ids_cull)
  qed
qed

lemma cull_ids:
  "node_ids (snd (cullNode True h n)) \<subseteq> shift_handler h ` (node_ids n - {h})"
  "(\<Union>c \<in> set (cullChildren h cs). node_ids c) \<subseteq> shift_handler h ` ((\<Union>c \<in> set cs. node_ids c) - {h})"
proof (induction True h n and h cs rule: cullNode_cullChildren.induct)
  case (1 h n cs hs hp)
  then have "(\<Union>c \<in> set (cullChildren h cs). node_ids c) \<subseteq> shift_handler h ` (node_ids (Node n cs hs hp) - {h})"
    by (rule subset_trans) (auto intro!: image_mono)
  then show ?case by (auto simp: Let_def cullHandlers_eq)
next
  case (3 h c cs)
  obtain rem c' where c: "cullNode True h c = (rem, c')" by fastforce
  then show ?case using "3.hyps"(1) "3.hyps"(2) [OF c [symmetric]] "3.hyps"(3) [OF c [symmetric]]
    by (cases rem) (simp, blast)+
qed simp

lemma shift_mono: "x \<le> y \<Longrightarrow> shift_handler h x \<le> shift_handler h y"
proof -
  assume xy: "x \<le> y"
  have e: "unat (shift_handler h z) = (if handler_index h < handler_index z then unat z - 1 else unat z)" for z
    using shift_handler_minus(2) [of h z] by (simp add: shift_handler_def mask_greater)
  have "unat x \<noteq> unat y" if "handler_index h < handler_index y" "\<not> handler_index h < handler_index x"
    using that by (auto simp: handler_index_alt)
  then show ?thesis using xy by (auto simp: word_le_nat_alt e)
qed

lemma sorted_cullHandlers:
  assumes "sorted hs"
  shows "sorted (cullHandlers h hs)"
  unfolding cullHandlers_eq sorted_wrt_map
  by (rule sorted_wrt_mono_rel [OF _ sorted_wrt_filter [OF assms]]) (rule shift_mono)

lemma cull_node_ok:
  "node_ok n \<Longrightarrow> node_ok (snd (cullNode b h n))"
  "(\<forall>c \<in> set cs. node_ok c) \<Longrightarrow> (\<forall>c \<in> set (cullChildren h cs). node_ok c) \<and>
    subseq (map node_key (cullChildren h cs)) (map node_key cs)"
proof (induction b h n and h cs rule: cullNode_cullChildren.induct)
  case (1 b h n cs hs hp)
  then have ch: "\<forall>c \<in> set cs. node_ok c" "keys_ok (map node_key cs)" "sorted hs" by simp_all
  note ih = "1.IH" [OF ch(1)]
  have "keys_ok (map node_key (cullChildren h cs))" using keys_ok_subseq ih ch(2) by blast
  then show ?case using ih ch(3) sorted_cullHandlers by (simp add: Let_def)
next
  case (2 h)
  then show ?case by simp
next
  case (3 h c cs)
  obtain rem c' where c: "cullNode True h c = (rem, c')" by fastforce
  then have k: "node_key c' = node_key c" using cullNode_name [of True h c] by (simp add: node_key_def)
  have c': "node_ok c'" using "3.IH"(1) "3.prems" c by simp
  have all: "\<forall>c \<in> set cs. node_ok c" using "3.prems" by simp
  show ?case
  proof (cases rem)
    case True
    note "3.IH"(2) [OF c [symmetric] _ all]
    then show ?thesis using c True by (simp add: list_emb_Cons)
  next
    case False
    note "3.IH"(3) [OF c [symmetric] _ all]
    then show ?thesis using c False c' k by simp
  qed
qed

text \<open>At the root, which is not culled itself.\<close>

lemma cull_root: "children (snd (cullNode False h rt)) = cullChildren h (children rt)"
  "node_handlers (snd (cullNode False h rt)) = node_handlers rt"
  by (cases rt; simp add: Let_def)+

lemma methodCandidates_set:
  assumes "distinct (map node_name (children rt))"
  shows "c \<in> set (methodCandidates rt m segs) \<longleftrightarrow>
    (\<exists>p \<in> set (children rt). node_name p = m \<and> c \<in> set (candidates p segs []))"
proof (cases "List.find (\<lambda>p. node_name p = m) (children rt)")
  case None
  then have "\<forall>x \<in> set (children rt). node_name x \<noteq> m" by (auto simp: find_None_iff)
  then show ?thesis by (simp add: methodCandidates_def None)
next
  case (Some p)
  then have "p \<in> set (children rt)" "node_name p = m" by (auto simp: find_Some_iff)
  moreover have "q = p" if "q \<in> set (children rt)" "node_name q = m" for q
    using assms that calculation by (auto simp: distinct_map inj_on_def)
  ultimately show ?thesis unfolding methodCandidates_def Some option.simps by blast
qed

lemma find_cull:
  "distinct (map node_name cs) \<Longrightarrow>
   (case List.find (\<lambda>p. node_name p = m) (cullChildren h cs) of None \<Rightarrow> [] | Some p \<Rightarrow> candidates p segs []) =
   kept_ids h (case List.find (\<lambda>p. node_name p = m) cs of None \<Rightarrow> [] | Some p \<Rightarrow> candidates p segs [])"
proof (induction cs)
  case (Cons c cs)
  obtain rem c' where c: "cullNode True h c = (rem, c')" by fastforce
  have n: "node_name c' = node_name c" using cullNode_name(1) [of True h c] c by simp
  have k: "candidates c' segs [] = kept_ids h (candidates c segs [])" using cull_candidates(1) [of h c] c by simp
  show ?case
  proof (cases "node_name c = m")
    case True
    then have no: "List.find (\<lambda>p. node_name p = m) cs = None"
    proof -
      have "m \<notin> node_name ` set cs" using Cons.prems True by simp
      then show ?thesis unfolding find_None_iff by blast
    qed
    then show ?thesis using Cons True c n k cullNode_removed [of True h c segs "[]"]
      by (cases rem) (simp_all)
  next
    case False
    then show ?thesis using Cons c n by simp
  qed
qed simp

lemma cull_methodCandidates:
  "distinct (map node_name (children rt)) \<Longrightarrow>
   methodCandidates (snd (cullNode False h rt)) m segs = kept_ids h (methodCandidates rt m segs)"
  unfolding methodCandidates_def cull_root by (rule find_cull)

section \<open>Finding\<close>

fun path_node :: "bool \<Rightarrow> Node \<Rightarrow> byte list list \<Rightarrow> Node option" where
  "path_node hp n [] = Some n"
| "path_node hp n (s # ss) =
    (case List.find (\<lambda>c. node_key c = (stripped s, hp)) (children n) of
       None \<Rightarrow> None | Some c \<Rightarrow> path_node hp c ss)"

text \<open>The ids registered for a method and the segments of a pattern.\<close>

definition path_ids :: "Node \<Rightarrow> u32 \<Rightarrow> byte list list \<Rightarrow> u32 list" where
  "path_ids n priority segs = (case path_node (priority = HIGH_PRIORITY) n segs of None \<Rightarrow> []
     | Some n \<Rightarrow> filter (\<lambda>h. h AND NOT HANDLER_MASK = priority) (node_handlers n))"

definition registered :: "Node \<Rightarrow> byte list \<Rightarrow> u32 \<Rightarrow> byte list list \<Rightarrow> u32 list" where
  "registered rt m priority segs =
    (case List.find (\<lambda>n. m = node_name n) (children rt) of None \<Rightarrow> []
     | Some n \<Rightarrow> path_ids n priority segs)"

definition first_id :: "u32 list \<Rightarrow> u32" where
  "first_id hs = (case hs of [] \<Rightarrow> UINT32_MAX | h # _ \<Rightarrow> h)"

lemma find_filter: "List.find P xs = (case filter P xs of [] \<Rightarrow> None | x # _ \<Rightarrow> Some x)"
  by (induction xs) auto

lemma only_cache_trans: "only_cache r r' \<Longrightarrow> only_cache r' r'' \<Longrightarrow> only_cache r r''"
  unfolding only_cache_def by (elim conjE exE, intro conjI, simp) (simp, metis)

lemma child_matches_key:
  "is_param (node_name c) \<longrightarrow> node_name c = [COLON] \<Longrightarrow>
   child_matches s priority c \<longleftrightarrow> node_key c = (stripped s, priority = HIGH_PRIORITY)"
  by (auto simp: child_matches_def node_key_def stripped_def is_param_def)

lemma findWalk_spec:
  "cache_ok u r \<Longrightarrow> i \<le> cached r \<Longrightarrow> node_ok n \<Longrightarrow>
   \<exists>r'. findWalk priority n i r = Some (first_id (path_ids n priority (drop i (segments u))), r') \<and>
     only_cache r r' \<and> cache_ok u r'"
proof (induction "size n" arbitrary: n i r rule: less_induct)
  case less
  obtain r' where g: "getUrlSegment i r = Some (if i < length (segments u) then Some (segments u ! i) else None, r')"
    and c: "cache_ok u r'" "only_cache r r'" and s: "i < length (segments u) \<longrightarrow> Suc i \<le> cached r'"
    using getUrlSegment_spec [OF less.prems(1, 2)] by blast
  note step = findWalk.simps [of priority n i r, unfolded g]
  show ?case
  proof (cases "i < length (segments u)")
    case False
    then have "findWalk priority n i r = Some (first_id (path_ids n priority (drop i (segments u))), r')"
      by (simp add: step find_filter first_id_def path_ids_def split: list.split)
    then show ?thesis using c by blast
  next
    case True
    let ?s = "segments u ! i"
    have m: "List.find (child_matches ?s priority) (children n) =
        List.find (\<lambda>c. node_key c = (stripped ?s, priority = HIGH_PRIORITY)) (children n)"
      using less.prems(3) by (intro find_cong refl child_matches_key) (auto simp: node_ok_iff [of n] keys_ok_def node_key_def)
    have d: "drop i (segments u) = ?s # drop (Suc i) (segments u)" using True by (simp add: Cons_nth_drop_Suc)
    show ?thesis
    proof (cases "List.find (child_matches ?s priority) (children n)")
      case None
      have "path_ids n priority (drop i (segments u)) = []"
        unfolding d using None [unfolded m] by (simp add: path_ids_def)
      then have "findWalk priority n i r = Some (first_id (path_ids n priority (drop i (segments u))), r')"
        using True None by (simp add: step first_id_def)
      then show ?thesis using c by blast
    next
      case (Some c')
      then have c'n: "c' \<in> set (children n)" by (auto simp: find_Some_iff)
      then have ok: "node_ok c'" using less.prems(3) by (simp add: node_ok_iff [of n])
      have p: "path_ids n priority (drop i (segments u)) = path_ids c' priority (drop (Suc i) (segments u))"
        unfolding d using Some [unfolded m] by (simp add: path_ids_def)
      have "findWalk priority n i r = findWalk priority c' (Suc i) r'" using True Some by (simp add: step)
      then show ?thesis
        unfolding p using less.hyps [OF child_size [OF c'n] c(1) _ ok, of "Suc i"] s True only_cache_trans [OF c(2)]
        by metis
    qed
  qed
qed

lemma find_cong_name: "List.find (\<lambda>n. m = node_name n) cs = List.find (\<lambda>n. node_name n = m) cs"
  by (rule find_cong) auto

lemma findHandler_spec:
  assumes "router_ok r"
  shows "\<exists>r'. findHandler m pattern priority r =
    Some (first_id (registered (root r) m priority (segments pattern)), r') \<and>
    root r' = root r \<and> handlers r' = handlers r \<and> userData r' = userData r \<and> router_ok r'"
proof (cases "List.find (\<lambda>n. m = node_name n) (children (root r))")
  case None
  then show ?thesis using assms by (simp add: findHandler_def registered_def first_id_def)
next
  case (Some n)
  have "cache_ok pattern (setUrl pattern r)"
    using assms by (intro cache_ok_setUrl) (simp add: router_ok_def router_sane_def)
  moreover have "node_ok n" using Some assms by (auto simp: find_Some_iff router_ok_def root_ok_def)
  ultimately obtain r' where r': "findWalk priority n 0 (setUrl pattern r) = Some (first_id (path_ids n priority (segments pattern)), r')"
     "only_cache (setUrl pattern r) r'" "cache_ok pattern r'"
    using findWalk_spec [of pattern "setUrl pattern r" 0 n priority] by auto
  have "router_ok r'" using assms r'(2, 3)
    by (auto simp: router_ok_def router_sane_def only_cache_def cache_ok_def setUrl_def ids_ok_def)
  then show ?thesis using Some r' by (auto simp: findHandler_def registered_def only_cache_def setUrl_def)
qed

lemma find_member: "List.find P xs = Some x \<Longrightarrow> x \<in> set xs \<and> P x"
  by (induction xs) (auto split: if_splits)

lemma registered_ids:
  "set (registered rt m priority segs) \<subseteq> node_ids rt"
proof -
  have p: "path_node hp n segs = Some n' \<Longrightarrow> node_ids n' \<subseteq> node_ids n" for hp n n'
  proof (induction segs arbitrary: n)
    case (Cons s ss)
    then obtain c where c: "c \<in> set (children n)" "path_node hp c ss = Some n'"
      by (auto dest: find_member split: option.splits)
    then show ?case using Cons.IH [OF c(2)] child_ids [OF c(1)] by blast
  qed simp
  have h: "set (node_handlers n) \<subseteq> node_ids n" for n by (cases n) simp
  have "set (path_ids n priority segs) \<subseteq> node_ids n" for n
  proof (cases "path_node (priority = HIGH_PRIORITY) n segs")
    case (Some n')
    then show ?thesis using p [OF Some] h [of n'] by (auto simp: path_ids_def)
  qed (simp add: path_ids_def)
  moreover have "node_ids n \<subseteq> node_ids rt" if "n \<in> set (children rt)" for n
    using child_ids [OF that] by blast
  ultimately show ?thesis using find_member [of "\<lambda>n. m = node_name n" "children rt"]
    unfolding registered_def by (cases "List.find (\<lambda>n. m = node_name n) (children rt)") auto
qed

lemma registered_id:
  "h \<in> set (registered rt m priority segs) \<Longrightarrow> h AND NOT HANDLER_MASK = priority"
  by (auto simp: registered_def path_ids_def split: option.splits)

section \<open>The effect of a removal\<close>

definition without_nth :: "nat \<Rightarrow> 'b list \<Rightarrow> 'b list" where
  "without_nth k xs = take k xs @ drop (Suc k) xs"

lemma nth_without: "i < length xs \<Longrightarrow> i \<noteq> k \<Longrightarrow> k < length xs \<Longrightarrow>
    without_nth k xs ! (if k < i then i - 1 else i) = xs ! i"
  by (auto simp: without_nth_def nth_append min_def)

lemma length_without: "k < length xs \<Longrightarrow> length (without_nth k xs) = length xs - 1"
  by (simp add: without_nth_def)

lemma index_shift: "handler_index (shift_handler h x) =
    (if handler_index h < handler_index x then handler_index x - 1 else handler_index x)"
  using shift_handler_minus(3) [of h x] by (simp add: shift_handler_def mask_greater)

lemma first_true_kept:
  assumes "\<And>x ps. (x, ps) \<in> set cs \<Longrightarrow> x \<in> S" "inj_on handler_index S" "h \<in> S"
    "\<And>x. x \<in> S \<Longrightarrow> handler_index x < length hs"
  shows "first_true (without_nth (handler_index h) hs) (kept_ids h cs) a = first_true hs (filter (\<lambda>(x, ps). x \<noteq> h) cs) a"
  using assms(1)
proof (induction cs arbitrary: a)
  case (Cons c cs)
  obtain x ps where c: "c = (x, ps)" by fastforce
  have x: "x \<in> S" using Cons.prems c by auto
  show ?case
  proof (cases "x = h")
    case True
    then have "kept_ids h (c # cs) = kept_ids h cs" "filter (\<lambda>(x, ps). x \<noteq> h) (c # cs) = filter (\<lambda>(x, ps). x \<noteq> h) cs"
      using c by (simp_all add: kept_ids_def)
    then show ?thesis using Cons.IH [of a] Cons.prems by (metis list.set_intros(2))
  next
    case False
    then have "handler_index x \<noteq> handler_index h" using assms(2, 3) x by (auto dest: inj_onD)
    then have "without_nth (handler_index h) hs ! handler_index (shift_handler h x) = hs ! handler_index x"
      using nth_without [of "handler_index x" hs "handler_index h"] assms(3, 4) x by (simp add: index_shift)
    then show ?thesis using Cons c False by (auto simp: kept_ids_def split: prod.splits)
  qed
qed (simp add: kept_ids_def)

lemma candidates_ids:
  "(x, qs) \<in> set (candidates n segs ps) \<Longrightarrow> x \<in> node_ids n"
  "(x, qs) \<in> set (childCandidates cs s ss ps) \<Longrightarrow> x \<in> (\<Union>c \<in> set cs. node_ids c)"
proof (induction n segs ps and cs s ss ps rule: candidates_childCandidates.induct)
  case (3 p cs s ss ps)
  have "set (node_handlers p) \<subseteq> node_ids p" by (cases p) simp
  then show ?case using 3 by (auto split: if_splits)
qed (auto split: list.splits)

lemma methodCandidates_ids: "(x, qs) \<in> set (methodCandidates rt m segs) \<Longrightarrow> x \<in> node_ids rt"
proof (cases "List.find (\<lambda>p. node_name p = m) (children rt)")
  case (Some p)
  assume "(x, qs) \<in> set (methodCandidates rt m segs)"
  then have "x \<in> node_ids p" using Some by (auto simp: methodCandidates_def intro: candidates_ids(1))
  then show ?thesis using child_ids find_member [OF Some] by blast
qed (simp add: methodCandidates_def)

lemma cull_router_ok:
  assumes "router_ok r" "h \<in> node_ids (root r)"
  shows "router_ok (r\<lparr>root := snd (cullNode False h (root r)), handlers := without_nth (handler_index h) (handlers r)\<rparr>)"
proof -
  let ?rt = "snd (cullNode False h (root r))"
  let ?S = "node_ids (root r)"
  have S: "\<And>x. x \<in> ?S \<Longrightarrow> handler_index x < length (handlers r)" "inj_on handler_index ?S"
    using assms(1) by (auto simp: router_ok_def router_sane_def ids_ok_def)
  have rk: "root_ok (root r)" "methods_sorted (root r)" using assms(1) by (simp_all add: router_ok_def)
  have kids: "\<forall>c \<in> set (children ?rt). node_ok c" "subseq (map node_key (children ?rt)) (map node_key (children (root r)))"
    using cull_node_ok(2) [of "children (root r)" h] rk unfolding cull_root by (auto simp: root_ok_def)
  have names: "subseq (map node_name (children ?rt)) (map node_name (children (root r)))"
    using subseq_map [OF kids(2), of fst] by (simp add: node_key_def o_def)
  have low: "\<not> isHighPriority c" if "c \<in> set (children ?rt)" for c
  proof -
    have "node_key c \<in> node_key ` set (children (root r))" using subseq_set [OF kids(2)] that by auto
    then show ?thesis using rk by (auto simp: root_ok_def node_key_def)
  qed
  have ids: "node_ids ?rt \<subseteq> shift_handler h ` (?S - {h})"
  proof -
    have "node_ids ?rt = (\<Union>c \<in> set (cullChildren h (children (root r))). node_ids c)"
      unfolding node_ids_iff [of ?rt] cull_root using rk by (simp add: root_ok_def)
    also have "\<dots> \<subseteq> shift_handler h ` ((\<Union>c \<in> set (children (root r)). node_ids c) - {h})"
      by (rule cull_ids(2))
    also have "\<dots> \<subseteq> shift_handler h ` (?S - {h})" unfolding node_ids_iff [of "root r"] by blast
    finally show ?thesis .
  qed
  have h: "handler_index h < length (handlers r)" using S assms(2) by blast
  have dis: "handler_index x \<noteq> handler_index h" if "x \<in> ?S - {h}" for x
    using that S(2) assms(2) by (auto dest: inj_onD)
  have bound: "handler_index y < length (handlers r) - 1" if y: "y \<in> node_ids ?rt" for y
  proof -
    obtain y' where "y = shift_handler h y'" "y' \<in> ?S - {h}" using ids y by blast
    then show ?thesis using dis [of y'] S(1) [of y'] h by (auto simp: index_shift)
  qed
  have inj: "inj_on handler_index (node_ids ?rt)"
  proof (rule inj_on_subset [OF _ ids], rule inj_onI)
    fix y z assume "y \<in> shift_handler h ` (?S - {h})" "z \<in> shift_handler h ` (?S - {h})"
      and e: "handler_index y = handler_index z"
    then obtain y' z' where y': "y = shift_handler h y'" "y' \<in> ?S - {h}" and z': "z = shift_handler h z'" "z' \<in> ?S - {h}"
      by blast
    have "handler_index y' = handler_index z'"
      using e dis [OF y'(2)] dis [OF z'(2)] by (auto simp: y' z' index_shift split: if_splits)
    then show "y = z" using y' z' S(2) by (auto dest: inj_onD)
  qed
  show ?thesis
    using assms(1) h kids(1) low bound inj names rk subseq_distinct [OF names] subseq_sorted_wrt [OF subseq_map [OF names, of MethodKey]]
    by (auto simp: router_ok_def router_sane_def ids_ok_def root_ok_def methods_sorted_def length_without cull_root o_def)
qed

end
