(* ===== verification/Router_Routes.thy ===== *)
theory Router_Routes
  imports Router_Update "HOL-Library.Multiset"
begin

text \<open>
  Registering and removing routes in \<open>HttpRouter.h\<close>, on the table of candidates, and the invariant
  over every sequence of registrations, removals and requests.
\<close>

section \<open>Inserting a path\<close>

fun insert_path :: "bool \<Rightarrow> u32 \<Rightarrow> Node \<Rightarrow> byte list list \<Rightarrow> Node" where
  "insert_path hp h n [] = insert_handler h n"
| "insert_path hp h n (s # ss) =
    (case getNode False n (stripped s) hp of (n, j) \<Rightarrow> set_child n j (insert_path hp h (children n ! j) ss))"

text \<open>The URLs a pattern matches, and the parameters it takes from them.\<close>

fun pat_match :: "byte list list \<Rightarrow> byte list list \<Rightarrow> byte list list option" where
  "pat_match [] [] = Some []"
| "pat_match (q # qs) (s # ss) =
    (if is_wild q then (if qs = [] then Some [] else None)
     else if is_param q \<and> s \<noteq> [] then map_option ((#) s) (pat_match qs ss)
     else if q = s then pat_match qs ss else None)"
| "pat_match _ _ = None"

definition matched :: "u32 \<Rightarrow> byte list list \<Rightarrow> byte list list \<Rightarrow> byte list list \<Rightarrow> (u32 \<times> byte list list) set" where
  "matched h ps qs segs = (case pat_match qs segs of None \<Rightarrow> {} | Some vs \<Rightarrow> {(h, ps @ vs)})"

lemma matched_Nil: "matched h [] qs segs = (case pat_match qs segs of None \<Rightarrow> {} | Some vs \<Rightarrow> {(h, vs)})"
  by (simp add: matched_def split: option.split)

lemma find_child_Some: "find_child P cs = Some j \<Longrightarrow> j < length cs \<and> P (cs ! j)"
  by (induction cs arbitrary: j) (auto split: if_splits)

lemma find_child_None: "find_child P cs = None \<longleftrightarrow> (\<forall>c \<in> set cs. \<not> P c)"
  by (induction cs) auto

text \<open>Either the child was there, or an empty one is put in its place.\<close>

lemma getNode_cases:
  assumes "getNode isRoot n c hp = (n', j)"
    and "sorted_wrt (\<lambda>x y. nodeBefore isRoot (Node c [] [] hp) x \<longrightarrow> nodeBefore isRoot (Node c [] [] hp) y) (children n)"
  obtains (old) "n' = n" "j < length (children n)" "node_key (children n ! j) = (c, hp)"
  | (new) "j \<le> length (children n)" "children n' = insert_at j (Node c [] [] hp) (children n)"
      "(c, hp) \<notin> set (map node_key (children n))"
      "node_name n' = node_name n" "node_handlers n' = node_handlers n" "isHighPriority n' = isHighPriority n"
      "j = upper_bound (nodeBefore isRoot) (Node c [] [] hp) (children n)"
proof (cases "find_child (\<lambda>x. node_name x = c \<and> isHighPriority x = hp) (children n)")
  case None
  then have "(c, hp) \<notin> set (map node_key (children n))" by (auto simp: find_child_None node_key_def)
  then show ?thesis
    using assms(1) None upper_bound_spec [where lt = "nodeBefore isRoot" and v = "Node c [] [] hp", OF assms(2)] by (intro new) (auto simp: getNode_def Let_def)
next
  case (Some k)
  then show ?thesis using assms(1) find_child_Some [OF Some] by (intro old) (auto simp: getNode_def node_key_def)
qed

lemma nodeBefore_key:
  "nodeBefore False (Node c [] [] hp) x \<Longrightarrow> key_le (c, hp) (node_key x)"
  "\<not> nodeBefore False (Node c [] [] hp) x \<Longrightarrow> key_le (node_key x) (c, hp)"
  by (auto simp: nodeBefore_def key_le_def node_key_def lexicalOrder_def split: if_splits)

lemma nodeBefore_partition:
  assumes "keys_ok (map node_key cs)"
  shows "sorted_wrt (\<lambda>x y. nodeBefore False (Node c [] [] hp) x \<longrightarrow> nodeBefore False (Node c [] [] hp) y) cs"
proof -
  have "sorted_wrt (\<lambda>x y. key_le (node_key x) (node_key y)) cs"
    using assms by (simp add: keys_ok_def sorted_wrt_map)
  then show ?thesis
    by (rule sorted_wrt_mono_rel [rotated])
      (auto simp: nodeBefore_def key_le_def node_key_def lexicalOrder_def split: if_splits)
qed

lemma keys_ok_insert:
  assumes "keys_ok (map node_key cs)" "(c, hp) \<notin> set (map node_key cs)" "is_param c \<longrightarrow> c = [COLON]"
  shows "keys_ok (map node_key (insert_at (upper_bound (nodeBefore False) (Node c [] [] hp) cs) (Node c [] [] hp) cs))"
proof -
  let ?v = "Node c [] [] hp"
  let ?k = "upper_bound (nodeBefore False) ?v cs"
  note ub = upper_bound_spec [where lt = "nodeBefore False" and v = ?v, OF nodeBefore_partition [OF assms(1), of c hp]]
  have kv: "node_key ?v = (c, hp)" by (simp add: node_key_def)
  have "sorted_wrt (\<lambda>x y. key_le (node_key x) (node_key y)) (insert_at ?k ?v cs)"
    using assms(1) ub nodeBefore_key kv
    by (intro sorted_wrt_insert_at) (auto simp: keys_ok_def sorted_wrt_map)
  then have "sorted_wrt key_le (map node_key (insert_at ?k ?v cs))" by (simp add: sorted_wrt_map)
  moreover have "distinct (map node_key (insert_at ?k ?v cs))"
    using assms(1, 2) kv by (simp add: map_insert_at distinct_insert_at keys_ok_def)
  moreover have "\<forall>k \<in> set (map node_key (insert_at ?k ?v cs)). is_param (fst k) \<longrightarrow> fst k = [COLON]"
    using assms(1, 3) kv by (auto simp: keys_ok_def)
  ultimately show ?thesis unfolding keys_ok_def by blast
qed
text \<open>A node after a child lookup: a well-formed node with the child in it and the same contents.\<close>

lemma getNode_ok:
  assumes g: "getNode False n c hp = (n', j)" and ok: "node_ok n" and c: "is_param c \<longrightarrow> c = [COLON]"
  shows "j < length (children n') \<and> node_key (children n' ! j) = (c, hp) \<and> node_ok n' \<and>
    node_ids n' = node_ids n \<and> node_name n' = node_name n \<and> isHighPriority n' = isHighPriority n \<and>
    node_handlers n' = node_handlers n \<and> set (candidates n' segs ps) = set (candidates n segs ps)"
proof -
  have keys: "keys_ok (map node_key (children n))" using ok by (simp add: node_ok_iff [of n])
  show ?thesis
  proof (rule getNode_cases [OF g nodeBefore_partition [OF keys]])
    assume "n' = n" "j < length (children n)" "node_key (children n ! j) = (c, hp)"
    then show ?thesis using ok by simp
  next
    assume n: "j \<le> length (children n)" "children n' = insert_at j (Node c [] [] hp) (children n)"
      "(c, hp) \<notin> set (map node_key (children n))"
      "node_name n' = node_name n" "node_handlers n' = node_handlers n" "isHighPriority n' = isHighPriority n"
      and j: "j = upper_bound (nodeBefore False) (Node c [] [] hp) (children n)"
    have "keys_ok (map node_key (children n'))" unfolding n(2) j by (rule keys_ok_insert [OF keys n(3) c])
    moreover have "node_ok (Node c [] [] hp)" by (simp add: keys_ok_def)
    ultimately have ok': "node_ok n'"
      using ok n(2, 5) by (auto simp: node_ok_iff [of n] node_ok_iff [of n'] simp del: node_ok.simps)
    have ids: "node_ids n' = node_ids n" unfolding node_ids_iff [of n] node_ids_iff [of n'] n(2, 5) by simp
    have "set (childCandidates (insert_at j (Node c [] [] hp) cs) s ss ps) = set (childCandidates cs s ss ps)" for cs s ss
    proof -
      have app: "childCandidates (xs @ ys) s ss ps = childCandidates xs s ss ps @ childCandidates ys s ss ps" for xs ys
        by (induction xs) auto
      have e: "childCandidates [Node c [] [] hp] s ss ps = []" by (simp split: list.split)
      have "childCandidates (insert_at j (Node c [] [] hp) cs) s ss ps =
          childCandidates (take j cs) s ss ps @ childCandidates [Node c [] [] hp] s ss ps @ childCandidates (drop j cs) s ss ps"
        unfolding insert_at_def app [symmetric] by simp
      also have "\<dots> = childCandidates (take j cs @ drop j cs) s ss ps" unfolding e app by simp
      finally show ?thesis by simp
    qed
    then have "set (candidates n' segs ps) = set (candidates n segs ps)"
      using n by (cases n; cases n') (auto split: list.splits)
    then show ?thesis using n ok' ids j by (simp add: nth_insert_at node_key_def)
  qed
qed

definition step_set :: "Node \<Rightarrow> byte list \<Rightarrow> byte list list \<Rightarrow> byte list list \<Rightarrow> (u32 \<times> byte list list) set" where
  "step_set p s ss ps = set (childCandidates [p] s ss ps)"

lemma childCandidates_set: "set (childCandidates cs s ss ps) = (\<Union>p \<in> set cs. step_set p s ss ps)"
  by (induction cs) (auto simp: step_set_def)

lemma set_list_update_union:
  assumes "j < length cs" "f c = f (cs ! j) \<union> N"
  shows "(\<Union>p \<in> set (cs[j := c]). f p) = (\<Union>p \<in> set cs. f p) \<union> N"
proof -
  have e: "cs[j := c] = take j cs @ c # drop (Suc j) cs" "cs = take j cs @ cs ! j # drop (Suc j) cs"
    using assms(1) by (simp_all add: upd_conv_take_nth_drop id_take_nth_drop [symmetric])
  have "(\<Union>p \<in> set cs. f p) = (\<Union>p \<in> set (take j cs @ cs ! j # drop (Suc j) cs). f p)" using e(2) by simp
  then show ?thesis unfolding e(1) using assms(2) by auto
qed

lemma insert_handler_simps [simp]:
  "children (insert_handler h n) = children n" "node_name (insert_handler h n) = node_name n"
  "isHighPriority (insert_handler h n) = isHighPriority n"
  "set (node_handlers (insert_handler h n)) = insert h (set (node_handlers n))"
  by (simp_all add: insert_handler_def)

lemma set_child_simps [simp]:
  "children (set_child n j c) = (children n)[j := c]" "node_name (set_child n j c) = node_name n"
  "isHighPriority (set_child n j c) = isHighPriority n" "node_handlers (set_child n j c) = node_handlers n"
  by (simp_all add: set_child_def)

lemma candidates_iff: "candidates n segs ps =
    (case segs of [] \<Rightarrow> map (\<lambda>h. (h, ps)) (node_handlers n) | s # ss \<Rightarrow> childCandidates (children n) s ss ps)"
  by (cases n) (simp split: list.split)

lemma insert_handler_ok: "node_ok n \<Longrightarrow> node_ok (insert_handler h n)"
proof -
  assume n: "node_ok n"
  let ?hs = "node_handlers n"
  have s: "sorted ?hs" using n by (simp add: node_ok_iff [of n])
  then have "sorted_wrt (\<lambda>x y. h < x \<longrightarrow> h < y) ?hs"
    by (rule sorted_wrt_mono_rel [rotated]) auto
  note ub = upper_bound_spec [where lt = "(<)" and v = h, OF this]
  have "sorted (insert_at (upper_bound (<) h ?hs) h ?hs)"
    using s ub by (intro sorted_wrt_insert_at) (auto simp: not_less)
  then show ?thesis using n by (cases n) (simp add: insert_handler_def)
qed

lemma stripped_simps [simp]:
  "\<not> is_wild [COLON] \<and> is_param [COLON]" "is_wild (stripped q) = is_wild q" "is_param (stripped q) = is_param q"
  "is_param (stripped q) \<longrightarrow> stripped q = [COLON]"
  "\<not> is_param q \<Longrightarrow> stripped q = q" "stripped q = [] \<longleftrightarrow> q = []"
  by (auto simp: stripped_def is_wild_def is_param_def)

lemma insert_path_name [simp]:
  "node_ok n \<Longrightarrow> node_name (insert_path hp h n qs) = node_name n \<and> isHighPriority (insert_path hp h n qs) = isHighPriority n"
proof (induction qs arbitrary: n)
  case (Cons q qs)
  obtain n' j where g: "getNode False n (stripped q) hp = (n', j)" by fastforce
  show ?case using getNode_ok [OF g Cons.prems stripped_simps(4)] g by simp
qed simp

lemma set_child_ok:
  assumes "node_ok n" "j < length (children n)" "node_ok c" "node_key c = node_key (children n ! j)"
  shows "node_ok (set_child n j c)"
proof -
  have "map node_key ((children n)[j := c]) = map node_key (children n)"
    using assms(2, 4) by (simp add: map_update list_update_same_conv)
  then show ?thesis using assms set_update_subset_insert [of "children n" j c]
    by (auto simp: node_ok_iff [of n] node_ok_iff [of "set_child n j c"] simp del: node_ok.simps)
qed

lemma insert_path_ok: "node_ok n \<Longrightarrow> node_ok (insert_path hp h n qs)"
proof (induction qs arbitrary: n)
  case Nil
  then show ?case by (simp add: insert_handler_ok)
next
  case (Cons q qs)
  obtain n' j where g: "getNode False n (stripped q) hp = (n', j)" by fastforce
  note n' = getNode_ok [OF g Cons.prems stripped_simps(4)]
  then have c: "node_ok (children n' ! j)" by (auto simp: node_ok_iff [of n'] simp del: node_ok.simps)
  have "node_ok (set_child n' j (insert_path hp h (children n' ! j) qs))"
    by (rule set_child_ok) (use n' c Cons.IH in \<open>simp_all add: node_key_def\<close>)
  then show ?case using g by simp
qed

lemma insert_path_ids: "node_ok n \<Longrightarrow> node_ids (insert_path hp h n qs) = insert h (node_ids n)"
proof (induction qs arbitrary: n)
  case Nil
  then show ?case unfolding node_ids_iff [of n] node_ids_iff [of "insert_path hp h n []"] by simp
next
  case (Cons q qs)
  obtain n' j where g: "getNode False n (stripped q) hp = (n', j)" by fastforce
  note n' = getNode_ok [OF g Cons.prems stripped_simps(4)]
  then have c: "node_ok (children n' ! j)" by (auto simp: node_ok_iff [of n'] simp del: node_ok.simps)
  let ?c = "insert_path hp h (children n' ! j) qs"
  have "node_ids (set_child n' j ?c) = set (node_handlers n') \<union> (\<Union>p \<in> set ((children n')[j := ?c]). node_ids p)"
    unfolding node_ids_iff [of "set_child n' j ?c"] by simp
  also have "(\<Union>p \<in> set ((children n')[j := ?c]). node_ids p) = (\<Union>p \<in> set (children n'). node_ids p) \<union> {h}"
    using n' Cons.IH [OF c] by (intro set_list_update_union) auto
  also have "set (node_handlers n') \<union> ((\<Union>p \<in> set (children n'). node_ids p) \<union> {h}) = insert h (node_ids n')"
    unfolding node_ids_iff [of n'] by blast
  finally show ?case using g n' by simp
qed

lemma insert_path_candidates:
  "node_ok n \<Longrightarrow> set (candidates (insert_path hp h n qs) segs ps) = set (candidates n segs ps) \<union> matched h ps qs segs"
proof (induction qs arbitrary: n segs ps)
  case Nil
  show ?case by (cases segs) (auto simp: candidates_iff matched_def)
next
  case (Cons q qs)
  obtain n' j where g: "getNode False n (stripped q) hp = (n', j)" by fastforce
  note n' = getNode_ok [OF g Cons.prems stripped_simps(4)]
  then have c: "node_ok (children n' ! j)" by (auto simp: node_ok_iff [of n'] simp del: node_ok.simps)
  let ?old = "children n' ! j"
  let ?c = "insert_path hp h ?old qs"
  have name: "node_name ?old = stripped q" "node_name ?c = stripped q" using n' c by (auto simp: node_key_def)
  have e: "insert_path hp h n (q # qs) = set_child n' j ?c" using g by simp
  show ?case
  proof (cases segs)
    case Nil
    then show ?thesis using n' unfolding e by (simp add: candidates_iff matched_def)
  next
    case (Cons s ss)
    have hs: "set (node_handlers ?c) = set (node_handlers ?old) \<union> (if qs = [] then {h} else {})"
    proof (cases qs)
      case (Cons q' qs')
      obtain c' i where g': "getNode False ?old (stripped q') hp = (c', i)" by fastforce
      show ?thesis using getNode_ok [OF g' c stripped_simps(4)] g' Cons by simp
    qed simp
    have st: "step_set ?c s ss ps = step_set ?old s ss ps \<union> matched h ps (q # qs) (s # ss)"
    proof -
      consider (wild) "is_wild q" | (param) "\<not> is_wild q" "is_param q \<and> s \<noteq> []"
        | (static) "\<not> is_wild q" "\<not> (is_param q \<and> s \<noteq> [])" by blast
      then show ?thesis
      proof cases
        case wild
        then show ?thesis using hs name by (auto simp: step_set_def matched_def)
      next
        case param
        then show ?thesis using Cons.IH [OF c, of ss "ps @ [s]"] name
          by (simp add: step_set_def matched_def split: option.split)
      next
        case static
        note ih = Cons.IH [OF c, of ss ps]
        show ?thesis
        proof (cases "is_param q")
          case True
          then have "stripped q \<noteq> s" "q \<noteq> s" "s = []" using static by (auto simp: is_param_def)
          then show ?thesis using True static name by (simp add: step_set_def matched_def)
        next
          case False
          then have "stripped q = q" by simp
          then show ?thesis using False static ih name by (cases "q = s") (simp_all add: step_set_def matched_def)
        qed
      qed
    qed
    have "set (candidates (set_child n' j ?c) segs ps) = (\<Union>p \<in> set ((children n')[j := ?c]). step_set p s ss ps)"
      using Cons by (simp add: candidates_iff childCandidates_set)
    also have "\<dots> = (\<Union>p \<in> set (children n'). step_set p s ss ps) \<union> matched h ps (q # qs) (s # ss)"
      using n' st by (intro set_list_update_union) auto
    also have "(\<Union>p \<in> set (children n'). step_set p s ss ps) = set (candidates n' segs ps)"
      using Cons by (simp add: candidates_iff childCandidates_set)
    finally show ?thesis unfolding e using n' Cons by simp
  qed
qed

section \<open>Registering\<close>

lemma addWalk_spec:
  "cache_ok u r \<Longrightarrow> i \<le> cached r \<Longrightarrow> i \<le> MAX_URL_SEGMENTS \<Longrightarrow>
   \<exists>r'. addWalk priority h n i r = Some (insert_path (priority = HIGH_PRIORITY) h n (drop i (segments u)), r') \<and>
     only_cache r r' \<and> cache_ok u r'"
proof (induction "Suc MAX_URL_SEGMENTS - i" arbitrary: n i r rule: less_induct)
  case less
  obtain r' where g: "getUrlSegment i r = Some (if i < length (segments u) then Some (segments u ! i) else None, r')"
    and c: "cache_ok u r'" "only_cache r r'" and s: "i < length (segments u) \<longrightarrow> Suc i \<le> cached r'"
    using getUrlSegment_spec [OF less.prems(1, 2)] by blast
  note step = addWalk.simps [of priority h n i r, unfolded g]
  show ?case
  proof (cases "i < length (segments u)")
    case False
    then have "addWalk priority h n i r = Some (insert_path (priority = HIGH_PRIORITY) h n (drop i (segments u)), r')"
      using less.prems(3) by (simp add: step)
    then show ?thesis using c by blast
  next
    case True
    let ?s = "segments u ! i"
    have m: "Suc i \<le> MAX_URL_SEGMENTS" using True length_segments [of u] by simp
    have d: "drop i (segments u) = ?s # drop (Suc i) (segments u)" using True by (simp add: Cons_nth_drop_Suc)
    obtain n' j where gn: "getNode False n (stripped ?s) (priority = HIGH_PRIORITY) = (n', j)" by fastforce
    have "Suc MAX_URL_SEGMENTS - Suc i < Suc MAX_URL_SEGMENTS - i" using m by simp
    then obtain r'' where r'': "addWalk priority h (children n' ! j) (Suc i) r' =
        Some (insert_path (priority = HIGH_PRIORITY) h (children n' ! j) (drop (Suc i) (segments u)), r'')"
        "only_cache r' r''" "cache_ok u r''"
      using less.hyps [of "Suc i" r' "children n' ! j"] c(1) s True m by blast
    have "addWalk priority h n i r = Some (insert_path (priority = HIGH_PRIORITY) h n (drop i (segments u)), r'')"
      unfolding d using True m gn r''(1) by (simp add: step)
    then show ?thesis using only_cache_trans [OF c(2) r''(2)] r''(3) by blast
  qed
qed

lemma root_getNode:
  assumes g: "getNode True rt m False = (rt', j)" and ok: "root_ok rt"
  shows "j < length (children rt') \<and> node_name (children rt' ! j) = m \<and> \<not> isHighPriority (children rt' ! j) \<and>
    root_ok rt' \<and> node_ids rt' = node_ids rt \<and>
    set (methodCandidates rt' m' segs) = set (methodCandidates rt m' segs)"
proof -
  have low: "\<forall>c \<in> set (children rt). \<not> isHighPriority c" using ok by (simp add: root_ok_def)
  have part: "sorted_wrt (\<lambda>x y. nodeBefore True (Node m [] [] False) x \<longrightarrow> nodeBefore True (Node m [] [] False) y) (children rt)"
    using low by (induction "children rt" arbitrary: rt) (auto simp: nodeBefore_def sorted_wrt_iff_nth_less nth_Cons')
  show ?thesis
  proof (rule getNode_cases [OF g part])
    assume "rt' = rt" "j < length (children rt)" "node_key (children rt ! j) = (m, False)"
    then show ?thesis using ok by (simp add: node_key_def)
  next
    assume n: "j \<le> length (children rt)" "children rt' = insert_at j (Node m [] [] False) (children rt)"
      "(m, False) \<notin> set (map node_key (children rt))"
      "node_name rt' = node_name rt" "node_handlers rt' = node_handlers rt"
    have new: "m \<notin> set (map node_name (children rt))" using n(3) low by (auto simp: node_key_def)
    have ok': "root_ok rt'"
      using ok n(2, 5) new by (auto simp: root_ok_def map_insert_at distinct_insert_at keys_ok_def)
    have ids: "node_ids rt' = node_ids rt" unfolding node_ids_iff [of rt] node_ids_iff [of rt'] n(2, 5) by simp
    have d: "distinct (map node_name (children rt))" "distinct (map node_name (children rt'))"
      using ok ok' by (simp_all add: root_ok_def)
    have "candidates (Node m [] [] False) segs [] = []" by (simp split: list.split)
    then have "c \<in> set (methodCandidates rt' m' segs) \<longleftrightarrow> c \<in> set (methodCandidates rt m' segs)" for c
      unfolding methodCandidates_set [OF d(1)] methodCandidates_set [OF d(2)] n(2) set_insert_at
      by (metis empty_iff insert_iff list.set(1))
    then show ?thesis using n ok' ids by (auto simp: nth_insert_at)
  qed
qed

text \<open>The router while a registration is under way: the methods are not sorted yet.\<close>

definition adding :: "u32 \<Rightarrow> 'a HttpRouter \<Rightarrow> 'a HttpRouter \<Rightarrow> bool" where
  "adding h r r' \<longleftrightarrow> root_ok (root r') \<and> length (urlSegmentVector r') = MAX_URL_SEGMENTS \<and>
     params r' = params r \<and> handlers r' = handlers r \<and> userData r' = userData r \<and>
     node_ids (root r) \<subseteq> node_ids (root r') \<and> node_ids (root r') \<subseteq> insert h (node_ids (root r))"

lemma set_child_candidates:
  assumes "root_ok rt" "j < length (children rt)" "node_ok c" "node_name c = node_name (children rt ! j)"
    "\<not> isHighPriority c"
    "\<And>segs. set (candidates c segs []) = set (candidates (children rt ! j) segs []) \<union> N segs"
  shows "root_ok (set_child rt j c) \<and>
    set (methodCandidates (set_child rt j c) m segs) =
      set (methodCandidates rt m segs) \<union> (if m = node_name (children rt ! j) then N segs else {})"
proof -
  let ?rt = "set_child rt j c"
  have names: "map node_name (children ?rt) = map node_name (children rt)"
    using assms(2, 4) by (simp add: map_update list_update_same_conv)
  have ok: "root_ok ?rt" using assms(1, 3, 5) names set_update_subset_insert [of "children rt" j c]
    by (auto simp: root_ok_def)
  have d: "distinct (map node_name (children rt))" "distinct (map node_name (children ?rt))"
    using assms(1) names by (simp_all add: root_ok_def)
  have as_union: "set (methodCandidates x m segs) =
      (\<Union>p \<in> set (children x). if node_name p = m then set (candidates p segs []) else {})"
    if "distinct (map node_name (children x))" for x
    using methodCandidates_set [OF that] by (auto split: if_splits)
  have "(\<Union>p \<in> set ((children rt)[j := c]). if node_name p = m then set (candidates p segs []) else {}) =
    (\<Union>p \<in> set (children rt). if node_name p = m then set (candidates p segs []) else {}) \<union>
    (if m = node_name (children rt ! j) then N segs else {})"
    using assms(2, 4, 6) by (intro set_list_update_union) auto
  then show ?thesis using ok as_union [OF d(1)] as_union [OF d(2)] by simp
qed

lemma addMethod_spec:
  assumes ok: "adding h r0 r" and h: "h = priority OR of_nat (length (handlers r))"
  shows "\<exists>r'. addMethod pattern priority m r = Some r' \<and> adding h r0 r' \<and>
    node_ids (root r') = insert h (node_ids (root r)) \<and>
    (\<forall>m' segs. set (methodCandidates (root r') m' segs) =
       set (methodCandidates (root r) m' segs) \<union> (if m' = m then matched h [] (segments pattern) segs else {}))"
proof -
  have rk: "root_ok (root r)" "length (urlSegmentVector r) = MAX_URL_SEGMENTS" using ok by (simp_all add: adding_def)
  obtain rt j where g: "getNode True (root r) m False = (rt, j)" by fastforce
  note rt = root_getNode [OF g rk(1)]
  have cok: "node_ok (children rt ! j)" using rt [of m "[]"] by (auto simp: root_ok_def)
  let ?c = "insert_path (priority = HIGH_PRIORITY) h (children rt ! j) (segments pattern)"
  obtain r' where w: "addWalk priority h (children rt ! j) 0 (setUrl pattern r) = Some (?c, r')"
    "only_cache (setUrl pattern r) r'" "cache_ok pattern r'"
    using addWalk_spec [OF cache_ok_setUrl [OF rk(2)], where i = 0 and priority = priority and h = h and n = "children rt ! j"] by auto
  let ?r = "r'\<lparr>root := set_child rt j ?c\<rparr>"
  have s: "addMethod pattern priority m r = Some ?r" using w g by (simp add: addMethod_def h)
  have sc: "root_ok (set_child rt j ?c) \<and> set (methodCandidates (set_child rt j ?c) m' segs) =
      set (methodCandidates rt m' segs) \<union> (if m' = m then matched h [] (segments pattern) segs else {})" for m' segs
    using set_child_candidates [of rt j ?c "\<lambda>segs. matched h [] (segments pattern) segs" m' segs]
      rt [of m' segs] cok insert_path_ok [OF cok] insert_path_name [OF cok] insert_path_candidates [OF cok]
    by simp
  have ids: "node_ids (set_child rt j ?c) = insert h (node_ids (root r))"
  proof -
    have "(\<Union>p \<in> set ((children rt)[j := ?c]). node_ids p) = (\<Union>p \<in> set (children rt). node_ids p) \<union> {h}"
      using rt [of m "[]"] insert_path_ids [OF cok] by (intro set_list_update_union) auto
    then have "node_ids (set_child rt j ?c) = insert h (node_ids rt)"
      unfolding node_ids_iff [of "set_child rt j ?c"] node_ids_iff [of rt] by simp
    then show ?thesis using rt [of m "[]"] by simp
  qed
  have "adding h r0 ?r" using ok w(2, 3) sc ids by (auto simp: adding_def only_cache_def setUrl_def cache_ok_def)
  then show ?thesis using s sc ids rt by (intro exI [of _ ?r]) auto
qed

lemma addMethods_spec:
  "adding h r0 r \<Longrightarrow> h = priority OR of_nat (length (handlers r)) \<Longrightarrow>
   \<exists>r'. addMethods pattern priority ms r = Some r' \<and> adding h r0 r' \<and>
    (\<forall>m' segs. set (methodCandidates (root r') m' segs) =
       set (methodCandidates (root r) m' segs) \<union> (if m' \<in> set ms then matched h [] (segments pattern) segs else {}))"
proof (induction ms arbitrary: r)
  case Nil
  then show ?case by simp
next
  case (Cons m ms)
  obtain r1 where r1: "addMethod pattern priority m r = Some r1" "adding h r0 r1"
    "\<And>m' segs. set (methodCandidates (root r1) m' segs) =
       set (methodCandidates (root r) m' segs) \<union> (if m' = m then matched h [] (segments pattern) segs else {})"
    using addMethod_spec [OF Cons.prems] by blast
  have "h = priority OR of_nat (length (handlers r1))" using Cons.prems r1(2) by (simp add: adding_def)
  from Cons.IH [OF r1(2) this] obtain r2 where r2: "addMethods pattern priority ms r1 = Some r2" "adding h r0 r2"
    "\<And>m' segs. set (methodCandidates (root r2) m' segs) =
       set (methodCandidates (root r1) m' segs) \<union> (if m' \<in> set ms then matched h [] (segments pattern) segs else {})"
    by blast
  then show ?case using r1 by (intro exI [of _ r2]) auto
qed

definition priority_ok :: "u32 \<Rightarrow> bool" where
  "priority_ok p \<longleftrightarrow> p = HIGH_PRIORITY \<or> p = MEDIUM_PRIORITY \<or> p = LOW_PRIORITY"

lemma new_id:
  assumes "priority_ok p" "k < 2 ^ 28"
  shows "handler_index (p OR of_nat k) = k"
proof -
  have k: "unat (of_nat k :: u32) = k" using assms(2) by (simp add: unsigned_of_nat take_bit_nat_eq_self)
  then have t: "take_bit 28 (of_nat k :: u32) = of_nat k"
    using assms(2) by (metis take_bit_nat_eq_self unsigned_take_bit_eq word_unat_eq_iff)
  have "take_bit 28 p = 0"
    using assms(1) unfolding priority_ok_def HIGH_PRIORITY_def MEDIUM_PRIORITY_def LOW_PRIORITY_def by auto
  then have "take_bit 28 (p OR of_nat k) = of_nat k" using t by (simp add: take_bit_or)
  then show ?thesis using k by (simp add: handler_index_def HANDLER_MASK_mask flip: take_bit_eq_mask)
qed

lemma sort_methods_simps:
  "set (children (sort_methods rt)) = set (children rt)" "node_handlers (sort_methods rt) = node_handlers rt"
  "distinct (map node_name (children (sort_methods rt))) = distinct (map node_name (children rt))"
  "methods_sorted (sort_methods rt)"
proof -
  have "mset (map node_name (sort_key (\<lambda>c. MethodKey (node_name c)) (children rt))) = mset (map node_name (children rt))"
    by simp
  then show "distinct (map node_name (children (sort_methods rt))) = distinct (map node_name (children rt))"
    unfolding sort_methods_def Node.sel by (metis mset_eq_imp_distinct_iff)
qed (simp_all add: sort_methods_def methods_sorted_def)

lemma sort_methods_ok:
  assumes "root_ok rt"
  shows "root_ok (sort_methods rt)" "node_ids (sort_methods rt) = node_ids rt"
    "set (methodCandidates (sort_methods rt) m segs) = set (methodCandidates rt m segs)"
proof -
  show r: "root_ok (sort_methods rt)" using assms by (simp add: root_ok_def sort_methods_simps)
  show "node_ids (sort_methods rt) = node_ids rt"
    unfolding node_ids_iff [of rt] node_ids_iff [of "sort_methods rt"] sort_methods_simps ..
  have "distinct (map node_name (children rt))" "distinct (map node_name (children (sort_methods rt)))"
    using assms r by (simp_all add: root_ok_def)
  from methodCandidates_set [OF this(1)] methodCandidates_set [OF this(2)]
  show "set (methodCandidates (sort_methods rt) m segs) = set (methodCandidates rt m segs)"
    by (auto simp: sort_methods_simps)
qed

section \<open>Removing and adding a route\<close>

lemma UINT32_MAX_index: "handler_index UINT32_MAX = 2 ^ 28 - 1"
  by (simp add: handler_index_def UINT32_MAX_def HANDLER_MASK_def)

lemma remove_spec:
  assumes "router_ok r"
  shows "\<exists>r'. remove_route m pattern priority r = Some (registered (root r) m priority (segments pattern) \<noteq> [], r') \<and>
    router_ok r' \<and> userData r' = userData r \<and>
    (case registered (root r) m priority (segments pattern) of
       [] \<Rightarrow> root r' = root r \<and> handlers r' = handlers r
     | h # _ \<Rightarrow> root r' = snd (cullNode False h (root r)) \<and> handlers r' = without_nth (handler_index h) (handlers r))"
proof -
  obtain r1 where r1: "findHandler m pattern priority r = Some (first_id (registered (root r) m priority (segments pattern)), r1)"
    "root r1 = root r" "handlers r1 = handlers r" "userData r1 = userData r" "router_ok r1"
    using findHandler_spec [OF assms] by blast
  show ?thesis
  proof (cases "registered (root r) m priority (segments pattern)")
    case Nil
    then show ?thesis using r1 by (simp add: remove_route_def first_id_def)
  next
    case (Cons h hs)
    then have h: "h \<in> node_ids (root r)" using registered_ids [of "root r" m priority "segments pattern"] by auto
    have len: "length (handlers r) < 2 ^ 28" using assms by (simp add: router_ok_def)
    have idx: "handler_index h < length (handlers r)"
      using assms h by (auto simp: router_ok_def router_sane_def ids_ok_def)
    then have "h \<noteq> UINT32_MAX" using len UINT32_MAX_index by auto
    then show ?thesis using Cons r1 idx cull_router_ok [OF r1(5), of h] h
      by (simp add: remove_route_def first_id_def without_nth_def)
  qed
qed

lemma remove_length:
  assumes "router_ok r" "remove_route m pattern priority r = Some (removed, r')"
  shows "router_ok r'" "userData r' = userData r" "length (handlers r') \<le> length (handlers r)"
proof -
  obtain r1 where "remove_route m pattern priority r = Some (registered (root r) m priority (segments pattern) \<noteq> [], r1)"
    "router_ok r1" "userData r1 = userData r"
    "case registered (root r) m priority (segments pattern) of
       [] \<Rightarrow> root r1 = root r \<and> handlers r1 = handlers r
     | h # _ \<Rightarrow> root r1 = snd (cullNode False h (root r)) \<and> handlers r1 = without_nth (handler_index h) (handlers r)"
    using remove_spec [OF assms(1)] by blast
  then show "router_ok r'" "userData r' = userData r" "length (handlers r') \<le> length (handlers r)"
    using assms(2) by (auto simp: without_nth_def split: list.splits)
qed

lemma router_ok_adding: "router_ok r \<Longrightarrow> adding h r r"
  by (auto simp: router_ok_def router_sane_def adding_def)

lemma add_spec:
  assumes "router_ok r" "priority_ok priority" "methods \<noteq> []" "length (handlers r) < 2 ^ 28 - 1"
  shows "\<exists>removed r1 r'. remove_route (hd methods) pattern priority r = Some (removed, r1) \<and>
    add_route methods pattern f priority r = Some r' \<and> router_ok r' \<and>
    handlers r' = handlers r1 @ [f] \<and> userData r' = userData r \<and>
    (\<forall>m segs. set (methodCandidates (root r') m segs) = set (methodCandidates (root r1) m segs) \<union>
       (if m \<in> set methods then matched (priority OR of_nat (length (handlers r1))) [] (segments pattern) segs else {}))"
proof -
  obtain removed r1 where r1: "remove_route (hd methods) pattern priority r = Some (removed, r1)" "router_ok r1"
    "userData r1 = userData r" and len: "length (handlers r1) \<le> length (handlers r)"
    using remove_spec [OF assms(1), of "hd methods" pattern priority] remove_length [OF assms(1)] by blast
  let ?k = "length (handlers r1)"
  let ?h = "priority OR of_nat ?k :: u32"
  have k: "?k < 2 ^ 28" "Suc ?k < 2 ^ 28" using len assms(4) by simp_all
  obtain r2 where r2: "addMethods pattern priority methods r1 = Some r2" "adding ?h r1 r2"
    "\<And>m' segs. set (methodCandidates (root r2) m' segs) =
       set (methodCandidates (root r1) m' segs) \<union> (if m' \<in> set methods then matched ?h [] (segments pattern) segs else {})"
    using addMethods_spec [OF router_ok_adding [OF r1(2)] refl] by metis
  let ?r = "r2\<lparr>handlers := handlers r2 @ [f], root := sort_methods (root r2)\<rparr>"
  have a: "root_ok (root r2)" "handlers r2 = handlers r1" "node_ids (root r2) \<subseteq> insert ?h (node_ids (root r1))"
    "length (urlSegmentVector r2) = MAX_URL_SEGMENTS" "params r2 = params r1" "userData r2 = userData r1"
    using r2(2) by (simp_all add: adding_def)
  note idx = new_id [OF assms(2) k(1)]
  have old: "x \<in> node_ids (root r1) \<Longrightarrow> handler_index x < ?k" for x
    using r1(2) by (auto simp: router_ok_def router_sane_def ids_ok_def)
  have "inj_on handler_index (insert ?h (node_ids (root r1)))"
  proof -
    have "handler_index ?h \<notin> handler_index ` (node_ids (root r1) - {?h})" using idx old by fastforce
    moreover have "inj_on handler_index (node_ids (root r1))" using r1(2) by (simp add: router_ok_def)
    ultimately show ?thesis unfolding inj_on_insert by blast
  qed
  then have "inj_on handler_index (node_ids (root r2))" using a(3) by (rule inj_on_subset)
  moreover have "ids_ok ?r (node_ids (root r2))" using a(2, 3) old idx by (auto simp: ids_ok_def less_Suc_eq)
  ultimately have "router_ok ?r"
    using a(1, 2, 4, 5) r1(2) k sort_methods_ok [OF a(1)] sort_methods_simps(4)
    by (auto simp: router_ok_def router_sane_def ids_ok_def)
  moreover have "add_route methods pattern f priority r = Some ?r"
    using assms(3) r1(1) r2(1) by (simp add: add_route_def hd_conv_nth)
  ultimately show ?thesis using r1 r2 a sort_methods_ok(3) [OF a(1)] by auto
qed

section \<open>Every sequence of operations\<close>

inductive router_reach :: "'a HttpRouter \<Rightarrow> bool" where
  "router_reach (initial_router a)"
| "router_reach r \<Longrightarrow> priority_ok priority \<Longrightarrow> length (handlers r) < 2 ^ 28 - 1 \<Longrightarrow>
   add_route methods pattern f priority r = Some r' \<Longrightarrow> router_reach r'"
| "router_reach r \<Longrightarrow> remove_route m pattern priority r = Some (removed, r') \<Longrightarrow> router_reach r'"
| "router_reach r \<Longrightarrow> route m url r = Some (took, r') \<Longrightarrow> router_reach r'"

lemma initial_router_ok: "router_ok (initial_router a)"
  by (simp add: initial_router_def router_ok_def router_sane_def getNode_def Let_def upper_bound.simps insert_at_def
      root_ok_def methods_sorted_def keys_ok_def ids_ok_def)

lemma router_reach_ok: "router_reach r \<Longrightarrow> router_ok r"
proof (induction rule: router_reach.induct)
  case (1 a)
  show ?case by (rule initial_router_ok)
next
  case (2 r priority methods pattern f r')
  then have "methods \<noteq> []" by (auto simp: add_route_def)
  then show ?case using add_spec [OF 2(5) 2(2) _ 2(3), of methods pattern f] 2(4) by auto
next
  case (3 r m pattern priority removed r')
  then show ?case using remove_length(1) by blast
next
  case (4 r m url took r')
  then have "router_sane r" by (simp add: router_ok_def)
  from route_dispatch [OF this, of m url] show ?case using 4 by (auto simp: router_ok_def)
qed



text \<open>C29: Registering a route always succeeds and changes the table exactly by its pattern: after the
  route with the same first meth, pattern and priority is removed, a URL gets the new handler
  with the parameters of the match if its meth is one of those registered and the pattern
  matches, and keeps the candidates it had.\<close>

theorem add_route_effect:
  assumes "router_reach r" "priority_ok priority" "methods \<noteq> []" "length (handlers r) < 2 ^ 28 - 1"
  shows "\<exists>removed r1 r'. remove_route (hd methods) pattern priority r = Some (removed, r1) \<and>
    add_route methods pattern f priority r = Some r' \<and>
    handlers r' = handlers r1 @ [f] \<and> userData r' = userData r \<and>
    (\<forall>m url. set (methodCandidates (root r') m (segments url)) = set (methodCandidates (root r1) m (segments url)) \<union>
       (if m \<notin> set methods then {} else
        case pat_match (segments pattern) (segments url) of None \<Rightarrow> {}
        | Some vs \<Rightarrow> {(priority OR of_nat (length (handlers r1)), vs)}))"
proof -
  obtain removed r1 r' where r: "remove_route (hd methods) pattern priority r = Some (removed, r1)"
    "add_route methods pattern f priority r = Some r'" "handlers r' = handlers r1 @ [f]" "userData r' = userData r"
    and c: "\<And>m segs. set (methodCandidates (root r') m segs) = set (methodCandidates (root r1) m segs) \<union>
       (if m \<in> set methods then matched (priority OR of_nat (length (handlers r1))) [] (segments pattern) segs else {})"
    using add_spec [OF router_reach_ok [OF assms(1)] assms(2-4), of pattern f] by metis
  show ?thesis
    by (rule exI [of _ removed], rule exI [of _ r1], rule exI [of _ r']) (use r in \<open>simp add: c matched_Nil\<close>)
qed

text \<open>C30: Removing a route deletes exactly its handler from the table: every method and URL is then
  served as if the removed handler, and only it, were struck from its candidates, although ids
  were renumbered and empty nodes culled. It returns whether there was such a route.\<close>

theorem remove_route_effect:
  assumes "router_reach r"
  shows "\<exists>r'. remove_route m pattern priority r = Some (registered (root r) m priority (segments pattern) \<noteq> [], r') \<and>
    userData r' = userData r \<and>
    (\<forall>m' url a. first_true (handlers r') (methodCandidates (root r') m' (segments url)) a =
       first_true (handlers r) (filter (\<lambda>(h, ps). take 1 (registered (root r) m priority (segments pattern)) \<noteq> [h])
         (methodCandidates (root r) m' (segments url))) a)"
proof -
  have ok: "router_ok r" by (rule router_reach_ok [OF assms])
  obtain r' where r': "remove_route m pattern priority r = Some (registered (root r) m priority (segments pattern) \<noteq> [], r')"
    "userData r' = userData r"
    and eff: "case registered (root r) m priority (segments pattern) of
       [] \<Rightarrow> root r' = root r \<and> handlers r' = handlers r
     | h # _ \<Rightarrow> root r' = snd (cullNode False h (root r)) \<and> handlers r' = without_nth (handler_index h) (handlers r)"
    using remove_spec [OF ok] by blast
  show ?thesis
  proof (cases "registered (root r) m priority (segments pattern)")
    case Nil
    then show ?thesis using r' eff by (simp add: case_prod_unfold)
  next
    case (Cons h hs)
    have h: "h \<in> node_ids (root r)" using Cons registered_ids [of "root r" m priority "segments pattern"] by auto
    have d: "distinct (map node_name (children (root r)))" "inj_on handler_index (node_ids (root r))"
      "\<And>x. x \<in> node_ids (root r) \<Longrightarrow> handler_index x < length (handlers r)"
      using ok by (auto simp: router_ok_def root_ok_def router_sane_def ids_ok_def)
    have e: "(\<lambda>(x, ps). h \<noteq> x) = (\<lambda>(x, ps :: byte list list). x \<noteq> h)" by auto
    have "first_true (handlers r') (methodCandidates (root r') m' segs) a =
       first_true (handlers r) (filter (\<lambda>(x, ps). x \<noteq> h) (methodCandidates (root r) m' segs)) a" for m' segs a
      using Cons eff cull_methodCandidates [OF d(1)] first_true_kept [OF methodCandidates_ids d(2) h d(3)] by simp
    then show ?thesis using r' Cons by (auto simp: e intro!: exI [of _ r'])
  qed
qed

section \<open>Witnesses\<close>

definition yielding :: "nat handler" where
  "yielding ps a = (False, a + 1)"

lemma example_router: "\<exists>r. router_reach r \<and> length (handlers r) = 1 \<and> userData r = (0::nat) \<and>
   set (methodCandidates (root r) str_GET (segments [SLASH, 97])) = {(MEDIUM_PRIORITY, [[97]])}"
proof -
  have p: "priority_ok MEDIUM_PRIORITY" by (simp add: priority_ok_def)
  let ?r0 = "initial_router (0::nat)"
  have r0: "router_reach ?r0" by (rule router_reach.intros(1))
  have len: "length (handlers ?r0) < 2 ^ 28 - 1" by (simp add: initial_router_def)
  have segs: "segments [SLASH, 97] = [[97]]" "segments [SLASH, COLON] = [[COLON]]"
    by (simp_all add: segments_def MAX_URL_SEGMENTS_def url_segments.simps)
  have no: "registered (root ?r0) str_GET MEDIUM_PRIORITY q = []" "methodCandidates (root ?r0) str_GET q = []" for q
    by (simp_all add: registered_def methodCandidates_def initial_router_def getNode_def Let_def upper_bound.simps
        insert_at_def str_GET_def ANY_METHOD_TOKEN_def)
  obtain r1 where r1: "remove_route str_GET [SLASH, COLON] MEDIUM_PRIORITY ?r0 = Some (False, r1)"
    "root r1 = root ?r0" "handlers r1 = handlers ?r0"
    using remove_spec [OF initial_router_ok [of "0 :: nat"], of str_GET "[SLASH, COLON]" MEDIUM_PRIORITY] no by auto
  obtain removed r1' r2 where r2: "remove_route (hd [str_GET]) [SLASH, COLON] MEDIUM_PRIORITY ?r0 = Some (removed, r1')"
    "add_route [str_GET] [SLASH, COLON] yielding MEDIUM_PRIORITY ?r0 = Some r2" "handlers r2 = handlers r1' @ [yielding]"
    "userData r2 = userData ?r0"
    and c: "\<forall>m segs. set (methodCandidates (root r2) m segs) = set (methodCandidates (root r1') m segs) \<union>
       (if m \<in> set [str_GET] then matched (MEDIUM_PRIORITY OR of_nat (length (handlers r1'))) [] (segments [SLASH, COLON]) segs else {})"
    using add_spec [OF initial_router_ok p _ len, of "[str_GET]" "[SLASH, COLON]" yielding] by auto
  have e: "r1' = r1" using r1 r2(1) by simp
  have "router_reach r2" using router_reach.intros(2) [OF r0 p len r2(2)] .
  moreover have "length (handlers r2) = 1" using r2(3) r1(3) e by (simp add: initial_router_def)
  moreover have "set (methodCandidates (root r2) str_GET (segments [SLASH, 97])) = {(MEDIUM_PRIORITY, [[97]])}"
    using c r1 no unfolding e by (simp add: segs matched_def is_wild_def is_param_def initial_router_def)
  moreover have "userData r2 = 0" using r2(4) by (simp add: initial_router_def)
  ultimately show ?thesis by blast
qed



theorem add_route_effect_witness:
  "\<exists>removed r1 r'. remove_route (hd [str_GET]) [SLASH, COLON] MEDIUM_PRIORITY (initial_router 0) = Some (removed, r1) \<and>
    add_route [str_GET] [SLASH, COLON] yielding MEDIUM_PRIORITY (initial_router 0) = Some r' \<and>
    handlers r' = handlers r1 @ [yielding] \<and> userData r' = userData (initial_router 0) \<and>
    (\<forall>m url. set (methodCandidates (root r') m (segments url)) = set (methodCandidates (root r1) m (segments url)) \<union>
       (if m \<notin> set [str_GET] then {} else
        case pat_match (segments [SLASH, COLON]) (segments url) of None \<Rightarrow> {}
        | Some vs \<Rightarrow> {(MEDIUM_PRIORITY OR of_nat (length (handlers r1)), vs)}))"
  by (rule add_route_effect [OF router_reach.intros(1)])
    (simp_all add: priority_ok_def initial_router_def)

theorem remove_route_effect_witness:
  "\<exists>(r :: nat HttpRouter) r'. router_reach r \<and> length (handlers r) = 1 \<and>
    remove_route str_GET [SLASH, COLON] MEDIUM_PRIORITY r =
      Some (registered (root r) str_GET MEDIUM_PRIORITY (segments [SLASH, COLON]) \<noteq> [], r') \<and>
    userData r' = userData r \<and>
    (\<forall>m' url a. first_true (handlers r') (methodCandidates (root r') m' (segments url)) a =
       first_true (handlers r) (filter (\<lambda>(h, ps). take 1 (registered (root r) str_GET MEDIUM_PRIORITY (segments [SLASH, COLON])) \<noteq> [h])
         (methodCandidates (root r) m' (segments url))) a)"
proof -
  obtain r :: "nat HttpRouter" where r: "router_reach r" "length (handlers r) = 1"
    using example_router by blast
  obtain r' where "remove_route str_GET [SLASH, COLON] MEDIUM_PRIORITY r =
      Some (registered (root r) str_GET MEDIUM_PRIORITY (segments [SLASH, COLON]) \<noteq> [], r') \<and>
    userData r' = userData r \<and>
    (\<forall>m' url a. first_true (handlers r') (methodCandidates (root r') m' (segments url)) a =
       first_true (handlers r) (filter (\<lambda>(h, ps). take 1 (registered (root r) str_GET MEDIUM_PRIORITY (segments [SLASH, COLON])) \<noteq> [h])
         (methodCandidates (root r) m' (segments url))) a)"
    using remove_route_effect [OF r(1), of str_GET "[SLASH, COLON]" MEDIUM_PRIORITY] by (elim exE)
  then show ?thesis using r by (intro exI [of _ r] exI [of _ r'] conjI) (elim conjE, assumption)+
qed

text \<open>
  The constructor promises an ANY node, but \<open>cullNode\<close> removes it with its last route: after
  removing the one ANY route, a DELETE request is dispatched to the POST handlers, which are then
  the last children of the root.
\<close>

definition taking :: "nat \<Rightarrow> nat handler" where
  "taking k ps a = (True, k)"

definition lost_any :: "nat HttpRouter option" where
  "lost_any = Option.bind (add_route [ANY_METHOD_TOKEN] [SLASH, 120] (taking 1) LOW_PRIORITY (initial_router 0)) (\<lambda>r.
     Option.bind (add_route [[80, 79, 83, 84]] [SLASH, 121] (taking 2) MEDIUM_PRIORITY r) (\<lambda>r.
     map_option snd (remove_route ANY_METHOD_TOKEN [SLASH, 120] LOW_PRIORITY r)))"

lemma any_route_lost:
  "map_option (\<lambda>r. map_option (\<lambda>(took, r). (took, userData r)) (route [68, 69, 76] [SLASH, 121] r)) lost_any = Some (Some (True, 2))"
  by code_simp

end
