(* ===== verification/Ws_Utf8.thy ===== *)
theory Ws_Utf8
  imports Uws_Prelude
begin

text \<open>
  \<open>isValidUtf8\<close> of \<open>src/src/WebSocketProtocol.h\<close> (the version without simdutf): the check of text
  messages and close reasons. The pointers \<open>s\<close> and \<open>e\<close> are the list of the bytes between them.
  The theorem compares it with RFC 3629: the accepted strings are the encodings of sequences of
  Unicode scalar values.
\<close>

section \<open>Definitions\<close>

definition ascii_mask :: u64 where "ascii_mask = 0x8080808080808080"

text \<open>Two 64-bit words of ASCII at once.\<close>

definition ascii_block :: "byte list \<Rightarrow> bool" where
  "ascii_block s \<longleftrightarrow> 16 \<le> length s \<and>
     (the (load64 s) AND ascii_mask) OR (the (load64 (drop 8 s)) AND ascii_mask) = 0"

definition not_ascii :: "byte \<Rightarrow> bool" where
  "not_ascii b \<longleftrightarrow> b AND 0x80 \<noteq> 0"

text \<open>
  The sequence at a lead byte: the number of its bytes, or None for \<open>return false\<close>. A test
  \<open>s + k >= e\<close> is one of the length.
\<close>

definition multibyte :: "byte list \<Rightarrow> nat option" where
  "multibyte s =
    (if s ! 0 AND 0x60 = 0x40 then
       (if length s \<le> 1 \<or> s ! 1 AND 0xc0 \<noteq> 0x80 \<or> s ! 0 AND 0xfe = 0xc0 then None else Some 2)
     else if s ! 0 AND 0xf0 = 0xe0 then
       (if length s \<le> 2 \<or> s ! 1 AND 0xc0 \<noteq> 0x80 \<or> s ! 2 AND 0xc0 \<noteq> 0x80 \<or>
           s ! 0 = 0xe0 \<and> s ! 1 AND 0xe0 = 0x80 \<or> s ! 0 = 0xed \<and> s ! 1 AND 0xe0 = 0xa0 then None else Some 3)
     else if s ! 0 AND 0xf8 = 0xf0 then
       (if length s \<le> 3 \<or> s ! 1 AND 0xc0 \<noteq> 0x80 \<or> s ! 2 AND 0xc0 \<noteq> 0x80 \<or> s ! 3 AND 0xc0 \<noteq> 0x80 \<or>
           s ! 0 = 0xf0 \<and> s ! 1 AND 0xf0 = 0x80 \<or> s ! 0 = 0xf4 \<and> s ! 1 > 0x8f \<or> s ! 0 > 0xf4 then None else Some 4)
     else None)"

lemma multibyte_pos: "multibyte s = Some n \<Longrightarrow> 0 < n \<and> n \<le> length s"
  by (auto simp: multibyte_def split: if_splits)

function isValidUtf8 :: "byte list \<Rightarrow> bool" where
  "isValidUtf8 s =
    (if s = [] then True
     else if ascii_block s then isValidUtf8 (drop 16 s)
     else case dropWhile (\<lambda>b. \<not> not_ascii b) s of
       [] \<Rightarrow> True
     | b # r \<Rightarrow> (case multibyte (b # r) of None \<Rightarrow> False | Some n \<Rightarrow> isValidUtf8 (drop n (b # r))))"
  by pat_completeness auto
termination
proof (relation "measure length")
  fix s b r n
  assume d: "dropWhile (\<lambda>b. \<not> not_ascii b) s = b # r" and m: "multibyte (b # r) = Some n"
  have "Suc (length r) \<le> length s" using length_dropWhile_le [of "\<lambda>b. \<not> not_ascii b" s] by (simp only: d list.size)
  with multibyte_pos [OF m] show "(drop n (b # r), s) \<in> measure length" by simp linarith
qed auto

declare isValidUtf8.simps [simp del]

section \<open>RFC 3629\<close>

definition scalar_value :: "nat \<Rightarrow> bool" where
  "scalar_value c \<longleftrightarrow> c < 0xD800 \<or> 0xE000 \<le> c \<and> c < 0x110000"

definition utf8_encode :: "nat \<Rightarrow> byte list" where
  "utf8_encode c =
    (if c < 0x80 then [of_nat c]
     else if c < 0x800 then [of_nat (0xC0 + c div 64), of_nat (0x80 + c mod 64)]
     else if c < 0x10000 then [of_nat (0xE0 + c div 4096), of_nat (0x80 + c div 64 mod 64), of_nat (0x80 + c mod 64)]
     else [of_nat (0xF0 + c div 262144), of_nat (0x80 + c div 4096 mod 64), of_nat (0x80 + c div 64 mod 64), of_nat (0x80 + c mod 64)])"

definition utf8_text :: "byte list \<Rightarrow> bool" where
  "utf8_text s \<longleftrightarrow> (\<exists>cs. list_all scalar_value cs \<and> s = concat (map utf8_encode cs))"

section \<open>The masks as ranges\<close>

lemma and_high: "unat (b AND NOT (mask k) :: byte) = unat b - unat b mod 2 ^ k"
proof -
  have "(b AND NOT (mask k)) + (b AND mask k) = (b AND NOT (mask k)) OR (b AND mask k)"
    by (rule disjunctive_add) (auto simp: bit_simps)
  also have "\<dots> = b" by (simp flip: bit.conj_disj_distrib)
  finally have "b AND NOT (mask k) = b - take_bit k b" by (simp add: take_bit_eq_mask algebra_simps)
  moreover have "unat (take_bit k b) = unat b mod 2 ^ k" unfolding unsigned_take_bit_eq by (rule take_bit_eq_mod)
  ultimately show ?thesis by (simp add: unat_sub word_le_nat_alt)
qed

lemma masks: "(0x80::byte) = NOT (mask 7)" "(0xc0::byte) = NOT (mask 6)" "(0xe0::byte) = NOT (mask 5)"
  "(0xf0::byte) = NOT (mask 4)" "(0xf8::byte) = NOT (mask 3)" "(0xfe::byte) = NOT (mask 1)"
  by (simp_all add: mask_eq_exp_minus_1)

lemma byte_eq_unat: "(b::byte) = c \<longleftrightarrow> unat b = unat c"
  by (simp add: word_unat_eq_iff)

lemma div_range: "0 < k \<Longrightarrow> u - u mod k = k * q \<longleftrightarrow> k * q \<le> u \<and> u < k * q + (k :: nat)"
proof -
  assume k: "0 < k"
  have "u - u mod k = k * q \<longleftrightarrow> u div k = q" using k by (simp add: minus_mod_eq_mult_div)
  also have "\<dots> \<longleftrightarrow> k * q \<le> u \<and> u < k * q + k"
    using k div_nat_eqI [of k q u] times_div_less_eq_dividend [of k u] dividend_less_times_div [OF k, of u]
    by (auto simp: mult.commute)
  finally show ?thesis .
qed

lemma range_tests:
  "b AND 0x80 = (0::byte) \<longleftrightarrow> unat b < 0x80"
  "b AND 0xc0 = (0x80::byte) \<longleftrightarrow> 0x80 \<le> unat b \<and> unat b < 0xC0"
  "b AND 0xfe = (0xc0::byte) \<longleftrightarrow> 0xC0 \<le> unat b \<and> unat b < 0xC2"
  "b AND 0xf0 = (0xe0::byte) \<longleftrightarrow> 0xE0 \<le> unat b \<and> unat b < 0xF0"
  "b AND 0xf8 = (0xf0::byte) \<longleftrightarrow> 0xF0 \<le> unat b \<and> unat b < 0xF8"
  "b AND 0xe0 = (0x80::byte) \<longleftrightarrow> 0x80 \<le> unat b \<and> unat b < 0xA0"
  "b AND 0xe0 = (0xa0::byte) \<longleftrightarrow> 0xA0 \<le> unat b \<and> unat b < 0xC0"
  "b AND 0xf0 = (0x80::byte) \<longleftrightarrow> 0x80 \<le> unat b \<and> unat b < 0x90"
proof -
  have h: "unat (b AND 0x80) = unat b - unat b mod 128" "unat (b AND 0xc0) = unat b - unat b mod 64"
    "unat (b AND 0xe0) = unat b - unat b mod 32" "unat (b AND 0xf0) = unat b - unat b mod 16"
    "unat (b AND 0xf8) = unat b - unat b mod 8" "unat (b AND 0xfe) = unat b - unat b mod 2"
    unfolding masks and_high by simp_all
  note lt = unat_byte_less [of b]
  show "b AND 0x80 = (0::byte) \<longleftrightarrow> unat b < 0x80" unfolding byte_eq_unat h using div_range [of 128 "unat b" 0] lt by simp
  show "b AND 0xc0 = (0x80::byte) \<longleftrightarrow> 0x80 \<le> unat b \<and> unat b < 0xC0" unfolding byte_eq_unat h using div_range [of 64 "unat b" 2] lt by simp
  show "b AND 0xfe = (0xc0::byte) \<longleftrightarrow> 0xC0 \<le> unat b \<and> unat b < 0xC2" unfolding byte_eq_unat h using div_range [of 2 "unat b" 96] lt by simp
  show "b AND 0xf0 = (0xe0::byte) \<longleftrightarrow> 0xE0 \<le> unat b \<and> unat b < 0xF0" unfolding byte_eq_unat h using div_range [of 16 "unat b" 14] lt by simp
  show "b AND 0xf8 = (0xf0::byte) \<longleftrightarrow> 0xF0 \<le> unat b \<and> unat b < 0xF8" unfolding byte_eq_unat h using div_range [of 8 "unat b" 30] lt by simp
  show "b AND 0xe0 = (0x80::byte) \<longleftrightarrow> 0x80 \<le> unat b \<and> unat b < 0xA0" unfolding byte_eq_unat h using div_range [of 32 "unat b" 4] lt by simp
  show "b AND 0xe0 = (0xa0::byte) \<longleftrightarrow> 0xA0 \<le> unat b \<and> unat b < 0xC0" unfolding byte_eq_unat h using div_range [of 32 "unat b" 5] lt by simp
  show "b AND 0xf0 = (0x80::byte) \<longleftrightarrow> 0x80 \<le> unat b \<and> unat b < 0x90" unfolding byte_eq_unat h using div_range [of 16 "unat b" 8] lt by simp
qed

lemma lead2_test: "not_ascii b \<Longrightarrow> b AND 0x60 = (0x40::byte) \<longleftrightarrow> 0xC0 \<le> unat b \<and> unat b < 0xE0"
proof -
  assume "not_ascii b"
  then have hi: "0x80 \<le> unat b" unfolding not_ascii_def range_tests by simp
  have "(0x60::byte) = mask 7 AND NOT (mask 5)" by (simp add: mask_eq_exp_minus_1)
  then have "b AND 0x60 = take_bit 7 b AND NOT (mask 5)" by (simp add: take_bit_eq_mask and.assoc)
  then have "unat (b AND 0x60) = unat (take_bit 7 b) - unat (take_bit 7 b) mod 32" by (simp only: and_high) simp
  also have "unat (take_bit 7 b) = unat b mod 128" unfolding unsigned_take_bit_eq by (simp add: take_bit_eq_mod)
  also have "unat b mod 128 = unat b - 128"
  proof -
    have "unat b - 128 < 128" using unat_byte_less [of b] by linarith
    then show ?thesis using hi by (simp add: le_mod_geq)
  qed
  finally show ?thesis unfolding byte_eq_unat using hi unat_byte_less [of b] div_range [of 32 "unat b - 128" 2] by simp linarith
qed
section \<open>Sequences of a lead byte\<close>

lemma not_ascii_iff: "not_ascii b \<longleftrightarrow> 0x80 \<le> unat b"
  unfolding not_ascii_def range_tests by (simp add: not_less)

definition cont :: "byte \<Rightarrow> bool" where
  "cont b \<longleftrightarrow> 0x80 \<le> unat b \<and> unat b < 0xC0"

lemma multibyte_iff:
  assumes "not_ascii b"
  shows "multibyte (b # r) =
    (if 0xC2 \<le> unat b \<and> unat b < 0xE0 \<and> 1 \<le> length r \<and> cont (r ! 0) then Some 2
     else if 0xE0 \<le> unat b \<and> unat b < 0xF0 \<and> 2 \<le> length r \<and> cont (r ! 0) \<and> cont (r ! 1) \<and>
        (unat b = 0xE0 \<longrightarrow> 0xA0 \<le> unat (r ! 0)) \<and> (unat b = 0xED \<longrightarrow> unat (r ! 0) < 0xA0) then Some 3
     else if 0xF0 \<le> unat b \<and> unat b < 0xF5 \<and> 3 \<le> length r \<and> cont (r ! 0) \<and> cont (r ! 1) \<and> cont (r ! 2) \<and>
        (unat b = 0xF0 \<longrightarrow> 0x90 \<le> unat (r ! 0)) \<and> (unat b = 0xF4 \<longrightarrow> unat (r ! 0) < 0x90) then Some 4
     else None)"
proof -
  have cmp: "r ! 0 > 0x8f \<longleftrightarrow> 0x8f < unat (r ! 0)" "b > 0xf4 \<longleftrightarrow> 0xf4 < unat b"
    "b = 0xe0 \<longleftrightarrow> unat b = 0xE0" "b = 0xed \<longleftrightarrow> unat b = 0xED" "b = 0xf0 \<longleftrightarrow> unat b = 0xF0" "b = 0xf4 \<longleftrightarrow> unat b = 0xF4"
    by (simp_all add: word_less_nat_alt byte_eq_unat)
  have hi: "0x80 \<le> unat b" using assms by (simp add: not_ascii_iff)
  have nth: "(b # r) ! 0 = b" "(b # r) ! 1 = r ! 0" "(b # r) ! 2 = r ! 1" "(b # r) ! 3 = r ! 2" by (simp_all add: numeral_2_eq_2 numeral_3_eq_3)
  have len: "length (b # r) \<le> 1 \<longleftrightarrow> \<not> 1 \<le> length r" "length (b # r) \<le> 2 \<longleftrightarrow> \<not> 2 \<le> length r" "length (b # r) \<le> 3 \<longleftrightarrow> \<not> 3 \<le> length r"
    using length_greater_0_conv by (simp_all only: list.size) linarith+
  consider "unat b < 0xC0" | "0xC0 \<le> unat b" "unat b < 0xE0" | "0xE0 \<le> unat b" "unat b < 0xF0" | "0xF0 \<le> unat b" "unat b < 0xF8" | "0xF8 \<le> unat b"
    by linarith
  then show ?thesis
    unfolding multibyte_def nth len lead2_test [OF assms] cont_def range_tests cmp using hi
    by cases auto
qed

text \<open>The three shapes are the encodings of the scalar values from 0x80 on.\<close>

lemma encode_ascii: "c < 0x80 \<Longrightarrow> utf8_encode c = [of_nat c]"
  by (simp add: utf8_encode_def)

lemma of_nat_unat_byte [simp]: "of_nat (unat b) = (b :: byte)"
  by simp

definition decode2 :: "byte list \<Rightarrow> nat" where
  "decode2 r = (unat (r ! 0) - 0xC0) * 64 + (unat (r ! 1) - 0x80)"

definition decode3 :: "byte list \<Rightarrow> nat" where
  "decode3 r = (unat (r ! 0) - 0xE0) * 4096 + (unat (r ! 1) - 0x80) * 64 + (unat (r ! 2) - 0x80)"

definition decode4 :: "byte list \<Rightarrow> nat" where
  "decode4 r = (unat (r ! 0) - 0xF0) * 262144 + (unat (r ! 1) - 0x80) * 4096 + (unat (r ! 2) - 0x80) * 64 + (unat (r ! 3) - 0x80)"

lemma horner: "(x * 64 + y) * 64 + z = x * 4096 + y * 64 + (z :: nat)"
  "(x * 4096 + y * 64 + z) * 64 + w = x * 262144 + y * 4096 + z * 64 + (w :: nat)"
  "(x * 64 + y) * 4096 + z = x * 262144 + y * 4096 + (z :: nat)"
  by simp_all

lemma split_base: "y < 64 \<Longrightarrow> (x * 64 + y) div 64 = (x :: nat)" "y < 64 \<Longrightarrow> (x * 64 + y) mod 64 = (y :: nat)"
  by simp_all

lemma encode2:
  assumes "0xC2 \<le> unat b0" "unat b0 < 0xE0" "cont b1"
  shows "\<exists>c. scalar_value c \<and> utf8_encode c = [b0, b1]"
proof -
  define x where "x = unat b0 - 0xC0"
  define y where "y = unat b1 - 0x80"
  have xy: "2 \<le> x" "x < 32" "y < 64" using assms by (auto simp: x_def y_def cont_def)
  let ?c = "x * 64 + y"
  have c: "0x80 \<le> ?c" "?c < 0x800" using xy by linarith+
  have u: "unat b0 = 0xC0 + x" "unat b1 = 0x80 + y" using assms by (auto simp: x_def y_def cont_def)
  have b: "b0 = of_nat (0xC0 + x)" "b1 = of_nat (0x80 + y)" by (simp_all only: flip: u) simp_all
  have "utf8_encode ?c = [of_nat (0xC0 + ?c div 64), of_nat (0x80 + ?c mod 64)]"
    using c unfolding utf8_encode_def by simp
  then have "utf8_encode ?c = [b0, b1]" unfolding b split_base [OF xy(3)] .
  moreover have "scalar_value ?c" using c by (simp add: scalar_value_def)
  ultimately show ?thesis by blast
qed

lemma encode3:
  assumes "0xE0 \<le> unat b0" "unat b0 < 0xF0" "cont b1" "cont b2"
    "unat b0 = 0xE0 \<longrightarrow> 0xA0 \<le> unat b1" "unat b0 = 0xED \<longrightarrow> unat b1 < 0xA0"
  shows "\<exists>c. scalar_value c \<and> utf8_encode c = [b0, b1, b2]"
proof -
  define x where "x = unat b0 - 0xE0"
  define y where "y = unat b1 - 0x80"
  define z where "z = unat b2 - 0x80"
  have u: "unat b0 = 0xE0 + x" "unat b1 = 0x80 + y" "unat b2 = 0x80 + z" using assms by (auto simp: x_def y_def z_def cont_def)
  have xyz: "x < 16" "y < 64" "z < 64" "x = 0 \<longrightarrow> 32 \<le> y" "x = 13 \<longrightarrow> y < 32"
    using assms by (auto simp: x_def y_def z_def cont_def)
  have b: "b0 = of_nat (0xE0 + x)" "b1 = of_nat (0x80 + y)" "b2 = of_nat (0x80 + z)" by (simp_all only: flip: u) simp_all
  let ?d = "x * 64 + y" let ?c = "?d * 64 + z"
  consider "x = 0" "32 \<le> y" | "1 \<le> x" using xyz by (cases "x = 0") auto
  then have c: "0x800 \<le> ?c" unfolding horner by cases linarith+
  have c': "?c < 0x10000" unfolding horner using xyz by linarith
  have q: "?c div 4096 = x" "?c div 64 mod 64 = y" "?c mod 64 = z"
  proof -
    have d: "?c div 64 = ?d" "?c mod 64 = z" "?d div 64 = x" "?d mod 64 = y"
      by (rule split_base, rule xyz)+
    have "?c div 4096 = ?c div 64 div 64" by (simp only: div_mult2_eq [symmetric]) simp
    then show "?c div 4096 = x" "?c div 64 mod 64 = y" "?c mod 64 = z" by (simp_all only: d)
  qed
  have "utf8_encode ?c = [of_nat (0xE0 + ?c div 4096), of_nat (0x80 + ?c div 64 mod 64), of_nat (0x80 + ?c mod 64)]"
    using c c' unfolding utf8_encode_def by simp
  then have "utf8_encode ?c = [b0, b1, b2]" unfolding b q .
  moreover have "scalar_value ?c"
  proof -
    consider "x < 13" | "x = 13" "y < 32" | "13 < x" using xyz by (cases "x = 13", blast, metis linorder_neqE_nat)
    then show ?thesis unfolding scalar_value_def horner using xyz c' [unfolded horner] by cases linarith+
  qed
  ultimately show ?thesis by blast
qed

lemma encode4:
  assumes "0xF0 \<le> unat b0" "unat b0 < 0xF5" "cont b1" "cont b2" "cont b3"
    "unat b0 = 0xF0 \<longrightarrow> 0x90 \<le> unat b1" "unat b0 = 0xF4 \<longrightarrow> unat b1 < 0x90"
  shows "\<exists>c. scalar_value c \<and> utf8_encode c = [b0, b1, b2, b3]"
proof -
  define x where "x = unat b0 - 0xF0"
  define y where "y = unat b1 - 0x80"
  define z where "z = unat b2 - 0x80"
  define w where "w = unat b3 - 0x80"
  have u: "unat b0 = 0xF0 + x" "unat b1 = 0x80 + y" "unat b2 = 0x80 + z" "unat b3 = 0x80 + w"
    using assms by (auto simp: x_def y_def z_def w_def cont_def)
  have l: "x < 5" "y < 64" "z < 64" "w < 64" "x = 0 \<longrightarrow> 16 \<le> y" "x = 4 \<longrightarrow> y < 16"
    using assms by (auto simp: x_def y_def z_def w_def cont_def)
  have b: "b0 = of_nat (0xF0 + x)" "b1 = of_nat (0x80 + y)" "b2 = of_nat (0x80 + z)" "b3 = of_nat (0x80 + w)"
    by (simp_all only: flip: u) simp_all
  let ?e = "x * 64 + y" let ?d = "?e * 64 + z" let ?c = "?d * 64 + w"
  consider "x = 0" "16 \<le> y" | "1 \<le> x" using l by (cases "x = 0") auto
  then have c: "0x10000 \<le> ?c" unfolding horner by cases linarith+
  consider "x = 4" "y < 16" | "x < 4" using l by (cases "x = 4") auto
  then have c': "?c < 0x110000" unfolding horner using l by cases linarith+
  have q: "?c div 262144 = x" "?c div 4096 mod 64 = y" "?c div 64 mod 64 = z" "?c mod 64 = w"
  proof -
    have d: "?c div 64 = ?d" "?c mod 64 = w" "?d div 64 = ?e" "?d mod 64 = z" "?e div 64 = x" "?e mod 64 = y"
      by (rule split_base, rule l)+
    have m: "?c div 262144 = ?c div 64 div 64 div 64" "?c div 4096 = ?c div 64 div 64"
      by (simp only: div_mult2_eq [symmetric], simp)+
    show "?c div 262144 = x" "?c div 4096 mod 64 = y" "?c div 64 mod 64 = z" "?c mod 64 = w"
      unfolding m d by (rule refl)+
  qed
  have "utf8_encode ?c = [of_nat (0xF0 + ?c div 262144), of_nat (0x80 + ?c div 4096 mod 64),
      of_nat (0x80 + ?c div 64 mod 64), of_nat (0x80 + ?c mod 64)]"
    using c unfolding utf8_encode_def by simp
  then have "utf8_encode ?c = [b0, b1, b2, b3]" unfolding b q .
  moreover have "scalar_value ?c" unfolding scalar_value_def using c c' by linarith
  ultimately show ?thesis by blast
qed

text \<open>Conversely, behind the encoding of a scalar value from 0x80 on the check steps over it.\<close>

lemma multibyte_encode:
  assumes "scalar_value c" "0x80 \<le> c"
  shows "\<exists>b r. utf8_encode c = b # r \<and> not_ascii b \<and> multibyte (b # r @ t) = Some (Suc (length r))"
proof -
  have m: "k < 64 \<Longrightarrow> unat (of_nat (0x80 + k) :: byte) = 0x80 + k" for k by (rule unat_of_nat_byte) linarith
  have ct: "cont (of_nat (0x80 + k mod 64))" for k
    using m [of "k mod 64"] by (simp only: cont_def) simp
  consider "c < 0x800" | "0x800 \<le> c" "c < 0x10000" | "0x10000 \<le> c" by linarith
  then show ?thesis
  proof cases
    case 1
    define x where "x = c div 64"
    have x: "2 \<le> x" "x < 32" using 1 assms by (auto simp: x_def div_le_mono [of 128 c 64, simplified] less_mult_imp_div_less)
    then have u: "unat (of_nat (0xC0 + x) :: byte) = 0xC0 + x" by (intro unat_of_nat_byte) linarith
    have e: "utf8_encode c = [of_nat (0xC0 + x), of_nat (0x80 + c mod 64)]" using 1 assms by (simp add: utf8_encode_def x_def)
    have n: "not_ascii (of_nat (0xC0 + x))" unfolding not_ascii_iff u by simp
    have "multibyte (of_nat (0xC0 + x) # [of_nat (0x80 + c mod 64)] @ t) = Some 2"
      unfolding multibyte_iff [OF n] u using x ct [of c] by simp
    then show ?thesis using e n by simp
  next
    case 2
    define x where "x = c div 4096"
    define y where "y = c div 64 mod 64"
    have x: "x < 16" using 2 by (simp add: x_def less_mult_imp_div_less)
    have y: "y < 64" by (simp add: y_def)
    have cx: "c = (x * 64 + y) * 64 + c mod 64"
    proof -
      have "c div 64 = x * 64 + y" by (simp add: x_def y_def div_mult2_eq [of c 64 64, simplified])
      then show ?thesis using div_mult_mod_eq [of c 64] by simp
    qed
    have lim: "x = 0 \<longrightarrow> 32 \<le> y" "x = 13 \<longrightarrow> y < 32"
    proof -
      have k: "c mod 64 < 64" by simp
      show "x = 0 \<longrightarrow> 32 \<le> y"
      proof
        assume "x = 0"
        then show "32 \<le> y" using 2 cx k unfolding horner by linarith
      qed
      show "x = 13 \<longrightarrow> y < 32"
      proof
        assume "x = 13"
        then show "y < 32" using assms(1) cx k y unfolding scalar_value_def horner by linarith
      qed
    qed
    have u: "unat (of_nat (0xE0 + x) :: byte) = 0xE0 + x" using x by (intro unat_of_nat_byte) linarith
    have u1: "unat (of_nat (0x80 + y) :: byte) = 0x80 + y" using m [OF y] .
    have e: "utf8_encode c = [of_nat (0xE0 + x), of_nat (0x80 + y), of_nat (0x80 + c mod 64)]"
      using 2 by (simp add: utf8_encode_def x_def y_def)
    have n: "not_ascii (of_nat (0xE0 + x))" unfolding not_ascii_iff u by simp
    have cy: "cont (of_nat (0x80 + y))" using ct [of "c div 64"] by (simp only: y_def)
    have "multibyte (of_nat (0xE0 + x) # [of_nat (0x80 + y), of_nat (0x80 + c mod 64)] @ t) = Some 3"
      unfolding multibyte_iff [OF n] u append.simps nth_Cons_0 u1 using x lim ct [of c] cy by simp
    then show ?thesis using e n by simp
  next
    case 3
    define x where "x = c div 262144"
    define y where "y = c div 4096 mod 64"
    have lim0: "c < 0x110000" using assms(1) by (auto simp: scalar_value_def)
    have y: "y < 64" by (simp add: y_def)
    have z: "c mod 4096 < 4096" by simp
    have cx: "c = (x * 64 + y) * 4096 + c mod 4096"
    proof -
      have "c div 4096 = x * 64 + y" by (simp add: x_def y_def div_mult2_eq [of c 4096 64, simplified])
      then show ?thesis using div_mult_mod_eq [of c 4096] by simp
    qed
    have x: "x < 5" using lim0 by (simp add: x_def less_mult_imp_div_less)
    have lim: "x = 0 \<longrightarrow> 16 \<le> y" "x = 4 \<longrightarrow> y < 16"
    proof -
      show "x = 0 \<longrightarrow> 16 \<le> y"
      proof
        assume "x = 0"
        then show "16 \<le> y" using 3 cx z unfolding horner by linarith
      qed
      show "x = 4 \<longrightarrow> y < 16"
      proof
        assume "x = 4"
        then show "y < 16" using lim0 cx z unfolding horner by linarith
      qed
    qed
    have u: "unat (of_nat (0xF0 + x) :: byte) = 0xF0 + x" using x by (intro unat_of_nat_byte) linarith
    have u1: "unat (of_nat (0x80 + y) :: byte) = 0x80 + y" using m [OF y] .
    have e: "utf8_encode c = [of_nat (0xF0 + x), of_nat (0x80 + y), of_nat (0x80 + c div 64 mod 64), of_nat (0x80 + c mod 64)]"
      using 3 by (simp add: utf8_encode_def x_def y_def)
    have n: "not_ascii (of_nat (0xF0 + x))" unfolding not_ascii_iff u by simp
    have cy: "cont (of_nat (0x80 + y))" using ct [of "c div 4096"] by (simp only: y_def)
    have "multibyte (of_nat (0xF0 + x) # [of_nat (0x80 + y), of_nat (0x80 + c div 64 mod 64), of_nat (0x80 + c mod 64)] @ t) = Some 4"
      unfolding multibyte_iff [OF n] u append.simps nth_Cons_0 u1 using x lim ct [of c] ct [of "c div 64"] cy by (simp add: numeral_2_eq_2)
    then show ?thesis using e n by simp
  qed
qed

section \<open>The check is RFC 3629\<close>

lemma load64_and_0:
  assumes "8 \<le> length s"
  shows "the (load64 s) AND ascii_mask = 0 \<longleftrightarrow> (\<forall>b \<in> set (take 8 s). \<not> not_ascii b)"
proof -
  have bits: "odd (le_nat bs div 2 ^ (8 * i + 7)) \<longleftrightarrow> not_ascii (bs ! i)" if "i < length bs" for i bs
    using that
  proof (induction bs arbitrary: i)
    case (Cons b bs)
    show ?case
    proof (cases i)
      case 0
      have "(unat b + 256 * le_nat bs) div 2 ^ 7 = unat b div 128 + 2 * le_nat bs" by (simp add: div_mult_self4)
      moreover have "unat b div 128 = (if 128 \<le> unat b then 1 else 0)"
        using unat_byte_less [of b] by (cases "128 \<le> unat b") (simp_all add: div_nat_eqI)
      ultimately show ?thesis using 0 by (simp add: not_ascii_iff)
    next
      case (Suc j)
      have "(unat b + 256 * le_nat bs) div 256 = le_nat bs" by simp
      moreover have "(2::nat) ^ (8 * Suc j + 7) = 256 * 2 ^ (8 * j + 7)" by (simp add: power_add)
      ultimately have "(unat b + 256 * le_nat bs) div 2 ^ (8 * Suc j + 7) = le_nat bs div 2 ^ (8 * j + 7)"
        by (simp only: div_mult2_eq)
      then show ?thesis using Suc Cons by simp
    qed
  qed simp
  have m: "ascii_mask = 2 ^ 7 OR (2 ^ 15 OR (2 ^ 23 OR (2 ^ 31 OR (2 ^ 39 OR (2 ^ 47 OR (2 ^ 55 OR 2 ^ 63))))))"
    by (simp add: ascii_mask_def)
  let ?k = "le_nat (take 8 s)"
  have w: "the (load64 s) = of_nat ?k" using assms by (simp add: load64_def)
  have "the (load64 s) AND ascii_mask = 0 \<longleftrightarrow> (\<forall>n \<in> {7, 15, 23, 31, 39, 47, 55, 63}. even (?k div 2 ^ n))"
    unfolding w m bit.conj_disj_distrib or_eq_0_iff by (simp only: and_flag) simp
  also have "{7, 15, 23, 31, 39, 47, 55, 63 :: nat} = (\<lambda>i. 8 * i + 7) ` {..<8}"
    by (simp add: lessThan_nat_numeral lessThan_Suc insert_commute)
  also have "(\<forall>n \<in> (\<lambda>i. 8 * i + 7) ` {..<8}. even (?k div 2 ^ n)) \<longleftrightarrow> (\<forall>i<8. \<not> not_ascii (take 8 s ! i))"
    using bits [of _ "take 8 s"] assms by auto
  also have "\<dots> \<longleftrightarrow> (\<forall>b \<in> set (take 8 s). \<not> not_ascii b)"
    using assms by (auto simp: all_set_conv_all_nth)
  finally show ?thesis .
qed

lemma ascii_block_iff:
  assumes "ascii_block s"
  shows "16 \<le> length s" "\<forall>b \<in> set (take 16 s). \<not> not_ascii b"
proof -
  show len: "16 \<le> length s" using assms by (simp add: ascii_block_def)
  have "the (load64 s) AND ascii_mask = 0" "the (load64 (drop 8 s)) AND ascii_mask = 0"
    using assms by (simp_all add: ascii_block_def or_eq_0_iff)
  moreover have "take 16 s = take 8 s @ take 8 (drop 8 s)" using take_add [of 8 8 s] by simp
  ultimately show "\<forall>b \<in> set (take 16 s). \<not> not_ascii b"
    using load64_and_0 [of s] load64_and_0 [of "drop 8 s"] len by auto
qed

text \<open>One character at a time: the check without its fast paths.\<close>

function utf8_scan :: "byte list \<Rightarrow> bool" where
  "utf8_scan [] = True"
| "utf8_scan (b # r) = (if \<not> not_ascii b then utf8_scan r
     else case multibyte (b # r) of None \<Rightarrow> False | Some n \<Rightarrow> utf8_scan (drop n (b # r)))"
  by pat_completeness auto
termination
  by (relation "measure length") (auto dest: multibyte_pos)

declare utf8_scan.simps(2) [simp del]

lemma utf8_scan_ascii: "\<forall>b \<in> set xs. \<not> not_ascii b \<Longrightarrow> utf8_scan (xs @ ys) = utf8_scan ys"
  by (induction xs) (auto simp: utf8_scan.simps)

lemma isValidUtf8_scan: "isValidUtf8 s = utf8_scan s"
proof (induction s rule: isValidUtf8.induct)
  case (1 s)
  show ?case
  proof (cases "s = []")
    case True
    then show ?thesis by (simp add: isValidUtf8.simps [of "[]"])
  next
    case ne: False
    show ?thesis
    proof (cases "ascii_block s")
      case True
      have "utf8_scan (take 16 s @ drop 16 s) = utf8_scan (drop 16 s)"
        using ascii_block_iff(2) [OF True] by (rule utf8_scan_ascii)
      then show ?thesis using ne True "1.IH"(1) [OF ne True] by (simp add: isValidUtf8.simps [of s])
    next
      case False
      let ?P = "\<lambda>b. \<not> not_ascii b"
      have s: "utf8_scan s = utf8_scan (dropWhile ?P s)"
        using utf8_scan_ascii [of "takeWhile ?P s" "dropWhile ?P s"] by (auto dest: set_takeWhileD)
      show ?thesis
      proof (cases "dropWhile ?P s")
        case Nil
        show ?thesis unfolding s isValidUtf8.simps [of s] Nil using ne False by simp
      next
        case (Cons b r)
        then have "not_ascii b" using hd_dropWhile [of ?P s] by auto
        then show ?thesis using ne False s Cons "1.IH"(2) [OF ne False Cons]
          by (simp add: isValidUtf8.simps [of s] utf8_scan.simps split: option.split)
      qed
    qed
  qed
qed

lemma utf8_text_Nil: "utf8_text []"
  unfolding utf8_text_def by (rule exI [of _ "[]"]) simp

lemma utf8_text_append:
  assumes "scalar_value c" "utf8_text t"
  shows "utf8_text (utf8_encode c @ t)"
proof -
  obtain cs where "list_all scalar_value cs" "t = concat (map utf8_encode cs)"
    using assms(2) by (auto simp: utf8_text_def)
  then show ?thesis using assms(1) unfolding utf8_text_def by (intro exI [of _ "c # cs"]) simp
qed

lemma encode_shape:
  assumes "not_ascii b" "multibyte (b # r) = Some n"
  shows "\<exists>c. scalar_value c \<and> utf8_encode c = take n (b # r)"
proof -
  have t: "2 \<le> length (b # r) \<Longrightarrow> take 2 (b # r) = [b, r ! 0]" "3 \<le> length (b # r) \<Longrightarrow> take 3 (b # r) = [b, r ! 0, r ! 1]"
    "4 \<le> length (b # r) \<Longrightarrow> take 4 (b # r) = [b, r ! 0, r ! 1, r ! 2]"
    by (auto simp: list_eq_iff_nth_eq less_Suc_eq numeral_eq_Suc nth_Cons')
  show ?thesis
    using assms(2) encode2 [of b "r ! 0"] encode3 [of b "r ! 0" "r ! 1"] encode4 [of b "r ! 0" "r ! 1" "r ! 2"] t
    unfolding multibyte_iff [OF assms(1)] by (auto split: if_splits)
qed

lemma utf8_scan_sound: "utf8_scan s \<Longrightarrow> utf8_text s"
proof (induction s rule: utf8_scan.induct)
  case 1
  show ?case by (rule utf8_text_Nil)
next
  case (2 b r)
  show ?case
  proof (cases "not_ascii b")
    case False
    then have c: "unat b < 0x80" by (simp add: not_ascii_iff)
    then have "utf8_encode (unat b) = [b]" "scalar_value (unat b)" by (simp_all add: encode_ascii scalar_value_def)
    then show ?thesis using utf8_text_append [of "unat b" r] 2 False by (simp add: utf8_scan.simps)
  next
    case True
    then obtain n where n: "multibyte (b # r) = Some n" "utf8_scan (drop n (b # r))"
      using "2.prems" by (auto simp: utf8_scan.simps split: option.splits)
    obtain c where c: "scalar_value c" "utf8_encode c = take n (b # r)" using encode_shape [OF True n(1)] by blast
    have "utf8_text (drop n (b # r))" using "2.IH"(2) True n by simp
    from utf8_text_append [OF c(1) this] show ?thesis unfolding c(2) append_take_drop_id .
  qed
qed

lemma utf8_scan_complete: "list_all scalar_value cs \<Longrightarrow> utf8_scan (concat (map utf8_encode cs))"
proof (induction cs)
  case (Cons c cs)
  let ?t = "concat (map utf8_encode cs)"
  have ih: "utf8_scan ?t" using Cons by simp
  show ?case
  proof (cases "c < 0x80")
    case True
    then have "\<not> not_ascii (of_nat c)" unfolding not_ascii_iff by (subst unat_of_nat_byte) simp_all
    then show ?thesis using True ih by (simp add: encode_ascii utf8_scan.simps)
  next
    case False
    then obtain b r where e: "utf8_encode c = b # r" "not_ascii b" "multibyte (b # r @ ?t) = Some (Suc (length r))"
      using multibyte_encode [of c ?t] Cons.prems by auto
    then show ?thesis using ih by (simp add: utf8_scan.simps)
  qed
qed simp

text \<open>C31: \<open>isValidUtf8\<close>, with its two-word ASCII fast path and its mask tests, accepts exactly the
  texts of RFC 3629: the concatenated encodings of Unicode scalar values, so no overlong form, no
  surrogate, nothing above U+10FFFF and no truncated sequence passes.\<close>

theorem utf8_is_rfc3629: "isValidUtf8 s = utf8_text s"
  unfolding isValidUtf8_scan using utf8_scan_sound utf8_scan_complete by (auto simp: utf8_text_def)

end
