(* ===== verification/Ws_Protocol.thy ===== *)
theory Ws_Protocol
  imports Ws_Utf8
begin

text \<open>
  The framing of \<open>src/src/WebSocketProtocol.h\<close>: close payloads, the writer of frames and the
  parser, for the server and the client template instances (\<open>isServer\<close> is an argument).

  The receive buffer is modelled as memory: a list of bytes with an index for the pointer
  \<open>src\<close>, in which the parser unmasks in place and into which it copies the spilled head of the last
  read. \<open>rd\<close> and \<open>wr\<close> are the memory accesses; one outside the buffer is None, and so is
  a sum of header and payload length that would wrap its 64 bits. \<open>unsigned int\<close> lengths are
  naturals, with \<open>mod 2 ^ 32\<close> where the code truncates. The functions
  of \<open>Impl\<close> that the parser calls are the fields of a record, over a state \<open>'s\<close> of the user.
\<close>

section \<open>Constants\<close>

definition ERR_TOO_BIG_MESSAGE :: "byte list" where "ERR_TOO_BIG_MESSAGE = bytes ''Received too big message''"
definition ERR_INVALID_CLOSE_PAYLOAD :: "byte list" where "ERR_INVALID_CLOSE_PAYLOAD = bytes ''Received invalid close payload''"
definition ERR_PROTOCOL :: "byte list" where "ERR_PROTOCOL = bytes ''Received invalid WebSocket frame''"

definition SHORT_MESSAGE_HEADER :: "bool \<Rightarrow> nat" where "SHORT_MESSAGE_HEADER isServer = (if isServer then 6 else 2)"
definition MEDIUM_MESSAGE_HEADER :: "bool \<Rightarrow> nat" where "MEDIUM_MESSAGE_HEADER isServer = (if isServer then 8 else 4)"
definition LONG_MESSAGE_HEADER :: "bool \<Rightarrow> nat" where "LONG_MESSAGE_HEADER isServer = (if isServer then 14 else 10)"

definition SND_COMPRESSED :: byte where "SND_COMPRESSED = 64"
definition UINT16_MAX :: nat where "UINT16_MAX = 65535"

section \<open>Close payloads\<close>

definition cond_byte_swap :: "nat \<Rightarrow> nat \<Rightarrow> nat" where
  "cond_byte_swap n v = byte_swap n v"

record CloseFrame =
  close_code :: nat
  close_message :: "byte list"

definition parseClosePayload :: "byte list \<Rightarrow> CloseFrame" where
  "parseClosePayload src =
    (if length src \<ge> 2 then
       (let code = cond_byte_swap 2 (le_nat (take 2 src)); message = drop 2 src in
        if code < 1000 \<or> code > 4999 \<or> (code > 1011 \<and> code < 4000) \<or> (code \<ge> 1004 \<and> code \<le> 1006) \<or> \<not> isValidUtf8 message
        then \<lparr>close_code = 1006, close_message = ERR_INVALID_CLOSE_PAYLOAD\<rparr>
        else \<lparr>close_code = code, close_message = message\<rparr>)
     else \<lparr>close_code = 1005, close_message = []\<rparr>)"

text \<open>The bytes written to \<open>dst\<close>; \<open>message\<close> is None for a null pointer.\<close>

definition formatClosePayload :: "nat \<Rightarrow> byte list option \<Rightarrow> byte list" where
  "formatClosePayload code message =
    (if code \<noteq> 0 \<and> code \<noteq> 1005 \<and> code \<noteq> 1006
     then le_bytes 2 (cond_byte_swap 2 code) @ (case message of None \<Rightarrow> [] | Some m \<Rightarrow> m)
     else [])"

section \<open>Writing frames\<close>

definition messageFrameSize :: "nat \<Rightarrow> nat" where
  "messageFrameSize messageSize =
    (if messageSize < 126 then 2 + messageSize
     else if messageSize \<le> UINT16_MAX then 4 + messageSize
     else 10 + messageSize)"

text \<open>The masking loop of a client: byte \<open>i\<close> with \<open>mask[i % 4]\<close>.\<close>

fun maskLoop :: "byte list \<Rightarrow> nat \<Rightarrow> byte list \<Rightarrow> byte list" where
  "maskLoop key i [] = []"
| "maskLoop key i (b # bs) = (b XOR key ! (i mod 4)) # maskLoop key (Suc i) bs"

text \<open>
  The bytes written to \<open>dst\<close>. \<open>random\<close> is the memory of the \<open>uint32_t\<close> that a client draws.
\<close>

definition formatMessage ::
  "bool \<Rightarrow> byte list \<Rightarrow> byte list \<Rightarrow> byte \<Rightarrow> nat \<Rightarrow> bool \<Rightarrow> bool \<Rightarrow> byte list" where
  "formatMessage isServer random src opCode reportedLength compressed fin =
    (let dst1 = (if reportedLength < 126 then of_nat reportedLength else if reportedLength \<le> UINT16_MAX then 126 else 127) :: byte;
         ext = (if reportedLength < 126 then [] else if reportedLength \<le> UINT16_MAX
                then le_bytes 2 (cond_byte_swap 2 reportedLength)
                else le_bytes 8 (cond_byte_swap 8 reportedLength));
         dst0 = (if fin then 128 else 0) OR (if compressed \<and> opCode \<noteq> 0 then SND_COMPRESSED else 0) OR opCode
     in if isServer then [dst0, dst1] @ ext @ src
        else [dst0, dst1 OR 0x80] @ ext @ random @ maskLoop random 0 src)"

section \<open>State of the parser\<close>

record WsState =
  wantsHead :: bool
  spillLength :: nat
  opStack :: int
  lastFin :: bool
  spill :: "byte list"
  opCode :: "byte list"
  remainingBytes :: nat
  mask_bytes :: "byte list"

definition initial_ws :: "bool \<Rightarrow> WsState" where
  "initial_ws isServer = \<lparr>wantsHead = True, spillLength = 0, opStack = -1, lastFin = True,
     spill = replicate (LONG_MESSAGE_HEADER isServer - 1) 0, opCode = [0, 0], remainingBytes = 0,
     mask_bytes = replicate (if isServer then 4 else 1) 0\<rparr>"

record 's Impl =
  forceClose :: "byte list \<Rightarrow> 's \<Rightarrow> 's"
  refusePayloadLength :: "nat \<Rightarrow> 's \<Rightarrow> bool"
  setCompressed :: "'s \<Rightarrow> bool \<times> 's"
  handleFragment :: "byte list \<Rightarrow> nat \<Rightarrow> byte \<Rightarrow> bool \<Rightarrow> 's \<Rightarrow> bool \<times> 's"

section \<open>Memory and unmasking\<close>

type_synonym memory = "byte list"

definition rd :: "memory \<Rightarrow> nat \<Rightarrow> nat \<Rightarrow> byte list option" where
  "rd m p n = (if p + n \<le> length m then Some (take n (drop p m)) else None)"

definition wr :: "memory \<Rightarrow> nat \<Rightarrow> byte list \<Rightarrow> memory option" where
  "wr m p bs = (if p + length bs \<le> length m then Some (take p m @ bs @ drop (p + length bs) m) else None)"

definition isFin :: "byte \<Rightarrow> bool" where "isFin b0 \<longleftrightarrow> b0 AND 128 \<noteq> 0"
definition getOpCode :: "byte \<Rightarrow> byte" where "getOpCode b0 = b0 AND 15"
definition payloadLength :: "byte \<Rightarrow> nat" where "payloadLength b1 = unat (b1 AND 127)"
definition rsv23 :: "byte \<Rightarrow> bool" where "rsv23 b0 \<longleftrightarrow> b0 AND 48 \<noteq> 0"
definition rsv1 :: "byte \<Rightarrow> bool" where "rsv1 b0 \<longleftrightarrow> b0 AND 64 \<noteq> 0"

text \<open>Load \<open>width\<close> bytes at \<open>src\<close>, xor them, store them at \<open>src - destination\<close>.\<close>

definition xor_step :: "nat \<Rightarrow> byte list \<Rightarrow> nat \<Rightarrow> memory \<Rightarrow> memory option" where
  "xor_step destination key src m =
    (case rd m src (length key) of
       None \<Rightarrow> None
     | Some loaded \<Rightarrow> if destination \<le> src then wr m (src - destination) (map2 (XOR) loaded key) else None)"

fun xor_words :: "nat \<Rightarrow> byte list \<Rightarrow> nat \<Rightarrow> nat \<Rightarrow> memory \<Rightarrow> memory option" where
  "xor_words destination key 0 src m = Some m"
| "xor_words destination key (Suc n) src m =
    (case xor_step destination key src m of
       None \<Rightarrow> None | Some m \<Rightarrow> xor_words destination key n (src + length key) m)"

definition unmaskImprecise8 :: "nat \<Rightarrow> nat \<Rightarrow> byte list \<Rightarrow> nat \<Rightarrow> memory \<Rightarrow> memory option" where
  "unmaskImprecise8 destination src key len m = xor_words destination key (len div 8 + 1) src m"

definition unmaskImprecise4 :: "nat \<Rightarrow> nat \<Rightarrow> byte list \<Rightarrow> nat \<Rightarrow> memory \<Rightarrow> memory option" where
  "unmaskImprecise4 destination src key len m = xor_words destination key (len div 4 + 1) src m"

definition unmaskImpreciseCopyMask :: "nat \<Rightarrow> nat \<Rightarrow> nat \<Rightarrow> memory \<Rightarrow> memory option" where
  "unmaskImpreciseCopyMask headerSize src len m =
    (if src < 4 then None else
     case rd m (src - 4) 4 of
       None \<Rightarrow> None
     | Some key \<Rightarrow> if headerSize \<noteq> 6 then unmaskImprecise8 headerSize src (key @ key) len m
                 else unmaskImprecise4 headerSize src key len m)"

definition rotateMask :: "nat \<Rightarrow> byte list \<Rightarrow> byte list" where
  "rotateMask offset key =
    key[(0 + offset) mod 4 := key ! 0, (1 + offset) mod 4 := key ! 1,
        (2 + offset) mod 4 := key ! 2, (3 + offset) mod 4 := key ! 3]"

function unmaskInplace :: "nat \<Rightarrow> nat \<Rightarrow> byte list \<Rightarrow> memory \<Rightarrow> memory option" where
  "unmaskInplace data stop key m =
    (if data < stop then
       (case xor_step 0 (take 4 key) data m of None \<Rightarrow> None | Some m \<Rightarrow> unmaskInplace (data + 4) stop key m)
     else Some m)"
  by pat_completeness auto
termination
  by (relation "measure (\<lambda>(data, stop, key, m). stop - data)") auto

declare unmaskInplace.simps [simp del]

fun UnrolledXor :: "nat \<Rightarrow> nat \<Rightarrow> byte list \<Rightarrow> memory \<Rightarrow> memory option" where
  "UnrolledXor 0 data key m = Some m"
| "UnrolledXor (Suc N) data key m =
    (case UnrolledXor N data key m of
       None \<Rightarrow> None | Some m \<Rightarrow> xor_step 0 [key ! (N mod 4)] (data + N) m)"

text \<open>\<open>LIBUS_RECV_BUFFER_LENGTH\<close> comes from uSockets and is the argument \<open>recvLength\<close>.\<close>

function unmaskAll :: "nat \<Rightarrow> nat \<Rightarrow> nat \<Rightarrow> byte list \<Rightarrow> memory \<Rightarrow> memory option" where
  "unmaskAll recvLength i data key m =
    (if i < recvLength then
       (case UnrolledXor 16 (data + i) key m of None \<Rightarrow> None | Some m \<Rightarrow> unmaskAll recvLength (i + 16) data key m)
     else Some m)"
  by pat_completeness auto
termination
  by (relation "measure (\<lambda>(recvLength, i, data, key, m). recvLength - i)") auto

declare unmaskAll.simps [simp del]

text \<open>The last bytes of a payload, one by one.\<close>

fun xor_rest :: "nat \<Rightarrow> nat \<Rightarrow> nat \<Rightarrow> byte list \<Rightarrow> memory \<Rightarrow> memory option" where
  "xor_rest 0 i data key m = Some m"
| "xor_rest (Suc n) i data key m =
    (case xor_step 0 [key ! i] (data + i) m of None \<Rightarrow> None | Some m \<Rightarrow> xor_rest n (Suc i) data key m)"

section \<open>The parser\<close>

text \<open>What a step leaves: whether to stop, memory, pointer, length, state and user state.\<close>

type_synonym 's parsed = "bool \<times> memory \<times> nat \<times> nat \<times> WsState \<times> 's"

definition top_op :: "WsState \<Rightarrow> byte option" where
  "top_op w = (if 0 \<le> opStack w \<and> nat (opStack w) < length (opCode w) then Some (opCode w ! nat (opStack w)) else None)"

text \<open>The opcode stack at a new head: None is the protocol error.\<close>

definition push_op :: "byte \<Rightarrow> WsState \<Rightarrow> WsState option" where
  "push_op b0 w =
    (if getOpCode b0 \<noteq> 0 then
       (if opStack w = 1 \<or> (\<not> lastFin w \<and> getOpCode b0 < 2) then None
        else Some (w\<lparr>opStack := opStack w + 1, opCode := (opCode w)[nat (opStack w + 1) := getOpCode b0]\<rparr>))
     else if opStack w = -1 then None
     else Some w)"

text \<open>The two branches of \<open>consumeMessage\<close>: the whole payload is there, or a first part of it.\<close>

definition consumeWhole ::
  "'s Impl \<Rightarrow> bool \<Rightarrow> nat \<Rightarrow> nat \<Rightarrow> bool \<Rightarrow> memory \<Rightarrow> nat \<Rightarrow> nat \<Rightarrow> WsState \<Rightarrow> 's \<Rightarrow> 's parsed option" where
  "consumeWhole imp isServer header payLength fin m src len w s =
    (case (if isServer then unmaskImpreciseCopyMask header (src + header) payLength m else Some m) of
       None \<Rightarrow> None
     | Some m \<Rightarrow>
       (case (rd m (if isServer then src else src + header) payLength, top_op w) of
          (Some payload, Some op) \<Rightarrow>
            (case handleFragment imp payload 0 op fin s of
               (broken, s) \<Rightarrow>
                 if broken then Some (True, m, src, len, w, s)
                 else
                   let w = (if fin then w\<lparr>opStack := opStack w - 1\<rparr> else w) in
                   Some (False, m, src + (payLength + header), len - (payLength + header), w\<lparr>spillLength := 0\<rparr>, s))
        | _ \<Rightarrow> None))"

definition consumePart ::
  "'s Impl \<Rightarrow> bool \<Rightarrow> nat \<Rightarrow> nat \<Rightarrow> bool \<Rightarrow> memory \<Rightarrow> nat \<Rightarrow> nat \<Rightarrow> WsState \<Rightarrow> 's \<Rightarrow> 's parsed option" where
  "consumePart imp isServer header payLength fin m src len w s =
    (let remaining = nat (int (payLength + header - len) mod 2 ^ 32);
         w = w\<lparr>spillLength := 0, wantsHead := False, remainingBytes := remaining\<rparr> in
     case (if isServer then
             (case rd m (src + header - 4) 4 of
                None \<Rightarrow> None
              | Some key \<Rightarrow>
                (case unmaskImprecise8 0 (src + header) (key @ key) len m of
                   None \<Rightarrow> None
                 | Some m \<Rightarrow> Some (m, w\<lparr>mask_bytes := rotateMask (4 - (len - header) mod 4) key\<rparr>)))
           else Some (m, w)) of
       None \<Rightarrow> None
     | Some (m, w) \<Rightarrow>
       (case (rd m (src + header) (len - header), top_op w) of
          (Some piece, Some op) \<Rightarrow>
            (case handleFragment imp piece remaining op fin s of
               (_, s) \<Rightarrow> Some (True, m, src, len, w, s))
        | _ \<Rightarrow> None))"

definition consumeMessage ::
  "'s Impl \<Rightarrow> bool \<Rightarrow> nat \<Rightarrow> nat \<Rightarrow> memory \<Rightarrow> nat \<Rightarrow> nat \<Rightarrow> WsState \<Rightarrow> 's \<Rightarrow> 's parsed option" where
  "consumeMessage imp isServer header payLength m src len w s =
    (case rd m src 1 of
       None \<Rightarrow> None
     | Some h \<Rightarrow>
       (case push_op (h ! 0) w of
          None \<Rightarrow> Some (True, m, src, len, w, forceClose imp ERR_PROTOCOL s)
        | Some w \<Rightarrow>
          let fin = isFin (h ! 0); w = w\<lparr>lastFin := fin\<rparr> in
          if refusePayloadLength imp payLength s
          then Some (True, m, src, len, w, forceClose imp ERR_TOO_BIG_MESSAGE s)
          else if int (payLength + header) \<ge> 2 ^ 64 then None
          else if payLength + header \<le> len then consumeWhole imp isServer header payLength fin m src len w s
          else consumePart imp isServer header payLength fin m src len w s))"

text \<open>The first component tells whether the whole payload has arrived and parsing goes on.\<close>

definition consumeContinuation ::
  "'s Impl \<Rightarrow> bool \<Rightarrow> nat \<Rightarrow> memory \<Rightarrow> nat \<Rightarrow> nat \<Rightarrow> WsState \<Rightarrow> 's \<Rightarrow> 's parsed option" where
  "consumeContinuation imp isServer recvLength m src len w s =
    (if remainingBytes w \<le> len then
       let n = remainingBytes w div 4 in
       (case (if isServer then
                (case unmaskInplace src (src + n * 4) (mask_bytes w) m of
                   None \<Rightarrow> None
                 | Some m \<Rightarrow> xor_rest (remainingBytes w mod 4) 0 (src + n * 4) (mask_bytes w) m)
              else Some m) of
          None \<Rightarrow> None
        | Some m \<Rightarrow>
          (case (rd m src (remainingBytes w), top_op w) of
             (Some payload, Some op) \<Rightarrow>
               (case handleFragment imp payload 0 op (lastFin w) s of
                  (broken, s) \<Rightarrow>
                    if broken then Some (False, m, src, len, w, s)
                    else
                      let w = (if lastFin w then w\<lparr>opStack := opStack w - 1\<rparr> else w) in
                      Some (True, m, src + remainingBytes w, len - remainingBytes w, w\<lparr>wantsHead := True\<rparr>, s))
           | _ \<Rightarrow> None))
     else
       (case (if isServer \<and> mask_bytes w \<noteq> [0, 0, 0, 0] then
                (if recvLength = len then unmaskAll recvLength 0 src (mask_bytes w) m
                 else unmaskInplace src (src + (len div 4 + 1) * 4) (mask_bytes w) m)
              else Some m) of
          None \<Rightarrow> None
        | Some m \<Rightarrow>
          let w = w\<lparr>remainingBytes := remainingBytes w - len\<rparr> in
          (case (rd m src len, top_op w) of
             (Some piece, Some op) \<Rightarrow>
               (case handleFragment imp piece (remainingBytes w) op (lastFin w) s of
                  (broken, s) \<Rightarrow>
                    if broken then Some (False, m, src, len, w, s)
                    else if isServer \<and> len mod 4 \<noteq> 0
                    then Some (False, m, src, len, w\<lparr>mask_bytes := rotateMask (4 - len mod 4) (mask_bytes w)\<rparr>, s)
                    else Some (False, m, src, len, w, s))
           | _ \<Rightarrow> None)))"

lemma consumeWhole_progress:
  "consumeWhole imp isServer header payLength fin m src len w s = Some (False, m', src', len', w', s') \<Longrightarrow>
   len' = len - (payLength + header)"
  by (auto simp: consumeWhole_def Let_def split: option.splits prod.splits if_splits)

lemma consumePart_stops: "consumePart imp isServer header payLength fin m src len w s \<noteq> Some (False, x)"
  by (auto simp: consumePart_def Let_def split: option.splits prod.splits)

lemma consumeMessage_progress:
  "consumeMessage imp isServer header payLength m src len w s = Some (False, m', src', len', w', s') \<Longrightarrow>
   len' = len - (payLength + header)"
  by (auto simp: consumeMessage_def Let_def consumePart_stops dest: consumeWhole_progress split: option.splits if_splits)

text \<open>The tests of a head that end the connection; \<open>setCompressed\<close> is called for the first bit only.\<close>

definition bad_head :: "byte \<Rightarrow> byte \<Rightarrow> bool" where
  "bad_head b0 b1 \<longleftrightarrow> rsv23 b0 \<or> (getOpCode b0 > 2 \<and> getOpCode b0 < 8) \<or> getOpCode b0 > 10 \<or>
     (getOpCode b0 > 2 \<and> (\<not> isFin b0 \<or> payloadLength b1 > 125))"

definition check_head :: "'s Impl \<Rightarrow> byte \<Rightarrow> byte \<Rightarrow> 's \<Rightarrow> bool \<times> 's" where
  "check_head imp b0 b1 s =
    (if rsv1 b0 then (case setCompressed imp s of (ok, s) \<Rightarrow> (\<not> ok \<or> bad_head b0 b1, s)) else (bad_head b0 b1, s))"

definition spill_rest :: "bool \<Rightarrow> memory \<Rightarrow> nat \<Rightarrow> nat \<Rightarrow> WsState \<Rightarrow> 's \<Rightarrow> (memory \<times> WsState \<times> 's) option" where
  "spill_rest isServer m src len w s =
    (if len = 0 then Some (m, w, s)
     else case rd m src len of
       None \<Rightarrow> None
     | Some bs \<Rightarrow> if len \<le> LONG_MESSAGE_HEADER isServer - 1
         then Some (m, w\<lparr>spill := bs @ drop len (spill w), spillLength := len mod 16\<rparr>, s) else None)"

definition finishMessage :: "'s Impl \<Rightarrow> bool \<Rightarrow> memory \<Rightarrow> nat \<Rightarrow> nat \<Rightarrow> WsState \<Rightarrow> 's \<Rightarrow> nat \<Rightarrow> nat \<Rightarrow>
    ((memory \<times> WsState \<times> 's) + (memory \<times> nat \<times> nat \<times> WsState \<times> 's)) option" where
  "finishMessage imp isServer m src len w s header payLength =
    (case consumeMessage imp isServer header payLength m src len w s of
       None \<Rightarrow> None
     | Some (stop, m, src, len, w, s) \<Rightarrow>
         if stop then Some (Inl (m, w, s)) else Some (Inr (m, src, len, w, s)))"

text \<open>
  One turn of the loop over heads: \<open>Inl\<close> is the end of the call, \<open>Inr\<close> the next turn. The
  extended length is read from the two or eight bytes at \<open>src + 2\<close>.
\<close>

definition head_turn :: "'s Impl \<Rightarrow> bool \<Rightarrow> memory \<Rightarrow> nat \<Rightarrow> nat \<Rightarrow> WsState \<Rightarrow> 's \<Rightarrow>
    ((memory \<times> WsState \<times> 's) + (memory \<times> nat \<times> nat \<times> WsState \<times> 's)) option" where
  "head_turn imp isServer m src len w s =
    (case rd m src 2 of
       None \<Rightarrow> None
     | Some h \<Rightarrow>
       (case check_head imp (h ! 0) (h ! 1) s of
          (bad, s) \<Rightarrow>
            if bad then Some (Inl (m, w, forceClose imp ERR_PROTOCOL s))
            else
              (let finish = finishMessage imp isServer m src len w s
               in
                if payloadLength (h ! 1) < 126 then finish (SHORT_MESSAGE_HEADER isServer) (payloadLength (h ! 1))
                else if payloadLength (h ! 1) = 126 then
                  (if len < MEDIUM_MESSAGE_HEADER isServer then map_option Inl (spill_rest isServer m src len w s)
                   else case rd m (src + 2) 2 of
                     None \<Rightarrow> None
                   | Some l \<Rightarrow> finish (MEDIUM_MESSAGE_HEADER isServer) (cond_byte_swap 2 (le_nat l)))
                else if len < LONG_MESSAGE_HEADER isServer then map_option Inl (spill_rest isServer m src len w s)
                else case rd m (src + 2) 8 of
                  None \<Rightarrow> None
                | Some l \<Rightarrow> finish (LONG_MESSAGE_HEADER isServer) (cond_byte_swap 8 (le_nat l)))))"

lemma header_pos [simp]:
  "0 < SHORT_MESSAGE_HEADER isServer" "0 < MEDIUM_MESSAGE_HEADER isServer" "0 < LONG_MESSAGE_HEADER isServer"
  by (simp_all add: SHORT_MESSAGE_HEADER_def MEDIUM_MESSAGE_HEADER_def LONG_MESSAGE_HEADER_def)

lemma head_turn_Inr:
  assumes "head_turn imp isServer m src len w s = Some (Inr (m', src', len', w', s'))" "SHORT_MESSAGE_HEADER isServer \<le> len"
  shows "len' < len"
proof -
  have no: "map_option Inl x \<noteq> Some (Inr y)" for x y by (cases x) simp_all
  have "\<exists>header payLength s1. 0 < header \<and> finishMessage imp isServer m src len w s1 header payLength = Some (Inr (m', src', len', w', s'))"
    using assms(1) header_pos unfolding head_turn_def Let_def
    by (simp add: no split: option.splits prod.splits if_splits; blast)
  then obtain header payLength s1 where h: "0 < header"
    "finishMessage imp isServer m src len w s1 header payLength = Some (Inr (m', src', len', w', s'))"
    by blast
  then have "consumeMessage imp isServer header payLength m src len w s1 = Some (False, m', src', len', w', s')"
    unfolding finishMessage_def by (simp split: option.splits prod.splits if_splits)
  moreover have "0 < len" using assms(2) header_pos(1) [of isServer] by linarith
  ultimately show ?thesis using consumeMessage_progress h(1) by fastforce
qed

function parseNext :: "'s Impl \<Rightarrow> bool \<Rightarrow> memory \<Rightarrow> nat \<Rightarrow> nat \<Rightarrow> WsState \<Rightarrow> 's \<Rightarrow> (memory \<times> WsState \<times> 's) option" where
  "parseNext imp isServer m src len w s =
    (if SHORT_MESSAGE_HEADER isServer \<le> len then
       (case head_turn imp isServer m src len w s of
          None \<Rightarrow> None
        | Some (Inl res) \<Rightarrow> Some res
        | Some (Inr (m, src, len, w, s)) \<Rightarrow> parseNext imp isServer m src len w s)
     else spill_rest isServer m src len w s)"
  by pat_completeness auto
termination
  by (relation "measure (\<lambda>(imp, isServer, m, src, len, w, s). len)") (auto intro: head_turn_Inr)

declare parseNext.simps [simp del]

text \<open>\<open>consume\<close>: the spilled head is put back in front of the read.\<close>

definition consume :: "'s Impl \<Rightarrow> bool \<Rightarrow> nat \<Rightarrow> memory \<Rightarrow> nat \<Rightarrow> nat \<Rightarrow> WsState \<Rightarrow> 's \<Rightarrow> (memory \<times> WsState \<times> 's) option" where
  "consume imp isServer recvLength m src len w s =
    (case (if spillLength w \<noteq> 0 then
             (if spillLength w \<le> src \<and> spillLength w \<le> length (spill w) then
                (case wr m (src - spillLength w) (take (spillLength w) (spill w)) of
                   None \<Rightarrow> None
                 | Some m \<Rightarrow> Some (m, src - spillLength w, len + spillLength w))
              else None)
           else Some (m, src, len)) of
       None \<Rightarrow> None
     | Some (m, src, len) \<Rightarrow>
       if wantsHead w then parseNext imp isServer m src len w s
       else (case consumeContinuation imp isServer recvLength m src len w s of
               None \<Rightarrow> None
             | Some (go, m, src, len, w, s) \<Rightarrow>
                 if go then parseNext imp isServer m src len w s else Some (m, w, s)))"

end
