(* ===== verification/Ws_Memory.thy ===== *)
theory Ws_Memory
  imports Ws_Protocol
begin

text \<open>
  What the unmasking routines of \<open>WebSocketProtocol.h\<close> do to the receive buffer. All of them,
  word-wise or byte-wise, in place or moving the payload over its header, and with the bytes they
  touch behind the payload, are instances of one effect: \<open>xored\<close>.
\<close>

section \<open>The effect\<close>

definition xored :: "memory \<Rightarrow> memory \<Rightarrow> nat \<Rightarrow> nat \<Rightarrow> nat \<Rightarrow> byte list \<Rightarrow> bool" where
  "xored m m' a n destination key \<longleftrightarrow> length m' = length m \<and>
     (\<forall>i < length m. m' ! i = (if a \<le> i \<and> i < a + n then m ! (i + destination) XOR key ! ((i - a) mod 4) else m ! i))"

lemma xored_refl: "xored m m a 0 destination key"
  by (auto simp: xored_def)

lemma wr_nth:
  "wr m p bs = Some m' \<Longrightarrow> length m' = length m \<and>
   (\<forall>i < length m. m' ! i = (if p \<le> i \<and> i < p + length bs then bs ! (i - p) else m ! i))"
  by (auto simp: wr_def nth_append min_def split: if_splits)

lemma xor_step_nth:
  assumes "destination \<le> src" "src + length key \<le> length m"
  shows "\<exists>m'. xor_step destination key src m = Some m' \<and> length m' = length m \<and>
    (\<forall>i < length m. m' ! i = (if src - destination \<le> i \<and> i < src - destination + length key
       then m ! (i + destination) XOR key ! (i - (src - destination)) else m ! i))"
proof -
  let ?bs = "map2 (XOR) (take (length key) (drop src m)) key"
  have len: "length ?bs = length key" using assms by simp
  have "src - destination + length ?bs \<le> length m" using assms len by linarith
  then obtain m' where m': "wr m (src - destination) ?bs = Some m'"
    unfolding wr_def by (simp only: if_True)
  have "?bs ! (i - (src - destination)) = m ! (i + destination) XOR key ! (i - (src - destination))"
    if "src - destination \<le> i" "i < src - destination + length key" for i
  proof -
    have "i - (src - destination) < length key" using that by linarith
    moreover have "src + (i - (src - destination)) = i + destination" using that assms by linarith
    ultimately show ?thesis using assms by simp
  qed
  moreover have "xor_step destination key src m = Some m'"
    using assms m' by (simp add: xor_step_def rd_def)
  ultimately show ?thesis using wr_nth [OF m'] len by (intro exI [of _ m']) auto
qed

lemma xor_words_nth:
  "destination \<le> src \<Longrightarrow> src + n * length key \<le> length m \<Longrightarrow> 0 < length key \<Longrightarrow>
   \<exists>m'. xor_words destination key n src m = Some m' \<and> length m' = length m \<and>
    (\<forall>i < length m. m' ! i = (if src - destination \<le> i \<and> i < src - destination + n * length key
       then m ! (i + destination) XOR key ! ((i - (src - destination)) mod length key) else m ! i))"
proof (induction n arbitrary: src m)
  case 0
  then show ?case by auto
next
  case (Suc n)
  let ?k = "length key"
  define a where "a = src - destination"
  obtain m1 where m1: "xor_step destination key src m = Some m1" "length m1 = length m"
    and n1: "\<And>i. i < length m \<Longrightarrow> m1 ! i = (if a \<le> i \<and> i < a + ?k then m ! (i + destination) XOR key ! (i - a) else m ! i)"
    using xor_step_nth [of destination src key m] Suc.prems by (auto simp: algebra_simps a_def)
  have "src + ?k + n * ?k \<le> length m1" using Suc.prems m1 by (simp add: algebra_simps)
  then obtain m2 where m2: "xor_words destination key n (src + ?k) m1 = Some m2" "length m2 = length m"
    and n2: "\<And>i. i < length m \<Longrightarrow> m2 ! i = (if src + ?k - destination \<le> i \<and> i < src + ?k - destination + n * ?k
       then m1 ! (i + destination) XOR key ! ((i - (src + ?k - destination)) mod ?k) else m1 ! i)"
    using Suc.IH [of "src + ?k" m1] Suc.prems m1 by auto
  have sh: "src + ?k - destination = a + ?k" using Suc.prems(1) by (simp add: a_def)
  have "m2 ! i = (if a \<le> i \<and> i < a + Suc n * ?k then m ! (i + destination) XOR key ! ((i - a) mod ?k) else m ! i)"
    if i: "i < length m" for i
  proof -
    consider "i < a" | "a \<le> i" "i < a + ?k" | "a + ?k \<le> i" "i < a + ?k + n * ?k" | "a + ?k + n * ?k \<le> i" by linarith
    then show ?thesis
    proof cases
      case 2
      then have "i - a < ?k" by linarith
      then show ?thesis using 2 i n1 [OF i] n2 [OF i] unfolding sh by simp
    next
      case 3
      have "i + destination < length m" "\<not> i + destination < a + ?k"
        using 3 Suc.prems by (simp_all add: algebra_simps a_def)
      moreover have "i - a = (i - (a + ?k)) + ?k" using 3 by linarith
      then have "(i - a) mod ?k = (i - (a + ?k)) mod ?k" by (simp only: mod_add_self2)
      ultimately show ?thesis using 3 n2 [OF i] n1 [of "i + destination"] unfolding sh by simp
    next
      case 1
      then show ?thesis using n1 [OF i] n2 [OF i] unfolding sh by simp
    next
      case 4
      then show ?thesis using n1 [OF i] n2 [OF i] unfolding sh by simp
    qed
  qed
  then show ?case using m1 m2 by (simp add: a_def)
qed

lemma xor_words_xored:
  assumes "destination \<le> src" "src + n * length key \<le> length m" "key = k4 \<or> key = k4 @ k4" "length k4 = 4"
  shows "\<exists>m'. xor_words destination key n src m = Some m' \<and> xored m m' (src - destination) (n * length key) destination k4"
proof -
  have pos: "0 < length key" using assms by auto
  have "key ! (j mod length key) = k4 ! (j mod 4)" for j
  proof (cases "key = k4")
    case False
    then have k: "key = k4 @ k4" "length key = 8" using assms by auto
    define r where "r = j mod 8"
    have r: "r < 8" "j mod 4 = r mod 4" unfolding r_def using mod_mod_cancel [of 4 8 j] by simp_all
    have "r mod 4 = (if r < 4 then r else r - 4)" using r(1) by (simp add: le_mod_geq)
    then show ?thesis unfolding k r(2) using assms(4) by (simp add: r_def [symmetric] nth_append)
  qed (simp add: assms)
  then show ?thesis using xor_words_nth [OF assms(1, 2) pos] unfolding xored_def by (simp only:)
qed
text \<open>Two effects next to each other, in place.\<close>

lemma xored_append:
  assumes "xored m m1 a n 0 key" "xored m1 m2 (a + n) k 0 key" "n mod 4 = 0"
  shows "xored m m2 a (n + k) 0 key"
proof -
  have "(i - a) mod 4 = (i - (a + n)) mod 4" if "a + n \<le> i" for i
  proof -
    have "i - a = (i - (a + n)) + n" using that by linarith
    then show ?thesis using assms(3) by (metis mod_add_right_eq add.right_neutral)
  qed
  then show ?thesis using assms(1, 2) unfolding xored_def by auto
qed

lemma unmaskInplace_xored:
  "data + n * 4 \<le> length m \<Longrightarrow> length key = 4 \<Longrightarrow>
   \<exists>m'. unmaskInplace data (data + n * 4) key m = Some m' \<and> xored m m' data (n * 4) 0 key"
proof -
  have e: "length key = 4 \<Longrightarrow> unmaskInplace data (data + n * 4) key m = xor_words 0 key n data m" for data n m
  proof (induction n arbitrary: data m)
    case 0
    then show ?case by (simp add: unmaskInplace.simps [of data])
  next
    case (Suc n)
    have "unmaskInplace data (data + Suc n * 4) key m =
       (case xor_step 0 key data m of None \<Rightarrow> None | Some m \<Rightarrow> unmaskInplace (data + 4) (data + 4 + n * 4) key m)"
    proof -
      have "data + Suc n * 4 = data + 4 + n * 4" by simp
      then show ?thesis using Suc.prems by (subst unmaskInplace.simps) (simp add: add.assoc split: option.split)
    qed
    then show ?case using Suc.IH [OF Suc.prems] Suc.prems by (simp split: option.split)
  qed
  assume "data + n * 4 \<le> length m" "length key = 4"
  then show ?thesis using xor_words_xored [of 0 data n key m key] e by simp
qed

lemma xor_byte_xored:
  "a + i < length m \<Longrightarrow> xored m0 m a i 0 key \<Longrightarrow>
   \<exists>m'. xor_step 0 [key ! (i mod 4)] (a + i) m = Some m' \<and> xored m0 m' a (Suc i) 0 key"
proof -
  assume i: "a + i < length m" and x: "xored m0 m a i 0 key"
  obtain m' where m': "xor_step 0 [key ! (i mod 4)] (a + i) m = Some m'" "length m' = length m"
    "\<forall>j < length m. m' ! j = (if a + i \<le> j \<and> j < a + i + 1 then m ! j XOR [key ! (i mod 4)] ! (j - (a + i)) else m ! j)"
    using xor_step_nth [of 0 "a + i" "[key ! (i mod 4)]" m] i by auto
  have "m' ! j = (if a \<le> j \<and> j < a + Suc i then m0 ! j XOR key ! ((j - a) mod 4) else m0 ! j)" if "j < length m" for j
  proof (cases "j = a + i")
    case True
    then show ?thesis using that m'(3) x by (simp add: xored_def)
  next
    case False
    then have "m' ! j = m ! j" using that m'(3) by auto
    then show ?thesis using False that x by (auto simp: xored_def)
  qed
  then show ?thesis using m'(1, 2) x by (auto simp: xored_def)
qed

lemma xor_rest_xored:
  "a + i + n \<le> length m \<Longrightarrow> i + n \<le> 4 \<Longrightarrow> xored m0 m a i 0 key \<Longrightarrow>
   \<exists>m'. xor_rest n i a key m = Some m' \<and> xored m0 m' a (i + n) 0 key"
proof (induction n arbitrary: i m)
  case (Suc n)
  have im: "i mod 4 = i" using Suc.prems by simp
  obtain m1 where m1: "xor_step 0 [key ! i] (a + i) m = Some m1" "xored m0 m1 a (Suc i) 0 key"
    using xor_byte_xored [of a i m m0 key] Suc.prems im by auto
  have "length m1 = length m" using m1(2) Suc.prems(3) by (simp add: xored_def)
  then show ?case using Suc.IH [of "Suc i" m1] m1 Suc.prems by simp
qed simp

lemma UnrolledXor_xored:
  "a + n \<le> length m \<Longrightarrow> \<exists>m'. UnrolledXor n a key m = Some m' \<and> xored m m' a n 0 key"
proof (induction n)
  case 0
  then show ?case by (simp add: xored_refl)
next
  case (Suc n)
  then obtain m1 where m1: "UnrolledXor n a key m = Some m1" "xored m m1 a n 0 key" by auto
  then have "a + n < length m1" using Suc.prems by (simp add: xored_def)
  from xor_byte_xored [OF this m1(2)] m1(1) show ?case by auto
qed

lemma unmaskAll_xored:
  "data + recvLength + 15 \<le> length m \<Longrightarrow> xored m0 m data (16 * k) 0 key \<Longrightarrow> 16 * k < recvLength + 16 \<Longrightarrow>
   \<exists>m' n. unmaskAll recvLength (16 * k) data key m = Some m' \<and> recvLength \<le> n \<and> n < recvLength + 16 \<and> xored m0 m' data n 0 key"
proof (induction "recvLength + 16 - 16 * k" arbitrary: k m rule: less_induct)
  case less
  show ?case
  proof (cases "16 * k < recvLength")
    case False
    then have "unmaskAll recvLength (16 * k) data key m = Some m" by (subst unmaskAll.simps) simp
    then show ?thesis using less.prems False by (intro exI [of _ m] exI [of _ "16 * k"]) simp
  next
    case True
    then have len: "data + 16 * k + 16 \<le> length m" using less.prems(1) by linarith
    then obtain m1 where m1: "UnrolledXor 16 (data + 16 * k) key m = Some m1" "xored m m1 (data + 16 * k) 16 0 key"
      using UnrolledXor_xored [of "data + 16 * k" 16 m key] by auto
    have k: "16 * k + 16 = 16 * Suc k" by simp
    have x: "xored m0 m1 data (16 * Suc k) 0 key" using xored_append [OF less.prems(2) m1(2)] unfolding k by simp
    have l: "length m1 = length m" using m1(2) by (simp add: xored_def)
    have "unmaskAll recvLength (16 * k) data key m = unmaskAll recvLength (16 * Suc k) data key m1"
      using True m1(1) by (subst unmaskAll.simps) (simp only: k if_True option.case)
    moreover have "recvLength + 16 - 16 * Suc k < recvLength + 16 - 16 * k" "16 * Suc k < recvLength + 16"
      using True by simp_all
    moreover have "data + recvLength + 15 \<le> length m1" using less.prems(1) l by simp
    ultimately show ?thesis using less.hyps [of "Suc k" m1] x by simp
  qed
qed

section \<open>Unmasking as a function on bytes\<close>

definition xor_from :: "nat \<Rightarrow> byte list \<Rightarrow> byte list \<Rightarrow> byte list" where
  "xor_from k key bs = map (\<lambda>i. bs ! i XOR key ! ((k + i) mod 4)) [0..<length bs]"

lemma length_xor_from [simp]: "length (xor_from k key bs) = length bs"
  by (simp add: xor_from_def)

lemma nth_xor_from: "i < length bs \<Longrightarrow> xor_from k key bs ! i = bs ! i XOR key ! ((k + i) mod 4)"
  by (simp add: xor_from_def)

lemma xor_from_involution: "xor_from k key (xor_from k key bs) = bs"
  by (rule nth_equalityI) (auto simp: nth_xor_from xor.assoc)

lemma xor_from_append: "xor_from k key (xs @ ys) = xor_from k key xs @ xor_from (k + length xs) key ys"
  by (rule nth_equalityI) (auto simp: nth_xor_from nth_append)

lemma xor_from_Nil [simp]: "xor_from k key [] = []"
  by (simp add: xor_from_def)

lemma maskLoop_xor_from: "maskLoop key k bs = xor_from k key bs"
proof (induction bs arbitrary: k)
  case (Cons b bs)
  have "xor_from k key (b # bs) = xor_from k key [b] @ xor_from (k + 1) key bs"
    using xor_from_append [of k key "[b]" bs] by simp
  then show ?case using Cons by (simp add: xor_from_def)
qed simp

lemma xor_from_drop: "xor_from (k + n) key (drop n bs) = drop n (xor_from k key bs)"
  by (rule nth_equalityI) (auto simp: nth_xor_from add.assoc)

lemma xor_from_take: "xor_from k key (take n bs) = take n (xor_from k key bs)"
  by (rule nth_equalityI) (auto simp: nth_xor_from)

lemma xor_from_zero: "key = [0, 0, 0, 0] \<Longrightarrow> xor_from k key bs = bs"
proof (rule nth_equalityI)
  fix i assume k: "key = [0, 0, 0, 0]" and i: "i < length (xor_from k key bs)"
  define r where "r = (k + i) mod 4"
  have "r < 4" by (simp add: r_def)
  then have "r = 0 \<or> r = 1 \<or> r = 2 \<or> r = 3" by linarith
  then have "key ! ((k + i) mod 4) = 0" unfolding k r_def [symmetric] by (elim disjE) simp_all
  then show "xor_from k key bs ! i = bs ! i" using i by (simp add: nth_xor_from)
qed simp

text \<open>A rotated mask starts where the bytes so far have left off.\<close>

lemma rotateMask_4:
  assumes "r < 4" "j < 4"
  shows "rotateMask (4 - r) [k0, k1, k2, k3] ! j = [k0, k1, k2, k3] ! ((r + j) mod 4)"
proof -
  have "r = 0 \<or> r = 1 \<or> r = 2 \<or> r = 3" "j = 0 \<or> j = 1 \<or> j = 2 \<or> j = 3" using assms by linarith+
  then show ?thesis by (elim disjE) (simp_all add: rotateMask_def)
qed

lemma rotateMask_nth:
  assumes "length key = 4"
  shows "length (rotateMask (4 - d mod 4) key) = 4"
    "rotateMask (4 - d mod 4) key ! (i mod 4) = key ! ((d + i) mod 4)"
proof -
  show "length (rotateMask (4 - d mod 4) key) = 4" using assms by (simp add: rotateMask_def)
  obtain k0 k1 k2 k3 where k: "key = [k0, k1, k2, k3]"
    using assms by (auto simp: length_Suc_conv numeral_eq_Suc)
  have "rotateMask (4 - d mod 4) key ! (i mod 4) = key ! ((d mod 4 + i mod 4) mod 4)"
    unfolding k by (rule rotateMask_4) simp_all
  then show "rotateMask (4 - d mod 4) key ! (i mod 4) = key ! ((d + i) mod 4)" by (simp only: mod_add_eq)
qed

lemma xor_from_rotate:
  "length key = 4 \<Longrightarrow> xor_from 0 (rotateMask (4 - d mod 4) key) bs = xor_from d key bs"
  by (rule nth_equalityI) (simp_all add: nth_xor_from rotateMask_nth)

lemma xor_from_mod4: "d mod 4 = 0 \<Longrightarrow> xor_from d key bs = xor_from 0 key bs"
  by (rule nth_equalityI) (simp_all add: nth_xor_from, metis add_0 mod_add_left_eq)

text \<open>The effect, read as bytes: in place, and moved over a header.\<close>

lemma xored_take:
  assumes "xored m m' a n destination key" "k \<le> n" "a + destination + k \<le> length m"
  shows "take k (drop a m') = xor_from 0 key (take k (drop (a + destination) m))"
proof (rule nth_equalityI)
  show "length (take k (drop a m')) = length (xor_from 0 key (take k (drop (a + destination) m)))"
    using assms by (simp add: xored_def)
  fix i assume "i < length (take k (drop a m'))"
  then have i: "i < k" "a + i < length m" using assms by (auto simp: xored_def)
  then have "m' ! (a + i) = m ! (a + i + destination) XOR key ! (i mod 4)"
    using assms unfolding xored_def by simp
  then show "take k (drop a m') ! i = xor_from 0 key (take k (drop (a + destination) m)) ! i"
    using i assms by (simp add: nth_xor_from xored_def add.commute add.left_commute)
qed

lemma xored_drop:
  assumes "xored m m' a n destination key" "a + n \<le> p"
  shows "drop p m' = drop p m"
  by (rule nth_equalityI) (use assms in \<open>auto simp: xored_def\<close>)

lemma xored_length: "xored m m' a n destination key \<Longrightarrow> length m' = length m"
  by (simp add: xored_def)

declare xor_words.simps [simp del] xor_rest.simps [simp del] UnrolledXor.simps [simp del]

end
