(* ===== verification/Ws_Safe.thy ===== *)
theory Ws_Safe
  imports Ws_Memory
begin

text \<open>
  Memory safety and the state invariant of the frame parser of \<open>WebSocketProtocol.h\<close>, for any
  bytes and any handlers: with 13 bytes in front of the read and 22 behind it, every access stays
  inside the buffer, and the opcode stack, the spill and the mask keep their bounds.
\<close>

section \<open>The two ways a payload is unmasked at its head\<close>

definition header_size :: "nat \<Rightarrow> bool" where
  "header_size h \<longleftrightarrow> h = 6 \<or> h = 8 \<or> h = 14"

lemma words_bounds:
  assumes "0 < (k::nat)"
  shows "n \<le> (n div k + 1) * k" "(n div k + 1) * k \<le> n + k"
proof -
  have "n = n div k * k + n mod k" "n mod k < k" using assms by auto
  then show "n \<le> (n div k + 1) * k" "(n div k + 1) * k \<le> n + k"
    by (simp_all only: add_mult_distrib mult_1)
qed

lemma copyMask_moves:
  assumes "header_size h" "src + h + n + 8 \<le> length m"
  shows "\<exists>m'. unmaskImpreciseCopyMask h (src + h) n m = Some m' \<and> length m' = length m \<and>
    take n (drop src m') = xor_from 0 (take 4 (drop (src + h - 4) m)) (take n (drop (src + h) m)) \<and>
    (\<forall>p. src + n + h \<le> p \<longrightarrow> drop p m' = drop p m)"
proof -
  let ?key = "take 4 (drop (src + h - 4) m)"
  have h: "4 \<le> h" "\<not> src + h < 4" using assms(1) by (auto simp: header_size_def)
  have key: "length ?key = 4" "rd m (src + h - 4) 4 = Some ?key" using assms h by (auto simp: rd_def)
  define k where "k = (if h = 6 then 4 else 8 :: nat)"
  have k: "k \<le> h" "k = 4 \<or> k = 8" using assms(1) by (auto simp: header_size_def k_def)
  let ?n = "(n div k + 1) * k"
  have ub: "n \<le> ?n" "?n \<le> n + k"
    using words_bounds [of k n] k by auto
  let ?w = "if h = 6 then ?key else ?key @ ?key"
  have lw: "length ?w = k" using key by (simp add: k_def)
  have e: "unmaskImpreciseCopyMask h (src + h) n m = xor_words h ?w (n div k + 1) (src + h) m"
    using h(2) key(2) by (simp add: unmaskImpreciseCopyMask_def unmaskImprecise8_def unmaskImprecise4_def k_def)
  have "src + h + (n div k + 1) * length ?w \<le> length m" unfolding lw using ub(2) k assms(2) by linarith
  moreover have "?w = ?key \<or> ?w = ?key @ ?key" by simp
  ultimately have "\<exists>m'. xor_words h ?w (n div k + 1) (src + h) m = Some m' \<and> xored m m' (src + h - h) ((n div k + 1) * length ?w) h ?key"
    using xor_words_xored [of h "src + h" "n div k + 1" ?w m ?key] key(1) le_add2 by blast
  then obtain m' where m': "xor_words h ?w (n div k + 1) (src + h) m = Some m'" "xored m m' src ?n h ?key"
    unfolding lw by auto
  have "take n (drop src m') = xor_from 0 ?key (take n (drop (src + h) m))"
    by (rule xored_take [OF m'(2) ub(1)]) (use assms in simp)
  moreover have "drop p m' = drop p m" if "src + n + h \<le> p" for p
    by (rule xored_drop [OF m'(2)]) (use that ub(2) k in linarith)
  ultimately show ?thesis using m' e xored_length [OF m'(2)] by auto
qed

lemma partial_unmasks:
  assumes "header_size h" "src + h + len + 8 \<le> length m" "h \<le> len" "length key = 4"
  shows "\<exists>m'. unmaskImprecise8 0 (src + h) (key @ key) len m = Some m' \<and> length m' = length m \<and>
    take (len - h) (drop (src + h) m') = xor_from 0 key (take (len - h) (drop (src + h) m))"
proof -
  let ?n = "(len div 8 + 1) * 8"
  have ub: "len - h \<le> ?n" "?n \<le> len + 8" using words_bounds [of 8 len] by simp_all
  then have "src + h + (len div 8 + 1) * length (key @ key) \<le> length m" using assms by simp
  then obtain m' where m': "xor_words 0 (key @ key) (len div 8 + 1) (src + h) m = Some m'" "xored m m' (src + h) ?n 0 key"
    using xor_words_xored [of 0 "src + h" "len div 8 + 1" "key @ key" m key] assms(4) by auto
  have "take (len - h) (drop (src + h) m') = xor_from 0 key (take (len - h) (drop (src + h + 0) m))"
    by (rule xored_take [OF m'(2) ub(1)]) (use assms in simp)
  then show ?thesis using m' xored_length [OF m'(2)] by (simp add: unmaskImprecise8_def)
qed

text \<open>A continuation, with the whole rest of the payload in the read or not.\<close>

lemma rest_unmasks:
  assumes "src + n \<le> length m" "length key = 4"
  shows "\<exists>m1 m'. unmaskInplace src (src + n div 4 * 4) key m = Some m1 \<and>
    xor_rest (n mod 4) 0 (src + n div 4 * 4) key m1 = Some m' \<and> length m' = length m \<and>
    take n (drop src m') = xor_from 0 key (take n (drop src m)) \<and> (\<forall>p. src + n \<le> p \<longrightarrow> drop p m' = drop p m)"
proof -
  let ?q = "n div 4 * 4"
  have q: "?q + n mod 4 = n" "?q \<le> n" by simp_all
  obtain m1 where m1: "unmaskInplace src (src + ?q) key m = Some m1" "xored m m1 src ?q 0 key"
    using unmaskInplace_xored [of src "n div 4" m key] assms q(2) by auto
  have l1: "length m1 = length m" by (rule xored_length [OF m1(2)])
  have "src + ?q + 0 + n mod 4 \<le> length m1" using assms(1) l1 q(1) by linarith
  then obtain m2 where m2: "xor_rest (n mod 4) 0 (src + ?q) key m1 = Some m2" "xored m1 m2 (src + ?q) (n mod 4) 0 key"
    using xor_rest_xored [of "src + ?q" 0 "n mod 4" m1 m1 key] xored_refl by auto
  have x: "xored m m2 src n 0 key" using xored_append [OF m1(2) m2(2)] q(1) by simp
  have "take n (drop src m2) = xor_from 0 key (take n (drop (src + 0) m))"
    by (rule xored_take [OF x]) (use assms in simp_all)
  then show ?thesis using m1 m2 x xored_length [OF x] xored_drop [OF x] by auto
qed

definition piece_unmask :: "nat \<Rightarrow> memory \<Rightarrow> nat \<Rightarrow> nat \<Rightarrow> byte list \<Rightarrow> memory option" where
  "piece_unmask recvLength m src len key =
    (if recvLength = len then unmaskAll recvLength 0 src key m else unmaskInplace src (src + (len div 4 + 1) * 4) key m)"

lemma piece_unmasks:
  assumes "src + len + 15 \<le> length m" "length key = 4"
  shows "\<exists>m'. piece_unmask recvLength m src len key = Some m' \<and> length m' = length m \<and>
    take len (drop src m') = xor_from 0 key (take len (drop src m))"
proof -
  have "\<exists>m' n. piece_unmask recvLength m src len key = Some m' \<and> len \<le> n \<and> xored m m' src n 0 key"
  proof (cases "recvLength = len")
    case True
    then obtain m' n where "unmaskAll recvLength (16 * 0) src key m = Some m'" "recvLength \<le> n" "xored m m' src n 0 key"
      using unmaskAll_xored [of src recvLength m m 0 key] xored_refl [of m src 0 key] assms(1) by auto
    then show ?thesis using True by (auto simp: piece_unmask_def)
  next
    case False
    have b: "(len div 4 + 1) * 4 \<le> len + 4" "len \<le> (len div 4 + 1) * 4" using words_bounds [of 4 len] by simp_all
    then have "src + (len div 4 + 1) * 4 \<le> length m" using assms(1) by linarith
    then obtain m' where "unmaskInplace src (src + (len div 4 + 1) * 4) key m = Some m'"
      "xored m m' src ((len div 4 + 1) * 4) 0 key"
      using unmaskInplace_xored [of src "len div 4 + 1" m key] assms(2) by auto
    then show ?thesis using False b by (auto simp: piece_unmask_def)
  qed
  then obtain m' n where m': "piece_unmask recvLength m src len key = Some m'" "len \<le> n" "xored m m' src n 0 key" by blast
  have "take len (drop src m') = xor_from 0 key (take len (drop (src + 0) m))"
    by (rule xored_take [OF m'(3, 2)]) (use assms in simp)
  then show ?thesis using m' xored_length [OF m'(3)] by auto
qed
section \<open>The invariant of the parser\<close>

definition ws_ok :: "bool \<Rightarrow> WsState \<Rightarrow> bool" where
  "ws_ok isServer w \<longleftrightarrow> length (opCode w) = 2 \<and> -1 \<le> opStack w \<and> opStack w \<le> 1 \<and>
     length (spill w) = LONG_MESSAGE_HEADER isServer - 1 \<and> spillLength w \<le> LONG_MESSAGE_HEADER isServer - 1 \<and>
     (isServer \<longrightarrow> length (mask_bytes w) = 4) \<and>
     (wantsHead w \<or> 0 \<le> opStack w \<and> spillLength w = 0 \<and> 0 < remainingBytes w)"

definition bounded_impl :: "'s Impl \<Rightarrow> bool" where
  "bounded_impl imp \<longleftrightarrow> (\<forall>n s. int n \<ge> 2 ^ 32 \<longrightarrow> refusePayloadLength imp n s)"

definition header_of :: "bool \<Rightarrow> nat \<Rightarrow> bool" where
  "header_of isServer h \<longleftrightarrow> h = SHORT_MESSAGE_HEADER isServer \<or> h = MEDIUM_MESSAGE_HEADER isServer \<or> h = LONG_MESSAGE_HEADER isServer"

lemma header_of_bounds: "header_of isServer h \<Longrightarrow> h \<le> 14 \<and> 0 < h \<and> (isServer \<longrightarrow> header_size h)"
  by (auto simp: header_of_def header_size_def SHORT_MESSAGE_HEADER_def MEDIUM_MESSAGE_HEADER_def LONG_MESSAGE_HEADER_def)

text \<open>The room behind the read that the parser may touch.\<close>

definition POST_PADDING :: nat where "POST_PADDING = 22"

definition room :: "memory \<Rightarrow> nat \<Rightarrow> nat \<Rightarrow> bool" where
  "room m src len \<longleftrightarrow> src + len + POST_PADDING \<le> length m"

lemma top_op_Some: "ws_ok isServer w \<Longrightarrow> 0 \<le> opStack w \<Longrightarrow> \<exists>op. top_op w = Some op"
  by (auto simp: top_op_def ws_ok_def nat_less_iff)

lemma push_op_ok:
  "ws_ok isServer w \<Longrightarrow> push_op b0 w = Some w' \<Longrightarrow>
   ws_ok isServer w' \<and> 0 \<le> opStack w' \<and> opStack w' \<le> 1 \<and> wantsHead w' = wantsHead w \<and> top_op w' \<noteq> None"
  by (auto simp: ws_ok_def push_op_def top_op_def split: if_splits)

lemma consumeWhole_safe:
  assumes "ws_ok isServer w" "0 \<le> opStack w" "wantsHead w" "room m src len" "header_of isServer h" "n + h \<le> len"
  shows "\<exists>stop m' src' len' w' s'. consumeWhole imp isServer h n fin m src len w s = Some (stop, m', src', len', w', s') \<and>
    ws_ok isServer w' \<and> wantsHead w' \<and> room m' src' len' \<and> len' \<le> len"
proof -
  have top: "\<exists>op. top_op w = Some op" by (rule top_op_Some [OF assms(1, 2)])
  have b: "src + h + n + 8 \<le> length m" using assms(4, 6) by (simp add: room_def POST_PADDING_def)
  have "\<exists>m'. (if isServer then unmaskImpreciseCopyMask h (src + h) n m else Some m) = Some m' \<and> length m' = length m"
    using copyMask_moves [of h src n m] b header_of_bounds [OF assms(5)] by auto
  then obtain m' where m': "(if isServer then unmaskImpreciseCopyMask h (src + h) n m else Some m) = Some m'" "length m' = length m"
    by blast
  obtain op where op: "top_op w = Some op" using top by blast
  have "\<exists>p. rd m' (if isServer then src else src + h) n = Some p" using b m'(2) by (auto simp: rd_def)
  then obtain p where p: "rd m' (if isServer then src else src + h) n = Some p" by blast
  obtain broken s' where hf: "handleFragment imp p 0 op fin s = (broken, s')" by fastforce
  show ?thesis
  proof (cases broken)
    case True
    then have "consumeWhole imp isServer h n fin m src len w s = Some (True, m', src, len, w, s')"
      unfolding consumeWhole_def m'(1) using op p hf by simp
    then show ?thesis using assms m' by (auto simp: room_def)
  next
    case False
    let ?w = "(if fin then w\<lparr>opStack := opStack w - 1\<rparr> else w)\<lparr>spillLength := 0\<rparr>"
    have "consumeWhole imp isServer h n fin m src len w s = Some (False, m', src + (n + h), len - (n + h), ?w, s')"
      unfolding consumeWhole_def m'(1) using op p hf False by simp
    moreover have "ws_ok isServer ?w" "wantsHead ?w" using assms(1-3) by (auto simp: ws_ok_def)
    moreover have "room m' (src + (n + h)) (len - (n + h))" using assms(4, 6) m' by (simp add: room_def)
    ultimately show ?thesis by (metis diff_le_self)
  qed
qed

lemma consumePart_safe:
  assumes "ws_ok isServer w" "0 \<le> opStack w" "room m src len" "header_of isServer h" "h \<le> len" "len < n + h" "int n < 2 ^ 32"
  shows "\<exists>m' w' s'. consumePart imp isServer h n fin m src len w s = Some (True, m', src, len, w', s') \<and>
    ws_ok isServer w' \<and> room m' src len"
proof -
  obtain op where op: "top_op w = Some op" using top_op_Some [OF assms(1, 2)] by blast
  have rem: "nat (int (n + h - len) mod 2 ^ 32) = n + h - len"
    using assms(5-7) by (simp add: nat_mod_as_int [symmetric] zmod_int)
  define w1 where "w1 = w\<lparr>spillLength := 0, wantsHead := False, remainingBytes := n + h - len\<rparr>"
  have w1: "ws_ok isServer w1" "top_op w1 = Some op" using assms op by (auto simp: ws_ok_def w1_def top_op_def split: if_splits)
  have b: "src + h + len + 8 \<le> length m" using assms(3) header_of_bounds [OF assms(4)] by (auto simp: room_def POST_PADDING_def)
  have "\<exists>m' w2. (if isServer then (case rd m (src + h - 4) 4 of None \<Rightarrow> None
          | Some key \<Rightarrow> (case unmaskImprecise8 0 (src + h) (key @ key) len m of None \<Rightarrow> None
             | Some m \<Rightarrow> Some (m, w1\<lparr>mask_bytes := rotateMask (4 - (len - h) mod 4) key\<rparr>)))
        else Some (m, w1)) = Some (m', w2) \<and> length m' = length m \<and> ws_ok isServer w2 \<and> top_op w2 = Some op"
  proof (cases isServer)
    case True
    let ?key = "take 4 (drop (src + h - 4) m)"
    have key: "length ?key = 4" "rd m (src + h - 4) 4 = Some ?key" using b header_of_bounds [OF assms(4)] by (auto simp: rd_def)
    obtain m' where "unmaskImprecise8 0 (src + h) (?key @ ?key) len m = Some m'" "length m' = length m"
      using partial_unmasks [OF _ b assms(5) key(1)] header_of_bounds [OF assms(4)] True by auto
    moreover have "ws_ok True (w1\<lparr>mask_bytes := rotateMask (4 - (len - h) mod 4) ?key\<rparr>)"
      using w1(1) True key(1) by (simp add: ws_ok_def rotateMask_def)
    moreover have "top_op (w1\<lparr>mask_bytes := rotateMask (4 - (len - h) mod 4) ?key\<rparr>) = Some op"
      using w1(2) by (simp add: top_op_def split: if_splits)
    ultimately show ?thesis using True key(2) by simp
  qed (use w1 in auto)
  then obtain m' w2 where w2: "(if isServer then (case rd m (src + h - 4) 4 of None \<Rightarrow> None
          | Some key \<Rightarrow> (case unmaskImprecise8 0 (src + h) (key @ key) len m of None \<Rightarrow> None
             | Some m \<Rightarrow> Some (m, w1\<lparr>mask_bytes := rotateMask (4 - (len - h) mod 4) key\<rparr>)))
        else Some (m, w1)) = Some (m', w2)" "length m' = length m" "ws_ok isServer w2" "top_op w2 = Some op"
    by blast
  obtain p where p: "rd m' (src + h) (len - h) = Some p" using b w2(2) assms(5) by (auto simp: rd_def)
  obtain broken s' where "handleFragment imp p (n + h - len) op fin s = (broken, s')" by fastforce
  then have "consumePart imp isServer h n fin m src len w s = Some (True, m', src, len, w2, s')"
    unfolding consumePart_def rem Let_def w1_def [symmetric] w2(1) using p w2(4) by simp
  then show ?thesis using w2 assms(3) by (auto simp: room_def)
qed

definition parsed_ok :: "bool \<Rightarrow> nat \<Rightarrow> 's parsed option \<Rightarrow> bool" where
  "parsed_ok isServer len res \<longleftrightarrow> (case res of None \<Rightarrow> False
     | Some (stop, m', src', len', w', s') \<Rightarrow> ws_ok isServer w' \<and> (stop \<or> wantsHead w') \<and> room m' src' len' \<and> len' \<le> len)"

lemma consumeMessage_safe:
  assumes "ws_ok isServer w" "wantsHead w" "room m src len" "header_of isServer h" "h \<le> len" "bounded_impl imp"
  shows "parsed_ok isServer len (consumeMessage imp isServer h n m src len w s)"
proof -
  obtain b where b: "rd m src 1 = Some b" using assms(3) by (auto simp: room_def POST_PADDING_def rd_def)
  show ?thesis
  proof (cases "push_op (b ! 0) w")
    case None
    then show ?thesis using b assms by (simp add: consumeMessage_def parsed_ok_def)
  next
    case (Some w1)
    define w2 where "w2 = w1\<lparr>lastFin := isFin (b ! 0)\<rparr>"
    have w2: "ws_ok isServer w2" "0 \<le> opStack w2" "wantsHead w2"
      using push_op_ok [OF assms(1) Some] assms(2) by (auto simp: w2_def ws_ok_def)
    show ?thesis
    proof (cases "refusePayloadLength imp n s")
      case True
      then show ?thesis using b Some w2 assms(3) by (simp add: consumeMessage_def parsed_ok_def flip: w2_def)
    next
      case False
      then have n: "int n < 2 ^ 32" using assms(6) by (auto simp: bounded_impl_def not_le)
      moreover have "h \<le> 14" using header_of_bounds [OF assms(4)] by simp
      ultimately have n64: "\<not> int (n + h) \<ge> 2 ^ 64" by simp
      show ?thesis
      proof (cases "n + h \<le> len")
        case True
        then have "consumeMessage imp isServer h n m src len w s = consumeWhole imp isServer h n (isFin (b ! 0)) m src len w2 s"
          using b Some False n64 by (simp add: consumeMessage_def flip: w2_def)
        then show ?thesis
          using consumeWhole_safe [OF w2(1, 2, 3) assms(3, 4) True, of imp "isFin (b ! 0)" s] by (auto simp: parsed_ok_def)
      next
        case part: False
        then have l: "len < n + h" by simp
        have "consumeMessage imp isServer h n m src len w s = consumePart imp isServer h n (isFin (b ! 0)) m src len w2 s"
          using b Some False n64 part by (simp add: consumeMessage_def flip: w2_def)
        then show ?thesis
          using consumePart_safe [OF w2(1, 2) assms(3-5) l n, of imp "isFin (b ! 0)" s] by (auto simp: parsed_ok_def)
      qed
    qed
  qed
qed

definition final_ok :: "bool \<Rightarrow> (memory \<times> WsState \<times> 's) option \<Rightarrow> bool" where
  "final_ok isServer res \<longleftrightarrow> (case res of None \<Rightarrow> False | Some (m', w', s') \<Rightarrow> ws_ok isServer w')"

definition turn_ok :: "bool \<Rightarrow> ((memory \<times> WsState \<times> 's) + (memory \<times> nat \<times> nat \<times> WsState \<times> 's)) option \<Rightarrow> bool" where
  "turn_ok isServer res \<longleftrightarrow> (case res of None \<Rightarrow> False
     | Some (Inl (m', w', s')) \<Rightarrow> ws_ok isServer w'
     | Some (Inr (m', src', len', w', s')) \<Rightarrow> ws_ok isServer w' \<and> wantsHead w' \<and> room m' src' len')"

lemma spill_rest_safe:
  assumes "ws_ok isServer w" "wantsHead w" "room m src len" "len \<le> LONG_MESSAGE_HEADER isServer - 1"
  shows "final_ok isServer (spill_rest isServer m src len w s)"
proof -
  have "len mod 16 \<le> LONG_MESSAGE_HEADER isServer - 1" using assms(4) le_trans mod_less_eq_dividend by blast
  moreover have "src + len \<le> length m" using assms(3) by (simp add: room_def)
  ultimately show ?thesis using assms
    by (auto simp: spill_rest_def final_ok_def ws_ok_def rd_def split: option.splits)
qed

lemma map_Inl_ok: "final_ok isServer res \<Longrightarrow> turn_ok isServer (map_option Inl res)"
  by (cases res) (auto simp: final_ok_def turn_ok_def)

lemma finishMessage_ok:
  "parsed_ok isServer len (consumeMessage imp isServer h n m src len w s) \<Longrightarrow>
   turn_ok isServer (finishMessage imp isServer m src len w s h n)"
  by (auto simp: finishMessage_def parsed_ok_def turn_ok_def split: option.splits)

lemma head_turn_safe:
  assumes "ws_ok isServer w" "wantsHead w" "room m src len" "SHORT_MESSAGE_HEADER isServer \<le> len" "bounded_impl imp"
  shows "turn_ok isServer (head_turn imp isServer m src len w s)"
proof -
  have rdl: "\<exists>l. rd m (src + 2) k = Some l" if "k \<le> 8" for k
    using assms(3) that by (auto simp: rd_def room_def POST_PADDING_def)
  obtain l2 l8 where l: "rd m (src + 2) 2 = Some l2" "rd m (src + 2) 8 = Some l8" using rdl [of 2] rdl [of 8] by auto
  obtain h where h: "rd m src 2 = Some h" using assms(3) by (auto simp: rd_def room_def POST_PADDING_def)
  obtain bad s1 where c: "check_head imp (h ! 0) (h ! 1) s = (bad, s1)" by fastforce
  have fin: "turn_ok isServer (finishMessage imp isServer m src len w s1 k n)" if "header_of isServer k" "k \<le> len" for k n
    using finishMessage_ok [OF consumeMessage_safe [OF assms(1-3) that assms(5)]] .
  have sp: "turn_ok isServer (map_option Inl (spill_rest isServer m src len w s1))" if "len < LONG_MESSAGE_HEADER isServer"
    using that by (intro map_Inl_ok spill_rest_safe [OF assms(1-3)]) simp
  have ml: "MEDIUM_MESSAGE_HEADER isServer < LONG_MESSAGE_HEADER isServer"
    by (simp add: MEDIUM_MESSAGE_HEADER_def LONG_MESSAGE_HEADER_def)
  show ?thesis
    unfolding head_turn_def h option.case c prod.case Let_def l
    using fin [of "SHORT_MESSAGE_HEADER isServer"] fin [of "MEDIUM_MESSAGE_HEADER isServer"]
      fin [of "LONG_MESSAGE_HEADER isServer"] sp ml assms(1, 4)
    by (simp add: header_of_def turn_ok_def [of _ "Some (Inl _)"])
qed

lemma parseNext_safe:
  "ws_ok isServer w \<Longrightarrow> wantsHead w \<Longrightarrow> room m src len \<Longrightarrow> bounded_impl imp \<Longrightarrow>
   final_ok isServer (parseNext imp isServer m src len w s)"
proof (induction len arbitrary: m src w s rule: less_induct)
  case (less len)
  show ?case
  proof (cases "SHORT_MESSAGE_HEADER isServer \<le> len")
    case False
    then have "len \<le> LONG_MESSAGE_HEADER isServer - 1"
      by (auto simp: SHORT_MESSAGE_HEADER_def LONG_MESSAGE_HEADER_def split: if_splits)
    from spill_rest_safe [OF less.prems(1-3) this] False show ?thesis by (simp add: parseNext.simps [of _ _ _ _ len])
  next
    case True
    have t: "turn_ok isServer (head_turn imp isServer m src len w s)"
      by (rule head_turn_safe [OF less.prems(1-3) True less.prems(4)])
    then consider (fin) m' w' s' where "head_turn imp isServer m src len w s = Some (Inl (m', w', s'))" "ws_ok isServer w'"
      | (go) m' src' len' w' s' where "head_turn imp isServer m src len w s = Some (Inr (m', src', len', w', s'))"
        "ws_ok isServer w'" "wantsHead w'" "room m' src' len'"
      by (auto simp: turn_ok_def split: option.splits sum.splits)
    then show ?thesis
    proof cases
      case fin
      then show ?thesis using True by (simp add: parseNext.simps [of _ _ _ _ len] final_ok_def)
    next
      case go
      then show ?thesis using True less.IH [OF head_turn_Inr [OF go(1) True] go(2-4) less.prems(4)]
        by (simp add: parseNext.simps [of _ _ _ _ len])
    qed
  qed
qed

lemma consumeContinuation_safe:
  assumes "ws_ok isServer w" "\<not> wantsHead w" "room m src len"
  shows "case consumeContinuation imp isServer recvLength m src len w s of None \<Rightarrow> False
    | Some (go, m', src', len', w', s') \<Rightarrow> ws_ok isServer w' \<and> (go \<longrightarrow> wantsHead w') \<and> room m' src' len'"
proof -
  have w: "0 \<le> opStack w" "0 < remainingBytes w" using assms(1, 2) by (auto simp: ws_ok_def)
  obtain op where op: "top_op w = Some op" using top_op_Some [OF assms(1) w(1)] by blast
  have key: "isServer \<Longrightarrow> length (mask_bytes w) = 4" using assms(1) by (simp add: ws_ok_def)
  have len: "src + len + 22 \<le> length m" using assms(3) by (simp add: room_def POST_PADDING_def)
  show ?thesis
  proof (cases "remainingBytes w \<le> len")
    case True
    let ?n = "remainingBytes w"
    have "\<exists>m'. (if isServer then (case unmaskInplace src (src + ?n div 4 * 4) (mask_bytes w) m of None \<Rightarrow> None
        | Some m \<Rightarrow> xor_rest (?n mod 4) 0 (src + ?n div 4 * 4) (mask_bytes w) m) else Some m) = Some m' \<and> length m' = length m"
      using rest_unmasks [of src ?n m "mask_bytes w"] key len True by (cases isServer) auto
    then obtain m' where m': "(if isServer then (case unmaskInplace src (src + ?n div 4 * 4) (mask_bytes w) m of None \<Rightarrow> None
        | Some m \<Rightarrow> xor_rest (?n mod 4) 0 (src + ?n div 4 * 4) (mask_bytes w) m) else Some m) = Some m'" "length m' = length m"
      by blast
    obtain p where p: "rd m' src ?n = Some p" using len True m'(2) by (auto simp: rd_def)
    obtain broken s' where hf: "handleFragment imp p 0 op (lastFin w) s = (broken, s')" by fastforce
    define w1 where "w1 = (if lastFin w then w\<lparr>opStack := opStack w - 1\<rparr> else w)\<lparr>wantsHead := True\<rparr>"
    have w1: "ws_ok isServer w1" "wantsHead w1" using assms(1) w by (auto simp: ws_ok_def w1_def)
    have e: "consumeContinuation imp isServer recvLength m src len w s =
        (if broken then Some (False, m', src, len, w, s') else Some (True, m', src + ?n, len - ?n, w1, s'))"
      unfolding consumeContinuation_def Let_def m'(1) using True p op hf by (simp add: w1_def)
    show ?thesis unfolding e using assms(1, 3) w1 m'(2) True by (simp add: room_def)
  next
    case False
    have "\<exists>m'. (if isServer \<and> mask_bytes w \<noteq> [0, 0, 0, 0] then piece_unmask recvLength m src len (mask_bytes w) else Some m) = Some m' \<and> length m' = length m"
      using piece_unmasks [of src len m "mask_bytes w" recvLength] key len by (cases "isServer \<and> mask_bytes w \<noteq> [0, 0, 0, 0]") auto
    then obtain m' where m': "(if isServer \<and> mask_bytes w \<noteq> [0, 0, 0, 0] then piece_unmask recvLength m src len (mask_bytes w) else Some m) = Some m'"
      "length m' = length m" by blast
    obtain p where p: "rd m' src len = Some p" using len m'(2) by (auto simp: rd_def)
    define w1 where "w1 = w\<lparr>remainingBytes := remainingBytes w - len\<rparr>"
    have w1: "ws_ok isServer w1" "top_op w1 = Some op" "lastFin w1 = lastFin w" "remainingBytes w1 = remainingBytes w - len" "mask_bytes w1 = mask_bytes w"
      using assms(1, 2) op False by (auto simp: ws_ok_def w1_def top_op_def split: if_splits)
    obtain broken s' where hf: "handleFragment imp p (remainingBytes w1) op (lastFin w1) s = (broken, s')" by fastforce
    define w2 where "w2 = w1\<lparr>mask_bytes := rotateMask (4 - len mod 4) (mask_bytes w1)\<rparr>"
    have w2: "ws_ok isServer w2" using w1(1) by (simp add: ws_ok_def w2_def rotateMask_def)
    have e: "consumeContinuation imp isServer recvLength m src len w s =
        Some (False, m', src, len, (if \<not> broken \<and> isServer \<and> len mod 4 \<noteq> 0 then w2 else w1), s')"
      unfolding consumeContinuation_def piece_unmask_def [symmetric] m'(1) Let_def w1_def [symmetric]
      using False p w1(2) hf by (simp add: w2_def w1(5))
    show ?thesis unfolding e using assms(3) w1(1) w2 m'(2) by (auto simp: room_def)
  qed
qed

lemma consume_safe:
  assumes "ws_ok isServer w" "LONG_MESSAGE_HEADER isServer - 1 \<le> src" "room m src len" "bounded_impl imp"
  shows "final_ok isServer (consume imp isServer recvLength m src len w s)"
proof -
  let ?k = "spillLength w"
  have k: "?k \<le> src" "?k \<le> length (spill w)" using assms(1, 2) by (auto simp: ws_ok_def)
  have "\<exists>m1. (if ?k \<noteq> 0 then (if ?k \<le> src \<and> ?k \<le> length (spill w) then
                (case wr m (src - ?k) (take ?k (spill w)) of None \<Rightarrow> None
                 | Some m \<Rightarrow> Some (m, src - ?k, len + ?k)) else None)
           else Some (m, src, len)) = Some (m1, src - ?k, len + ?k) \<and> length m1 = length m"
  proof (cases "?k = 0")
    case False
    have "\<exists>m1. wr m (src - ?k) (take ?k (spill w)) = Some m1"
      using k assms(3) by (simp add: wr_def room_def)
    then obtain m1 where "wr m (src - ?k) (take ?k (spill w)) = Some m1" by blast
    then show ?thesis using False k wr_nth by auto
  qed simp
  then obtain m1 where m1: "(if ?k \<noteq> 0 then (if ?k \<le> src \<and> ?k \<le> length (spill w) then
                (case wr m (src - ?k) (take ?k (spill w)) of None \<Rightarrow> None
                 | Some m \<Rightarrow> Some (m, src - ?k, len + ?k)) else None)
           else Some (m, src, len)) = Some (m1, src - ?k, len + ?k)" "length m1 = length m"
    by blast
  have r: "room m1 (src - ?k) (len + ?k)" using assms(3) k(1) m1(2) by (simp add: room_def)
  show ?thesis
  proof (cases "wantsHead w")
    case True
    then show ?thesis unfolding consume_def m1(1) using parseNext_safe [OF assms(1) True r assms(4)] by simp
  next
    case False
    show ?thesis unfolding consume_def m1(1)
      using consumeContinuation_safe [OF assms(1) False r, of imp recvLength s] False parseNext_safe [OF _ _ _ assms(4)]
      by (auto simp: final_ok_def [of _ "Some _"] split: option.splits)
  qed
qed

section \<open>Any sequence of reads\<close>

text \<open>A read is what stands in the buffer before, in and behind the received bytes.\<close>

fun ws_reads :: "'s Impl \<Rightarrow> bool \<Rightarrow> nat \<Rightarrow> (byte list \<times> byte list \<times> byte list) list \<Rightarrow> WsState \<Rightarrow> 's \<Rightarrow> (WsState \<times> 's) option" where
  "ws_reads imp isServer recvLength [] w s = Some (w, s)"
| "ws_reads imp isServer recvLength ((pre, d, post) # rs) w s =
    (case consume imp isServer recvLength (pre @ d @ post) (length pre) (length d) w s of
       None \<Rightarrow> None | Some (m, w, s) \<Rightarrow> ws_reads imp isServer recvLength rs w s)"

definition padded :: "bool \<Rightarrow> byte list \<times> byte list \<times> byte list \<Rightarrow> bool" where
  "padded isServer r = (case r of (pre, d, post) \<Rightarrow> LONG_MESSAGE_HEADER isServer - 1 \<le> length pre \<and> POST_PADDING \<le> length post)"

lemma initial_ws_ok: "ws_ok isServer (initial_ws isServer)"
  by (simp add: ws_ok_def initial_ws_def)

lemma reads_safe:
  assumes "bounded_impl imp"
  shows "list_all (padded isServer) rs \<Longrightarrow> ws_ok isServer w \<Longrightarrow>
    \<exists>w' s'. ws_reads imp isServer recvLength rs w s = Some (w', s') \<and> ws_ok isServer w'"
proof (induction rs arbitrary: w s)
  case (Cons r rs)
  obtain pre d post where r: "r = (pre, d, post)" by (metis prod_cases3)
  have "final_ok isServer (consume imp isServer recvLength (pre @ d @ post) (length pre) (length d) w s)"
    using Cons.prems r by (intro consume_safe assms) (auto simp: padded_def room_def)
  then show ?case using Cons r by (auto simp: final_ok_def split: option.splits)
qed simp

text \<open>C25: Over any sequence of reads of any bytes, with any handlers that refuse payloads of four
  gigabytes or more, the frame parser of client and server stays inside the receive buffer (13 or
  9 bytes in front of the read, 22 behind it), and between reads the opcode stack has at most two
  entries, the spilled head fits its array, and an unfinished payload has a size and an opcode.\<close>

theorem frames_memory_safe:
  assumes "\<forall>n s. 2 ^ 32 \<le> int n \<longrightarrow> refusePayloadLength imp n s" "list_all (padded isServer) rs"
  shows "\<exists>w' s'. ws_reads imp isServer recvLength rs (initial_ws isServer) s = Some (w', s') \<and>
    -1 \<le> opStack w' \<and> opStack w' \<le> 1 \<and> spillLength w' \<le> length (spill w') \<and>
    (wantsHead w' \<or> 0 < remainingBytes w' \<and> top_op w' \<noteq> None)"
proof -
  have "bounded_impl imp" using assms(1) by (simp add: bounded_impl_def)
  from reads_safe [OF this assms(2) initial_ws_ok, of recvLength s]
  obtain w' s' where w': "ws_reads imp isServer recvLength rs (initial_ws isServer) s = Some (w', s')" "ws_ok isServer w'"
    by blast
  then have "wantsHead w' \<or> 0 < remainingBytes w' \<and> top_op w' \<noteq> None"
    using top_op_Some [of isServer w'] by (auto simp: ws_ok_def)
  then show ?thesis using w' by (auto simp: ws_ok_def)
qed

section \<open>Recording the calls\<close>

text \<open>Handlers that accept payloads up to a limit and write down what they are called with.\<close>

datatype WsCall = Fragment "byte list" nat byte bool | Closed "byte list"

definition recorder :: "nat \<Rightarrow> WsCall list Impl" where
  "recorder limit = \<lparr>forceClose = (\<lambda>reason log. log @ [Closed reason]),
     refusePayloadLength = (\<lambda>n log. limit < n),
     setCompressed = (\<lambda>log. (True, log)),
     handleFragment = (\<lambda>d remaining op fin log. (False, log @ [Fragment d remaining op fin]))\<rparr>"

theorem frames_memory_safe_witness:
  "\<exists>w' s'. ws_reads (recorder 1000) True 524288
      [(replicate 13 0, [0x81, 0x85, 1], replicate 22 0), (replicate 13 9, [2, 3, 4, 73], replicate 22 7)] (initial_ws True) [] = Some (w', s') \<and>
    -1 \<le> opStack w' \<and> opStack w' \<le> 1 \<and> spillLength w' \<le> length (spill w') \<and>
    (wantsHead w' \<or> 0 < remainingBytes w' \<and> top_op w' \<noteq> None)"
  by (rule frames_memory_safe) (auto simp: recorder_def padded_def POST_PADDING_def LONG_MESSAGE_HEADER_def)

end
