(* ===== verification/Ws_Stream.thy ===== *)
theory Ws_Stream
  imports Ws_Safe
begin

text \<open>
  What the server's frame parser of \<open>WebSocketProtocol.h\<close> delivers. A client writes frames with
  \<open>formatMessage\<close>; the bytes arrive in reads of any sizes, with anything around them in the buffer.
  The fragments that reach \<open>handleFragment\<close> are then exactly the payloads, in order, with the
  number of bytes still to come, the opcode of the message and the frame's FIN bit.
\<close>

section \<open>Frames and legal sequences\<close>

record Frame =
  fr_fin :: bool
  fr_op :: byte
  fr_key :: "byte list"
  fr_payload :: "byte list"

definition frame_bytes :: "Frame \<Rightarrow> byte list" where
  "frame_bytes f = formatMessage False (fr_key f) (fr_payload f) (fr_op f) (length (fr_payload f)) False (fr_fin f)"

definition control :: "byte \<Rightarrow> bool" where
  "control op \<longleftrightarrow> op = 8 \<or> op = 9 \<or> op = 10"

text \<open>RFC 6455, section 5.4: the message in progress is None or has an opcode.\<close>

definition frame_legal :: "nat \<Rightarrow> byte option \<Rightarrow> Frame \<Rightarrow> bool" where
  "frame_legal limit cur f \<longleftrightarrow> length (fr_key f) = 4 \<and> length (fr_payload f) \<le> limit \<and>
     (if control (fr_op f) then fr_fin f \<and> length (fr_payload f) \<le> 125
      else if fr_op f = 0 then cur \<noteq> None
      else (fr_op f = 1 \<or> fr_op f = 2) \<and> cur = None)"

definition next_cur :: "byte option \<Rightarrow> Frame \<Rightarrow> byte option" where
  "next_cur cur f = (if control (fr_op f) then cur else if fr_fin f then None
     else if fr_op f = 0 then cur else Some (fr_op f))"

definition message_op :: "byte option \<Rightarrow> Frame \<Rightarrow> byte" where
  "message_op cur f = (if fr_op f = 0 then the cur else fr_op f)"

fun legal :: "nat \<Rightarrow> byte option \<Rightarrow> Frame list \<Rightarrow> bool" where
  "legal limit cur [] = True"
| "legal limit cur (f # fs) = (frame_legal limit cur f \<and> legal limit (next_cur cur f) fs)"

text \<open>What the application has to be told, and whether a list of calls tells it.\<close>

fun expected :: "byte option \<Rightarrow> Frame list \<Rightarrow> (byte list \<times> byte \<times> bool) list" where
  "expected cur [] = []"
| "expected cur (f # fs) = (fr_payload f, message_op cur f, fr_fin f) # expected (next_cur cur f) fs"

text \<open>The expectation that is left after a call.\<close>

fun after_call :: "(byte list \<times> byte \<times> bool) list \<Rightarrow> WsCall \<Rightarrow> (byte list \<times> byte \<times> bool) list option" where
  "after_call ((p, op, fin) # es) (Fragment d remaining op' fin') =
    (if op' = op \<and> fin' = fin \<and> take (length d) p = d \<and> length d + remaining = length p
     then Some (if remaining = 0 then es else (drop (length d) p, op, fin) # es) else None)"
| "after_call _ _ = None"

fun after_calls :: "(byte list \<times> byte \<times> bool) list \<Rightarrow> WsCall list \<Rightarrow> (byte list \<times> byte \<times> bool) list option" where
  "after_calls es [] = Some es"
| "after_calls es (c # cs) = (case after_call es c of None \<Rightarrow> None | Some es \<Rightarrow> after_calls es cs)"

lemma after_calls_append:
  "after_calls es cs = Some es' \<Longrightarrow> after_calls es (cs @ ds) = after_calls es' ds"
  by (induction cs arbitrary: es) (auto split: option.splits)

section \<open>The head of a frame\<close>

definition length_code :: "nat \<Rightarrow> nat" where
  "length_code n = (if n < 126 then n else if n \<le> UINT16_MAX then 126 else 127)"

definition header_len :: "nat \<Rightarrow> nat" where
  "header_len n = (if n < 126 then 6 else if n \<le> UINT16_MAX then 8 else 14)"

definition first_byte :: "Frame \<Rightarrow> byte" where
  "first_byte f = (if fr_fin f then 128 else 0) OR fr_op f"

definition ext_bytes :: "nat \<Rightarrow> byte list" where
  "ext_bytes n = (if n < 126 then [] else if n \<le> UINT16_MAX then le_bytes 2 (cond_byte_swap 2 n) else le_bytes 8 (cond_byte_swap 8 n))"

definition head_bytes :: "Frame \<Rightarrow> byte list" where
  "head_bytes f = [first_byte f, of_nat (length_code (length (fr_payload f))) OR 0x80] @ ext_bytes (length (fr_payload f)) @ fr_key f"

lemma frame_bytes_split: "frame_bytes f = head_bytes f @ xor_from 0 (fr_key f) (fr_payload f)"
  unfolding frame_bytes_def formatMessage_def head_bytes_def maskLoop_xor_from
  by (simp add: Let_def first_byte_def length_code_def ext_bytes_def)

lemma length_head_bytes: "length (fr_key f) = 4 \<Longrightarrow> length (head_bytes f) = header_len (length (fr_payload f))"
  by (simp add: head_bytes_def ext_bytes_def header_len_def)

lemma legal_op: "frame_legal limit cur f \<Longrightarrow> fr_op f \<in> {0, 1, 2, 8, 9, 10}"
  by (auto simp: frame_legal_def control_def split: if_splits)

lemma first_byte_bits:
  assumes "fr_op f \<in> {0, 1, 2, 8, 9, 10}"
  shows "isFin (first_byte f) = fr_fin f" "getOpCode (first_byte f) = fr_op f"
    "\<not> rsv23 (first_byte f)" "\<not> rsv1 (first_byte f)"
  using assms unfolding isFin_def getOpCode_def rsv23_def rsv1_def first_byte_def
  by (cases "fr_fin f"; auto)+

lemma second_byte_bits: "c \<le> 127 \<Longrightarrow> payloadLength (of_nat c OR 0x80) = c"
proof -
  assume c: "c \<le> 127"
  have m: "(127::byte) = mask 7" "(0x80::byte) = 2 ^ 7" by (simp_all add: mask_eq_exp_minus_1)
  have "(of_nat c OR 2 ^ 7) AND mask 7 = take_bit 7 (of_nat c :: byte)"
    by (simp flip: take_bit_eq_mask add: take_bit_or)
  also have "\<dots> = of_nat c" using c by (simp add: take_bit_of_nat take_bit_nat_eq_self)
  finally show ?thesis unfolding payloadLength_def m using c by (simp add: unat_of_nat_byte)
qed

lemma length_code_le: "length_code n \<le> 127"
  by (simp add: length_code_def)

lemma swap_roundtrip: "v < 256 ^ n \<Longrightarrow> cond_byte_swap n (le_nat (le_bytes n (cond_byte_swap n v))) = v"
  by (simp add: cond_byte_swap_def le_nat_le_bytes byte_swap_less byte_swap_involution)

lemma head_not_bad:
  assumes "frame_legal limit cur f"
  shows "\<not> bad_head (first_byte f) (of_nat (length_code (length (fr_payload f))) OR 0x80)"
proof -
  note op = legal_op [OF assms]
  have "length (fr_payload f) \<le> 125 \<and> fr_fin f" if "control (fr_op f)"
    using assms that by (simp add: frame_legal_def)
  then show ?thesis using op
    by (auto simp: bad_head_def first_byte_bits [OF op] second_byte_bits length_code_le length_code_def control_def)
qed

section \<open>The opcode stack\<close>

definition stack_rel :: "byte option \<Rightarrow> WsState \<Rightarrow> bool" where
  "stack_rel cur w \<longleftrightarrow> length (opCode w) = 2 \<and>
     (case cur of None \<Rightarrow> opStack w = -1 \<and> lastFin w | Some op \<Rightarrow> opStack w = 0 \<and> opCode w ! 0 = op)"

lemma stack_rel_cong:
  "opStack w' = opStack w \<Longrightarrow> opCode w' = opCode w \<Longrightarrow> lastFin w' = lastFin w \<Longrightarrow> stack_rel cur w' = stack_rel cur w"
  by (simp add: stack_rel_def split: option.split)

definition popped :: "WsState \<Rightarrow> WsState" where
  "popped w = (if lastFin w then w\<lparr>opStack := opStack w - 1\<rparr> else w)"

lemma push_legal:
  assumes "frame_legal limit cur f" "stack_rel cur w"
  shows "\<exists>n ops. push_op (first_byte f) w = Some (w\<lparr>opStack := n, opCode := ops\<rparr>) \<and>
    top_op (w\<lparr>opStack := n, opCode := ops, lastFin := fr_fin f\<rparr>) = Some (message_op cur f) \<and>
    stack_rel (next_cur cur f) (popped (w\<lparr>opStack := n, opCode := ops, lastFin := fr_fin f\<rparr>))"
proof -
  note op = first_byte_bits [OF legal_op [OF assms(1)]]
  obtain x y where xy: "opCode w = [x, y]" using assms(2) by (auto simp: stack_rel_def length_Suc_conv numeral_2_eq_2)
  show ?thesis
  proof (cases "fr_op f = 0")
    case True
    then have "cur \<noteq> None" "\<not> control (fr_op f)" using assms(1) by (auto simp: frame_legal_def control_def)
    then show ?thesis using True op assms(2) xy
      by (intro exI [of _ "opStack w"] exI [of _ "opCode w"])
        (auto simp: push_op_def top_op_def stack_rel_def popped_def message_op_def next_cur_def)
  next
    case False
    then show ?thesis using op assms xy legal_op [OF assms(1)]
      by (intro exI [of _ "opStack w + 1"] exI [of _ "(opCode w)[nat (opStack w + 1) := fr_op f]"])
        (auto simp: push_op_def top_op_def stack_rel_def popped_def message_op_def next_cur_def frame_legal_def control_def
          split: option.splits if_splits)
  qed
qed
section \<open>Between reads\<close>

definition stream :: "Frame list \<Rightarrow> byte list" where
  "stream fs = concat (map frame_bytes fs)"

lemma stream_simps [simp]: "stream [] = []" "stream (f # fs) = frame_bytes f @ stream fs"
  by (simp_all add: stream_def)

text \<open>\<open>rest\<close> is what has not been received yet, \<open>E\<close> what the application has not been told yet.\<close>

definition at_head :: "nat \<Rightarrow> WsState \<Rightarrow> byte list \<Rightarrow> byte option \<Rightarrow> Frame list \<Rightarrow> bool" where
  "at_head limit w rest cur fs \<longleftrightarrow> wantsHead w \<and> legal limit cur fs \<and> stack_rel cur w \<and>
     length (spill w) = 13 \<and> spillLength w \<le> 13 \<and> take (spillLength w) (spill w) @ rest = stream fs \<and>
     (fs \<noteq> [] \<longrightarrow> spillLength w < length (frame_bytes (hd fs)))"

definition at_body :: "nat \<Rightarrow> WsState \<Rightarrow> byte list \<Rightarrow> byte list \<Rightarrow> byte \<Rightarrow> bool \<Rightarrow> byte option \<Rightarrow> Frame list \<Rightarrow> bool" where
  "at_body limit w rest p op fin cur fs \<longleftrightarrow> \<not> wantsHead w \<and> legal limit cur fs \<and> stack_rel cur (popped w) \<and>
     length (spill w) = 13 \<and> spillLength w = 0 \<and> top_op w = Some op \<and> lastFin w = fin \<and> length (mask_bytes w) = 4 \<and>
     remainingBytes w = length p \<and> p \<noteq> [] \<and> rest = xor_from 0 (mask_bytes w) p @ stream fs"

definition between :: "nat \<Rightarrow> WsState \<Rightarrow> byte list \<Rightarrow> (byte list \<times> byte \<times> bool) list \<Rightarrow> bool" where
  "between limit w rest E \<longleftrightarrow> (\<exists>cur fs. at_head limit w rest cur fs \<and> E = expected cur fs) \<or>
     (\<exists>p op fin cur fs. at_body limit w rest p op fin cur fs \<and> E = (p, op, fin) # expected cur fs)"

lemma between_head: "at_head limit w rest cur fs \<Longrightarrow> between limit w rest (expected cur fs)"
  unfolding between_def by blast

lemma between_body: "at_body limit w rest p op fin cur fs \<Longrightarrow> between limit w rest ((p, op, fin) # expected cur fs)"
  unfolding between_def by blast

section \<open>The interface of a consumer of fragments\<close>

text \<open>
  What the parser needs of the handlers: payloads up to the limit are not refused, and a fragment
  that continues what is expected is taken without breaking off. \<open>I s E\<close> relates the state of the
  handlers to what they still have to be told.
\<close>

locale fragment_consumer =
  fixes imp :: "'s Impl"
    and limit :: nat
    and I :: "'s \<Rightarrow> (byte list \<times> byte \<times> bool) list \<Rightarrow> bool"
  assumes limit_small: "int limit < 2 ^ 32"
    and accepts: "n \<le> limit \<Longrightarrow> \<not> refusePayloadLength imp n s"
    and takes: "I s E \<Longrightarrow> after_call E (Fragment d r op fin) = Some E' \<Longrightarrow>
      \<exists>s'. handleFragment imp d r op fin s = (False, s') \<and> I s' E'"
begin

definition tells :: "byte list \<Rightarrow> (memory \<times> WsState \<times> 's) option \<Rightarrow> bool" where
  "tells rest res \<longleftrightarrow> (\<exists>m' w' s' E'. res = Some (m', w', s') \<and> I s' E' \<and> between limit w' rest E')"

lemma tells_now: "between limit w' rest E \<Longrightarrow> I s E \<Longrightarrow> tells rest (Some (m', w', s))"
  unfolding tells_def by blast

lemma spill_tells:
  assumes "I s (expected cur fs)" "legal limit cur fs" "stack_rel cur w" "wantsHead w" "length (spill w) = 13" "room m src len" "len \<le> 13"
    "take len (drop src m) @ rest = stream fs" "len = 0 \<longrightarrow> spillLength w = 0"
    "fs \<noteq> [] \<longrightarrow> len < length (frame_bytes (hd fs))"
  shows "tells rest (spill_rest True m src len w s)"
proof (cases "len = 0")
  case True
  have "at_head limit w rest cur fs" using assms True by (simp add: at_head_def)
  then show ?thesis unfolding spill_rest_def True by (simp add: tells_now [OF between_head assms(1)])
next
  case False
  have len: "src + len \<le> length m" using assms(6) by (simp add: room_def)
  let ?w = "w\<lparr>spill := take len (drop src m) @ drop len (spill w), spillLength := len mod 16\<rparr>"
  have e: "spill_rest True m src len w s = Some (m, ?w, s)"
    using False len assms(7) by (simp add: spill_rest_def rd_def LONG_MESSAGE_HEADER_def)
  have "at_head limit ?w rest cur fs" using assms len stack_rel_cong [of ?w w cur] by (simp add: at_head_def)
  then show ?thesis unfolding e by (rule tells_now [OF between_head assms(1)])
qed

section \<open>One turn\<close>

lemma rd_front:
  assumes "take len (drop src m) @ rest = x @ y" "room m src len" "k + j \<le> len" "k + j \<le> length x"
  shows "rd m (src + k) j = Some (take j (drop k x))"
proof -
  have l: "src + len \<le> length m" using assms(2) by (simp add: room_def)
  have "take j (drop k (take len (drop src m) @ rest)) = take j (drop (src + k) m)"
    using assms(3) l by (simp add: take_drop min_def add.commute)
  then have "take j (drop (src + k) m) = take j (drop k x)"
    unfolding assms(1) using assms(4) by simp
  then show ?thesis using assms(3) l by (simp add: rd_def)
qed

lemma header_cases:
  "header_len n = (if length_code n < 126 then 6 else if length_code n = 126 then 8 else 14)"
  by (auto simp: header_len_def length_code_def)

lemma header_len_header: "header_of True (header_len n)" "header_size (header_len n)" "6 \<le> header_len n" "header_len n \<le> 14"
  by (auto simp: header_len_def header_of_def header_size_def SHORT_MESSAGE_HEADER_def MEDIUM_MESSAGE_HEADER_def LONG_MESSAGE_HEADER_def)

lemma head_turn_eq:
  assumes f: "frame_legal limit cur f" and st: "take len (drop src m) @ rest = frame_bytes f @ later"
    and r: "room m src len" and len: "6 \<le> len" and small: "int (length (fr_payload f)) < 2 ^ 32"
  shows "head_turn imp True m src len w s =
    (if len < header_len (length (fr_payload f)) then map_option Inl (spill_rest True m src len w s)
     else finishMessage imp True m src len w s (header_len (length (fr_payload f))) (length (fr_payload f)))"
proof -
  let ?n = "length (fr_payload f)"
  define b1 where "b1 = (of_nat (length_code ?n) OR 0x80 :: byte)"
  have key: "length (fr_key f) = 4" using f by (simp add: frame_legal_def)
  have hl: "length (head_bytes f) = header_len ?n" by (rule length_head_bytes [OF key])
  have st': "take len (drop src m) @ rest = head_bytes f @ (xor_from 0 (fr_key f) (fr_payload f) @ later)"
    using st by (simp add: frame_bytes_split)
  have "rd m (src + 0) 2 = Some (take 2 (drop 0 (head_bytes f)))"
    by (rule rd_front [OF st' r]) (use len hl header_len_header(3) [of ?n] in simp_all)
  then have h: "rd m src 2 = Some [first_byte f, b1]" by (simp add: head_bytes_def b1_def)
  have c: "check_head imp (first_byte f) b1 s = (False, s)"
    using first_byte_bits [OF legal_op [OF f]] head_not_bad [OF f] by (simp add: check_head_def b1_def)
  have p: "payloadLength b1 = length_code ?n" unfolding b1_def by (rule second_byte_bits [OF length_code_le])
  consider (short) "?n < 126" | (medium) "126 \<le> ?n" "?n \<le> UINT16_MAX" | (long) "UINT16_MAX < ?n" by linarith
  then show ?thesis
  proof cases
    case short
    then show ?thesis using len
      by (simp add: head_turn_def h c p Let_def length_code_def header_len_def SHORT_MESSAGE_HEADER_def)
  next
    case medium
    have l: "cond_byte_swap 2 (le_nat l) = ?n" if "8 \<le> len" "rd m (src + 2) 2 = Some l" for l
    proof -
      have "rd m (src + 2) 2 = Some (take 2 (drop 2 (head_bytes f)))"
        by (rule rd_front [OF st' r]) (use that hl medium in \<open>simp_all add: header_len_def\<close>)
      then have "l = le_bytes 2 (cond_byte_swap 2 ?n)" using that(2) medium by (simp add: head_bytes_def ext_bytes_def)
      then show ?thesis using medium by (simp add: swap_roundtrip UINT16_MAX_def)
    qed
    have "\<exists>l. rd m (src + 2) 2 = Some l" using r len by (auto simp: rd_def room_def)
    then show ?thesis using medium l
      by (auto simp: head_turn_def h c p Let_def length_code_def header_len_def MEDIUM_MESSAGE_HEADER_def)
  next
    case long
    have l: "cond_byte_swap 8 (le_nat l) = ?n" if "14 \<le> len" "rd m (src + 2) 8 = Some l" for l
    proof -
      have "rd m (src + 2) 8 = Some (take 8 (drop 2 (head_bytes f)))"
        by (rule rd_front [OF st' r]) (use that hl long in \<open>simp_all add: header_len_def UINT16_MAX_def\<close>)
      then have "l = le_bytes 8 (cond_byte_swap 8 ?n)" using that(2) long by (simp add: head_bytes_def ext_bytes_def UINT16_MAX_def)
      moreover have "?n < 256 ^ 8" using small by simp
      ultimately show ?thesis by (simp add: swap_roundtrip)
    qed
    have "\<exists>l. rd m (src + 2) 8 = Some l" using r len by (auto simp: rd_def room_def POST_PADDING_def)
    then show ?thesis using long l
      by (auto simp: head_turn_def h c p Let_def length_code_def header_len_def LONG_MESSAGE_HEADER_def UINT16_MAX_def)
  qed
qed

text \<open>The whole payload is in the read: one call, and the parser stands behind the frame.\<close>

lemma whole_step:
  assumes f: "frame_legal limit cur f" and st: "take len (drop src m) @ rest = frame_bytes f @ later"
    and r: "room m src len" and w: "top_op w = Some op" "wantsHead w" "lastFin w = fr_fin f"
    and n: "length (fr_payload f) + header_len (length (fr_payload f)) \<le> len"
    and hf: "handleFragment imp (fr_payload f) 0 op (fr_fin f) s = (False, s1)"
  shows "\<exists>m' w'. consumeWhole imp True (header_len (length (fr_payload f))) (length (fr_payload f)) (fr_fin f) m src len w s =
      Some (False, m', src + length (frame_bytes f), len - length (frame_bytes f), w', s1) \<and>
    w' = (popped w)\<lparr>spillLength := 0\<rparr> \<and> length m' = length m \<and>
    take (len - length (frame_bytes f)) (drop (src + length (frame_bytes f)) m') @ rest = later"
proof -
  let ?n = "length (fr_payload f)" let ?h = "header_len (length (fr_payload f))"
  let ?L = "length (frame_bytes f)"
  have key: "length (fr_key f) = 4" using f by (simp add: frame_legal_def)
  have hl: "length (head_bytes f) = ?h" by (rule length_head_bytes [OF key])
  have L: "?L = ?n + ?h" using hl by (simp add: frame_bytes_split)
  have len: "src + len + 22 \<le> length m" using r by (simp add: room_def POST_PADDING_def)
  have st': "take len (drop src m) @ rest = head_bytes f @ (xor_from 0 (fr_key f) (fr_payload f) @ later)"
    using st by (simp add: frame_bytes_split)
  have "src + ?h + ?n + 8 \<le> length m" using n len by linarith
  from copyMask_moves [OF header_len_header(2) this] obtain m' where
    m': "unmaskImpreciseCopyMask ?h (src + ?h) ?n m = Some m'" "length m' = length m"
      "take ?n (drop src m') = xor_from 0 (take 4 (drop (src + ?h - 4) m)) (take ?n (drop (src + ?h) m))"
      "\<And>p. src + ?n + ?h \<le> p \<Longrightarrow> drop p m' = drop p m" by blast
  have "rd m (src + (?h - 4)) 4 = Some (take 4 (drop (?h - 4) (head_bytes f)))"
    by (rule rd_front [OF st' r]) (use n hl header_len_header(3) [of ?n] in simp_all)
  moreover have "take 4 (drop (?h - 4) (head_bytes f)) = fr_key f"
  proof -
    have "?h - 4 = length ([first_byte f, of_nat (length_code ?n) OR 0x80] @ ext_bytes ?n)"
      using hl key by (simp add: head_bytes_def)
    then show ?thesis unfolding head_bytes_def append_assoc [symmetric] using key by simp
  qed
  moreover have h4: "src + (?h - 4) = src + ?h - 4" using header_len_header(3) [of ?n] by simp
  ultimately have k: "take 4 (drop (src + ?h - 4) m) = fr_key f" by (simp add: rd_def split: if_splits)
  have "rd m (src + ?h) ?n = Some (take ?n (drop ?h (frame_bytes f)))"
    by (rule rd_front [OF st r]) (use n L in simp_all)
  then have "take ?n (drop (src + ?h) m) = xor_from 0 (fr_key f) (fr_payload f)"
    using hl by (simp add: rd_def frame_bytes_split split: if_splits)
  then have p: "take ?n (drop src m') = fr_payload f" using m'(3) k by (simp add: xor_from_involution)
  have rdp: "rd m' src ?n = Some (fr_payload f)" using p len n m'(2) by (simp add: rd_def)
  have "take (len - ?L) (drop (src + ?L) m') @ rest = later"
  proof -
    have "drop (src + ?L) m' = drop (src + ?L) m" by (rule m'(4)) (simp add: L)
    then have "take (len - ?L) (drop (src + ?L) m') = drop ?L (take len (drop src m))"
      by (simp add: drop_take add.commute)
    moreover have "drop ?L (take len (drop src m) @ rest) = later" unfolding st by simp
    moreover have "?L \<le> length (take len (drop src m))" using len n L by simp
    ultimately show ?thesis by simp
  qed
  moreover have "consumeWhole imp True ?h ?n (fr_fin f) m src len w s =
      Some (False, m', src + ?L, len - ?L, (popped w)\<lparr>spillLength := 0\<rparr>, s1)"
    using m'(1) rdp w hf by (simp add: consumeWhole_def popped_def L)
  ultimately show ?thesis using m'(2) by blast
qed

text \<open>A first part of the payload: one call, and the rest stays to come.\<close>

lemma part_step:
  assumes f: "frame_legal limit cur f" and st: "take len (drop src m) @ rest = frame_bytes f @ stream fs"
    and r: "room m src len" and w: "top_op w = Some op" "lastFin w = fr_fin f" "length (spill w) = 13"
      "stack_rel (next_cur cur f) (popped w)"
    and fs: "legal limit (next_cur cur f) fs"
    and n: "len < length (fr_payload f) + header_len (length (fr_payload f))" "header_len (length (fr_payload f)) \<le> len"
    and d: "d = take (len - header_len (length (fr_payload f))) (fr_payload f)"
    and hf: "handleFragment imp d (length (fr_payload f) - length d) op (fr_fin f) s = (b, s1)"
  shows "\<exists>m' w'. consumePart imp True (header_len (length (fr_payload f))) (length (fr_payload f)) (fr_fin f) m src len w s =
      Some (True, m', src, len, w', s1) \<and> length d < length (fr_payload f) \<and>
    at_body limit w' rest (drop (length d) (fr_payload f)) op (fr_fin f) (next_cur cur f) fs"
proof -
  let ?n = "length (fr_payload f)" let ?h = "header_len (length (fr_payload f))"
  let ?k = "len - ?h"
  have k: "?k < ?n" using n by linarith
  have key: "length (fr_key f) = 4" "?n \<le> limit" using f by (simp_all add: frame_legal_def)
  have hl: "length (head_bytes f) = ?h" by (rule length_head_bytes [OF key(1)])
  have len: "src + len + 22 \<le> length m" using r by (simp add: room_def POST_PADDING_def)
  have st': "take len (drop src m) @ rest = head_bytes f @ (xor_from 0 (fr_key f) (fr_payload f) @ stream fs)"
    using st by (simp add: frame_bytes_split)
  have "rd m (src + (?h - 4)) 4 = Some (take 4 (drop (?h - 4) (head_bytes f)))"
    by (rule rd_front [OF st' r]) (use n(2) hl header_len_header(3) [of ?n] in simp_all)
  moreover have "take 4 (drop (?h - 4) (head_bytes f)) = fr_key f"
  proof -
    have "?h - 4 = length ([first_byte f, of_nat (length_code ?n) OR 0x80] @ ext_bytes ?n)"
      using hl key by (simp add: head_bytes_def)
    then show ?thesis unfolding head_bytes_def append_assoc [symmetric] using key by simp
  qed
  moreover have "src + (?h - 4) = src + ?h - 4" using header_len_header(3) [of ?n] by simp
  ultimately have rk: "rd m (src + ?h - 4) 4 = Some (fr_key f)" by simp
  have "src + ?h + len + 8 \<le> length m" using len header_len_header(4) [of ?n] by linarith
  from partial_unmasks [OF header_len_header(2) this n(2) key(1)] obtain m' where
    m': "unmaskImprecise8 0 (src + ?h) (fr_key f @ fr_key f) len m = Some m'" "length m' = length m"
      "take ?k (drop (src + ?h) m') = xor_from 0 (fr_key f) (take ?k (drop (src + ?h) m))" by blast
  have "rd m (src + ?h) ?k = Some (take ?k (drop ?h (frame_bytes f)))"
    by (rule rd_front [OF st r]) (use n hl k in \<open>simp_all add: frame_bytes_split\<close>)
  then have "take ?k (drop (src + ?h) m) = take ?k (xor_from 0 (fr_key f) (fr_payload f))"
    using hl k by (simp add: rd_def frame_bytes_split split: if_splits)
  then have p: "take ?k (drop (src + ?h) m') = take ?k (fr_payload f)"
    using m'(3) by (simp add: xor_from_involution flip: xor_from_take)
  have rdp: "rd m' (src + ?h) ?k = Some (take ?k (fr_payload f))" using p len m'(2) n(2) by (simp add: rd_def)
  have rem: "nat (int (?n + ?h - len) mod 2 ^ 32) = ?n - ?k"
  proof -
    have small: "nat (int q mod 2 ^ 32) = q" if "int q < 2 ^ 32" for q using that by simp
    have "?n + ?h - len = ?n - ?k" using n by linarith
    moreover have "int (?n - ?k) < 2 ^ 32" using key(2) limit_small by linarith
    ultimately show ?thesis by (simp only: small)
  qed
  let ?w = "w\<lparr>spillLength := 0, wantsHead := False, remainingBytes := ?n - ?k, mask_bytes := rotateMask (4 - ?k mod 4) (fr_key f)\<rparr>"
  have e: "consumePart imp True ?h ?n (fr_fin f) m src len w s =
      Some (True, m', src, len, ?w, s1)"
  proof -
    have t: "top_op ?w = Some op" using w(1) by (simp add: top_op_def split: if_splits)
    have ld: "length d = ?k" using k by (simp add: d)
    note hf' = hf [unfolded ld, unfolded d]
    show ?thesis
      unfolding consumePart_def rem Let_def if_True rk option.case m'(1) prod.case rdp t hf' by (rule refl)
  qed
  have "rest = drop len (take len (drop src m) @ rest)" using len by simp
  also have "\<dots> = drop ?k (xor_from 0 (fr_key f) (fr_payload f) @ stream fs)" unfolding st' using hl n(2) by simp
  also have "\<dots> = xor_from ?k (fr_key f) (drop ?k (fr_payload f)) @ stream fs"
    using k xor_from_drop [of 0 ?k "fr_key f" "fr_payload f"] by simp
  also have "xor_from ?k (fr_key f) (drop ?k (fr_payload f)) =
      xor_from 0 (rotateMask (4 - ?k mod 4) (fr_key f)) (drop ?k (fr_payload f))"
    by (rule xor_from_rotate [OF key(1), symmetric])
  finally have rest: "rest = xor_from 0 (rotateMask (4 - ?k mod 4) (fr_key f)) (drop ?k (fr_payload f)) @ stream fs" .
  have "opStack (popped ?w) = opStack (popped w)" "opCode (popped ?w) = opCode (popped w)" "lastFin (popped ?w) = lastFin (popped w)"
    by (simp_all add: popped_def)
  from stack_rel_cong [OF this] have "stack_rel (next_cur cur f) (popped ?w)" using w(4) by blast
  moreover have "top_op ?w = Some op" using w(1) by (simp add: top_op_def split: if_splits)
  ultimately have "at_body limit ?w rest (drop ?k (fr_payload f)) op (fr_fin f) (next_cur cur f) fs"
    using w fs k rest key(1) rotateMask_nth(1) by (simp add: at_body_def)
  moreover have "length d = ?k" using k by (simp add: d)
  ultimately show ?thesis using e k by (intro exI [of _ m'] exI [of _ ?w]) simp
qed

section \<open>A whole read\<close>

lemma after_whole: "after_call ((p, op, fin) # es) (Fragment p 0 op fin) = Some es"
  by simp

lemma after_part:
  "d = take k p \<Longrightarrow> length d < length p \<Longrightarrow>
   after_call ((p, op, fin) # es) (Fragment d (length p - length d) op fin) = Some ((drop (length d) p, op, fin) # es)"
  by auto

lemma parseNext_tells:
  "take len (drop src m) @ rest = stream fs \<Longrightarrow> room m src len \<Longrightarrow> wantsHead w \<Longrightarrow> legal limit cur fs \<Longrightarrow>
   stack_rel cur w \<Longrightarrow> length (spill w) = 13 \<Longrightarrow> (len = 0 \<longrightarrow> spillLength w = 0) \<Longrightarrow> I s (expected cur fs) \<Longrightarrow>
   tells rest (parseNext imp True m src len w s)"
proof (induction fs arbitrary: len src m w cur s)
  case Nil
  then have "len = 0" by (simp add: room_def POST_PADDING_def)
  then have "parseNext imp True m src len w s = spill_rest True m src len w s"
    by (subst parseNext.simps) (simp add: SHORT_MESSAGE_HEADER_def)
  then show ?case using spill_tells [OF Nil(8, 4, 5, 3, 6, 2) _ Nil(1, 7)] \<open>len = 0\<close> by simp
next
  case (Cons f fs)
  let ?n = "length (fr_payload f)" let ?h = "header_len (length (fr_payload f))"
  have f: "frame_legal limit cur f" "legal limit (next_cur cur f) fs" using Cons.prems(4) by simp_all
  have st: "take len (drop src m) @ rest = frame_bytes f @ stream fs" using Cons.prems(1) by simp
  have small: "int ?n < 2 ^ 32" using f(1) limit_small by (simp add: frame_legal_def)
  have hlen: "?h \<le> length (frame_bytes (hd (f # fs)))"
    using length_head_bytes [of f] f(1) by (simp add: frame_bytes_split frame_legal_def)
  show ?case
  proof (cases "6 \<le> len")
    case False
    then have "parseNext imp True m src len w s = spill_rest True m src len w s"
      by (simp add: parseNext.simps [of _ _ _ _ len] SHORT_MESSAGE_HEADER_def)
    moreover have "len < length (frame_bytes (hd (f # fs)))" using False hlen header_len_header(3) [of ?n] by linarith
    ultimately show ?thesis using spill_tells [OF Cons.prems(8, 4, 5, 3, 6, 2) _ Cons.prems(1, 7)] False by simp
  next
    case True
    have turn: "head_turn imp True m src len w s =
      (if len < ?h then map_option Inl (spill_rest True m src len w s)
       else finishMessage imp True m src len w s ?h ?n)"
      by (rule head_turn_eq [OF f(1) st Cons.prems(2) True small])
    have next_eq: "parseNext imp True m src len w s =
       (case head_turn imp True m src len w s of
          None \<Rightarrow> None | Some (Inl res) \<Rightarrow> Some res
        | Some (Inr (m, src, len, w, s)) \<Rightarrow> parseNext imp True m src len w s)"
      using True by (simp add: parseNext.simps [of _ _ _ _ len] SHORT_MESSAGE_HEADER_def)
    show ?thesis
    proof (cases "len < ?h")
      case True
      then have "len \<le> 13" using header_len_header(4) [of ?n] by linarith
      have "parseNext imp True m src len w s = spill_rest True m src len w s"
        unfolding next_eq turn using True by (cases "spill_rest True m src len w s") simp_all
      moreover have "len < length (frame_bytes (hd (f # fs)))" using True hlen by linarith
      ultimately show ?thesis using spill_tells [OF Cons.prems(8, 4, 5, 3, 6, 2) \<open>len \<le> 13\<close> Cons.prems(1, 7)] by simp
    next
      case False
      obtain k ops where push: "push_op (first_byte f) w = Some (w\<lparr>opStack := k, opCode := ops\<rparr>)"
        "top_op (w\<lparr>opStack := k, opCode := ops, lastFin := fr_fin f\<rparr>) = Some (message_op cur f)"
        "stack_rel (next_cur cur f) (popped (w\<lparr>opStack := k, opCode := ops, lastFin := fr_fin f\<rparr>))"
        using push_legal [OF f(1) Cons.prems(5)] by blast
      define w1 where "w1 = w\<lparr>opStack := k, opCode := ops, lastFin := fr_fin f\<rparr>"
      have w1: "top_op w1 = Some (message_op cur f)" "stack_rel (next_cur cur f) (popped w1)" "lastFin w1 = fr_fin f"
        "wantsHead w1" "length (spill w1) = 13"
        using push Cons.prems by (simp_all add: w1_def)
      have st': "take len (drop src m) @ rest = head_bytes f @ (xor_from 0 (fr_key f) (fr_payload f) @ stream fs)"
        using st by (simp add: frame_bytes_split)
      have "rd m (src + 0) 1 = Some (take 1 (drop 0 (head_bytes f)))"
        by (rule rd_front [OF st' Cons.prems(2)]) (use True in \<open>simp_all add: head_bytes_def\<close>)
      then have h: "rd m src 1 = Some [first_byte f]" by (simp add: head_bytes_def)
      have ref: "\<not> refusePayloadLength imp ?n s" using f(1) by (intro accepts) (simp add: frame_legal_def)
      have "int (?n + ?h) < 2 ^ 64" using small header_len_header(4) [of ?n] by simp
      then have cm: "consumeMessage imp True ?h ?n m src len w s =
          (if ?n + ?h \<le> len then consumeWhole imp True ?h ?n (fr_fin f) m src len w1 s
           else consumePart imp True ?h ?n (fr_fin f) m src len w1 s)"
        unfolding consumeMessage_def h using push(1) ref first_byte_bits(1) [OF legal_op [OF f(1)]]
        by (simp add: w1_def Let_def)
      show ?thesis
      proof (cases "?n + ?h \<le> len")
        case True
        let ?L = "length (frame_bytes f)"
        obtain s1 where s1: "handleFragment imp (fr_payload f) 0 (message_op cur f) (fr_fin f) s = (False, s1)"
          "I s1 (expected (next_cur cur f) fs)"
          using takes [OF Cons.prems(8) [unfolded expected.simps] after_whole] by blast
        obtain m' w' where m': "consumeWhole imp True ?h ?n (fr_fin f) m src len w1 s =
            Some (False, m', src + ?L, len - ?L, w', s1)"
          "w' = (popped w1)\<lparr>spillLength := 0\<rparr>" "length m' = length m"
          "take (len - ?L) (drop (src + ?L) m') @ rest = stream fs"
          using whole_step [OF f(1) st Cons.prems(2) w1(1, 4, 3) True s1(1)] by blast
        have L: "?L \<le> len" using True length_head_bytes [of f] f(1) by (simp add: frame_bytes_split frame_legal_def)
        have r': "room m' (src + ?L) (len - ?L)" using Cons.prems(2) m'(3) L by (simp add: room_def)
        have "opStack w' = opStack (popped w1)" "opCode w' = opCode (popped w1)" "lastFin w' = lastFin (popped w1)"
          by (simp_all add: m'(2))
        from stack_rel_cong [OF this] have s': "stack_rel (next_cur cur f) w'" using w1(2) by blast
        have w': "wantsHead w'" "length (spill w') = 13" "spillLength w' = 0" using w1 by (simp_all add: m'(2) popped_def)
        have e: "parseNext imp True m src len w s =
            parseNext imp True m' (src + ?L) (len - ?L) w' s1"
          unfolding next_eq turn finishMessage_def cm m'(1) using False True by simp
        show ?thesis unfolding e
          by (rule Cons.IH [OF m'(4) r' w'(1) f(2) s' w'(2) _ s1(2)]) (simp add: w'(3))
      next
        case part: False
        then have lt: "len < ?n + ?h" by simp
        have ge: "?h \<le> len" using False by simp
        define d where "d = take (len - ?h) (fr_payload f)"
        have "length d < ?n" using lt ge by (simp add: d_def)
        from after_part [OF d_def this] obtain s1 where
          s1: "handleFragment imp d (?n - length d) (message_op cur f) (fr_fin f) s = (False, s1)"
            "I s1 ((drop (length d) (fr_payload f), message_op cur f, fr_fin f) # expected (next_cur cur f) fs)"
          using takes [OF Cons.prems(8) [unfolded expected.simps]] by blast
        obtain m' w' where m': "consumePart imp True ?h ?n (fr_fin f) m src len w1 s =
            Some (True, m', src, len, w', s1)" "length d < ?n"
          "at_body limit w' rest (drop (length d) (fr_payload f)) (message_op cur f) (fr_fin f) (next_cur cur f) fs"
          using part_step [OF f(1) st Cons.prems(2) w1(1, 3, 5, 2) f(2) lt ge d_def s1(1)] by blast
        have e: "parseNext imp True m src len w s = Some (m', w', s1)"
          unfolding next_eq turn finishMessage_def cm m'(1) using False part m'(1) by simp
        show ?thesis unfolding e by (rule tells_now [OF between_body [OF m'(3)] s1(2)])
      qed
    qed
  qed
qed

lemma rest_tells:
  assumes b: "at_body limit w (take len (drop src m) @ rest) p op fin cur fs" and r: "room m src len"
    and n: "length p \<le> len" and I: "I s ((p, op, fin) # expected cur fs)"
  shows "\<exists>m' w' s'. consumeContinuation imp True recvLength m src len w s =
      Some (True, m', src + length p, len - length p, w', s') \<and>
    tells rest (parseNext imp True m' (src + length p) (len - length p) w' s')"
proof -
  obtain s1 where s1: "handleFragment imp p 0 op fin s = (False, s1)" "I s1 (expected cur fs)"
    using takes [OF I after_whole] by blast
  let ?n = "length p"
  have w: "remainingBytes w = ?n" "length (mask_bytes w) = 4" "top_op w = Some op" "lastFin w = fin" "legal limit cur fs"
    "stack_rel cur (popped w)" "spillLength w = 0" "length (spill w) = 13"
    and rest: "take len (drop src m) @ rest = xor_from 0 (mask_bytes w) p @ stream fs"
    using b by (simp_all add: at_body_def)
  have len: "src + len + 22 \<le> length m" using r by (simp add: room_def POST_PADDING_def)
  then have "src + ?n \<le> length m" using n by linarith
  from rest_unmasks [OF this w(2)] obtain m1 m' where
    m': "unmaskInplace src (src + ?n div 4 * 4) (mask_bytes w) m = Some m1"
      "xor_rest (?n mod 4) 0 (src + ?n div 4 * 4) (mask_bytes w) m1 = Some m'" "length m' = length m"
      "take ?n (drop src m') = xor_from 0 (mask_bytes w) (take ?n (drop src m))" "\<And>q. src + ?n \<le> q \<Longrightarrow> drop q m' = drop q m"
    by blast
  have "rd m (src + 0) ?n = Some (take ?n (drop 0 (xor_from 0 (mask_bytes w) p)))"
    by (rule rd_front [OF rest r]) (use n in simp_all)
  then have "take ?n (drop src m) = xor_from 0 (mask_bytes w) p" by (simp add: rd_def split: if_splits)
  then have p: "rd m' src ?n = Some p" using m'(3, 4) len n by (simp add: rd_def xor_from_involution)
  let ?w = "(popped w)\<lparr>wantsHead := True\<rparr>"
  have e: "consumeContinuation imp True recvLength m src len w s =
      Some (True, m', src + ?n, len - ?n, ?w, s1)"
    unfolding consumeContinuation_def w(1) using n m'(1, 2) p w s1(1) by (simp add: popped_def Let_def)
  have "drop ?n (take len (drop src m) @ rest) = stream fs" unfolding rest by simp
  moreover have "?n \<le> length (take len (drop src m))" using len n by simp
  ultimately have "drop ?n (take len (drop src m)) @ rest = stream fs" by simp
  moreover have "take (len - ?n) (drop (src + ?n) m') = drop ?n (take len (drop src m))"
    by (simp add: drop_take m'(5) add.commute)
  ultimately have st: "take (len - ?n) (drop (src + ?n) m') @ rest = stream fs" by simp
  have r': "room m' (src + ?n) (len - ?n)" using r n m'(3) by (simp add: room_def)
  have "stack_rel cur ?w" using w(6) stack_rel_cong [of ?w "popped w" cur] by simp
  moreover have "wantsHead ?w" "length (spill ?w) = 13" "spillLength ?w = 0" using w by (simp_all add: popped_def)
  ultimately show ?thesis using e parseNext_tells [OF st r' _ w(5) _ _ _ s1(2), of ?w] by blast
qed

lemma piece_tells:
  assumes b: "at_body limit w (take len (drop src m) @ rest) p op fin cur fs" and r: "room m src len"
    and n: "len < length p" and I: "I s ((p, op, fin) # expected cur fs)"
  shows "\<exists>m' w' s'. consumeContinuation imp True recvLength m src len w s = Some (False, m', src, len, w', s') \<and>
    tells rest (Some (m', w', s'))"
proof -
  have "length (take len p) < length p" using n by simp
  from takes [OF I after_part [OF refl this]] n obtain s1 where
    s1: "handleFragment imp (take len p) (length p - len) op fin s = (False, s1)" "I s1 ((drop len p, op, fin) # expected cur fs)"
    by auto
  have w: "remainingBytes w = length p" "length (mask_bytes w) = 4" "top_op w = Some op" "lastFin w = fin" "legal limit cur fs"
    "stack_rel cur (popped w)" "spillLength w = 0" "length (spill w) = 13" "\<not> wantsHead w"
    and rest: "take len (drop src m) @ rest = xor_from 0 (mask_bytes w) p @ stream fs"
    using b by (simp_all add: at_body_def)
  have len: "src + len + 22 \<le> length m" using r by (simp add: room_def POST_PADDING_def)
  have "rd m (src + 0) len = Some (take len (drop 0 (xor_from 0 (mask_bytes w) p)))"
    by (rule rd_front [OF rest r]) (use n in simp_all)
  then have d: "take len (drop src m) = take len (xor_from 0 (mask_bytes w) p)" by (simp add: rd_def split: if_splits)
  have "\<exists>m'. (if mask_bytes w \<noteq> [0, 0, 0, 0] then piece_unmask recvLength m src len (mask_bytes w) else Some m) = Some m' \<and>
      length m' = length m \<and> take len (drop src m') = xor_from 0 (mask_bytes w) (take len (drop src m))"
    using piece_unmasks [of src len m "mask_bytes w" recvLength] len w(2) xor_from_zero by auto
  then obtain m' where m': "(if mask_bytes w \<noteq> [0, 0, 0, 0] then piece_unmask recvLength m src len (mask_bytes w) else Some m) = Some m'"
      "length m' = length m" "take len (drop src m') = xor_from 0 (mask_bytes w) (take len (drop src m))" by blast
  have p: "rd m' src len = Some (take len p)"
    using m'(2, 3) len unfolding d by (simp add: rd_def xor_from_involution flip: xor_from_take)
  define w1 where "w1 = w\<lparr>remainingBytes := length p - len\<rparr>"
  define w2 where "w2 = (if len mod 4 \<noteq> 0 then w1\<lparr>mask_bytes := rotateMask (4 - len mod 4) (mask_bytes w)\<rparr> else w1)"
  have t: "top_op w1 = Some op" using w(3) by (simp add: top_op_def w1_def split: if_splits)
  have e: "consumeContinuation imp True recvLength m src len w s =
      Some (False, m', src, len, w2, s1)"
  proof -
    have n': "\<not> remainingBytes w \<le> len" using n w(1) by simp
    have m1: "(if True \<and> mask_bytes w \<noteq> [0, 0, 0, 0] then piece_unmask recvLength m src len (mask_bytes w) else Some m) = Some m'"
      using m'(1) by simp
    have w1: "w\<lparr>remainingBytes := remainingBytes w - len\<rparr> = w1" by (simp add: w1_def w(1))
    have f: "lastFin w1 = fin" "remainingBytes w1 = length p - len" "mask_bytes w1 = mask_bytes w" using w(4) by (simp_all add: w1_def)
    show ?thesis
      unfolding consumeContinuation_def piece_unmask_def [symmetric] if_not_P [OF n'] m1 option.case Let_def w1 p t prod.case f s1(1)
      by (simp add: w2_def)
  qed
  have key: "length (mask_bytes w2) = 4" "xor_from 0 (mask_bytes w2) q = xor_from len (mask_bytes w) q" for q
    using w(2) rotateMask_nth(1) [OF w(2)] xor_from_rotate [OF w(2), of len q] xor_from_mod4 [of len "mask_bytes w" q]
    by (simp_all add: w2_def w1_def)
  have "drop len (take len (drop src m) @ rest) = drop len (xor_from 0 (mask_bytes w) p) @ stream fs"
    unfolding rest using n by simp
  moreover have "length (take len (drop src m)) = len" using len by simp
  ultimately have "rest = xor_from 0 (mask_bytes w2) (drop len p) @ stream fs"
    using xor_from_drop [of 0 len "mask_bytes w" p] key(2) by simp
  moreover have "stack_rel cur (popped w2)"
    using w(6) stack_rel_cong [of "popped w2" "popped w" cur] by (simp add: popped_def w2_def w1_def)
  moreover have "top_op w2 = Some op" using t by (simp add: top_op_def w2_def split: if_splits)
  ultimately have "at_body limit w2 rest (drop len p) op fin cur fs"
    using w n key(1) by (simp add: at_body_def w2_def w1_def)
  from tells_now [OF between_body [OF this] s1(2)] show ?thesis using e by blast
qed

lemma consume_tells:
  assumes w: "between limit w (d @ rest) E" and I: "I s E" and pad: "padded True (pre, d, post)"
  shows "tells rest (consume imp True recvLength (pre @ d @ post) (length pre) (length d) w s)"
proof -
  have pre: "13 \<le> length pre" "POST_PADDING \<le> length post" using pad by (simp_all add: padded_def LONG_MESSAGE_HEADER_def)
  from w consider (head) cur fs where "at_head limit w (d @ rest) cur fs" "E = expected cur fs"
    | (body) p op fin cur fs where "at_body limit w (d @ rest) p op fin cur fs" "E = (p, op, fin) # expected cur fs"
    unfolding between_def by blast
  then show ?thesis
  proof cases
    case head
    let ?k = "spillLength w"
    have h: "wantsHead w" "legal limit cur fs" "stack_rel cur w" "length (spill w) = 13" "?k \<le> 13"
      "take ?k (spill w) @ d @ rest = stream fs" using head by (simp_all add: at_head_def)
    let ?m = "take (length pre - ?k) pre @ take ?k (spill w) @ d @ post"
    have "wr (pre @ d @ post) (length pre - ?k) (take ?k (spill w)) = Some ?m"
      using pre h by (simp add: wr_def)
    then have e: "consume imp True recvLength (pre @ d @ post) (length pre) (length d) w s =
        parseNext imp True ?m (length pre - ?k) (length d + ?k) w s"
      using h pre by (cases "?k = 0") (simp_all add: consume_def)
    have st: "take (length d + ?k) (drop (length pre - ?k) ?m) @ rest = stream fs" using h pre by simp
    have r: "room ?m (length pre - ?k) (length d + ?k)" using pre h by (simp add: room_def)
    show ?thesis unfolding e by (rule parseNext_tells [OF st r h(1-4) _ I [unfolded head(2)]]) simp
  next
    case body
    let ?m = "pre @ d @ post"
    have b: "\<not> wantsHead w" "spillLength w = 0" using body by (simp_all add: at_body_def)
    have b': "at_body limit w (take (length d) (drop (length pre) ?m) @ rest) p op fin cur fs" using body by simp
    have r: "room ?m (length pre) (length d)" using pre by (simp add: room_def)
    show ?thesis
    proof (cases "length p \<le> length d")
      case True
      from rest_tells [OF b' r True I [unfolded body(2)], of recvLength] obtain m' w' s' where
        c: "consumeContinuation imp True recvLength ?m (length pre) (length d) w s =
          Some (True, m', length pre + length p, length d - length p, w', s')"
        "tells rest (parseNext imp True m' (length pre + length p) (length d - length p) w' s')"
        by blast
      show ?thesis unfolding consume_def using b c by simp
    next
      case False
      then have "length d < length p" by simp
      from piece_tells [OF b' r this I [unfolded body(2)], of recvLength] obtain m' w' s' where
        c: "consumeContinuation imp True recvLength ?m (length pre) (length d) w s = Some (False, m', length pre, length d, w', s')"
        "tells rest (Some (m', w', s'))"
        by blast
      show ?thesis unfolding consume_def using b c by simp
    qed
  qed
qed

section \<open>Any sequence of reads\<close>

lemma reads_tell:
  "between limit w (concat (map (\<lambda>(pre, d, post). d) rs)) E \<Longrightarrow> I s E \<Longrightarrow> list_all (padded True) rs \<Longrightarrow>
   \<exists>w' s' E'. ws_reads imp True recvLength rs w s = Some (w', s') \<and> I s' E' \<and> between limit w' [] E'"
proof (induction rs arbitrary: w E s)
  case Nil
  then show ?case by (intro exI [of _ w] exI [of _ s] exI [of _ E]) simp
next
  case (Cons r rs)
  obtain pre d post where r: "r = (pre, d, post)" by (metis prod_cases3)
  let ?rest = "concat (map (\<lambda>(pre, d, post). d) rs)"
  have "between limit w (d @ ?rest) E" using Cons.prems(1) r by simp
  moreover have "padded True (pre, d, post)" using Cons.prems(3) r by simp
  ultimately have "tells ?rest (consume imp True recvLength (pre @ d @ post) (length pre) (length d) w s)"
    using consume_tells Cons.prems(2) by blast
  then obtain m1 w1 s1 E1 where
    1: "consume imp True recvLength (pre @ d @ post) (length pre) (length d) w s = Some (m1, w1, s1)"
      "I s1 E1" "between limit w1 ?rest E1"
    unfolding tells_def by blast
  obtain w2 s2 E2 where
    2: "ws_reads imp True recvLength rs w1 s1 = Some (w2, s2)" "I s2 E2" "between limit w2 [] E2"
    using Cons.IH [OF 1(3, 2)] Cons.prems(3) unfolding list.pred_inject(2) by blast
  show ?case
    by (rule exI [of _ w2], rule exI [of _ s2], rule exI [of _ E2]) (use r 1 2 in simp)
qed

end

lemma frame_bytes_not_Nil: "frame_bytes f \<noteq> []"
  by (simp add: frame_bytes_split head_bytes_def)

lemma between_end: "between limit w [] E \<Longrightarrow> E = []"
proof -
  assume b: "between limit w [] E"
  have "fs = []" if h: "at_head limit w [] cur fs" for cur fs
  proof (rule ccontr)
    assume "fs \<noteq> []"
    then obtain f fs' where fs: "fs = f # fs'" by (cases fs) auto
    have "take (spillLength w) (spill w) @ [] = stream fs" "spillLength w < length (frame_bytes f)"
      using h fs by (simp_all add: at_head_def)
    moreover have "length (frame_bytes f) \<le> length (stream fs)" using fs by simp
    ultimately show False by (metis append_Nil2 leD le_trans length_take min.cobounded2)
  qed
  moreover have "\<not> at_body limit w [] p op fin cur fs" for p op fin cur fs
  proof
    assume "at_body limit w [] p op fin cur fs"
    then have "p \<noteq> []" "length (xor_from 0 (mask_bytes w) p) = 0" by (simp_all add: at_body_def)
    then show False by simp
  qed
  ultimately show "E = []" using b unfolding between_def by (metis expected.simps(1))
qed

lemma at_head_initial:
  assumes "legal limit None fs" "concat (map (\<lambda>(pre, d, post). d) rs) = concat (map frame_bytes fs)"
  shows "at_head limit (initial_ws True) (concat (map (\<lambda>(pre, d, post). d) rs)) None fs"
  using assms frame_bytes_not_Nil
  by (simp add: at_head_def initial_ws_def stack_rel_def LONG_MESSAGE_HEADER_def stream_def)

text \<open>The consumer that only records what it is told.\<close>

definition recorded :: "(byte list \<times> byte \<times> bool) list \<Rightarrow> WsCall list \<Rightarrow> (byte list \<times> byte \<times> bool) list \<Rightarrow> bool" where
  "recorded E0 log E \<longleftrightarrow> after_calls E0 log = Some E"

definition small_limit :: "nat \<Rightarrow> nat" where
  "small_limit limit = (if int limit < 2 ^ 32 then limit else 0)"

interpretation rec: fragment_consumer "recorder (small_limit limit)" "small_limit limit" "recorded E0" for limit E0
proof
  show "int (small_limit limit) < 2 ^ 32" by (simp add: small_limit_def)
  show "\<not> refusePayloadLength (recorder (small_limit limit)) n s" if "n \<le> small_limit limit" for n s
    using that by (simp add: recorder_def)
  show "\<exists>s'. handleFragment (recorder (small_limit limit)) d r op fin s = (False, s') \<and> recorded E0 s' E'"
    if "recorded E0 s E" "after_call E (Fragment d r op fin) = Some E'" for s E d r op fin E'
    using that after_calls_append [of E0 s E "[Fragment d r op fin]"] by (simp add: recorded_def recorder_def)
qed

text \<open>C24: The bytes of any legal sequence of masked frames, written with \<open>formatMessage\<close> by a client
  and received in reads cut anywhere, reach \<open>handleFragment\<close> of the server as exactly their
  payloads: unmasked, in order, nothing lost or repeated, each fragment with the exact number of
  bytes of the frame still to come, the opcode of its message (also when control frames
  interrupt it) and the frame's FIN bit. No frame is refused and no access leaves the buffer.\<close>

theorem websocket_stream_delivered:
  assumes "legal limit None fs" "int limit < 2 ^ 32"
    and "concat (map (\<lambda>(pre, d, post). d) rs) = concat (map frame_bytes fs)"
    and "list_all (padded True) rs"
  shows "\<exists>w' calls. ws_reads (recorder limit) True recvLength rs (initial_ws True) [] = Some (w', calls) \<and>
    after_calls (expected None fs) calls = Some []"
proof -
  have limit: "small_limit limit = limit" using assms(2) by (simp add: small_limit_def)
  have "recorded (expected None fs) [] (expected None fs)" by (simp add: recorded_def)
  from rec.reads_tell [of limit, unfolded limit, OF between_head [OF at_head_initial [OF assms(1, 3)]] this assms(4), of recvLength]
  obtain w' calls E' where r: "ws_reads (recorder limit) True recvLength rs (initial_ws True) [] = Some (w', calls)"
    "recorded (expected None fs) calls E'" "between limit w' [] E'" by blast
  from r(1, 2) show ?thesis unfolding between_end [OF r(3)] recorded_def by blast
qed

text \<open>A text message in two frames with a ping between them, in three reads.\<close>

definition example_frames :: "Frame list" where
  "example_frames =
    [\<lparr>fr_fin = False, fr_op = 1, fr_key = [1, 2, 3, 4], fr_payload = [72, 101, 108]\<rparr>,
     \<lparr>fr_fin = True, fr_op = 9, fr_key = [5, 6, 7, 8], fr_payload = [33]\<rparr>,
     \<lparr>fr_fin = True, fr_op = 0, fr_key = [9, 10, 11, 12], fr_payload = [108, 111]\<rparr>]"

definition example_reads :: "(byte list \<times> byte list \<times> byte list) list" where
  "example_reads =
    (let bs = concat (map frame_bytes example_frames); pad = (\<lambda>d. (replicate 13 7, d, replicate 22 9))
     in [pad (take 5 bs), pad (take 9 (drop 5 bs)), pad (drop 14 bs)])"

theorem websocket_stream_delivered_witness:
  "\<exists>w' calls. ws_reads (recorder 100) True 524288 example_reads (initial_ws True) [] = Some (w', calls) \<and>
    after_calls (expected None example_frames) calls = Some []"
proof (rule websocket_stream_delivered)
  show "legal 100 None example_frames"
    by (simp add: example_frames_def frame_legal_def next_cur_def control_def)
  let ?bs = "concat (map frame_bytes example_frames)"
  have "take 5 ?bs @ take 9 (drop 5 ?bs) @ drop 14 ?bs = ?bs"
    using append_take_drop_id [of 5 ?bs] append_take_drop_id [of 9 "drop 5 ?bs"] by (simp add: add.commute)
  then show "concat (map (\<lambda>(pre, d, post). d) example_reads) = ?bs" by (simp add: example_reads_def Let_def)
  show "list_all (padded True) example_reads"
    by (simp add: example_reads_def Let_def padded_def POST_PADDING_def LONG_MESSAGE_HEADER_def)
qed simp

end
