(* ===== verification/Ws_Close.thy ===== *)
theory Ws_Close
  imports Ws_Stream
begin

text \<open>
  The frames a server writes: close payloads read back what was formatted and nothing else passes,
  and a frame takes exactly the bytes that were reserved for it. Then sequences of frames that
  RFC 6455 forbids and the parser takes, and the padding it really needs.
\<close>

section \<open>Close payloads\<close>

definition valid_close_code :: "nat \<Rightarrow> bool" where
  "valid_close_code c \<longleftrightarrow> 1000 \<le> c \<and> c \<le> 1003 \<or> 1007 \<le> c \<and> c \<le> 1011 \<or> 4000 \<le> c \<and> c \<le> 4999"

lemma format_close:
  "c \<noteq> 0 \<Longrightarrow> c \<noteq> 1005 \<Longrightarrow> c \<noteq> 1006 \<Longrightarrow> formatClosePayload c (Some m) = le_bytes 2 (cond_byte_swap 2 c) @ m"
  by (simp add: formatClosePayload_def)

lemma swap_swap_2: "v < 65536 \<Longrightarrow> cond_byte_swap 2 (cond_byte_swap 2 v) = v"
  using byte_swap_involution [of v 2] by (simp add: cond_byte_swap_def)

lemma parse_format_close:
  assumes "valid_close_code c" "utf8_text m"
  shows "parseClosePayload (formatClosePayload c (Some m)) = \<lparr>close_code = c, close_message = m\<rparr>"
proof -
  have c: "c \<noteq> 0" "c \<noteq> 1005" "c \<noteq> 1006" "c < 65536" "1000 \<le> c" "c \<le> 4999" "\<not> (1011 < c \<and> c < 4000)" "\<not> (1004 \<le> c \<and> c \<le> 1006)"
    using assms(1) by (auto simp: valid_close_code_def)
  have "cond_byte_swap 2 (le_nat (le_bytes 2 (cond_byte_swap 2 c))) = c" using swap_roundtrip [of c 2] c(4) by simp
  moreover have "isValidUtf8 m" using assms(2) utf8_scan_complete isValidUtf8_scan by (auto simp: utf8_text_def)
  ultimately show ?thesis using c by (simp add: format_close parseClosePayload_def)
qed

lemma parse_close_inv:
  assumes "parseClosePayload src = \<lparr>close_code = c, close_message = m\<rparr>" "c \<noteq> 1005" "c \<noteq> 1006"
  shows "valid_close_code c \<and> utf8_text m \<and> src = formatClosePayload c (Some m)"
proof -
  have l: "2 \<le> length src" using assms by (auto simp: parseClosePayload_def split: if_splits)
  have e: "c = cond_byte_swap 2 (le_nat (take 2 src))" "m = drop 2 src" "valid_close_code c" "isValidUtf8 m"
    using assms l by (auto simp: parseClosePayload_def Let_def valid_close_code_def split: if_splits)
  have "le_nat (take 2 src) < 65536" using le_nat_less [of "take 2 src"] l by simp
  then have "cond_byte_swap 2 c = le_nat (take 2 src)" unfolding e(1) by (rule swap_swap_2)
  then have "le_bytes 2 (cond_byte_swap 2 c) = take 2 src" using le_bytes_le_nat [of "take 2 src"] l by simp
  moreover have "c \<noteq> 0" using e(3) by (auto simp: valid_close_code_def)
  moreover have "utf8_text m" using e(4) utf8_scan_sound isValidUtf8_scan by simp
  ultimately show ?thesis using e(2, 3) assms(2, 3) by (simp add: format_close)
qed


text \<open>RFC 6455, section 7.4.2, reserves 3000 to 3999 for libraries and frameworks.\<close>

lemma registered_code_refused:
  "parseClosePayload (formatClosePayload 3000 (Some [])) = \<lparr>close_code = 1006, close_message = ERR_INVALID_CLOSE_PAYLOAD\<rparr>"
  using swap_roundtrip [of 3000 2] by (simp add: parseClosePayload_def format_close)

section \<open>The size of a frame\<close>

text \<open>A server's frame has exactly the size that \<open>messageFrameSize\<close> reserves for it in
  the send buffer, and a client's frame four bytes more, for every length, opcode and flag.\<close>

theorem frame_size_exact:
  "length (formatMessage True random src op (length src) compressed fin) = messageFrameSize (length src) \<and>
   length (formatMessage False [k0, k1, k2, k3] src op (length src) compressed fin) = messageFrameSize (length src) + 4"
  by (simp add: formatMessage_def messageFrameSize_def Let_def maskLoop_xor_from)

section \<open>What the parser does not refuse\<close>

definition fragment_of :: "byte \<Rightarrow> bool \<Rightarrow> byte list \<Rightarrow> byte list" where
  "fragment_of op fin payload = formatMessage False [0, 0, 0, 0] payload op (length payload) False fin"

lemma padding_evals:
  "replicate 13 x = [x, x, x, x, x, x, x, x, x, x, x, x, x]" "replicate 4 x = [x, x, x, x]"
  "replicate 22 x = [x, x, x, x, x, x, x, x, x, x, x, x, x, x, x, x, x, x, x, x, x, x]"
  by (simp_all add: numeral_eq_Suc)

lemmas frame_evals = padding_evals
  fragment_of_def formatMessage_def consume_def head_turn_def check_head_def bad_head_def finishMessage_def consumeMessage_def
  consumeWhole_def consumePart_def push_op_def top_op_def spill_rest_def initial_ws_def recorder_def rd_def wr_def
  unmaskImpreciseCopyMask_def unmaskImprecise4_def unmaskImprecise8_def xor_step_def xor_words.simps parseNext.simps
  rsv1_def rsv23_def getOpCode_def isFin_def payloadLength_def cond_byte_swap_def Let_def
  SHORT_MESSAGE_HEADER_def MEDIUM_MESSAGE_HEADER_def LONG_MESSAGE_HEADER_def

text \<open>
  A text message is in progress; a BINARY frame is taken in its middle, because only opcodes below
  2 are tested, and both then have the opcode stack of a control frame.
\<close>

lemma binary_inside_text:
  "map_option snd (ws_reads (recorder 100) True 524288
     [(replicate 13 0, fragment_of 1 False [97] @ fragment_of 2 True [98] @ fragment_of 0 True [99], replicate 22 0)]
     (initial_ws True) []) =
   Some [Fragment [97] 0 1 False, Fragment [98] 0 2 True, Fragment [99] 0 1 True]"
  by (simp add: frame_evals)

text \<open>After a control frame inside a message, even a TEXT frame is taken: \<open>lastFin\<close> is its FIN bit.\<close>

lemma text_inside_text:
  "map_option snd (ws_reads (recorder 100) True 524288
     [(replicate 13 0, fragment_of 1 False [97] @ fragment_of 9 True [] @ fragment_of 1 True [98] @ fragment_of 0 True [99], replicate 22 0)]
     (initial_ws True) []) =
   Some [Fragment [97] 0 1 False, Fragment [] 0 9 True, Fragment [98] 0 1 True, Fragment [99] 0 1 True]"
  by (simp add: frame_evals)

text \<open>
  Four bytes behind the read, the documented \<open>CONSUME_POST_PADDING\<close>, are not enough: of a frame with a
  medium header the first eight bytes have arrived, and 16 bytes behind them are unmasked.
\<close>

definition CONSUME_POST_PADDING :: nat where "CONSUME_POST_PADDING = 4"

lemma padding_too_small:
  "consume (recorder 1000) True 524288
     (replicate 13 0 @ take 8 (fragment_of 2 True (replicate 200 7)) @ replicate CONSUME_POST_PADDING 0)
     13 8 (initial_ws True) [] = None"
  using swap_roundtrip [of 200 2] by (simp add: frame_evals CONSUME_POST_PADDING_def UINT16_MAX_def)

end
