(* ===== verification/Ws_Handshake.thy ===== *)
theory Ws_Handshake
  imports Uws_Prelude
begin

text \<open>
  \<open>WebSocketHandshake.h\<close>: the \<open>Sec-WebSocket-Accept\<close> value of an upgrade response. The code has
  its own SHA-1, unrolled by templates: the working variables \<open>a[5]\<close> are never moved, the indices
  rotate instead, and the message schedule is computed inside a ring \<open>b[16]\<close> of words. The first
  block (key and GUID) and the second one (padding and length) are spelt as constants.

  The specification is the standard's: \<open>sha1_digest\<close> pads any message, expands the schedule of 80
  words and moves five working variables; \<open>base64_encode\<close> encodes any list of bytes.
  \<open>handshake_accept_value\<close> says that \<open>generate\<close> is the encoded digest of key and GUID.
\<close>

section \<open>The code\<close>

subsection \<open>Unrolled loops and word operations\<close>

primrec static_for :: "nat \<Rightarrow> (nat \<Rightarrow> u32 list \<times> u32 list \<Rightarrow> u32 list \<times> u32 list) \<Rightarrow>
    u32 list \<times> u32 list \<Rightarrow> u32 list \<times> u32 list" where
  "static_for 0 f s = s"
| "static_for (Suc n) f s = f n (static_for n f s)"

definition rol :: "u32 \<Rightarrow> nat \<Rightarrow> u32" where
  "rol v bits = (push_bit bits v) OR (drop_bit (32 - bits) v)"

definition blk :: "u32 list \<Rightarrow> nat \<Rightarrow> u32" where
  "blk b i = rol (b ! ((i + 13) AND 15) XOR b ! ((i + 8) AND 15) XOR b ! ((i + 2) AND 15) XOR b ! i) 1"

subsection \<open>The rounds\<close>

definition sha1Loop1 :: "nat \<Rightarrow> u32 list \<times> u32 list \<Rightarrow> u32 list \<times> u32 list" where
  "sha1Loop1 i s = (case s of (a, b) \<Rightarrow>
     let a = a[i mod 5 := a ! (i mod 5) +
           (((a ! ((3 + i) mod 5) AND (a ! ((2 + i) mod 5) XOR a ! ((1 + i) mod 5))) XOR a ! ((1 + i) mod 5))
            + b ! i + 0x5a827999 + rol (a ! ((4 + i) mod 5)) 5)];
         a = a[(3 + i) mod 5 := rol (a ! ((3 + i) mod 5)) 30]
     in (a, b))"

definition sha1Loop2 :: "nat \<Rightarrow> u32 list \<times> u32 list \<Rightarrow> u32 list \<times> u32 list" where
  "sha1Loop2 i s = (case s of (a, b) \<Rightarrow>
     let b = b[i := blk b i];
         a = a[(1 + i) mod 5 := a ! ((1 + i) mod 5) +
           (((a ! ((4 + i) mod 5) AND (a ! ((3 + i) mod 5) XOR a ! ((2 + i) mod 5))) XOR a ! ((2 + i) mod 5))
            + b ! i + 0x5a827999 + rol (a ! ((5 + i) mod 5)) 5)];
         a = a[(4 + i) mod 5 := rol (a ! ((4 + i) mod 5)) 30]
     in (a, b))"

definition sha1Loop3 :: "nat \<Rightarrow> u32 list \<times> u32 list \<Rightarrow> u32 list \<times> u32 list" where
  "sha1Loop3 i s = (case s of (a, b) \<Rightarrow>
     let b = b[(i + 4) mod 16 := blk b ((i + 4) mod 16)];
         a = a[i mod 5 := a ! (i mod 5) +
           ((a ! ((3 + i) mod 5) XOR a ! ((2 + i) mod 5) XOR a ! ((1 + i) mod 5))
            + b ! ((i + 4) mod 16) + 0x6ed9eba1 + rol (a ! ((4 + i) mod 5)) 5)];
         a = a[(3 + i) mod 5 := rol (a ! ((3 + i) mod 5)) 30]
     in (a, b))"

definition sha1Loop4 :: "nat \<Rightarrow> u32 list \<times> u32 list \<Rightarrow> u32 list \<times> u32 list" where
  "sha1Loop4 i s = (case s of (a, b) \<Rightarrow>
     let b = b[(i + 8) mod 16 := blk b ((i + 8) mod 16)];
         a = a[i mod 5 := a ! (i mod 5) +
           ((((a ! ((3 + i) mod 5) OR a ! ((2 + i) mod 5)) AND a ! ((1 + i) mod 5))
             OR (a ! ((3 + i) mod 5) AND a ! ((2 + i) mod 5)))
            + b ! ((i + 8) mod 16) + 0x8f1bbcdc + rol (a ! ((4 + i) mod 5)) 5)];
         a = a[(3 + i) mod 5 := rol (a ! ((3 + i) mod 5)) 30]
     in (a, b))"

definition sha1Loop5 :: "nat \<Rightarrow> u32 list \<times> u32 list \<Rightarrow> u32 list \<times> u32 list" where
  "sha1Loop5 i s = (case s of (a, b) \<Rightarrow>
     let b = b[(i + 12) mod 16 := blk b ((i + 12) mod 16)];
         a = a[i mod 5 := a ! (i mod 5) +
           ((a ! ((3 + i) mod 5) XOR a ! ((2 + i) mod 5) XOR a ! ((1 + i) mod 5))
            + b ! ((i + 12) mod 16) + 0xca62c1d6 + rol (a ! ((4 + i) mod 5)) 5)];
         a = a[(3 + i) mod 5 := rol (a ! ((3 + i) mod 5)) 30]
     in (a, b))"

definition sha1Loop6 :: "nat \<Rightarrow> u32 list \<times> u32 list \<Rightarrow> u32 list \<times> u32 list" where
  "sha1Loop6 i s = (case s of (a, b) \<Rightarrow> (a, b[i := b ! i + a ! (4 - i)]))"

text \<open>\<open>sha1\<close> returns the new contents of both arrays, \<open>hash\<close> and the block.\<close>

definition sha1 :: "u32 list \<Rightarrow> u32 list \<Rightarrow> u32 list \<times> u32 list" where
  "sha1 hash b =
     (let a = [hash ! 4, hash ! 3, hash ! 2, hash ! 1, hash ! 0];
          (a, b) = static_for 16 sha1Loop1 (a, b);
          (a, b) = static_for 4 sha1Loop2 (a, b);
          (a, b) = static_for 20 sha1Loop3 (a, b);
          (a, b) = static_for 20 sha1Loop4 (a, b);
          (a, b) = static_for 20 sha1Loop5 (a, b);
          (a, hash) = static_for 5 sha1Loop6 (a, hash)
      in (hash, b))"

subsection \<open>Base64 of the digest and the accept value\<close>

definition b64 :: "byte list" where
  "b64 = bytes ''ABCDEFGHIJKLMNOPQRSTUVWXYZabcdefghijklmnopqrstuvwxyz0123456789+/''"

text \<open>An \<open>unsigned char\<close> of the digest promoted to \<open>int\<close>, and a character of the table.\<close>

abbreviation src_at :: "byte list \<Rightarrow> nat \<Rightarrow> int" where
  "src_at src i \<equiv> uint (src ! i)"

definition b64_at :: "int \<Rightarrow> byte" where
  "b64_at k = b64 ! nat k"

definition base64_group :: "byte list \<Rightarrow> nat \<Rightarrow> byte list" where
  "base64_group src i =
     [b64_at (drop_bit 2 (src_at src i) AND 63),
      b64_at (push_bit 4 (src_at src i AND 3) OR drop_bit 4 (src_at src (i + 1) AND 240)),
      b64_at (push_bit 2 (src_at src (i + 1) AND 15) OR drop_bit 6 (src_at src (i + 2) AND 192)),
      b64_at (src_at src (i + 2) AND 63)]"

definition base64 :: "byte list \<Rightarrow> byte list" where
  "base64 src = concat (map (base64_group src) [0, 3, 6, 9, 12, 15]) @
     [b64_at (drop_bit 2 (src_at src 18) AND 63),
      b64_at (push_bit 4 (src_at src 18 AND 3) OR drop_bit 4 (src_at src 19 AND 240)),
      b64_at (push_bit 2 (src_at src 19 AND 15)),
      of_char (CHR ''='')]"

text \<open>One word of the key: four \<open>char\<close>s, each promoted to \<open>int\<close> and cut to its byte.\<close>

definition key_word :: "byte list \<Rightarrow> nat \<Rightarrow> u32" where
  "key_word input i = of_int
     ((schar (input ! (4 * i + 3)) AND 0xff) OR
      push_bit 8 (schar (input ! (4 * i + 2)) AND 0xff) OR
      push_bit 16 (schar (input ! (4 * i + 1)) AND 0xff) OR
      push_bit 24 (schar (input ! (4 * i + 0)) AND 0xff))"

definition guid_words :: "u32 list" where
  "guid_words = [0x32353845, 0x41464135, 0x2d453931, 0x342d3437, 0x44412d39,
     0x3543412d, 0x43354142, 0x30444338, 0x35423131, 0x80000000]"

definition word_bytes :: "u32 \<Rightarrow> byte list" where
  "word_bytes tmp = [ucast (drop_bit 24 tmp AND 0xff), ucast (drop_bit 16 tmp AND 0xff),
     ucast (drop_bit 8 tmp AND 0xff), ucast (tmp AND 0xff)]"

definition sha1_start :: "u32 list" where
  "sha1_start = [0x67452301, 0xefcdab89, 0x98badcfe, 0x10325476, 0xc3d2e1f0]"

definition generate :: "byte list \<Rightarrow> byte list" where
  "generate input =
     (let b_output = sha1_start;
          b_input = map (key_word input) [0..<6] @ guid_words;
          (b_output, b_input) = sha1 b_output b_input;
          last_b = [0, 0, 0, 0, 0, 0, 0, 0, 0, 0, 0, 0, 0, 0, 0, 480];
          (b_output, last_b) = sha1 b_output last_b
      in base64 (concat (map word_bytes b_output)))"

section \<open>The specification\<close>

subsection \<open>SHA-1 as the standard states it\<close>

fun schedule :: "u32 list \<Rightarrow> nat \<Rightarrow> u32" where
  "schedule m t = (if t < 16 then m ! t
     else word_rotl 1 (schedule m (t - 3) XOR schedule m (t - 8) XOR schedule m (t - 14) XOR schedule m (t - 16)))"

declare schedule.simps [simp del]

definition round_function :: "nat \<Rightarrow> u32 \<Rightarrow> u32 \<Rightarrow> u32 \<Rightarrow> u32" where
  "round_function t x y z =
     (if t < 20 then (x AND y) XOR (NOT x AND z)
      else if t < 40 then x XOR y XOR z
      else if t < 60 then (x AND y) XOR (x AND z) XOR (y AND z)
      else x XOR y XOR z)"

definition round_constant :: "nat \<Rightarrow> u32" where
  "round_constant t = (if t < 20 then 0x5a827999 else if t < 40 then 0x6ed9eba1
     else if t < 60 then 0x8f1bbcdc else 0xca62c1d6)"

type_synonym working = "u32 \<times> u32 \<times> u32 \<times> u32 \<times> u32"

definition sha1_round :: "(nat \<Rightarrow> u32) \<Rightarrow> nat \<Rightarrow> working \<Rightarrow> working" where
  "sha1_round w t v = (case v of (a, b, c, d, e) \<Rightarrow>
     (word_rotl 5 a + round_function t b c d + e + round_constant t + w t, a, word_rotl 30 b, c, d))"

primrec sha1_rounds :: "(nat \<Rightarrow> u32) \<Rightarrow> nat \<Rightarrow> working \<Rightarrow> working" where
  "sha1_rounds w 0 v = v"
| "sha1_rounds w (Suc t) v = sha1_round w t (sha1_rounds w t v)"

definition compress_block :: "working \<Rightarrow> u32 list \<Rightarrow> working" where
  "compress_block h m = (case (h, sha1_rounds (schedule m) 80 h) of
     ((h0, h1, h2, h3, h4), (a, b, c, d, e)) \<Rightarrow> (h0 + a, h1 + b, h2 + c, h3 + d, h4 + e))"

definition big_endian :: "nat \<Rightarrow> nat \<Rightarrow> byte list" where
  "big_endian k n = map (\<lambda>i. of_nat (n div 256 ^ (k - 1 - i))) [0..<k]"

definition pad_message :: "byte list \<Rightarrow> byte list" where
  "pad_message m = m @ [0x80] @ replicate ((119 - length m mod 64) mod 64) 0 @ big_endian 8 (8 * length m)"

fun words_of :: "byte list \<Rightarrow> u32 list" where
  "words_of (a # b # c # d # r) =
     (of_nat (unat a * 256 ^ 3 + unat b * 256 ^ 2 + unat c * 256 + unat d)) # words_of r"
| "words_of _ = []"

fun blocks_of :: "nat \<Rightarrow> 'a list \<Rightarrow> 'a list list" where
  "blocks_of n xs = (if n = 0 \<or> xs = [] then [] else take n xs # blocks_of n (drop n xs))"

declare blocks_of.simps [simp del]

definition sha1_digest :: "byte list \<Rightarrow> byte list" where
  "sha1_digest m =
     (case foldl compress_block (0x67452301, 0xefcdab89, 0x98badcfe, 0x10325476, 0xc3d2e1f0)
             (blocks_of 16 (words_of (pad_message m)))
      of (a, b, c, d, e) \<Rightarrow> concat (map (\<lambda>w. big_endian 4 (unat w)) [a, b, c, d, e]))"

subsection \<open>Base64 for any input\<close>

definition base64_char :: "nat \<Rightarrow> char" where
  "base64_char n = ''ABCDEFGHIJKLMNOPQRSTUVWXYZabcdefghijklmnopqrstuvwxyz0123456789+/'' ! n"

fun base64_encode :: "byte list \<Rightarrow> string" where
  "base64_encode (a # b # c # r) =
     (let n = (unat a * 256 + unat b) * 256 + unat c
      in [base64_char (n div 64 ^ 3), base64_char (n div 64 ^ 2 mod 64), base64_char (n div 64 mod 64),
          base64_char (n mod 64)] @ base64_encode r)"
| "base64_encode [a, b] =
     (let n = (unat a * 256 + unat b) * 4
      in [base64_char (n div 64 ^ 2), base64_char (n div 64 mod 64), base64_char (n mod 64), CHR ''=''])"
| "base64_encode [a] =
     (let n = unat a * 16 in [base64_char (n div 64), base64_char (n mod 64), CHR ''='', CHR ''=''])"
| "base64_encode [] = []"

definition websocket_guid :: string where
  "websocket_guid = ''258EAFA5-E914-47DA-95CA-C5AB0DC85B11''"


section \<open>The unrolled rounds are the standard's rounds\<close>

subsection \<open>Word operations\<close>

lemma rol_word_rotl: "0 < k \<Longrightarrow> k < 32 \<Longrightarrow> rol v k = word_rotl k v"
proof (rule bit_word_eqI)
  fix n assume k: "0 < k" "k < 32" and "n < LENGTH(32)"
  then have n: "n < 32" by simp
  show "bit (rol v k) n = bit (word_rotl k v) n"
  proof (cases "k \<le> n")
    case True
    have "(n + (32 - k)) mod 32 = n - k"
    proof -
      have "n + (32 - k) = (n - k) + 32" using True k by simp
      then have "(n + (32 - k)) mod 32 = (n - k) mod 32" by (simp only: mod_add_self2)
      then show ?thesis using n by simp
    qed
    moreover have "\<not> bit v (32 - k + n)" using True k by (auto dest: bit_imp_le_length)
    ultimately show ?thesis using True k n
      by (simp add: rol_def bit_or_iff bit_push_bit_iff bit_drop_bit_eq bit_word_rotl_iff)
  next
    case False
    have "(n + (32 - k)) mod 32 = 32 - k + n" using False k by simp
    then show ?thesis using False k n
      by (simp add: rol_def bit_or_iff bit_push_bit_iff bit_drop_bit_eq bit_word_rotl_iff)
  qed
qed

lemma and_15: "n AND 15 = n mod (16::nat)"
  using take_bit_eq_mask [of 4 n] by (simp add: take_bit_eq_mod mask_eq_exp_minus_1)

lemma choose_eq: "((x::u32) AND (y XOR z)) XOR z = (x AND y) XOR (NOT x AND z)"
  by (rule bit_word_eqI) (auto simp: bit_and_iff bit_xor_iff bit_not_iff)

lemma majority_eq: "(((x::u32) OR y) AND z) OR (x AND y) = (x AND y) XOR (x AND z) XOR (y AND z)"
  by (rule bit_word_eqI) (auto simp: bit_and_iff bit_xor_iff bit_or_iff)

subsection \<open>One round\<close>

text \<open>The working variables, read off the rotating array after \<open>t\<close> rounds.\<close>

definition working_view :: "nat \<Rightarrow> u32 list \<Rightarrow> working" where
  "working_view t a = (a ! ((t + 4) mod 5), a ! ((t + 3) mod 5), a ! ((t + 2) mod 5), a ! ((t + 1) mod 5), a ! (t mod 5))"

definition rotating_round :: "u32 \<Rightarrow> nat \<Rightarrow> u32 list \<Rightarrow> u32 list" where
  "rotating_round w t a =
     (let a = a[t mod 5 := a ! (t mod 5) +
            (round_function t (a ! ((3 + t) mod 5)) (a ! ((2 + t) mod 5)) (a ! ((1 + t) mod 5)) +
             w + round_constant t + rol (a ! ((4 + t) mod 5)) 5)]
      in a[(3 + t) mod 5 := rol (a ! ((3 + t) mod 5)) 30])"

lemma rotating_round_view:
  assumes "length a = 5"
  shows "length (rotating_round (w t) t a) = 5"
    and "working_view (Suc t) (rotating_round (w t) t a) = sha1_round w t (working_view t a)"
proof -
  obtain a0 a1 a2 a3 a4 where a: "a = [a0, a1, a2, a3, a4]"
    using assms by (auto simp: numeral_eq_Suc length_Suc_conv)
  define r where "r = t mod 5"
  have r: "r < 5" by (simp add: r_def)
  have shift: "(k + t) mod 5 = (k + r) mod 5" for k
    unfolding r_def by (simp only: mod_add_right_eq)
  have "t + k = k + t" "Suc t + k = Suc k + t" "Suc t = 1 + t" for k by simp_all
  then have at: "t mod 5 = r" "(k + t) mod 5 = (k + r) mod 5" "(t + k) mod 5 = (k + r) mod 5"
      "(Suc t + k) mod 5 = (Suc k + r) mod 5" "Suc t mod 5 = (1 + r) mod 5" for k
    by (simp_all only: shift r_def)
  have cases: "r = 0 \<or> r = 1 \<or> r = 2 \<or> r = 3 \<or> r = 4" using r by auto
  show "length (rotating_round (w t) t a) = 5"
    using assms by (simp add: rotating_round_def Let_def)
  show "working_view (Suc t) (rotating_round (w t) t a) = sha1_round w t (working_view t a)"
    unfolding working_view_def rotating_round_def Let_def at a using cases
    by (elim disjE; simp only:; simp add: sha1_round_def rol_word_rotl)
qed

subsection \<open>The ring of schedule words\<close>

definition ring_holds :: "u32 list \<Rightarrow> nat \<Rightarrow> u32 list \<Rightarrow> bool" where
  "ring_holds m t b \<longleftrightarrow> length b = 16 \<and> (\<forall>s < t. t \<le> s + 16 \<longrightarrow> b ! (s mod 16) = schedule m s)"

lemma ring_start: "length m = 16 \<Longrightarrow> ring_holds m 16 m"
  by (simp add: ring_holds_def schedule.simps)

lemma blk_schedule:
  assumes "ring_holds m t b" and "16 \<le> t"
  shows "blk b (t mod 16) = schedule m t"
proof -
  have read: "b ! ((t - d) mod 16) = schedule m (t - d)" if "0 < d" "d \<le> 16" for d
    using assms that by (simp add: ring_holds_def)
  have behind: "(t mod 16 + e) AND 15 = (t - d) mod 16" if "e + d = 16" for e d
  proof -
    have "t - d + 16 = t + e" using that assms(2) by linarith
    then have "(t - d) mod 16 = (t + e) mod 16" by (metis mod_add_self2)
    then show ?thesis by (simp add: and_15 mod_simps)
  qed
  have here: "b ! (t mod 16) = schedule m (t - 16)"
    using read [of 16] assms(2) by (simp add: le_mod_geq)
  have two: "Suc (Suc (t mod 16)) AND 15 = (t - 14) mod 16"
    using behind [of 2 14] by simp
  show ?thesis
    unfolding blk_def schedule.simps [of m t]
    using assms(2) by (simp add: behind [of 13 3] behind [of 8 8] two read here rol_word_rotl)
qed

lemma ring_step:
  assumes "ring_holds m t b" and "16 \<le> t"
  shows "ring_holds m (Suc t) (b[t mod 16 := blk b (t mod 16)])"
    and "b[t mod 16 := blk b (t mod 16)] ! (t mod 16) = schedule m t"
proof -
  have l: "length b = 16" using assms(1) by (simp add: ring_holds_def)
  show now: "b[t mod 16 := blk b (t mod 16)] ! (t mod 16) = schedule m t"
    using l by (simp add: blk_schedule [OF assms])
  have "b[t mod 16 := blk b (t mod 16)] ! (s mod 16) = schedule m s" if "s < Suc t" "Suc t \<le> s + 16" for s
  proof (cases "s = t")
    case True then show ?thesis using now by simp
  next
    case False
    have "s mod 16 \<noteq> t mod 16"
    proof
      assume "s mod 16 = t mod 16"
      then have "(t - s) mod 16 = 0" using that by (metis mod_eq_dvd_iff_nat le_simps(2) mod_0_imp_dvd dvd_imp_mod_0)
      then show False using that False by simp
    qed
    then show ?thesis using assms(1) that False l by (simp add: ring_holds_def)
  qed
  then show "ring_holds m (Suc t) (b[t mod 16 := blk b (t mod 16)])"
    using l by (simp add: ring_holds_def)
qed

subsection \<open>All rounds\<close>

definition after_rounds :: "u32 list \<Rightarrow> working \<Rightarrow> nat \<Rightarrow> u32 list \<times> u32 list \<Rightarrow> bool" where
  "after_rounds m v t s \<longleftrightarrow> length (fst s) = 5 \<and> ring_holds m (max 16 t) (snd s) \<and>
     working_view t (fst s) = sha1_rounds (schedule m) t v"

lemma after_round:
  assumes "after_rounds m v t (a, b)" and "ring_holds m (max 16 (Suc t)) b'" and "w = schedule m t"
  shows "after_rounds m v (Suc t) (rotating_round w t a, b')"
proof -
  have a: "length a = 5" "working_view t a = sha1_rounds (schedule m) t v"
    using assms(1) by (simp_all add: after_rounds_def)
  show ?thesis
    using assms(2) rotating_round_view [OF a(1), where w = "schedule m" and t = t] by (simp add: after_rounds_def assms(3) a(2))
qed

lemma static_for_rounds:
  assumes "after_rounds m v t0 s"
    and "\<And>i a b. i < n \<Longrightarrow> after_rounds m v (t0 + i) (a, b) \<Longrightarrow> after_rounds m v (Suc (t0 + i)) (f i (a, b))"
  shows "after_rounds m v (t0 + n) (static_for n f s)"
  using assms(2)
proof (induction n)
  case 0 then show ?case using assms(1) by simp
next
  case (Suc n)
  obtain a b where ab: "static_for n f s = (a, b)" by (cases "static_for n f s")
  have "after_rounds m v (t0 + n) (a, b)" using Suc ab by simp
  then show ?case using Suc.prems [of n a b] by (simp add: ab)
qed


lemma first_rounds:
  assumes "i < 16" and "after_rounds m v i (a, b)"
  shows "after_rounds m v (Suc i) (sha1Loop1 i (a, b))"
proof -
  have b: "ring_holds m 16 b" using assms by (simp add: after_rounds_def max_def)
  then have "b ! i = schedule m i" using assms(1) by (auto simp: ring_holds_def dest!: spec [where x = i])
  moreover have "sha1Loop1 i (a, b) = (rotating_round (b ! i) i a, b)"
    using assms(1)
    by (simp add: sha1Loop1_def rotating_round_def Let_def choose_eq round_function_def round_constant_def add.assoc)
  ultimately show ?thesis
    using after_round [OF assms(2), of b "b ! i"] b assms(1) by (simp add: max.absorb1)
qed

text \<open>From round 16 on a step first writes the new schedule word into the ring.\<close>

lemma later_round:
  assumes "16 \<le> t" and "after_rounds m v t (a, b)"
    and "k = t mod 16" and "b' = b[k := blk b k]"
    and "f = (rotating_round (b' ! k) t a, b')"
  shows "after_rounds m v (Suc t) f"
proof -
  have b: "ring_holds m t b" using assms by (simp add: after_rounds_def max_def)
  have "ring_holds m (max 16 (Suc t)) b'"
    using ring_step(1) [OF b assms(1)] assms(1) by (simp add: assms(3, 4) max_def)
  moreover have "b' ! k = schedule m t"
    using ring_step(2) [OF b assms(1)] by (simp add: assms(3, 4))
  ultimately show ?thesis unfolding assms(5) by (rule after_round [OF assms(2)])
qed

lemmas loop_simps = rotating_round_def Let_def choose_eq majority_eq round_function_def round_constant_def add.assoc

lemma round_index: "k + c = d + j \<Longrightarrow> d mod n = 0 \<Longrightarrow> (k + (c + i)) mod n = (j + i) mod (n::nat)"
  by (metis add.assoc add_0 mod_add_left_eq)

lemma round_index_0: "c = d + j \<Longrightarrow> d mod n = 0 \<Longrightarrow> (c + i) mod n = (i + j) mod (n::nat)"
  using round_index [of 0 c d j n i] by (simp add: add.commute)

lemma round_indices:
  "(k + (20 + i)) mod 5 = (k + i) mod (5::nat)" "(k + (40 + i)) mod 5 = (k + i) mod (5::nat)"
  "(k + (60 + i)) mod 5 = (k + i) mod (5::nat)"
  by (rule round_index [where d = 20]; simp) (rule round_index [where d = 40] round_index [where d = 60]; simp)+

lemma round_indices_0:
  "(20 + i) mod 5 = i mod (5::nat)" "(40 + i) mod 5 = i mod (5::nat)" "(60 + i) mod 5 = i mod (5::nat)"
  "(20 + i) mod 16 = (i + 4) mod (16::nat)" "(40 + i) mod 16 = (i + 8) mod (16::nat)"
  "(60 + i) mod 16 = (i + 12) mod (16::nat)"
proof -
  have i: "(i + 0) mod 5 = i mod 5" by simp
  show "(20 + i) mod 5 = i mod (5::nat)" "(40 + i) mod 5 = i mod (5::nat)" "(60 + i) mod 5 = i mod (5::nat)"
    using round_index_0 [of 20 20 0 5 i] round_index_0 [of 40 40 0 5 i] round_index_0 [of 60 60 0 5 i]
    unfolding i by (simp_all only: add_0_right mod_self) (simp_all)
  show "(20 + i) mod 16 = (i + 4) mod (16::nat)" by (rule round_index_0 [where d = 16]) simp_all
  show "(40 + i) mod 16 = (i + 8) mod (16::nat)" by (rule round_index_0 [where d = 32]) simp_all
  show "(60 + i) mod 16 = (i + 12) mod (16::nat)" by (rule round_index_0 [where d = 48]) simp_all
qed

lemma second_rounds:
  assumes "i < 4" and "after_rounds m v (16 + i) (a, b)"
  shows "after_rounds m v (Suc (16 + i)) (sha1Loop2 i (a, b))"
proof (rule later_round [OF _ assms(2), where k = i and b' = "b[i := blk b i]"])
  have at: "(16 + i) mod 5 = (1 + i) mod 5" "(3 + (16 + i)) mod 5 = (4 + i) mod 5"
      "(2 + (16 + i)) mod 5 = (3 + i) mod 5" "(1 + (16 + i)) mod 5 = (2 + i) mod 5"
      "(4 + (16 + i)) mod 5 = (5 + i) mod 5"
    by (unfold add.commute [of 1 i], rule round_index_0 [where d = 15], simp, simp)
      (rule round_index [where d = 15], simp, simp)+
  show "sha1Loop2 i (a, b) = (rotating_round (b[i := blk b i] ! i) (16 + i) a, b[i := blk b i])"
    unfolding rotating_round_def at using assms(1) by (simp add: sha1Loop2_def loop_simps)
qed (use assms(1) in simp_all)

lemma third_rounds:
  assumes "i < 20" and "after_rounds m v (20 + i) (a, b)"
  shows "after_rounds m v (Suc (20 + i)) (sha1Loop3 i (a, b))"
proof (rule later_round [OF _ assms(2) refl refl])
  show "sha1Loop3 i (a, b) = (rotating_round (b[(20 + i) mod 16 := blk b ((20 + i) mod 16)] ! ((20 + i) mod 16)) (20 + i) a,
      b[(20 + i) mod 16 := blk b ((20 + i) mod 16)])"
    unfolding rotating_round_def round_indices round_indices_0 using assms(1) by (simp add: sha1Loop3_def loop_simps)
qed simp

lemma fourth_rounds:
  assumes "i < 20" and "after_rounds m v (40 + i) (a, b)"
  shows "after_rounds m v (Suc (40 + i)) (sha1Loop4 i (a, b))"
proof (rule later_round [OF _ assms(2) refl refl])
  show "sha1Loop4 i (a, b) = (rotating_round (b[(40 + i) mod 16 := blk b ((40 + i) mod 16)] ! ((40 + i) mod 16)) (40 + i) a,
      b[(40 + i) mod 16 := blk b ((40 + i) mod 16)])"
    unfolding rotating_round_def round_indices round_indices_0 using assms(1) by (simp add: sha1Loop4_def loop_simps)
qed simp

lemma fifth_rounds:
  assumes "i < 20" and "after_rounds m v (60 + i) (a, b)"
  shows "after_rounds m v (Suc (60 + i)) (sha1Loop5 i (a, b))"
proof (rule later_round [OF _ assms(2) refl refl])
  show "sha1Loop5 i (a, b) = (rotating_round (b[(60 + i) mod 16 := blk b ((60 + i) mod 16)] ! ((60 + i) mod 16)) (60 + i) a,
      b[(60 + i) mod 16 := blk b ((60 + i) mod 16)])"
    unfolding rotating_round_def round_indices round_indices_0 using assms(1) by (simp add: sha1Loop5_def loop_simps)
qed simp

subsection \<open>One block\<close>

definition digest_words :: "working \<Rightarrow> u32 list" where
  "digest_words h = (case h of (h0, h1, h2, h3, h4) \<Rightarrow> [h0, h1, h2, h3, h4])"

lemma final_addition:
  "static_for 5 sha1Loop6 ([e, d, c, b, a], [h0, h1, h2, h3, h4]) =
   ([e, d, c, b, a], [h0 + a, h1 + b, h2 + c, h3 + d, h4 + e])"
  by (simp add: eval_nat_numeral sha1Loop6_def)

lemma sha1_compress:
  assumes "length m = 16"
  shows "fst (sha1 (digest_words h) m) = digest_words (compress_block h m)"
proof -
  obtain h0 h1 h2 h3 h4 where h: "h = (h0, h1, h2, h3, h4)" by (cases h) auto
  define s0 where "s0 = ([h4, h3, h2, h1, h0], m)"
  define s1 where "s1 = static_for 16 sha1Loop1 s0"
  define s2 where "s2 = static_for 4 sha1Loop2 s1"
  define s3 where "s3 = static_for 20 sha1Loop3 s2"
  define s4 where "s4 = static_for 20 sha1Loop4 s3"
  define s5 where "s5 = static_for 20 sha1Loop5 s4"
  have "after_rounds m h 0 s0"
    using assms by (simp add: after_rounds_def s0_def h ring_start working_view_def)
  then have "after_rounds m h (0 + 16) s1" unfolding s1_def
    by (rule static_for_rounds) (simp add: first_rounds)
  then have "after_rounds m h (16 + 4) s2" unfolding s2_def add_0
    by (rule static_for_rounds) (rule second_rounds)
  then have "after_rounds m h (20 + 20) s3" unfolding s3_def
    by (intro static_for_rounds third_rounds) simp_all
  then have "after_rounds m h (40 + 20) s4" unfolding s4_def
    by (intro static_for_rounds fourth_rounds) simp_all
  then have "after_rounds m h (60 + 20) s5" unfolding s5_def
    by (intro static_for_rounds fifth_rounds) simp_all
  then have end5: "length (fst s5) = 5" "working_view 80 (fst s5) = sha1_rounds (schedule m) 80 h"
    by (simp_all add: after_rounds_def)
  then obtain e d c b a where s5: "fst s5 = [e, d, c, b, a]"
    by (auto simp: numeral_eq_Suc length_Suc_conv)
  have final: "sha1_rounds (schedule m) 80 h = (a, b, c, d, e)"
    using end5(2) by (simp add: s5 working_view_def)
  have "sha1 (digest_words h) m =
      (case static_for 5 sha1Loop6 (fst s5, [h0, h1, h2, h3, h4]) of (a, hash) \<Rightarrow> (hash, snd s5))"
    by (simp add: sha1_def digest_words_def h s5_def s4_def s3_def s2_def s1_def s0_def Let_def split_def
        del: static_for.simps)
  then show ?thesis
    by (simp add: s5 final_addition digest_words_def compress_block_def final [unfolded h] h)
qed


section \<open>The two blocks\<close>

lemma or_push_bit_add:
  assumes "0 \<le> (x::int)" and "x < 2 ^ n"
  shows "x OR push_bit n y = x + y * 2 ^ n"
proof -
  have x: "take_bit n x = x" using assms by (simp add: take_bit_int_eq_self)
  have "x AND push_bit n y = 0"
    by (rule bit_eqI, subst x [symmetric]) (auto simp: bit_and_iff bit_take_bit_iff bit_push_bit_iff)
  then show ?thesis by (simp add: disjunctive_add_eq_or [symmetric] push_bit_eq_mult)
qed

lemma schar_and_255: "schar b AND 255 = uint b"
proof -
  have "schar b AND 255 = take_bit 8 (sint b)"
    by (simp add: take_bit_eq_mask mask_eq_exp_minus_1)
  also have "\<dots> = uint b" using uint_sint [of b] by simp
  finally show ?thesis .
qed

definition word_of_bytes :: "byte \<Rightarrow> byte \<Rightarrow> byte \<Rightarrow> byte \<Rightarrow> u32" where
  "word_of_bytes a b c d = of_nat (unat a * 256 ^ 3 + unat b * 256 ^ 2 + unat c * 256 + unat d)"

lemma key_word_bytes:
  "key_word input i = word_of_bytes (input ! (4 * i)) (input ! (4 * i + 1)) (input ! (4 * i + 2)) (input ! (4 * i + 3))"
proof -
  let ?a = "input ! (4 * i)" and ?b = "input ! (4 * i + 1)" and ?c = "input ! (4 * i + 2)" and ?d = "input ! (4 * i + 3)"
  have nest: "push_bit 8 x OR (push_bit 16 y OR push_bit 24 z) = push_bit 8 (x OR push_bit 8 (y OR push_bit 8 z))"
    for x y z :: int by (simp add: push_bit_or)
  have join: "uint (v::byte) OR push_bit 8 y = uint v + y * 256" for v y
    using or_push_bit_add [of "uint v" 8 y] by simp
  have "key_word input i = of_int (uint ?d OR (push_bit 8 (uint ?c) OR (push_bit 16 (uint ?b) OR push_bit 24 (uint ?a))))"
    by (simp only: key_word_def schar_and_255 or.assoc add_0_right)
  also have "\<dots> = of_int (uint ?d + (uint ?c + (uint ?b + uint ?a * 256) * 256) * 256)"
    by (simp only: nest join)
  also have "uint ?d + (uint ?c + (uint ?b + uint ?a * 256) * 256) * 256 =
      int (unat ?a * 256 ^ 3 + unat ?b * 256 ^ 2 + unat ?c * 256 + unat ?d)"
    by (simp add: algebra_simps)
  finally show ?thesis unfolding word_of_bytes_def by (simp only: of_int_of_nat_eq)
qed

lemma words_of_Cons: "words_of (a # b # c # d # r) = word_of_bytes a b c d # words_of r"
  by (simp add: word_of_bytes_def)

lemma blocks_of_append: "length xs = n \<Longrightarrow> 0 < n \<Longrightarrow> blocks_of n (xs @ ys) = xs # blocks_of n ys"
  by (subst blocks_of.simps) auto

lemma words_of_zeros: "words_of (replicate (4 * n) 0 @ r) = replicate n 0 @ words_of r"
proof (induction n)
  case (Suc n)
  have "replicate (4 * Suc n) (0::byte) = [0, 0, 0, 0] @ replicate (4 * n) 0"
    by (simp add: replicate_add) (simp add: eval_nat_numeral)
  then show ?case using Suc by simp
qed simp

lemma guid_and_mark: "words_of (bytes websocket_guid @ [0x80, 0, 0, 0] @ r) = guid_words @ words_of r"
  by (simp add: websocket_guid_def bytes_simps guid_words_def)

lemma length_field: "big_endian 8 480 = [0, 0, 0, 0, 0, 0, 1, 224]"
  by (simp add: big_endian_def upt_rec)

lemma padding_words:
  "words_of (bytes websocket_guid @ [0x80] @ replicate 59 0 @ big_endian 8 480) =
   guid_words @ replicate 15 0 @ [480]"
proof -
  have "replicate 59 (0::byte) = [0, 0, 0] @ replicate (4 * 14) 0"
    using replicate_add [of 3 56 "0::byte"] by (simp add: numeral_3_eq_3)
  then have "words_of (bytes websocket_guid @ [0x80] @ replicate 59 0 @ big_endian 8 480) =
      words_of (bytes websocket_guid @ [0x80, 0, 0, 0] @ (replicate (4 * 14) 0 @ big_endian 8 480))"
    by (simp only: append_Cons append_Nil)
  also have "\<dots> = guid_words @ replicate 14 0 @ words_of (big_endian 8 480)"
    by (simp only: guid_and_mark words_of_zeros)
  also have "words_of (big_endian 8 480) = [0, 480]" by (simp add: length_field)
  also have "replicate 14 (0::u32) @ [0, 480] = replicate 15 0 @ [480]"
    by (simp add: numeral_eq_Suc)
  finally show ?thesis .
qed

lemma handshake_padding:
  assumes "length input = 24"
  shows "blocks_of 16 (words_of (pad_message (input @ bytes websocket_guid))) =
    [map (key_word input) [0..<6] @ guid_words, [0, 0, 0, 0, 0, 0, 0, 0, 0, 0, 0, 0, 0, 0, 0, 480]]"
proof -
  have six: "[0..<6] = [0, 1, 2, 3, 4, 5::nat]" by (simp add: upt_rec)
  have front: "words_of (input @ r) = map (key_word input) [0..<6] @ words_of r" for r
    using assms unfolding six key_word_bytes
    by (auto simp: numeral_eq_Suc length_Suc_conv words_of_Cons simp del: words_of.simps)
  have "pad_message (input @ bytes websocket_guid) =
      input @ (bytes websocket_guid @ [0x80] @ replicate 59 0 @ big_endian 8 480)"
    using assms by (simp add: pad_message_def websocket_guid_def)
  then have "words_of (pad_message (input @ bytes websocket_guid)) =
      (map (key_word input) [0..<6] @ guid_words) @ (replicate 15 0 @ [480])"
    by (simp only: front padding_words append_assoc)
  moreover have "length (map (key_word input) [0..<6] @ guid_words) = 16"
    by (simp add: guid_words_def)
  moreover have "replicate 15 (0::u32) @ [480] = [0, 0, 0, 0, 0, 0, 0, 0, 0, 0, 0, 0, 0, 0, 0, 480]"
    by (simp add: numeral_eq_Suc)
  moreover have "blocks_of 16 (replicate 15 (0::u32) @ [480]) = [replicate 15 0 @ [480]]"
    using blocks_of_append [of "replicate 15 (0::u32) @ [480]" 16 "[]"] by (simp add: blocks_of.simps [of 16 "[]"])
  ultimately show ?thesis by (simp only: blocks_of_append)
qed

section \<open>The accept value\<close>

lemma byte_and_255: "ucast (x AND 0xff) = (ucast (x::u32) :: byte)"
proof (rule bit_word_eqI)
  fix n assume "n < LENGTH(8)"
  moreover have "(0xff::u32) = mask 8" by (simp add: mask_eq_exp_minus_1)
  ultimately show "bit (ucast (x AND 0xff) :: byte) n = bit (ucast x :: byte) n"
    by (simp only: bit_ucast_iff bit_and_iff bit_mask_iff) simp
qed

lemma byte_of_word: "ucast (drop_bit n (w::u32)) = (of_nat (unat w div 2 ^ n) :: byte)"
proof -
  have "unat w div 2 ^ n = unat (drop_bit n w)" by (simp only: unat_drop_bit_eq drop_bit_eq_div [where 'a = nat])
  then show ?thesis by (simp only: of_nat_unat)
qed

lemma word_bytes_big_endian: "word_bytes w = big_endian 4 (unat w)"
proof -
  have "[0..<4] = [0, 1, 2, 3::nat]" by (simp add: upt_rec)
  then have "big_endian 4 (unat w) =
      [of_nat (unat w div 2 ^ 24), of_nat (unat w div 2 ^ 16), of_nat (unat w div 2 ^ 8), of_nat (unat w div 2 ^ 0)]"
    by (simp add: big_endian_def)
  then show ?thesis
    unfolding word_bytes_def byte_and_255 by (simp only: byte_of_word [symmetric] drop_bit_0 id_apply)
qed

lemma b64_table: "k < 64 \<Longrightarrow> b64_at (int k) = of_char (base64_char k)"
  unfolding b64_at_def b64_def base64_char_def bytes_def by (subst nth_map) simp_all


subsection \<open>Base64\<close>

text \<open>The bit operations on two neighbouring bytes, as arithmetic.\<close>

lemma int_mask_mod: "int x AND 63 = int (x mod 64)" "int x AND 15 = int (x mod 16)" "int x AND 3 = int (x mod 4)"
  using take_bit_eq_mask [of 6 "int x"] take_bit_eq_mask [of 4 "int x"] take_bit_eq_mask [of 2 "int x"]
  by (simp_all add: mask_eq_exp_minus_1 take_bit_eq_mod zmod_int)

lemma upper_bits: "(x::nat) < 256 \<Longrightarrow> drop_bit 4 (int x AND 240) = int (x div 16)"
    "x < 256 \<Longrightarrow> drop_bit 6 (int x AND 192) = int (x div 64)"
proof -
  have "drop_bit 4 (240::int) = 15" "drop_bit 6 (192::int) = 3" by simp_all
  then have 4: "drop_bit 4 (int x AND 240) = int (x div 16) AND 15"
    and 6: "drop_bit 6 (int x AND 192) = int (x div 64) AND 3"
    by (simp_all only: drop_bit_and drop_bit_of_nat drop_bit_eq_div [where 'a = nat]) simp_all
  show "x < 256 \<Longrightarrow> drop_bit 4 (int x AND 240) = int (x div 16)"
    unfolding 4 int_mask_mod by (simp add: div_less_iff_less_mult)
  show "x < 256 \<Longrightarrow> drop_bit 6 (int x AND 192) = int (x div 64)"
    unfolding 6 int_mask_mod by (simp add: div_less_iff_less_mult)
qed

lemma join_bits:
  "y < 2 ^ n \<Longrightarrow> push_bit n (int x) OR int y = int (x * 2 ^ n + y)"
  using or_push_bit_add [of "int y" n "int x"] by (simp add: or.commute [of "push_bit n (int x)"])

lemma top_sextet: "x < 256 \<Longrightarrow> b64_at (drop_bit 2 (int x) AND 63) = of_char (base64_char (x div 4))"
proof -
  assume "x < 256"
  then have "x div 4 < 64" by (simp add: div_less_iff_less_mult)
  moreover have "drop_bit 2 (int x) AND 63 = int (x div 4 mod 64)"
    by (simp only: int_mask_mod [symmetric] drop_bit_eq_div zdiv_int) simp
  ultimately show ?thesis by (simp add: b64_table)
qed

lemma second_sextet: "y < 256 \<Longrightarrow>
   b64_at (push_bit 4 (int x AND 3) OR drop_bit 4 (int y AND 240)) = of_char (base64_char (x mod 4 * 16 + y div 16))"
proof -
  assume y: "y < 256"
  then have "y div 16 < 2 ^ 4" by (simp add: div_less_iff_less_mult)
  moreover from this have "x mod 4 * 16 + y div 16 < 64" using mod_less_divisor [of 4 x] by simp
  ultimately show ?thesis by (simp only: upper_bits y int_mask_mod join_bits b64_table) (simp add: b64_table del: of_nat_add of_nat_mult)
qed

lemma third_sextet: "z < 256 \<Longrightarrow>
   b64_at (push_bit 2 (int y AND 15) OR drop_bit 6 (int z AND 192)) = of_char (base64_char (y mod 16 * 4 + z div 64))"
proof -
  assume z: "z < 256"
  then have "z div 64 < 2 ^ 2" by (simp add: div_less_iff_less_mult)
  moreover from this have "y mod 16 * 4 + z div 64 < 64" using mod_less_divisor [of 16 y] by simp
  ultimately show ?thesis by (simp only: upper_bits z int_mask_mod join_bits b64_table) (simp add: b64_table del: of_nat_add of_nat_mult)
qed

lemma last_sextet: "b64_at (int z AND 63) = of_char (base64_char (z mod 64))"
  by (simp add: int_mask_mod b64_table)

lemma padded_sextet: "b64_at (push_bit 2 (int y AND 15)) = of_char (base64_char (y mod 16 * 4))"
proof -
  have "y mod 16 * 4 < 64" using mod_less_divisor [of 16 y] by simp
  then show ?thesis using b64_table [of "y mod 16 * 4"] by (simp add: int_mask_mod push_bit_eq_mult)
qed

text \<open>The four digits of 24 bits in base 64.\<close>

lemma group_digits:
  assumes "y < 256" and "z < (256::nat)"
  shows "((x * 256 + y) * 256 + z) div 64 ^ 3 = x div 4"
    and "((x * 256 + y) * 256 + z) div 64 ^ 2 mod 64 = x mod 4 * 16 + y div 16"
    and "((x * 256 + y) * 256 + z) div 64 mod 64 = y mod 16 * 4 + z div 64"
    and "((x * 256 + y) * 256 + z) mod 64 = z mod 64"
proof -
  let ?n = "(x * 256 + y) * 256 + z"
  have n: "?n div 256 = x * 256 + y" "?n div 256 div 256 = x" using assms by simp_all
  have p: "64 ^ 3 = 256 * (256 * (4::nat))" "64 ^ 2 = 256 * (16::nat)" by simp_all
  show "?n div 64 ^ 3 = x div 4" unfolding p div_mult2_eq n using assms by simp
  have "?n div 64 ^ 2 = (x * 256 + y) div 16" unfolding p div_mult2_eq n ..
  also have "\<dots> = x * 16 + y div 16" by simp
  also have "\<dots> mod 64 = x mod 4 * 16 + y div 16"
  proof -
    have y: "y div 16 < 16" using assms by (simp add: div_less_iff_less_mult)
    have "x * 16 + y div 16 = (x mod 4 * 16 + y div 16) + 64 * (x div 4)"
      using div_mult_mod_eq [of x 4] by linarith
    then have "(x * 16 + y div 16) mod 64 = (x mod 4 * 16 + y div 16) mod 64" by (simp only: mod_mult_self2)
    also have "\<dots> = x mod 4 * 16 + y div 16" using y mod_less_divisor [of 4 x] by (intro mod_less) simp
    finally show ?thesis .
  qed
  finally show "?n div 64 ^ 2 mod 64 = x mod 4 * 16 + y div 16" .
  have z: "z div 64 < 4" using assms by (simp add: div_less_iff_less_mult)
  have "?n div 64 = (x * 256 + y) * 4 + z div 64"
  proof -
    have "?n = z + 64 * ((x * 256 + y) * 4)" by simp
    then show ?thesis by (simp only: div_mult_self2)
  qed
  also have "\<dots> = (y mod 16 * 4 + z div 64) + 64 * (x * 16 + y div 16)"
  proof -
    obtain q r where y: "y = r + q * 16" "r < 16"
      using div_mult_mod_eq [of y 16] by (intro that [of "y mod 16" "y div 16"]) simp_all
    then show ?thesis by simp
  qed
  also have "\<dots> mod 64 = (y mod 16 * 4 + z div 64) mod 64" by (simp only: mod_mult_self2)
  also have "\<dots> = y mod 16 * 4 + z div 64" using z mod_less_divisor [of 16 y] by (intro mod_less) simp
  finally show "?n div 64 mod 64 = y mod 16 * 4 + z div 64" .
  have "?n = z + 64 * ((x * 256 + y) * 4)" by simp
  then show "?n mod 64 = z mod 64" by (simp only: mod_mult_self2)
qed

lemma pair_digits:
  assumes "y < (256::nat)"
  shows "((x * 256 + y) * 4) div 64 ^ 2 = x div 4"
    and "((x * 256 + y) * 4) div 64 mod 64 = x mod 4 * 16 + y div 16"
    and "((x * 256 + y) * 4) mod 64 = y mod 16 * 4"
proof -
  have n: "(x * 256 + y) * 256 + 0 = 64 * ((x * 256 + y) * 4)" by simp
  have cut: "(64 * m) div 64 ^ 3 = m div 64 ^ 2" "(64 * m) div 64 ^ 2 = m div 64" "(64 * m) div 64 = m" for m :: nat
    by (simp_all add: numeral_3_eq_3 numeral_2_eq_2 div_mult2_eq)
  show "((x * 256 + y) * 4) div 64 ^ 2 = x div 4"
    using group_digits(1) [OF assms, of 0 x] by (simp only: n cut)
  show "((x * 256 + y) * 4) div 64 mod 64 = x mod 4 * 16 + y div 16"
    using group_digits(2) [OF assms, of 0 x] by (simp only: n cut)
  show "((x * 256 + y) * 4) mod 64 = y mod 16 * 4"
    using group_digits(3) [OF assms, of 0 x] by (simp only: n cut)
qed

lemma base64_group_encode:
  "base64_group src i = bytes (base64_encode [src ! i, src ! (i + 1), src ! (i + 2)])"
proof -
  let ?x = "unat (src ! i)" and ?y = "unat (src ! (i + 1))" and ?z = "unat (src ! (i + 2))"
  have "?y < 256" "?z < 256" "?x < 256" by (rule unat_byte_less)+
  then show ?thesis
    unfolding base64_group_def uint_nat
    by (simp only: top_sextet second_sextet third_sextet last_sextet base64_encode.simps Let_def group_digits
        bytes_Cons bytes_Nil append_Cons append_Nil)
qed



lemma base64_encode_append:
  "length xs mod 3 = 0 \<Longrightarrow> base64_encode (xs @ ys) = base64_encode xs @ base64_encode ys"
proof (induction xs rule: base64_encode.induct)
  case (1 a b c r)
  then have "length r mod 3 = 0" by simp
  then show ?case using 1 by (simp add: Let_def)
qed simp_all

lemma base64_correct:
  assumes "length src = 20"
  shows "base64 src = bytes (base64_encode src)"
proof -
  have tail: "[b64_at (drop_bit 2 (src_at src 18) AND 63),
      b64_at (push_bit 4 (src_at src 18 AND 3) OR drop_bit 4 (src_at src 19 AND 240)),
      b64_at (push_bit 2 (src_at src 19 AND 15)), of_char (CHR ''='')] =
      bytes (base64_encode [src ! 18, src ! 19])"
  proof -
    have "unat (src ! 18) < 256" "unat (src ! 19) < 256" by (rule unat_byte_less)+
    then show ?thesis
      unfolding uint_nat
      by (simp only: top_sextet second_sextet padded_sextet base64_encode.simps Let_def pair_digits bytes_Cons bytes_Nil)
  qed
  define l where "l = [src ! 0, src ! 1, src ! 2] @ [src ! 3, src ! 4, src ! 5] @ [src ! 6, src ! 7, src ! 8] @
      [src ! 9, src ! 10, src ! 11] @ [src ! 12, src ! 13, src ! 14] @ [src ! 15, src ! 16, src ! 17] @ [src ! 18, src ! 19]"
  have "map ((!) src) [0..<20] = l" by (simp add: l_def upt_rec numeral_eq_Suc)
  then have src: "l = src" using map_nth [of src] assms by simp
  have split: "bytes (base64_encode ([a, b, c] @ r)) = bytes (base64_encode [a, b, c]) @ bytes (base64_encode r)" for a b c r
    using base64_encode_append [of "[a, b, c]" r] by (simp only: bytes_def map_append [symmetric]) simp
  have group: "bytes (base64_encode [src ! 0, src ! 1, src ! 2]) = base64_group src 0"
      "bytes (base64_encode [src ! 3, src ! 4, src ! 5]) = base64_group src 3"
      "bytes (base64_encode [src ! 6, src ! 7, src ! 8]) = base64_group src 6"
      "bytes (base64_encode [src ! 9, src ! 10, src ! 11]) = base64_group src 9"
      "bytes (base64_encode [src ! 12, src ! 13, src ! 14]) = base64_group src 12"
      "bytes (base64_encode [src ! 15, src ! 16, src ! 17]) = base64_group src 15"
    unfolding base64_group_encode by (simp_all del: base64_encode.simps add: numeral_2_eq_2)
  have "bytes (base64_encode l) = concat (map (base64_group src) [0, 3, 6, 9, 12, 15]) @
      bytes (base64_encode [src ! 18, src ! 19])"
    unfolding l_def by (simp only: split group list.map concat.simps append_assoc append_Nil2 append_Nil)
  then have "bytes (base64_encode src) = concat (map (base64_group src) [0, 3, 6, 9, 12, 15]) @
      bytes (base64_encode [src ! 18, src ! 19])"
    unfolding src .
  then show ?thesis by (simp only: base64_def tail)
qed

subsection \<open>generate\<close>

lemma digest_bytes:
  "concat (map word_bytes (digest_words h)) = (case h of (a, b, c, d, e) \<Rightarrow>
     concat (map (\<lambda>w. big_endian 4 (unat w)) [a, b, c, d, e]))"
  by (simp add: digest_words_def word_bytes_big_endian split: prod.split)

lemma length_digest: "length (concat (map word_bytes (digest_words h))) = 20"
  by (simp add: digest_words_def word_bytes_def split: prod.split)

text \<open>C35: For a key of 24 characters, generate computes the Sec-WebSocket-Accept value of RFC 6455: the
  base64 encoding of the SHA-1 digest (FIPS 180-4) of the key followed by the WebSocket GUID.\<close>

theorem handshake_accept_value:
  assumes "length input = 24"
  shows "generate input = bytes (base64_encode (sha1_digest (input @ bytes websocket_guid)))"
proof -
  let ?h = "(0x67452301, 0xefcdab89, 0x98badcfe, 0x10325476, 0xc3d2e1f0) :: working"
  let ?m = "map (key_word input) [0..<6] @ guid_words"
  let ?l = "[0, 0, 0, 0, 0, 0, 0, 0, 0, 0, 0, 0, 0, 0, 0, 480] :: u32 list"
  have start: "sha1_start = digest_words ?h" by (simp add: sha1_start_def digest_words_def)
  have l: "length ?m = 16" "length ?l = 16" by (simp_all add: guid_words_def)
  have "generate input = base64 (concat (map word_bytes (fst (sha1 (fst (sha1 sha1_start ?m)) ?l))))"
    by (simp add: generate_def Let_def split_def)
  also have "fst (sha1 (fst (sha1 sha1_start ?m)) ?l) = digest_words (compress_block (compress_block ?h ?m) ?l)"
    unfolding start by (simp only: sha1_compress l)
  also have "compress_block (compress_block ?h ?m) ?l =
      foldl compress_block ?h (blocks_of 16 (words_of (pad_message (input @ bytes websocket_guid))))"
    unfolding handshake_padding [OF assms] by simp
  finally show ?thesis
    unfolding base64_correct [OF length_digest] by (simp only: digest_bytes sha1_digest_def)
qed

lemma rfc_key_length: "length (bytes ''dGhlIHNhbXBsZSBub25jZQ=='') = 24"
  by simp

theorem handshake_accept_value_witness:
  "generate (bytes ''dGhlIHNhbXBsZSBub25jZQ=='') =
   bytes (base64_encode (sha1_digest (bytes ''dGhlIHNhbXBsZSBub25jZQ=='' @ bytes websocket_guid)))"
  by (rule handshake_accept_value [OF rfc_key_length])

end
