(* ===== verification/Ws_Extensions.thy ===== *)
theory Ws_Extensions
  imports Uws_Prelude
begin

text \<open>
  \<open>WebSocketExtensions.h\<close>: the parser of a \<open>Sec-WebSocket-Extensions\<close> offer and the negotiation of
  compression. Tokens are compared by a hash (the sum of their characters, digits counting as a
  negative number), a number goes to the last integer parameter seen, and the answer to the
  client is built beside the windows the server will use.

  \<open>negotiated_windows\<close> bounds the windows for every offer, \<open>response_states_result\<close> parses the
  answer with the same parser and finds exactly the parameters that the call returned, and
  \<open>token_bounded\<close> shows that the hash stays inside \<open>int\<close>. The \<open>int\<close> arithmetic of the code is
  modelled on unbounded integers, which that bound justifies.
\<close>

section \<open>Tokens\<close>

abbreviation TOK_PERMESSAGE_DEFLATE :: int where "TOK_PERMESSAGE_DEFLATE \<equiv> 1838"
abbreviation TOK_SERVER_NO_CONTEXT_TAKEOVER :: int where "TOK_SERVER_NO_CONTEXT_TAKEOVER \<equiv> 2807"
abbreviation TOK_CLIENT_NO_CONTEXT_TAKEOVER :: int where "TOK_CLIENT_NO_CONTEXT_TAKEOVER \<equiv> 2783"
abbreviation TOK_SERVER_MAX_WINDOW_BITS :: int where "TOK_SERVER_MAX_WINDOW_BITS \<equiv> 2372"
abbreviation TOK_CLIENT_MAX_WINDOW_BITS :: int where "TOK_CLIENT_MAX_WINDOW_BITS \<equiv> 2348"
abbreviation TOK_X_WEBKIT_DEFLATE_FRAME :: int where "TOK_X_WEBKIT_DEFLATE_FRAME \<equiv> 2149"
abbreviation TOK_NO_CONTEXT_TAKEOVER :: int where "TOK_NO_CONTEXT_TAKEOVER \<equiv> 2049"
abbreviation TOK_MAX_WINDOW_BITS :: int where "TOK_MAX_WINDOW_BITS \<equiv> 1614"

abbreviation SHRT_MAX :: int where "SHRT_MAX \<equiv> 32767"
abbreviation SHRT_MIN :: int where "SHRT_MIN \<equiv> - 32768"

text \<open>\<open>isalnum\<close> and \<open>isdigit\<close> of the C locale; a negative \<open>char\<close> is neither.\<close>

definition isdigit :: "byte \<Rightarrow> bool" where
  "isdigit b \<longleftrightarrow> 48 \<le> schar b \<and> schar b \<le> 57"

definition isalnum :: "byte \<Rightarrow> bool" where
  "isalnum b \<longleftrightarrow> isdigit b \<or> (65 \<le> schar b \<and> schar b \<le> 90) \<or> (97 \<le> schar b \<and> schar b \<le> 122)"

fun skip_separators :: "byte list \<Rightarrow> byte list" where
  "skip_separators [] = []"
| "skip_separators (b # r) = (if \<not> isalnum b then skip_separators r else b # r)"

fun hash_token :: "int \<Rightarrow> byte list \<Rightarrow> int \<times> byte list" where
  "hash_token hashedToken [] = (hashedToken, [])"
| "hash_token hashedToken (b # r) =
     (if isalnum b \<or> b = of_char (CHR ''-'') \<or> b = of_char (CHR ''_'')
      then hash_token
        (if isdigit b
         then if hashedToken > SHRT_MIN \<and> hashedToken < SHRT_MAX then hashedToken * 10 - (schar b - 48) else hashedToken
         else hashedToken + schar b) r
      else (hashedToken, b # r))"

definition getToken :: "byte list \<Rightarrow> int \<times> byte list" where
  "getToken input = hash_token 0 (skip_separators input)"

lemma skip_separators_length: "length (skip_separators d) \<le> length d"
  by (induction d) auto

lemma hash_token_length: "length (snd (hash_token h d)) \<le> length d"
proof (induction h d rule: hash_token.induct)
  case (2 h b r)
  then show ?case by (auto split: if_splits)
qed simp

text \<open>A token other than zero has at least one character.\<close>

lemma getToken_consumes: "getToken d = (t, r) \<Longrightarrow> t \<noteq> 0 \<Longrightarrow> length r < length d"
proof -
  assume t: "getToken d = (t, r)" "t \<noteq> 0"
  obtain b s where s: "skip_separators d = b # s"
    using t by (cases "skip_separators d") (auto simp: getToken_def)
  have "isalnum b"
    using s by (induction d) (auto split: if_splits)
  then have "length r \<le> length s"
    using t(1) hash_token_length [of _ s] by (auto simp: getToken_def s) (metis snd_conv)+
  then show ?thesis using skip_separators_length [of d] by (simp add: s)
qed

section \<open>The parser\<close>

text \<open>\<open>lastInteger\<close> is a null pointer or the address of one of the three integer fields.\<close>

datatype integer_field = ServerMaxWindowBits | ClientMaxWindowBits | MaxWindowBits

record ExtensionsParser =
  lastInteger :: "integer_field option"
  perMessageDeflate :: bool
  serverNoContextTakeover :: bool
  clientNoContextTakeover :: bool
  serverMaxWindowBits :: int
  clientMaxWindowBits :: int
  xWebKitDeflateFrame :: bool
  noContextTakeover :: bool
  maxWindowBits :: int

definition fresh_parser :: ExtensionsParser where
  "fresh_parser = \<lparr> lastInteger = None, perMessageDeflate = False, serverNoContextTakeover = False,
     clientNoContextTakeover = False, serverMaxWindowBits = 0, clientMaxWindowBits = 0,
     xWebKitDeflateFrame = False, noContextTakeover = False, maxWindowBits = 0 \<rparr>"

primrec store_integer :: "integer_field \<Rightarrow> int \<Rightarrow> ExtensionsParser \<Rightarrow> ExtensionsParser" where
  "store_integer ServerMaxWindowBits n ep = ep\<lparr> serverMaxWindowBits := n \<rparr>"
| "store_integer ClientMaxWindowBits n ep = ep\<lparr> clientMaxWindowBits := n \<rparr>"
| "store_integer MaxWindowBits n ep = ep\<lparr> maxWindowBits := n \<rparr>"

text \<open>One turn of the \<open>switch\<close>; \<open>None\<close> is its \<open>return\<close>.\<close>

definition apply_token :: "int \<Rightarrow> ExtensionsParser \<Rightarrow> ExtensionsParser option" where
  "apply_token token ep =
     (if token = TOK_X_WEBKIT_DEFLATE_FRAME then None
      else if token = TOK_NO_CONTEXT_TAKEOVER then Some (ep\<lparr> noContextTakeover := True \<rparr>)
      else if token = TOK_MAX_WINDOW_BITS
        then Some (ep\<lparr> maxWindowBits := 1, lastInteger := Some MaxWindowBits \<rparr>)
      else if token = TOK_PERMESSAGE_DEFLATE then None
      else if token = TOK_SERVER_NO_CONTEXT_TAKEOVER then Some (ep\<lparr> serverNoContextTakeover := True \<rparr>)
      else if token = TOK_CLIENT_NO_CONTEXT_TAKEOVER then Some (ep\<lparr> clientNoContextTakeover := True \<rparr>)
      else if token = TOK_SERVER_MAX_WINDOW_BITS
        then Some (ep\<lparr> serverMaxWindowBits := 1, lastInteger := Some ServerMaxWindowBits \<rparr>)
      else if token = TOK_CLIENT_MAX_WINDOW_BITS
        then Some (ep\<lparr> clientMaxWindowBits := 1, lastInteger := Some ClientMaxWindowBits \<rparr>)
      else (case lastInteger ep of
          Some f \<Rightarrow> if token < 0 then Some (store_integer f (- token) ep) else Some ep
        | None \<Rightarrow> Some ep))"

function skip_offers :: "int \<Rightarrow> byte list \<Rightarrow> int \<times> byte list" where
  "skip_offers token data =
     (if token \<noteq> 0 \<and> token \<noteq> TOK_PERMESSAGE_DEFLATE \<and> token \<noteq> TOK_X_WEBKIT_DEFLATE_FRAME
      then (case getToken data of (token, data) \<Rightarrow> skip_offers token data)
      else (token, data))"
  by pat_completeness auto
termination
  by (relation "measure (\<lambda>(t, d). if t = 0 then 0 else Suc (length d))")
    (auto dest!: sym [of "(_, _)"] dest: getToken_consumes)

declare skip_offers.simps [simp del]

function read_parameters :: "ExtensionsParser \<Rightarrow> byte list \<Rightarrow> ExtensionsParser" where
  "read_parameters ep data =
     (case getToken data of (token, data) \<Rightarrow>
        if token \<noteq> 0
        then (case apply_token token ep of Some ep \<Rightarrow> read_parameters ep data | None \<Rightarrow> ep)
        else ep)"
  by pat_completeness auto
termination
  by (relation "measure (length \<circ> snd)") (auto dest!: sym [of "(_, _)"] dest: getToken_consumes)

declare read_parameters.simps [simp del]

definition extensionsParser :: "byte list \<Rightarrow> ExtensionsParser" where
  "extensionsParser data =
     (case skip_offers 1 data of (token, data) \<Rightarrow>
        read_parameters (fresh_parser\<lparr> perMessageDeflate := (token = TOK_PERMESSAGE_DEFLATE),
          xWebKitDeflateFrame := (token = TOK_X_WEBKIT_DEFLATE_FRAME) \<rparr>) data)"

section \<open>Negotiation\<close>

text \<open>\<open>std::to_string(int)\<close>.\<close>

fun decimal :: "nat \<Rightarrow> byte list" where
  "decimal n = (if n < 10 then [] else decimal (n div 10)) @ [of_nat (48 + n mod 10)]"

declare decimal.simps [simp del]

definition to_string :: "int \<Rightarrow> byte list" where
  "to_string n = (if n < 0 then of_char (CHR ''-'') # decimal (nat (- n)) else decimal (nat n))"

type_synonym negotiated = "bool \<times> int \<times> int \<times> byte list"

definition refused :: negotiated where
  "refused = (False, 0, 0, [])"

text \<open>The last check, and the two protocols: each returns the windows and the answer, or refuses.\<close>

definition sane_windows :: "int \<Rightarrow> int \<Rightarrow> bool" where
  "sane_windows compressionWindow inflationWindow \<longleftrightarrow>
     \<not> ((compressionWindow \<noteq> 0 \<and> compressionWindow < 8) \<or> compressionWindow > 15 \<or>
        (inflationWindow \<noteq> 0 \<and> inflationWindow < 8) \<or> inflationWindow > 15)"

definition negotiate_webkit :: "ExtensionsParser \<Rightarrow> int \<Rightarrow> int \<Rightarrow> (int \<times> int \<times> byte list) option" where
  "negotiate_webkit ep wantedCompressionWindow wantedInflationWindow =
     (let response = bytes ''x-webkit-deflate-frame'' in
      if noContextTakeover ep \<and> wantedCompressionWindow \<noteq> 0 then None
      else
       (let compressionWindow = (if noContextTakeover ep then 0 else wantedCompressionWindow) in
        if maxWindowBits ep \<noteq> 0 \<and> maxWindowBits ep < compressionWindow \<and> maxWindowBits ep = 8 then None
        else
         (let compressionWindow =
              (if maxWindowBits ep \<noteq> 0 \<and> maxWindowBits ep < compressionWindow then maxWindowBits ep else compressionWindow);
            response =
              (if wantedInflationWindow < 15
               then if wantedInflationWindow = 0 then response @ bytes ''; no_context_takeover''
                    else response @ bytes ''; max_window_bits='' @ to_string wantedInflationWindow
               else response)
          in Some (compressionWindow, wantedInflationWindow, response))))"

definition negotiate_deflate :: "ExtensionsParser \<Rightarrow> int \<Rightarrow> int \<Rightarrow> int \<times> int \<times> byte list" where
  "negotiate_deflate ep wantedCompressionWindow wantedInflationWindow =
     (let response = bytes ''permessage-deflate'';
          inflationWindow =
            (if clientNoContextTakeover ep then 0
             else if clientMaxWindowBits ep \<noteq> 0 \<and> clientMaxWindowBits ep \<noteq> 1
             then min (clientMaxWindowBits ep) wantedInflationWindow
             else wantedInflationWindow);
          (response, inflationWindow) =
            (if inflationWindow < 15
             then if inflationWindow = 0 \<or> clientMaxWindowBits ep = 0
                  then (response @ bytes ''; client_no_context_takeover'', 0)
                  else (response @ bytes ''; client_max_window_bits='' @ to_string inflationWindow, inflationWindow)
             else (response, inflationWindow));
          compressionWindow =
            (if serverNoContextTakeover ep then wantedCompressionWindow
             else if serverMaxWindowBits ep \<noteq> 0
             then (let w = min (serverMaxWindowBits ep) wantedCompressionWindow in if w = 8 then 9 else w)
             else wantedCompressionWindow);
          response =
            (if compressionWindow < 15
             then if compressionWindow = 0 then response @ bytes ''; server_no_context_takeover''
                  else response @ bytes ''; server_max_window_bits='' @ to_string compressionWindow
             else response)
      in (compressionWindow, inflationWindow, response))"

definition negotiateCompression :: "bool \<Rightarrow> int \<Rightarrow> int \<Rightarrow> byte list \<Rightarrow> negotiated" where
  "negotiateCompression wantCompression wantedCompressionWindow wantedInflationWindow offer =
     (if \<not> wantCompression then refused
      else
       (let ep = extensionsParser offer;
            outcome =
              (if xWebKitDeflateFrame ep
               then map_option (Pair True) (negotiate_webkit ep wantedCompressionWindow wantedInflationWindow)
               else if perMessageDeflate ep
               then Some (True, negotiate_deflate ep wantedCompressionWindow wantedInflationWindow)
               else Some (False, wantedCompressionWindow, wantedInflationWindow, []))
        in case outcome of
             None \<Rightarrow> refused
           | Some (compression, compressionWindow, inflationWindow, response) \<Rightarrow>
               if sane_windows compressionWindow inflationWindow
               then (compression, compressionWindow, inflationWindow, response) else refused))"


section \<open>Bounds of the hash\<close>

lemma hash_token_bounded:
  "\<bar>h\<bar> \<le> 327679 + 122 * int k \<Longrightarrow> \<bar>fst (hash_token h d)\<bar> \<le> 327679 + 122 * int (k + length d)"
proof (induction h d arbitrary: k rule: hash_token.induct)
  case (2 h b r)
  let ?n = "if isdigit b then if h > SHRT_MIN \<and> h < SHRT_MAX then h * 10 - (schar b - 48) else h else h + schar b"
  show ?case
  proof (cases "isalnum b \<or> b = of_char (CHR ''-'') \<or> b = of_char (CHR ''_'')")
    case True
    then have "0 \<le> schar b \<and> schar b \<le> 122"
      by (auto simp: isalnum_def isdigit_def)
    then have "\<bar>?n\<bar> \<le> 327679 + 122 * int (Suc k)"
      using 2(2) by (auto simp: isdigit_def split: if_splits)
    from 2(1) [OF True this] True show ?thesis by simp
  next
    case False
    then show ?thesis using 2(2) by simp
  qed
qed simp

text \<open>Offers of up to 16 megabytes (a request head is limited to far less) keep every intermediate
  hash, a partial run of the same loop, inside \<open>int\<close>.\<close>

lemma token_bounded:
  assumes "length d \<le> 16777216"
  shows "\<bar>fst (getToken d)\<bar> < 2 ^ 31"
proof -
  have "\<bar>fst (getToken d)\<bar> \<le> 327679 + 122 * int (0 + length (skip_separators d))"
    unfolding getToken_def by (rule hash_token_bounded) simp
  then show ?thesis using skip_separators_length [of d] assms by simp
qed

section \<open>Reading back what was written\<close>

named_theorems read_simps \<open>reading the parameters of an answer\<close>

definition token_byte :: "byte \<Rightarrow> bool" where
  "token_byte b \<longleftrightarrow> isalnum b \<or> b = of_char (CHR ''-'') \<or> b = of_char (CHR ''_'')"

definition ends_token :: "byte list \<Rightarrow> bool" where
  "ends_token r \<longleftrightarrow> (r = [] \<or> \<not> token_byte (hd r))"

lemma hash_token_append:
  "list_all token_byte w \<Longrightarrow> ends_token r \<Longrightarrow> hash_token h (w @ r) = (fst (hash_token h w), r)"
proof (induction w arbitrary: h)
  case Nil
  then show ?case by (cases r) (auto simp: ends_token_def token_byte_def)
next
  case (Cons b w)
  then show ?case by (simp add: token_byte_def)
qed

lemma skip_separators_append:
  "list_all (\<lambda>b. \<not> isalnum b) s \<Longrightarrow> w \<noteq> [] \<Longrightarrow> isalnum (hd w) \<Longrightarrow> skip_separators (s @ w) = w"
proof (induction s)
  case Nil then show ?case by (cases w) simp_all
qed simp

lemma getToken_word:
  assumes "list_all (\<lambda>b. \<not> isalnum b) s" "w \<noteq> []" "isalnum (hd w)" "list_all token_byte w" "ends_token r"
  shows "getToken (s @ w @ r) = (fst (hash_token 0 w), r)"
  using assms by (simp add: getToken_def skip_separators_append hash_token_append)

lemma read_parameters_word:
  assumes "list_all (\<lambda>b. \<not> isalnum b) s" "w \<noteq> []" "isalnum (hd w)" "list_all token_byte w" "ends_token r"
    and "fst (hash_token 0 w) \<noteq> 0"
  shows "read_parameters ep (s @ w @ r) =
    (case apply_token (fst (hash_token 0 w)) ep of Some ep \<Rightarrow> read_parameters ep r | None \<Rightarrow> ep)"
  by (subst read_parameters.simps) (simp add: getToken_word [OF assms(1-5)] assms(6))

lemma read_parameters_Nil [read_simps]: "read_parameters ep [] = ep"
  by (subst read_parameters.simps) (simp add: getToken_def)

lemmas token_evals = token_byte_def isalnum_def isdigit_def bytes_simps

text \<open>The words of an answer, with their separators, and their tokens.\<close>

definition word_token :: "byte list \<Rightarrow> byte list \<Rightarrow> int \<Rightarrow> bool" where
  "word_token s w t \<longleftrightarrow> list_all (\<lambda>b. \<not> isalnum b) s \<and> w \<noteq> [] \<and> isalnum (hd w) \<and> list_all token_byte w \<and>
     fst (hash_token 0 w) = t"

lemma word_token_read:
  "word_token s w t \<Longrightarrow> t \<noteq> 0 \<Longrightarrow> ends_token r \<Longrightarrow>
   read_parameters ep (s @ w @ r) = (case apply_token t ep of Some ep \<Rightarrow> read_parameters ep r | None \<Rightarrow> ep)"
  using read_parameters_word [of s w r ep] by (simp add: word_token_def)

lemma answer_words:
  "word_token [] (bytes ''permessage-deflate'') TOK_PERMESSAGE_DEFLATE"
  "word_token [] (bytes ''x-webkit-deflate-frame'') TOK_X_WEBKIT_DEFLATE_FRAME"
  "word_token (bytes ''; '') (bytes ''client_no_context_takeover'') TOK_CLIENT_NO_CONTEXT_TAKEOVER"
  "word_token (bytes ''; '') (bytes ''server_no_context_takeover'') TOK_SERVER_NO_CONTEXT_TAKEOVER"
  "word_token (bytes ''; '') (bytes ''no_context_takeover'') TOK_NO_CONTEXT_TAKEOVER"
  "word_token (bytes ''; '') (bytes ''client_max_window_bits'') TOK_CLIENT_MAX_WINDOW_BITS"
  "word_token (bytes ''; '') (bytes ''server_max_window_bits'') TOK_SERVER_MAX_WINDOW_BITS"
  "word_token (bytes ''; '') (bytes ''max_window_bits'') TOK_MAX_WINDOW_BITS"
  by (simp_all add: word_token_def token_evals)

lemma number_word:
  assumes "8 \<le> n" and "n < 15"
  shows "word_token (bytes ''='') (to_string n) (- n)"
proof -
  have "n = 8 \<or> n = 9 \<or> n = 10 \<or> n = 11 \<or> n = 12 \<or> n = 13 \<or> n = 14"
    using assms by auto
  then show ?thesis
    by (elim disjE) (simp_all add: word_token_def to_string_def decimal.simps token_evals)
qed


text \<open>The same, as a client reads them: parameters an answer carries for given windows.\<close>

definition window_text :: "string \<Rightarrow> string \<Rightarrow> int \<Rightarrow> byte list" where
  "window_text none bits w = (if w < 15 then if w = 0 then bytes ''; '' @ bytes none
     else bytes ''; '' @ bytes bits @ bytes ''='' @ to_string w else [])"

lemma ends_token_window_text: "ends_token r \<Longrightarrow> ends_token (window_text none bits w @ r)"
  by (simp add: window_text_def ends_token_def token_evals)

lemma ends_token_Nil [read_simps]: "ends_token []"
  by (simp add: ends_token_def)

lemma ends_token_equals: "ends_token (bytes ''='' @ r)"
  by (simp add: ends_token_def token_evals)

definition promised :: "int \<Rightarrow> int" where
  "promised w = (if 0 < w \<and> w < 15 then w else 0)"

lemma read_window_text:
  assumes none: "word_token (bytes ''; '') (bytes none) t" and bits: "word_token (bytes ''; '') (bytes bits) u"
    and t: "t \<noteq> 0" "apply_token t ep = Some eN" and u: "u \<noteq> 0" "apply_token u ep = Some eB"
    and f: "lastInteger eB = Some f"
    and r: "ends_token r" and w: "w = 0 \<or> 8 \<le> w"
  shows "read_parameters ep (window_text none bits w @ r) =
    (if w = 0 then read_parameters eN r
     else if w < 15 then read_parameters (store_integer f w eB) r
     else read_parameters ep r)"
proof -
  have number: "read_parameters eB (bytes ''='' @ to_string w @ r) = read_parameters (store_integer f w eB) r"
    if "8 \<le> w" "w < 15"
    using word_token_read [OF number_word [OF that] _ r, of eB] that f by (simp add: apply_token_def)
  show ?thesis
    using w word_token_read [OF none t(1) r, of ep] number
      word_token_read [OF bits u(1) ends_token_equals, of ep "to_string w @ r"]
    by (auto simp: window_text_def t(2) u(2))
qed

lemma read_client_text:
  assumes "ends_token r" and "w = 0 \<or> 8 \<le> w" and "w \<le> 15" and "clientMaxWindowBits ep = 0"
  shows "\<exists>f. read_parameters ep (window_text ''client_no_context_takeover'' ''client_max_window_bits'' w @ r) =
     read_parameters (ep\<lparr> clientNoContextTakeover := clientNoContextTakeover ep \<or> w = 0, clientMaxWindowBits := promised w, lastInteger := f \<rparr>) r"
proof -
  let ?eN = "ep\<lparr> clientNoContextTakeover := True \<rparr>" and ?eB = "ep\<lparr> clientMaxWindowBits := 1, lastInteger := Some ClientMaxWindowBits \<rparr>"
  have "apply_token TOK_CLIENT_NO_CONTEXT_TAKEOVER ep = Some ?eN" "apply_token TOK_CLIENT_MAX_WINDOW_BITS ep = Some ?eB" "lastInteger ?eB = Some ClientMaxWindowBits"
    by (simp_all add: apply_token_def)
  note read = read_window_text [OF answer_words(3, 6) _ this(1) _ this(2, 3) assms(1, 2)]
  show ?thesis using assms(2-4) read
    by (cases ep) (auto simp: promised_def intro!: exI [of _ "if w = 0 \<or> w = 15 then lastInteger ep else Some ClientMaxWindowBits"])
qed

lemma read_server_text:
  assumes "ends_token r" and "w = 0 \<or> 8 \<le> w" and "w \<le> 15" and "serverMaxWindowBits ep = 0"
  shows "\<exists>f. read_parameters ep (window_text ''server_no_context_takeover'' ''server_max_window_bits'' w @ r) =
     read_parameters (ep\<lparr> serverNoContextTakeover := serverNoContextTakeover ep \<or> w = 0, serverMaxWindowBits := promised w, lastInteger := f \<rparr>) r"
proof -
  let ?eN = "ep\<lparr> serverNoContextTakeover := True \<rparr>" and ?eB = "ep\<lparr> serverMaxWindowBits := 1, lastInteger := Some ServerMaxWindowBits \<rparr>"
  have "apply_token TOK_SERVER_NO_CONTEXT_TAKEOVER ep = Some ?eN" "apply_token TOK_SERVER_MAX_WINDOW_BITS ep = Some ?eB" "lastInteger ?eB = Some ServerMaxWindowBits"
    by (simp_all add: apply_token_def)
  note read = read_window_text [OF answer_words(4, 7) _ this(1) _ this(2, 3) assms(1, 2)]
  show ?thesis using assms(2-4) read
    by (cases ep) (auto simp: promised_def intro!: exI [of _ "if w = 0 \<or> w = 15 then lastInteger ep else Some ServerMaxWindowBits"])
qed

lemma read_webkit_text:
  assumes "ends_token r" and "w = 0 \<or> 8 \<le> w" and "w \<le> 15" and "maxWindowBits ep = 0"
  shows "\<exists>f. read_parameters ep (window_text ''no_context_takeover'' ''max_window_bits'' w @ r) =
     read_parameters (ep\<lparr> noContextTakeover := noContextTakeover ep \<or> w = 0, maxWindowBits := promised w, lastInteger := f \<rparr>) r"
proof -
  let ?eN = "ep\<lparr> noContextTakeover := True \<rparr>" and ?eB = "ep\<lparr> maxWindowBits := 1, lastInteger := Some MaxWindowBits \<rparr>"
  have "apply_token TOK_NO_CONTEXT_TAKEOVER ep = Some ?eN" "apply_token TOK_MAX_WINDOW_BITS ep = Some ?eB" "lastInteger ?eB = Some MaxWindowBits"
    by (simp_all add: apply_token_def)
  note read = read_window_text [OF answer_words(5, 8) _ this(1) _ this(2, 3) assms(1, 2)]
  show ?thesis using assms(2-4) read
    by (cases ep) (auto simp: promised_def intro!: exI [of _ "if w = 0 \<or> w = 15 then lastInteger ep else Some MaxWindowBits"])
qed

lemma read_protocol:
  assumes "word_token [] w t" and "t = TOK_PERMESSAGE_DEFLATE \<or> t = TOK_X_WEBKIT_DEFLATE_FRAME" and "ends_token r"
  shows "extensionsParser (w @ r) = read_parameters (fresh_parser\<lparr> perMessageDeflate := (t = TOK_PERMESSAGE_DEFLATE),
    xWebKitDeflateFrame := (t = TOK_X_WEBKIT_DEFLATE_FRAME) \<rparr>) r"
proof -
  have "getToken (w @ r) = (t, r)"
    using assms(1, 3) getToken_word [of "[]" w r] by (simp add: word_token_def)
  moreover have "skip_offers t r = (t, r)" using assms(2) by (subst skip_offers.simps) auto
  ultimately have "skip_offers 1 (w @ r) = (t, r)" by (subst skip_offers.simps) simp
  then show ?thesis by (simp add: extensionsParser_def)
qed


section \<open>Negotiation: what is agreed and what the client is told\<close>

lemma negotiate_webkit_answer:
  "negotiate_webkit ep wantedCompressionWindow wantedInflationWindow = Some (c, i, response) \<Longrightarrow>
   i = wantedInflationWindow \<and>
   response = bytes ''x-webkit-deflate-frame'' @ window_text ''no_context_takeover'' ''max_window_bits'' i"
  by (auto simp: negotiate_webkit_def Let_def window_text_def bytes_def split: if_splits)

lemma negotiate_deflate_answer:
  "negotiate_deflate ep wantedCompressionWindow wantedInflationWindow = (c, i, response) \<Longrightarrow>
   response = bytes ''permessage-deflate'' @ window_text ''client_no_context_takeover'' ''client_max_window_bits'' i @
     window_text ''server_no_context_takeover'' ''server_max_window_bits'' c"
  by (auto simp: negotiate_deflate_def Let_def window_text_def bytes_def split: if_splits prod.splits)

lemma negotiateCompression_cases:
  assumes "negotiateCompression wantCompression cw iw offer = (True, c, i, response)"
  shows "wantCompression" and "sane_windows c i"
    and "if xWebKitDeflateFrame (extensionsParser offer)
      then negotiate_webkit (extensionsParser offer) cw iw = Some (c, i, response)
      else perMessageDeflate (extensionsParser offer) \<and> negotiate_deflate (extensionsParser offer) cw iw = (c, i, response)"
  using assms
  by (auto simp: negotiateCompression_def refused_def Let_def split: if_splits option.splits prod.splits)

lemma webkit_bounds:
  "negotiate_webkit ep cw iw = Some (c, i, response) \<Longrightarrow> c \<le> max 9 cw \<and> i \<le> iw"
  by (auto simp: negotiate_webkit_def Let_def split: if_splits)

lemma deflate_bounds:
  assumes "negotiate_deflate ep cw iw = (c, i, response)"
  shows "c \<le> max 9 cw \<and> i \<le> max 0 iw"
proof -
  have "c = cw \<or> c = 9 \<or> c = min (serverMaxWindowBits ep) cw"
    using assms by (simp add: negotiate_deflate_def Let_def split: if_splits prod.splits)
  moreover have "i = 0 \<or> i = min (clientMaxWindowBits ep) iw \<or> i = iw"
    using assms by (simp add: negotiate_deflate_def Let_def split: if_splits prod.splits)
  ultimately show ?thesis by auto
qed


text \<open>The client's own limits hold for what it sends.\<close>

lemma client_limit_kept:
  assumes "negotiateCompression wantCompression cw iw offer = (True, c, i, response)"
    and "\<not> xWebKitDeflateFrame (extensionsParser offer)"
  shows "clientNoContextTakeover (extensionsParser offer) \<Longrightarrow> i = 0"
    and "1 < clientMaxWindowBits (extensionsParser offer) \<Longrightarrow> i \<le> clientMaxWindowBits (extensionsParser offer)"
  using negotiateCompression_cases [OF assms(1)] assms(2)
  by (auto simp: negotiate_deflate_def Let_def split: if_splits)

definition states_windows :: "byte list \<Rightarrow> ExtensionsParser \<Rightarrow> int \<Rightarrow> int \<Rightarrow> bool" where
  "states_windows response offered c i \<longleftrightarrow> (let told = extensionsParser response in
     if xWebKitDeflateFrame offered
     then xWebKitDeflateFrame told \<and> noContextTakeover told = (i = 0) \<and> maxWindowBits told = promised i
     else perMessageDeflate told \<and>
       serverNoContextTakeover told = (c = 0) \<and> serverMaxWindowBits told = promised c \<and>
       clientNoContextTakeover told = (i = 0) \<and> clientMaxWindowBits told = promised i)"

text \<open>C36: The answer to the client states exactly what was agreed: parsed with the parser of offers, it
  names the protocol of the offer, and its window parameters are the windows the call returns (no
  context takeover for 0, nothing for 15). For the Safari protocol it states the inflation window.\<close>

theorem response_states_result:
  assumes "negotiateCompression wantCompression wantedCompressionWindow wantedInflationWindow offer =
    (True, c, i, response)"
  shows "states_windows response (extensionsParser offer) c i"
proof -
  note accepted = negotiateCompression_cases [OF assms]
  have c: "c = 0 \<or> 8 \<le> c" "c \<le> 15" and i: "i = 0 \<or> 8 \<le> i" "i \<le> 15"
    using accepted(2) by (auto simp: sane_windows_def)
  let ?deflate = "fresh_parser\<lparr> perMessageDeflate := True \<rparr>" and ?webkit = "fresh_parser\<lparr> xWebKitDeflateFrame := True \<rparr>"
  have e: "ends_token (window_text a b w)" for a b w
    using ends_token_window_text [OF ends_token_Nil, of a b w] by simp
  show ?thesis
  proof (cases "xWebKitDeflateFrame (extensionsParser offer)")
    case True
    then have r: "response = bytes ''x-webkit-deflate-frame'' @ window_text ''no_context_takeover'' ''max_window_bits'' i"
      using accepted(3) negotiate_webkit_answer by simp
    have "extensionsParser response = read_parameters ?webkit (window_text ''no_context_takeover'' ''max_window_bits'' i)"
      unfolding r by (subst read_protocol [OF answer_words(2)]) (simp_all add: e fresh_parser_def)
    with read_webkit_text [OF ends_token_Nil i, of ?webkit] True show ?thesis
      by (auto simp: states_windows_def Let_def read_simps fresh_parser_def)
  next
    case False
    define s where "s = window_text ''server_no_context_takeover'' ''server_max_window_bits'' c"
    have r: "response = bytes ''permessage-deflate'' @ (window_text ''client_no_context_takeover'' ''client_max_window_bits'' i @ s)"
      unfolding s_def using False accepted(3) negotiate_deflate_answer by (metis (no_types))
    have s: "ends_token s" unfolding s_def by (rule e)
    have "extensionsParser response =
        read_parameters ?deflate (window_text ''client_no_context_takeover'' ''client_max_window_bits'' i @ s)"
      unfolding r by (subst read_protocol [OF answer_words(1)]) (simp_all add: ends_token_window_text s fresh_parser_def)
    then obtain f where client: "extensionsParser response =
        read_parameters (?deflate\<lparr> clientNoContextTakeover := i = 0, clientMaxWindowBits := promised i, lastInteger := f \<rparr>) s"
      using read_client_text [OF s i, of ?deflate] by (auto simp: fresh_parser_def)
    show ?thesis
      using False read_server_text [OF ends_token_Nil c, of "?deflate\<lparr> clientNoContextTakeover := i = 0,
          clientMaxWindowBits := promised i, lastInteger := f \<rparr>"]
      by (auto simp: states_windows_def Let_def client s_def read_simps fresh_parser_def)
  qed
qed


section \<open>Offers\<close>

definition offered :: "byte list \<Rightarrow> ExtensionsParser" where
  "offered parameters = read_parameters (fresh_parser\<lparr> perMessageDeflate := True \<rparr>) parameters"

lemma extensionsParser_offered:
  "ends_token r \<Longrightarrow> extensionsParser (bytes ''permessage-deflate'' @ r) = offered r"
  by (subst read_protocol [OF answer_words(1)]) (simp_all add: offered_def fresh_parser_def)

lemma bytes_append: "bytes (s @ t) = bytes s @ bytes t"
  by (simp add: bytes_def)

lemma parameter_end: "ends_token (bytes ''; '' @ r)" "ends_token (bytes ''='' @ r)"
  by (simp_all add: ends_token_def token_evals)

lemma offer_no_takeover:
  "extensionsParser (bytes ''permessage-deflate; server_no_context_takeover'') =
   fresh_parser\<lparr> perMessageDeflate := True, serverNoContextTakeover := True \<rparr>"
proof -
  have "extensionsParser (bytes ''permessage-deflate'' @ bytes ''; '' @ bytes ''server_no_context_takeover'') =
      offered (bytes ''; '' @ bytes ''server_no_context_takeover'')"
    by (rule extensionsParser_offered) (rule parameter_end)
  also have "\<dots> = fresh_parser\<lparr> perMessageDeflate := True, serverNoContextTakeover := True \<rparr>"
    using word_token_read [OF answer_words(4) _ ends_token_Nil]
    by (simp add: offered_def apply_token_def read_simps)
  finally show ?thesis by (simp add: bytes_append [symmetric])
qed

lemma offer_small_window:
  "extensionsParser (bytes ''permessage-deflate; server_max_window_bits=8'') =
   fresh_parser\<lparr> perMessageDeflate := True, serverMaxWindowBits := 8, lastInteger := Some ServerMaxWindowBits \<rparr>"
proof -
  have number: "word_token (bytes ''='') (bytes ''8'') (- 8)" by (simp add: word_token_def token_evals)
  have "extensionsParser (bytes ''permessage-deflate'' @ bytes ''; '' @ bytes ''server_max_window_bits'' @ bytes ''='' @ bytes ''8'') =
      offered (bytes ''; '' @ bytes ''server_max_window_bits'' @ bytes ''='' @ bytes ''8'')"
    by (rule extensionsParser_offered) (rule parameter_end)
  also have "\<dots> = fresh_parser\<lparr> perMessageDeflate := True, serverMaxWindowBits := 8, lastInteger := Some ServerMaxWindowBits \<rparr>"
    using word_token_read [OF answer_words(7) _ parameter_end(2), of _ "bytes ''8''"] word_token_read [OF number _ ends_token_Nil]
    by (simp add: offered_def apply_token_def read_simps)
  finally show ?thesis by (simp add: bytes_append [symmetric])
qed

theorem response_states_result_witness:
  "states_windows (bytes ''permessage-deflate; client_no_context_takeover; server_max_window_bits=9'')
     (extensionsParser (bytes ''permessage-deflate; server_max_window_bits=8'')) 9 0"
  by (rule response_states_result [where wantCompression = True and wantedCompressionWindow = 15 and wantedInflationWindow = 0])
    (unfold negotiateCompression_def offer_small_window,
      simp add: fresh_parser_def negotiate_deflate_def sane_windows_def to_string_def decimal.simps bytes_simps)

subsection \<open>Where the answer breaks RFC 7692\<close>

text \<open>A client that demands \<open>server_no_context_takeover\<close> must get it in the answer or be declined; the
  dedicated compressor answers as if the parameter were not there and keeps its sliding window.\<close>

lemma no_takeover_ignored:
  "negotiateCompression True 15 15 (bytes ''permessage-deflate; server_no_context_takeover'') =
   (True, 15, 15, bytes ''permessage-deflate'')"
  by (simp add: negotiateCompression_def offer_no_takeover fresh_parser_def negotiate_deflate_def sane_windows_def)

text \<open>A client that limits the server to 8 bits is told 9, more than it allowed.\<close>

lemma window_raised_above_limit:
  "negotiateCompression True 15 15 (bytes ''permessage-deflate; server_max_window_bits=8'') =
   (True, 9, 15, bytes ''permessage-deflate; server_max_window_bits=9'')"
  unfolding negotiateCompression_def offer_small_window
  by (simp add: fresh_parser_def negotiate_deflate_def sane_windows_def to_string_def decimal.simps bytes_simps)

text \<open>Tokens are compared by their hash, so a reordering of the name is taken for the extension.\<close>

lemma anagram_accepted:
  "perMessageDeflate (extensionsParser (bytes ''deflate-permessage''))"
proof -
  have "word_token [] (bytes ''deflate-permessage'') TOK_PERMESSAGE_DEFLATE"
    by (simp add: word_token_def token_evals)
  from read_protocol [OF this _ ends_token_Nil] show ?thesis by (simp add: read_simps fresh_parser_def)
qed

end
