(* ===== verification/Multipart.thy ===== *)
theory Multipart
  imports Uws_Prelude
begin

text \<open>
  \<open>Multipart.h\<close> and \<open>MessageParser.h\<close>: the parameters of a content disposition, the iteration over
  the parts of a multipart body, and the header parser both multipart and messages share.

  The body is mutable memory: \<open>getHeaders\<close> lowers the keys in place and \<open>getNextPart\<close> writes a
  \<open>'\r'\<close> behind the part. Both happen in front of \<open>remainingBody\<close>, which later calls read, so the
  state keeps that suffix alone and the buffer of a part is the body from the part's start. A
  read past the end of the body is the result \<open>None\<close>.
\<close>

section \<open>Headers of a part\<close>

definition MAX_HEADERS :: nat where "MAX_HEADERS = 10"

text \<open>A written header; the terminating one has a null key.\<close>

type_synonym written_header = "byte list option \<times> byte list"

definition key_byte :: "byte \<Rightarrow> bool" where
  "key_byte c \<longleftrightarrow> c \<noteq> COLON \<and> 32 < unat c"

definition value_gap :: "byte \<Rightarrow> bool" where
  "value_gap c \<longleftrightarrow> (c = COLON \<or> unat c < 33) \<and> c \<noteq> CR"

definition lower_byte :: "byte \<Rightarrow> byte" where
  "lower_byte c = c OR 32"

text \<open>\<open>memchr(p, '\r', n)\<close>: the bytes in front of the first hit within \<open>n\<close> bytes. \<open>None\<close> when the
  \<open>n\<close> bytes are not all there and no hit comes first; \<open>Some None\<close> is a null pointer.\<close>

definition memchr_CR :: "byte list \<Rightarrow> nat \<Rightarrow> byte list option option" where
  "memchr_CR p n =
     (let front = takeWhile (\<lambda>c. c \<noteq> CR) (take n p) in
      if length front < length (take n p) then Some (Some front)
      else if n \<le> length p then Some None else None)"

text \<open>\<open>buf\<close> is the memory from \<open>postPaddedBuffer\<close> on, \<open>left\<close> is \<open>end - postPaddedBuffer\<close> and
  \<open>consumed\<close> is \<open>postPaddedBuffer - start\<close>; the first argument counts the turns that remain.\<close>

fun header_loop :: "nat \<Rightarrow> byte list \<Rightarrow> int \<Rightarrow> nat \<Rightarrow> (nat \<times> written_header list) option" where
  "header_loop 0 buf left consumed = Some (0, [])"
| "header_loop (Suc i) buf left consumed =
     (case scanWhile key_byte buf of
        Some (key, c # next) \<Rightarrow>
          (let left = left - int (length key); consumed = consumed + length key in
           if c = CR
           then (case next of
               [] \<Rightarrow> None
             | c' # _ \<Rightarrow> if left \<noteq> 0 \<and> c' = LF then Some (consumed + 2, [(None, [])]) else Some (0, []))
           else
             (case scanWhile value_gap next of
                None \<Rightarrow> None
              | Some (gap, valuePtr) \<Rightarrow>
                  (let left = left - 1 - int (length gap); consumed = consumed + 1 + length gap in
                   if left < 0 then None
                   else
                     (case memchr_CR valuePtr (nat left) of
                        None \<Rightarrow> None
                      | Some None \<Rightarrow> Some (0, [])
                      | Some (Some v) \<Rightarrow>
                          (case drop (length v) valuePtr of
                             _ # c' # rest \<Rightarrow>
                               if c' = LF
                               then map_option (map_prod id (Cons (Some (map lower_byte key), v)))
                                      (header_loop i rest (left - int (length v) - 2) (consumed + length v + 2))
                               else Some (0, [])
                           | _ \<Rightarrow> None)))))
      | _ \<Rightarrow> None)"

definition getHeaders :: "byte list \<Rightarrow> nat \<Rightarrow> (nat \<times> written_header list) option" where
  "getHeaders postPaddedBuffer len = header_loop MAX_HEADERS postPaddedBuffer (int len) 0"

section \<open>Parts\<close>

record MultipartParser =
  prependedBoundary :: "byte list"
  remainingBody :: "byte list"
  first_part :: bool

definition multipartParser :: "byte list \<Rightarrow> MultipartParser" where
  "multipartParser contentType =
     (let p = \<lparr> prependedBoundary = [], remainingBody = [], first_part = True \<rparr> in
      if length contentType < 10 \<or> take 10 contentType \<noteq> bytes ''multipart/'' then p
      else
        (case find_bytes (bytes ''='') (drop 10 contentType) of
           None \<Rightarrow> p
         | Some n \<Rightarrow>
             (let boundary = drop (10 + n + 1) contentType in
              if length boundary = 0 \<or> length boundary > 70 then p
              else p\<lparr> prependedBoundary := bytes ''--'' @ boundary \<rparr>)))"

definition isValid :: "MultipartParser \<Rightarrow> bool" where
  "isValid p \<longleftrightarrow> length (prependedBoundary p) \<noteq> 0"

definition setBody :: "byte list \<Rightarrow> MultipartParser \<Rightarrow> MultipartParser" where
  "setBody body p = p\<lparr> remainingBody := body \<rparr>"

text \<open>The part between the current position and the next boundary: the headers are parsed in
  the memory from its third byte on, after the byte behind the stripped part was overwritten.\<close>

definition take_part :: "byte list \<Rightarrow> nat \<Rightarrow> (byte list option \<times> written_header list) option" where
  "take_part memory nextEndBoundary =
     (if nextEndBoundary < 4 then Some (None, [])
      else
       (let len = nextEndBoundary - 4;
            buffer = (drop 2 memory)[len := CR]
        in case getHeaders buffer len of
             None \<Rightarrow> None
           | Some (consumed, headers) \<Rightarrow>
               Some (if consumed = 0 then None else Some (drop consumed (take len buffer)), headers)))"

definition getNextPart ::
    "MultipartParser \<Rightarrow> ((byte list option \<times> written_header list) \<times> MultipartParser) option" where
  "getNextPart p =
     (if length (remainingBody p) < length (prependedBoundary p) then Some ((None, []), p)
      else
        (case (if first_part p
               then map_option (\<lambda>n. p\<lparr> remainingBody := drop (n + length (prependedBoundary p)) (remainingBody p),
                      first_part := False \<rparr>) (find_bytes (prependedBoundary p) (remainingBody p))
               else Some p) of
           None \<Rightarrow> Some ((None, []), p)
         | Some p \<Rightarrow>
             (case find_bytes (prependedBoundary p) (remainingBody p) of
                None \<Rightarrow> Some ((None, []), p)
              | Some nextEndBoundary \<Rightarrow>
                  map_option (\<lambda>r. (r, p\<lparr> remainingBody :=
                      drop (nextEndBoundary + length (prependedBoundary p)) (remainingBody p) \<rparr>))
                    (take_part (remainingBody p) nextEndBoundary))))"

section \<open>Parameters of a header line\<close>

definition isspace :: "byte \<Rightarrow> bool" where
  "isspace c \<longleftrightarrow> c = SP \<or> (9 \<le> unat c \<and> unat c \<le> 13)"

abbreviation SEMICOLON :: byte where "SEMICOLON \<equiv> 59"
abbreviation EQUALS :: byte where "EQUALS \<equiv> 61"
abbreviation QUOTE :: byte where "QUOTE \<equiv> 34"

definition plain_byte :: "byte \<Rightarrow> bool" where
  "plain_byte c \<longleftrightarrow> c \<noteq> SEMICOLON \<and> c \<noteq> EQUALS \<and> \<not> isspace c"

text \<open>A token and the line that remains.\<close>

definition getToken :: "byte list \<Rightarrow> byte list \<times> byte list" where
  "getToken remainingLine =
     (case dropWhile isspace remainingLine of
        [] \<Rightarrow> ([], [])
      | c # line \<Rightarrow>
          if c = SEMICOLON \<or> c = EQUALS then ([c], line)
          else if c = QUOTE
          then (let quote = takeWhile (\<lambda>c. c \<noteq> QUOTE) line in
                case dropWhile (\<lambda>c. c \<noteq> QUOTE) line of [] \<Rightarrow> ([], []) | _ # r \<Rightarrow> (quote, r))
          else (takeWhile plain_byte (c # line), dropWhile plain_byte (c # line)))"

definition getKeyValue :: "byte list \<Rightarrow> (byte list \<times> byte list) \<times> byte list" where
  "getKeyValue line0 =
     (case getToken line0 of (key, line1) \<Rightarrow>
      case getToken line1 of (op, line2) \<Rightarrow>
      if length op = 0 then ((key, []), line2)
      else if hd op \<noteq> SEMICOLON
      then (case getToken line2 of (v, line3) \<Rightarrow>
            case getToken line3 of (_, line4) \<Rightarrow> ((key, v), line4))
      else ((key, []), line2))"


section \<open>Reads stay inside the body\<close>

text \<open>The loop of a caller: parts until a null one.\<close>

fun read_parts :: "nat \<Rightarrow> MultipartParser \<Rightarrow> (byte list \<times> written_header list) list option" where
  "read_parts 0 p = Some []"
| "read_parts (Suc n) p =
     (case getNextPart p of
        None \<Rightarrow> None
      | Some ((None, headers), p') \<Rightarrow> Some []
      | Some ((Some part, headers), p') \<Rightarrow> map_option (Cons (part, headers)) (read_parts n p'))"

text \<open>The post padding stops every scan: the byte at \<open>end\<close> is a \<open>'\r'\<close>, and one more is readable.\<close>

definition padded_at :: "byte list \<Rightarrow> nat \<Rightarrow> bool" where
  "padded_at buf n \<longleftrightarrow> Suc n < length buf \<and> buf ! n = CR"

lemma padded_scan:
  assumes "padded_at buf n" and "\<not> P CR"
  obtains k c r where "scanWhile P buf = Some (k, c # r)" "buf = k @ c # r" "length k \<le> n"
    "c \<noteq> CR \<Longrightarrow> length k < n \<and> padded_at r (n - length k - 1)"
    "\<not> P c" "r \<noteq> []"
proof -
  have n: "Suc n < length buf" "buf ! n = CR" using assms(1) by (simp_all add: padded_at_def)
  then have "\<exists>b\<in>set buf. \<not> P b" using assms(2) by (metis Suc_lessD nth_mem)
  then obtain k r where s: "scanWhile P buf = Some (k, r)" by (simp add: scanWhile_eq)
  from scanWhile_SomeD [OF this] have buf: "buf = k @ r" "\<forall>b\<in>set k. P b" "r \<noteq> []" "\<not> P (hd r)" by auto
  then obtain c r' where r: "r = c # r'" by (cases r) auto
  have k: "length k \<le> n"
  proof (rule ccontr)
    assume "\<not> length k \<le> n"
    then have "buf ! n \<in> set k" by (simp add: buf(1) nth_append)
    then show False using buf(2) n(2) assms(2) by auto
  qed
  show ?thesis
  proof (rule that)
    show "scanWhile P buf = Some (k, c # r')" using s r by simp
    show "buf = k @ c # r'" "\<not> P c" "length k \<le> n" using buf r k by auto
    show "r' \<noteq> []" using n(1) k by (auto simp: buf(1) r)
    show "length k < n \<and> padded_at r' (n - length k - 1)" if "c \<noteq> CR"
    proof -
      have "length k < n" using k n(2) that by (cases "length k = n") (auto simp: buf(1) r)
      then show ?thesis using n by (auto simp: padded_at_def buf(1) r nth_append nth_Cons')
    qed
  qed
qed

lemma padded_memchr:
  assumes "padded_at p n"
  shows "memchr_CR p n = Some None \<or>
    (\<exists>v c r. memchr_CR p n = Some (Some v) \<and> p = v @ CR # c # r \<and> (c = LF \<longrightarrow> length v + 2 \<le> n \<and> padded_at r (n - length v - 2)))"
proof -
  let ?f = "takeWhile (\<lambda>c. c \<noteq> CR) (take n p)"
  have n: "Suc n < length p" "p ! n = CR" using assms by (simp_all add: padded_at_def)
  show ?thesis
  proof (cases "length ?f < length (take n p)")
    case True
    then have at: "take n p ! length ?f = CR" using nth_length_takeWhile [of "\<lambda>c. c \<noteq> CR" "take n p"] by simp
    have less: "length ?f < n" using True by simp
    have front: "?f = take (length ?f) p"
      by (subst takeWhile_eq_take, subst take_take) (use less in simp)
    then have "p = ?f @ drop (length ?f) p" by (metis append_take_drop_id)
    moreover have "drop (length ?f) p = CR # p ! Suc (length ?f) # drop (Suc (Suc (length ?f))) p"
      using at less n Cons_nth_drop_Suc [of "length ?f" p] Cons_nth_drop_Suc [of "Suc (length ?f)" p] by simp
    ultimately have p: "p = ?f @ CR # p ! Suc (length ?f) # drop (Suc (Suc (length ?f))) p" by simp
    have "length ?f + 2 \<le> n \<and> padded_at (drop (Suc (Suc (length ?f))) p) (n - length ?f - 2)" if "p ! Suc (length ?f) = LF"
    proof -
      have "Suc (length ?f) \<noteq> n" using that n(2) by auto
      then have "length ?f + 2 \<le> n" using less by simp
      moreover have "padded_at (drop l p) (n - l)" if "l \<le> n" for l using that n by (auto simp: padded_at_def)
      ultimately show ?thesis by (simp add: add.commute)
    qed
    moreover have "memchr_CR p n = Some (Some ?f)" using True by (simp add: memchr_CR_def Let_def)
    ultimately have "\<exists>v c r. memchr_CR p n = Some (Some v) \<and> p = v @ CR # c # r \<and> (c = LF \<longrightarrow> length v + 2 \<le> n \<and> padded_at r (n - length v - 2))"
      using p by (intro exI [of _ ?f] exI [of _ "p ! Suc (length ?f)"] exI [of _ "drop (Suc (Suc (length ?f))) p"]) simp
    then show ?thesis ..
  next
    case False
    then show ?thesis using n(1) by (simp add: memchr_CR_def Let_def)
  qed
qed

lemma header_loop_field:
  assumes "scanWhile key_byte buf = Some (key, c # nx)" and "c \<noteq> CR"
    and "scanWhile value_gap nx = Some (gap, valuePtr)"
    and "left - int (length key) - 1 - int (length gap) = int q"
  shows "header_loop (Suc i) buf left consumed =
    (case memchr_CR valuePtr q of
       None \<Rightarrow> None
     | Some None \<Rightarrow> Some (0, [])
     | Some (Some v) \<Rightarrow>
         (case drop (length v) valuePtr of
            _ # c' # rest \<Rightarrow>
              if c' = LF
              then map_option (map_prod id (Cons (Some (map lower_byte key), v)))
                     (header_loop i rest (int q - int (length v) - 2)
                        (consumed + length key + 1 + length gap + length v + 2))
              else Some (0, [])
          | _ \<Rightarrow> None))"
proof -
  have "\<not> int q < 0" by simp
  then show ?thesis
    unfolding header_loop.simps(2) assms(1) option.case prod.case list.case Let_def if_not_P [OF assms(2)] assms(3, 4)
    by (simp only: if_False nat_int)
qed

lemma header_loop_safe: "padded_at buf n \<Longrightarrow> header_loop i buf (int n) consumed \<noteq> None"
proof (induction i arbitrary: buf n consumed)
  case (Suc i)
  obtain key c nx where key: "scanWhile key_byte buf = Some (key, c # nx)" "length key \<le> n" "nx \<noteq> []"
      "c \<noteq> CR \<Longrightarrow> length key < n \<and> padded_at nx (n - length key - 1)"
    by (rule padded_scan [OF Suc.prems, of key_byte]) (auto simp: key_byte_def)
  show ?case
  proof (cases "c = CR")
    case True
    obtain c' r where "nx = c' # r" using key(3) by (cases nx) auto
    then show ?thesis using True key by (simp add: Let_def)
  next
    case False
    define m where "m = n - length key - 1"
    have m: "length key < n" "padded_at nx m" using key(4) False by (simp_all add: m_def)
    obtain gap d v where gap: "scanWhile value_gap nx = Some (gap, d # v)" "length gap \<le> m" "nx = gap @ d # v"
      by (rule padded_scan [OF m(2), of value_gap]) (auto simp: value_gap_def)
    define q where "q = m - length gap"
    have q: "padded_at (d # v) q" using m(2) gap by (auto simp: padded_at_def q_def nth_append)
    have left: "int n - int (length key) - 1 - int (length gap) = int q"
      using m(1) gap(2) by (simp add: q_def m_def)
    show ?thesis
      using padded_memchr [OF q]
    proof (elim disjE exE conjE)
      assume "memchr_CR (d # v) q = Some None"
      then show ?thesis unfolding header_loop_field [OF key(1) False gap(1) left] by simp
    next
      fix w e r
      assume w: "memchr_CR (d # v) q = Some (Some w)" "d # v = w @ CR # e # r"
        "e = LF \<longrightarrow> length w + 2 \<le> q \<and> padded_at r (q - length w - 2)"
      have drop: "drop (length w) (d # v) = CR # e # r" unfolding w(2) by simp
      show ?thesis
      proof (cases "e = LF")
        case True
        then have "int q - int (length w) - 2 = int (q - length w - 2)" "padded_at r (q - length w - 2)" using w(3) by simp_all
        then have "header_loop i r (int q - int (length w) - 2) k \<noteq> None" for k using Suc.IH by metis
        then show ?thesis
          unfolding header_loop_field [OF key(1) False gap(1) left] w(1) drop option.case list.case if_P [OF True]
          by (simp only: option.map_disc_iff not_False_eq_True)
      next
        case ne: False
        then show ?thesis unfolding header_loop_field [OF key(1) False gap(1) left] w(1) by (simp add: drop)
      qed
    qed
  qed
qed simp

lemma take_part_safe:
  assumes "find_bytes pb memory = Some n" and "pb = [] \<or> 2 \<le> length pb"
  shows "take_part memory n \<noteq> None"
proof (cases "n < 4")
  case False
  have "pb \<noteq> []"
    using False assms(1) by (cases memory) auto
  then have "n + 2 \<le> length memory" using find_bytes_SomeD [OF assms(1)] assms(2) by simp
  then have "padded_at ((drop 2 memory)[n - 4 := CR]) (n - 4)" using False by (simp add: padded_at_def)
  then have "getHeaders ((drop 2 memory)[n - 4 := CR]) (n - 4) \<noteq> None"
    unfolding getHeaders_def by (rule header_loop_safe)
  then show ?thesis using False by (auto simp: take_part_def Let_def)
qed (simp add: take_part_def)

definition multipart_ok :: "MultipartParser \<Rightarrow> bool" where
  "multipart_ok p \<longleftrightarrow> prependedBoundary p = [] \<or> 2 \<le> length (prependedBoundary p)"

lemma multipart_ok_constructor: "multipart_ok (setBody body (multipartParser contentType))"
  by (simp add: multipart_ok_def setBody_def multipartParser_def Let_def bytes_simps split: option.split)

lemma getNextPart_safe:
  assumes "multipart_ok p"
  shows "\<exists>part headers p'. getNextPart p = Some ((part, headers), p') \<and> multipart_ok p'"
proof -
  have "\<exists>r. take_part (remainingBody q) n = Some r"
    if "find_bytes (prependedBoundary q) (remainingBody q) = Some n" "prependedBoundary q = prependedBoundary p" for q n
    using take_part_safe [OF that(1)] that(2) assms by (auto simp: multipart_ok_def)
  from this [of p] this [of "p\<lparr> remainingBody := b, first_part := False \<rparr>" for b] show ?thesis
    using assms by (fastforce simp: getNextPart_def multipart_ok_def split: option.splits)
qed

text \<open>C38: Reading the parts of any body, for any content type, never reads a byte outside the body: every
  scan of a part's headers is stopped by the byte written behind the part.\<close>

theorem multipart_reads_safe:
  "\<exists>parts. read_parts n (setBody body (multipartParser contentType)) = Some parts"
proof -
  have "\<exists>parts. read_parts n p = Some parts" if "multipart_ok p" for p
    using that
  proof (induction n arbitrary: p)
    case (Suc n)
    from getNextPart_safe [OF Suc.prems] obtain part headers p' where
      "getNextPart p = Some ((part, headers), p')" "multipart_ok p'" by blast
    then show ?case using Suc.IH by (cases part) auto
  qed simp
  then show ?thesis using multipart_ok_constructor by blast
qed


section \<open>Round trip\<close>

subsection \<open>Writing a multipart body\<close>

type_synonym field = "byte list \<times> byte list"

definition render_field :: "field \<Rightarrow> byte list" where
  "render_field f = fst f @ [COLON, SP] @ snd f @ CRLF"

definition render_part :: "field list \<times> byte list \<Rightarrow> byte list" where
  "render_part p = CRLF @ concat (map render_field (fst p)) @ CRLF @ snd p @ CRLF"

definition delimiter :: "byte list \<Rightarrow> byte list" where
  "delimiter boundary = bytes ''--'' @ boundary"

definition render_multipart :: "byte list \<Rightarrow> (field list \<times> byte list) list \<Rightarrow> byte list" where
  "render_multipart boundary ps =
     delimiter boundary @ concat (map (\<lambda>p. render_part p @ delimiter boundary) ps) @ bytes ''--''"

definition form_field_ok :: "field \<Rightarrow> bool" where
  "form_field_ok f \<longleftrightarrow> list_all key_byte (fst f) \<and> CR \<notin> set (snd f) \<and>
     (snd f = [] \<or> \<not> value_gap (hd (snd f)))"

definition part_ok :: "byte list \<Rightarrow> field list \<times> byte list \<Rightarrow> bool" where
  "part_ok boundary p \<longleftrightarrow> list_all form_field_ok (fst p) \<and> length (fst p) < MAX_HEADERS \<and>
     find_bytes (delimiter boundary) (render_part p @ delimiter boundary) = Some (length (render_part p))"

definition written_field :: "field \<Rightarrow> written_header" where
  "written_field f = (Some (map lower_byte (fst f)), snd f)"

definition part_result :: "field list \<times> byte list \<Rightarrow> byte list \<times> written_header list" where
  "part_result p = (snd p, map written_field (fst p) @ [(None, [])])"

subsection \<open>Reading it back\<close>

lemma find_bytes_append: "find_bytes pat xs = Some n \<Longrightarrow> find_bytes pat (xs @ ys) = Some n"
proof (induction xs arbitrary: n)
  case Nil
  then show ?case by (cases ys) (auto split: if_splits)
next
  case (Cons c cs)
  show ?case
  proof (cases "prefix pat (c # cs)")
    case True
    then have "prefix pat ((c # cs) @ ys)" by (rule prefix_prefix)
    then show ?thesis using True Cons.prems by simp
  next
    case False
    then obtain m where m: "find_bytes pat cs = Some m" "n = Suc m" using Cons.prems by auto
    have "length pat \<le> length (c # cs)" using find_bytes_SomeD [OF m(1)] by simp
    then have "\<not> prefix pat ((c # cs) @ ys)" using False prefix_length_prefix [of pat "(c # cs) @ ys" "c # cs"] by auto
    then show ?thesis using Cons.IH [OF m(1)] m(2) by simp
  qed
qed

lemma find_bytes_front: "find_bytes pat (pat @ ys) = Some 0"
  by (cases "pat @ ys") (simp_all, metis prefixI)

lemma scanWhile_append:
  "list_all P xs \<Longrightarrow> \<not> P y \<Longrightarrow> scanWhile P (xs @ y # ys) = Some (xs, y # ys)"
  by (induction xs) auto

lemma header_loop_render:
  assumes "form_field_ok f" and "length (render_field f) \<le> n"
  shows "header_loop (Suc i) (render_field f @ r) (int n) consumed =
    map_option (map_prod id (Cons (written_field f)))
      (header_loop i r (int (n - length (render_field f))) (consumed + length (render_field f)))"
proof -
  obtain k v where f: "f = (k, v)" by (cases f)
  have k: "list_all key_byte k" and v: "CR \<notin> set v" "v = [] \<or> \<not> value_gap (hd v)"
    using assms(1) by (simp_all add: form_field_ok_def f)
  have len: "length (render_field f) = length k + length v + 4" by (simp add: render_field_def f)
  have key: "scanWhile key_byte (render_field f @ r) = Some (k, COLON # SP # v @ CR # LF # r)"
    using scanWhile_append [OF k, of COLON] by (simp add: render_field_def f key_byte_def)
  have gap: "scanWhile value_gap (SP # v @ CR # LF # r) = Some ([SP], v @ CR # LF # r)"
  proof (cases v)
    case Nil
    then show ?thesis by (simp add: value_gap_def)
  next
    case (Cons c w)
    then show ?thesis using v by (simp add: value_gap_def)
  qed
  define q where "q = n - length k - 2"
  have q: "length v + 2 \<le> q" "int n - int (length k) - 1 - int (length [SP]) = int q"
    "int q - int (length v) - 2 = int (n - length (render_field f))"
    using assms(2) by (auto simp: q_def len)
  have front: "takeWhile (\<lambda>c. c \<noteq> CR) (v @ CR # t) = v" for t
    using v(1) by (intro takeWhile_append_stop) auto
  have "memchr_CR (v @ CR # LF # r) q = Some (Some v)"
  proof -
    obtain m where "q = length v + Suc m" using q(1) by (metis add_2_eq_Suc' add.commute add_Suc_right le_Suc_ex add.assoc)
    then have "take q (v @ CR # LF # r) = v @ CR # take m (LF # r)" by simp
    then show ?thesis by (simp add: memchr_CR_def front)
  qed
  then have "header_loop (Suc i) (render_field f @ r) (int n) consumed =
      map_option (map_prod id (Cons (Some (map lower_byte k), v)))
        (header_loop i r (int q - int (length v) - 2) (consumed + length k + 1 + length [SP] + length v + 2))"
    by (subst header_loop_field [OF key _ gap q(2)]) (simp_all del: of_nat_add of_nat_Suc)
  also have "consumed + length k + 1 + length [SP] + length v + 2 = consumed + length (render_field f)"
    by (simp add: len)
  finally show ?thesis unfolding q(3) written_field_def f fst_conv snd_conv .
qed

lemma header_loop_fields:
  assumes "list_all form_field_ok fs" and "length fs < i" and "length (concat (map render_field fs)) + 2 \<le> n"
  shows "header_loop i (concat (map render_field fs) @ CRLF @ r) (int n) consumed =
    Some (consumed + length (concat (map render_field fs)) + 2, map written_field fs @ [(None, [])])"
  using assms
proof (induction fs arbitrary: i n consumed)
  case Nil
  then obtain j where "i = Suc j" by (cases i) auto
  then show ?case using Nil by (simp add: key_byte_def)
next
  case (Cons f fs)
  then obtain j where i: "i = Suc j" by (cases i) auto
  have len: "length (render_field f) \<le> n" using Cons.prems by simp
  have "header_loop j (concat (map render_field fs) @ CRLF @ r) (int (n - length (render_field f)))
      (consumed + length (render_field f)) =
      Some (consumed + length (render_field f) + length (concat (map render_field fs)) + 2, map written_field fs @ [(None, [])])"
    using Cons.prems by (intro Cons.IH) (auto simp: i)
  then show ?case
    using header_loop_render [OF _ len, of j "concat (map render_field fs) @ CRLF @ r" consumed] Cons.prems
    by (simp add: i)
qed

lemma take_part_render:
  assumes "part_ok boundary p"
  shows "take_part (render_part p @ r) (length (render_part p)) =
    Some (Some (snd p), map written_field (fst p) @ [(None, [])])"
proof -
  let ?h = "concat (map render_field (fst p))"
  let ?n = "length ?h + 2 + length (snd p)"
  have len: "length (render_part p) = ?n + 4" by (simp add: render_part_def)
  have "(drop 2 (render_part p @ r))[?n := CR] = (?h @ CRLF @ snd p) @ CR # LF # r"
    by (simp add: render_part_def list_update_append)
  then have buffer: "(drop 2 (render_part p @ r))[length (render_part p) - 4 := CR] = ?h @ CRLF @ (snd p @ CR # LF # r)"
    by (simp add: len)
  have "getHeaders (?h @ CRLF @ (snd p @ CR # LF # r)) ?n = Some (length ?h + 2, map written_field (fst p) @ [(None, [])])"
    unfolding getHeaders_def using header_loop_fields [of "fst p" MAX_HEADERS ?n _ 0] assms by (simp add: part_ok_def)
  moreover have "drop (length ?h + 2) (take ?n (?h @ CRLF @ (snd p @ CR # LF # r))) = snd p" by simp
  ultimately show ?thesis
    unfolding take_part_def Let_def buffer by (simp only: len add_diff_cancel_right') simp
qed

lemma part_found:
  assumes "part_ok boundary p" and "0 < length boundary"
    and "prependedBoundary q = delimiter boundary" and "\<not> first_part q"
    and "remainingBody q = render_part p @ delimiter boundary @ r"
  shows "getNextPart q = Some ((Some (snd p), map written_field (fst p) @ [(None, [])]), q\<lparr> remainingBody := r \<rparr>)"
proof -
  have "find_bytes (delimiter boundary) (render_part p @ delimiter boundary @ r) = Some (length (render_part p))"
    using find_bytes_append [of _ "render_part p @ delimiter boundary" _ r] assms(1) by (simp add: part_ok_def)
  then show ?thesis
    using take_part_render [OF assms(1), of "delimiter boundary @ r"] assms(3-5) by (simp add: getNextPart_def)
qed

lemma read_parts_from:
  assumes "list_all (part_ok boundary) ps" and "0 < length boundary"
    and "prependedBoundary q = delimiter boundary" and "\<not> first_part q"
    and "remainingBody q = concat (map (\<lambda>p. render_part p @ delimiter boundary) ps) @ bytes ''--''"
    and "length ps < n"
  shows "read_parts n q = Some (map part_result ps)"
  using assms
proof (induction ps arbitrary: n q)
  case Nil
  then show ?case by (cases n) (simp_all add: getNextPart_def delimiter_def)
next
  case (Cons p ps)
  then obtain m where n: "n = Suc m" by (cases n) auto
  show ?case
    using part_found [of boundary p q "concat (map (\<lambda>p. render_part p @ delimiter boundary) ps) @ bytes ''--''"]
      Cons.IH [of "q\<lparr> remainingBody := concat (map (\<lambda>p. render_part p @ delimiter boundary) ps) @ bytes ''--'' \<rparr>" m] Cons.prems
    by (simp add: n part_result_def)
qed

lemma multipart_constructor:
  assumes "0 < length boundary" and "length boundary \<le> 70"
  shows "multipartParser (bytes ''multipart/form-data; boundary='' @ boundary) =
    \<lparr> prependedBoundary = delimiter boundary, remainingBody = [], first_part = True \<rparr>"
proof -
  have "find_bytes (bytes ''='') (drop 10 (bytes ''multipart/form-data; boundary='' @ boundary)) = Some 19"
    by (simp add: bytes_simps)
  then show ?thesis
    using assms by (simp add: multipartParser_def Let_def delimiter_def) (simp add: bytes_simps)
qed

text \<open>C39: A multipart body of parts whose content does not contain the delimiter is read back part by part:
  every part's data, and its fields with the keys lowered, up to nine fields a part.\<close>

theorem multipart_roundtrip:
  assumes "0 < length boundary" and "length boundary \<le> 70"
    and "list_all (part_ok boundary) ps" and "length ps < n"
  shows "read_parts n (setBody (render_multipart boundary ps)
      (multipartParser (bytes ''multipart/form-data; boundary='' @ boundary))) = Some (map part_result ps)"
proof -
  let ?r = "concat (map (\<lambda>p. render_part p @ delimiter boundary) ps) @ bytes ''--''"
  define p where "p = \<lparr> prependedBoundary = delimiter boundary, remainingBody = render_multipart boundary ps, first_part = True \<rparr>"
  define q where "q = \<lparr> prependedBoundary = delimiter boundary, remainingBody = ?r, first_part = False \<rparr>"
  have rest: "read_parts n q = Some (map part_result ps)"
    by (rule read_parts_from [OF assms(3, 1) _ _ _ assms(4)]) (simp_all add: q_def)
  obtain m where n: "n = Suc m" using assms(4) by (cases n) auto
  have "find_bytes (delimiter boundary) (delimiter boundary @ ?r) = Some 0" by (rule find_bytes_front)
  moreover have "getNextPart q = Some ((None, []), q)" if "length ?r < length (delimiter boundary)"
    using that by (simp add: getNextPart_def q_def)
  moreover have "find_bytes (delimiter boundary) ?r = None" if "length ?r < length (delimiter boundary)"
    using find_bytes_SomeD [of "delimiter boundary" ?r] that by (cases "find_bytes (delimiter boundary) ?r") auto
  ultimately have "read_parts n p = read_parts n q"
    unfolding n p_def q_def by (auto simp: getNextPart_def render_multipart_def split: option.split)
  then show ?thesis
    unfolding multipart_constructor [OF assms(1, 2)] using rest by (simp add: setBody_def p_def)
qed

lemma example_part: "part_ok (bytes ''b'') ([(bytes ''A'', bytes ''x'')], bytes ''hi'')"
  by (simp add: part_ok_def form_field_ok_def MAX_HEADERS_def render_part_def render_field_def delimiter_def bytes_simps
      key_byte_def value_gap_def)

theorem multipart_roundtrip_witness:
  "read_parts 2 (setBody (render_multipart (bytes ''b'') [([(bytes ''A'', bytes ''x'')], bytes ''hi'')])
      (multipartParser (bytes ''multipart/form-data; boundary='' @ bytes ''b''))) =
   Some (map part_result [([(bytes ''A'', bytes ''x'')], bytes ''hi'')])"
  by (rule multipart_roundtrip) (simp_all add: example_part)

subsection \<open>Parameters\<close>

text \<open>A quoted parameter is read back, and the line continues behind its separator.\<close>

lemma getKeyValue_quoted:
  assumes "k \<noteq> []" and "list_all plain_byte k" and "hd k \<noteq> QUOTE" and "QUOTE \<notin> set v"
  shows "getKeyValue (k @ [EQUALS, QUOTE] @ v @ [QUOTE, SEMICOLON] @ rest) = ((k, v), rest)"
    and "getKeyValue (k @ [EQUALS, QUOTE] @ v @ [QUOTE]) = ((k, v), [])"
proof -
  obtain c k' where k: "k = c # k'" using assms(1) by (cases k) auto
  have c: "plain_byte c" "c \<noteq> QUOTE" "list_all plain_byte k'" using assms(2, 3) by (simp_all add: k)
  have eq: "\<not> plain_byte EQUALS" "\<not> isspace EQUALS" "\<not> isspace QUOTE" "\<not> isspace SEMICOLON"
    by (simp_all add: plain_byte_def isspace_def)
  have key: "getToken (k @ EQUALS # r) = (k, EQUALS # r)" for r
    using c eq by (simp add: getToken_def k plain_byte_def takeWhile_append_stop dropWhile_append_stop list_all_iff)
  have op: "getToken (EQUALS # r) = ([EQUALS], r)" for r using eq by (simp add: getToken_def)
  have quoted: "getToken (QUOTE # v @ QUOTE # r) = (v, r)" for r
  proof -
    have "takeWhile (\<lambda>c. c \<noteq> QUOTE) (v @ QUOTE # r) = v" "dropWhile (\<lambda>c. c \<noteq> QUOTE) (v @ QUOTE # r) = QUOTE # r"
      using assms(4) by (intro takeWhile_append_stop dropWhile_append_stop; auto)+
    then show ?thesis using eq by (simp add: getToken_def)
  qed
  have "getToken (SEMICOLON # rest) = ([SEMICOLON], rest)" "getToken [] = ([], [])" using eq by (simp_all add: getToken_def)
  then show "getKeyValue (k @ [EQUALS, QUOTE] @ v @ [QUOTE, SEMICOLON] @ rest) = ((k, v), rest)"
    and "getKeyValue (k @ [EQUALS, QUOTE] @ v @ [QUOTE]) = ((k, v), [])"
    using quoted [of "[]"] by (simp_all add: getKeyValue_def key op quoted)
qed

text \<open>An unterminated quote empties the line: the parameters behind it are lost.\<close>

lemma unterminated_quote: "QUOTE \<notin> set v \<Longrightarrow> getToken (QUOTE # v) = ([], [])"
proof -
  assume "QUOTE \<notin> set v"
  then have "dropWhile (\<lambda>c. c \<noteq> QUOTE) v = []" by (auto simp: dropWhile_eq_Nil_conv)
  then show ?thesis by (simp add: getToken_def isspace_def del: dropWhile_eq_Nil_conv)
qed

end
