(* ===== verification/Async_Socket.thy ===== *)
theory Async_Socket
  imports Uws_Prelude
begin

text \<open>
  The socket layer of \<open>src/src/AsyncSocket.h\<close>, with the backpressure buffer of
  \<open>src/src/AsyncSocketData.h\<close> and the cork buffer of \<open>src/src/LoopData.h\<close>.

  A loop has sockets, numbered by naturals, and one cork buffer, which at most one of them holds.
  The cork buffer is the list of its first \<open>corkOffset\<close> bytes. The functions of the uSockets
  library are the fields of a record over a state \<open>'w\<close> of the kernel; what they are relied
  on for is stated in \<open>socket_laws\<close>. Lengths are naturals: they stay far below the
  32 bits of the code's \<open>int\<close>. The templates with and without SSL have the same code.
\<close>

section \<open>Backpressure\<close>

record BackPressure =
  bp_string :: "byte list"
  pendingRemoval :: nat

definition empty_backpressure :: BackPressure where
  "empty_backpressure = \<lparr>bp_string = [], pendingRemoval = 0\<rparr>"

definition bp_append :: "byte list \<Rightarrow> BackPressure \<Rightarrow> BackPressure" where
  "bp_append data b = b\<lparr>bp_string := bp_string b @ data\<rparr>"

definition bp_erase :: "nat \<Rightarrow> BackPressure \<Rightarrow> BackPressure" where
  "bp_erase n b =
    (let removal = pendingRemoval b + n in
     if removal > length (bp_string b) div 32
     then \<lparr>bp_string = drop removal (bp_string b), pendingRemoval = 0\<rparr>
     else b\<lparr>pendingRemoval := removal\<rparr>)"

definition bp_length :: "BackPressure \<Rightarrow> nat" where
  "bp_length b = length (bp_string b) - pendingRemoval b"

definition bp_clear :: "BackPressure \<Rightarrow> BackPressure" where
  "bp_clear b = \<lparr>bp_string = [], pendingRemoval = 0\<rparr>"

definition string_resize :: "nat \<Rightarrow> byte list \<Rightarrow> byte list" where
  "string_resize n s = take n s @ replicate (n - length s) 0"

definition bp_resize :: "nat \<Rightarrow> BackPressure \<Rightarrow> BackPressure" where
  "bp_resize n b = b\<lparr>bp_string := string_resize (n + pendingRemoval b) (bp_string b)\<rparr>"

definition bp_data :: "BackPressure \<Rightarrow> byte list" where
  "bp_data b = drop (pendingRemoval b) (bp_string b)"

definition bp_totalLength :: "BackPressure \<Rightarrow> nat" where
  "bp_totalLength b = length (bp_string b)"

section \<open>The loop and its sockets\<close>

definition CORK_BUFFER_SIZE :: nat where "CORK_BUFFER_SIZE = 16 * 1024"

record 'w SocketOps =
  us_socket_is_closed :: "nat \<Rightarrow> 'w \<Rightarrow> bool"
  us_socket_write :: "nat \<Rightarrow> byte list \<Rightarrow> bool \<Rightarrow> 'w \<Rightarrow> nat \<times> 'w"
  us_socket_write2 :: "nat \<Rightarrow> byte list \<Rightarrow> byte list \<Rightarrow> 'w \<Rightarrow> nat \<times> 'w"
  us_socket_timeout :: "nat \<Rightarrow> nat \<Rightarrow> 'w \<Rightarrow> 'w"
  us_socket_shutdown :: "nat \<Rightarrow> 'w \<Rightarrow> 'w"
  us_socket_shutdown_read :: "nat \<Rightarrow> 'w \<Rightarrow> 'w"
  us_socket_is_shut_down :: "nat \<Rightarrow> 'w \<Rightarrow> bool"
  us_poll_events :: "nat \<Rightarrow> 'w \<Rightarrow> nat"
  us_poll_change :: "nat \<Rightarrow> nat \<Rightarrow> 'w \<Rightarrow> 'w"
  us_socket_remote_address :: "nat \<Rightarrow> 'w \<Rightarrow> byte list"
  us_socket_remote_port :: "nat \<Rightarrow> 'w \<Rightarrow> int"

record 'w LoopState =
  corkBuffer :: "byte list"
  corkedSocket :: "nat option"
  buffers :: "nat \<Rightarrow> BackPressure"
  us_events :: "nat \<times> nat"
  kernel :: 'w

abbreviation corkOffset :: "('w, 'z) LoopState_scheme \<Rightarrow> nat" where
  "corkOffset st \<equiv> length (corkBuffer st)"

definition set_buffer :: "nat \<Rightarrow> BackPressure \<Rightarrow> ('w, 'z) LoopState_scheme \<Rightarrow> ('w, 'z) LoopState_scheme" where
  "set_buffer this b st = st\<lparr>buffers := (buffers st)(this := b)\<rparr>"

definition socket_write ::
  "'w SocketOps \<Rightarrow> nat \<Rightarrow> byte list \<Rightarrow> bool \<Rightarrow> ('w, 'z) LoopState_scheme \<Rightarrow> nat \<times> ('w, 'z) LoopState_scheme" where
  "socket_write ops this src coming st =
    (case us_socket_write ops this src coming (kernel st) of (written, w) \<Rightarrow> (written, st\<lparr>kernel := w\<rparr>))"

definition timeout :: "'w SocketOps \<Rightarrow> nat \<Rightarrow> nat \<Rightarrow> ('w, 'z) LoopState_scheme \<Rightarrow> ('w, 'z) LoopState_scheme" where
  "timeout ops this seconds st = st\<lparr>kernel := us_socket_timeout ops this seconds (kernel st)\<rparr>"

definition shutdown :: "'w SocketOps \<Rightarrow> nat \<Rightarrow> ('w, 'z) LoopState_scheme \<Rightarrow> ('w, 'z) LoopState_scheme" where
  "shutdown ops this st = st\<lparr>kernel := us_socket_shutdown ops this (kernel st)\<rparr>"

definition corkUnchecked :: "nat \<Rightarrow> ('w, 'z) LoopState_scheme \<Rightarrow> ('w, 'z) LoopState_scheme" where
  "corkUnchecked this st = st\<lparr>corkedSocket := Some this\<rparr>"

definition isCorked :: "nat \<Rightarrow> ('w, 'z) LoopState_scheme \<Rightarrow> bool" where
  "isCorked this st \<longleftrightarrow> corkedSocket st = Some this"

definition canCork :: "('w, 'z) LoopState_scheme \<Rightarrow> bool" where
  "canCork st \<longleftrightarrow> corkedSocket st = None"

definition uncorkWithoutSending :: "nat \<Rightarrow> ('w, 'z) LoopState_scheme \<Rightarrow> ('w, 'z) LoopState_scheme" where
  "uncorkWithoutSending this st = (if isCorked this st then st\<lparr>corkedSocket := None\<rparr> else st)"

text \<open>None is the call of \<open>std::terminate\<close>.\<close>

definition cork :: "nat \<Rightarrow> ('w, 'z) LoopState_scheme \<Rightarrow> ('w, 'z) LoopState_scheme option" where
  "cork this st =
    (if corkOffset st \<noteq> 0 \<and> corkedSocket st \<noteq> Some this then None else Some (st\<lparr>corkedSocket := Some this\<rparr>))"

definition getBufferedAmount :: "nat \<Rightarrow> ('w, 'z) LoopState_scheme \<Rightarrow> nat" where
  "getBufferedAmount this st = bp_totalLength (buffers st this)"

text \<open>
  The poll events of a paused socket are kept in a static array of two, one cell for sockets with
  backpressure and one for those without, which all sockets of the thread share.
\<close>

definition throttle_helper :: "'w SocketOps \<Rightarrow> bool \<Rightarrow> nat \<Rightarrow> ('w, 'z) LoopState_scheme \<Rightarrow> ('w, 'z) LoopState_scheme" where
  "throttle_helper ops toggle this st =
    (if toggle then
       let events = us_poll_events ops this (kernel st);
           st = (if events \<noteq> 0 then
                   (if getBufferedAmount this st \<noteq> 0 then st\<lparr>us_events := (fst (us_events st), events)\<rparr>
                    else st\<lparr>us_events := (events, snd (us_events st))\<rparr>)
                 else st)
       in st\<lparr>kernel := us_poll_change ops this 0 (kernel st)\<rparr>
     else
       let events = (if getBufferedAmount this st \<noteq> 0 then snd (us_events st) else fst (us_events st))
       in st\<lparr>kernel := us_poll_change ops this events (kernel st)\<rparr>)"

definition pause :: "'w SocketOps \<Rightarrow> nat \<Rightarrow> ('w, 'z) LoopState_scheme \<Rightarrow> ('w, 'z) LoopState_scheme" where
  "pause ops this = throttle_helper ops True this"

definition resume :: "'w SocketOps \<Rightarrow> nat \<Rightarrow> ('w, 'z) LoopState_scheme \<Rightarrow> ('w, 'z) LoopState_scheme" where
  "resume ops this = throttle_helper ops False this"

section \<open>Addresses\<close>

text \<open>The conversions \<open>%u\<close> and \<open>%02x\<close> of \<open>snprintf\<close> on a byte.\<close>

definition format_u :: "byte \<Rightarrow> byte list" where
  "format_u b = (let n = unat b; digit = (\<lambda>d. of_nat (48 + d mod 10)) in
     (if n \<ge> 100 then [digit (n div 100)] else []) @ (if n \<ge> 10 then [digit (n div 10)] else []) @ [digit n])"

definition format_02x :: "byte \<Rightarrow> byte list" where
  "format_02x b = (let digit = (\<lambda>d. if d < 10 then of_nat (48 + d) else of_nat (87 + d)) in
     [digit (unat b div 16), digit (unat b mod 16)])"

definition addressAsText :: "byte list \<Rightarrow> byte list" where
  "addressAsText b =
    (if b = [] then []
     else if length b = 4 then
       format_u (b ! 0) @ [46] @ format_u (b ! 1) @ [46] @ format_u (b ! 2) @ [46] @ format_u (b ! 3)
     else
       concat (map (\<lambda>i. (if i = 0 then [] else [58]) @ format_02x (b ! (2 * i)) @ format_02x (b ! (2 * i + 1))) [0..<8]))"

definition getRemoteAddress :: "'w SocketOps \<Rightarrow> nat \<Rightarrow> ('w, 'z) LoopState_scheme \<Rightarrow> byte list" where
  "getRemoteAddress ops this st = us_socket_remote_address ops this (kernel st)"

definition getRemoteAddressAsText :: "'w SocketOps \<Rightarrow> nat \<Rightarrow> ('w, 'z) LoopState_scheme \<Rightarrow> byte list" where
  "getRemoteAddressAsText ops this st = addressAsText (getRemoteAddress ops this st)"

definition getRemotePort :: "'w SocketOps \<Rightarrow> nat \<Rightarrow> ('w, 'z) LoopState_scheme \<Rightarrow> u32" where
  "getRemotePort ops this st = of_int (us_socket_remote_port ops this (kernel st))"

section \<open>Send buffers\<close>

datatype SendBufferAttribute = NEEDS_NOTHING | NEEDS_DRAIN | NEEDS_UNCORK

text \<open>The pointer that is returned: an offset in the cork buffer or in the string of the backpressure.\<close>

datatype SendBuffer = InCork nat | InBackpressure nat

definition getSendBuffer ::
  "nat \<Rightarrow> nat \<Rightarrow> ('w, 'z) LoopState_scheme \<Rightarrow> ((SendBuffer \<times> SendBufferAttribute) \<times> ('w, 'z) LoopState_scheme) option" where
  "getSendBuffer this n st =
    (let existingBackpressure = bp_length (buffers st this) in
     if existingBackpressure = 0 \<and> (isCorked this st \<or> canCork st) \<and> corkOffset st + n < CORK_BUFFER_SIZE then
       (if isCorked this st then
          Some ((InCork (corkOffset st), NEEDS_NOTHING), st\<lparr>corkBuffer := corkBuffer st @ replicate n 0\<rparr>)
        else
          case cork this st of
            None \<Rightarrow> None
          | Some st \<Rightarrow> Some ((InCork (corkOffset st), NEEDS_UNCORK), st\<lparr>corkBuffer := corkBuffer st @ replicate n 0\<rparr>))
     else
       let ours = (if isCorked this st \<and> corkOffset st \<noteq> 0 then corkBuffer st else []);
           st = (if isCorked this st \<and> corkOffset st \<noteq> 0 then st\<lparr>corkBuffer := []\<rparr> else st);
           b = bp_resize (length ours + existingBackpressure + n) (buffers st this);
           at_ours = pendingRemoval b + existingBackpressure;
           b = b\<lparr>bp_string := take at_ours (bp_string b) @ ours @ drop (at_ours + length ours) (bp_string b)\<rparr>
       in Some ((InBackpressure (at_ours + length ours), NEEDS_DRAIN), set_buffer this b st))"

text \<open>A caller fills the buffer it was given.\<close>

definition overwrite :: "nat \<Rightarrow> byte list \<Rightarrow> byte list \<Rightarrow> byte list" where
  "overwrite n bs s = take n s @ bs @ drop (n + length bs) s"

definition fillSendBuffer :: "nat \<Rightarrow> SendBuffer \<Rightarrow> byte list \<Rightarrow> ('w, 'z) LoopState_scheme \<Rightarrow> ('w, 'z) LoopState_scheme" where
  "fillSendBuffer this sb bs st =
    (case sb of
       InCork n \<Rightarrow> st\<lparr>corkBuffer := overwrite n bs (corkBuffer st)\<rparr>
     | InBackpressure n \<Rightarrow>
         set_buffer this ((buffers st this)\<lparr>bp_string := overwrite n bs (bp_string (buffers st this))\<rparr>) st)"

section \<open>Writing\<close>

text \<open>
  \<open>write\<close> and \<open>uncork\<close> call each other: \<open>write\<close> of a corked socket calls \<open>uncork\<close>, which
  uncorks and calls \<open>write\<close> twice. Each is written over the other; \<open>uncork_calls_write\<close> below
  shows that the two together satisfy the equations of the code.
\<close>

definition write_with ::
  "(byte list \<Rightarrow> bool \<Rightarrow> ('w, 'z) LoopState_scheme \<Rightarrow> (nat \<times> bool) \<times> ('w, 'z) LoopState_scheme) \<Rightarrow>
   'w SocketOps \<Rightarrow> nat \<Rightarrow> byte list \<Rightarrow> bool \<Rightarrow> nat \<Rightarrow> ('w, 'z) LoopState_scheme \<Rightarrow> (nat \<times> bool) \<times> ('w, 'z) LoopState_scheme" where
  "write_with unc ops this src optionally nextLength st =
    (if us_socket_is_closed ops this (kernel st) then ((length src, False), st)
     else
       let buffer = buffers st this;
           (drained, st) =
             (if bp_length buffer \<noteq> 0 then
                (case socket_write ops this (bp_data buffer) (src \<noteq> []) st of
                   (written, st) \<Rightarrow>
                     if written < bp_length buffer then (False, set_buffer this (bp_erase written buffer) st)
                     else (True, set_buffer this (bp_clear buffer) st))
              else (True, st))
       in
       if \<not> drained then
         (if optionally then ((0, True), st)
          else ((length src, True), set_buffer this (bp_append src (buffers st this)) st))
       else if src = [] then ((0, False), st)
       else if corkedSocket st = Some this then
         (if CORK_BUFFER_SIZE - corkOffset st \<ge> length src
          then ((length src, False), st\<lparr>corkBuffer := corkBuffer st @ src\<rparr>)
          else unc src optionally st)
       else
         (case socket_write ops this src (nextLength \<noteq> 0) st of
            (written, st) \<Rightarrow>
              if written < length src then
                (if optionally then ((written, True), st)
                 else ((length src, True), set_buffer this (bp_append (drop written src) (buffers st this)) st))
              else ((length src, False), st)))"

definition uncork_with ::
  "(byte list \<Rightarrow> bool \<Rightarrow> nat \<Rightarrow> ('w, 'z) LoopState_scheme \<Rightarrow> (nat \<times> bool) \<times> ('w, 'z) LoopState_scheme) \<Rightarrow>
   nat \<Rightarrow> byte list \<Rightarrow> bool \<Rightarrow> ('w, 'z) LoopState_scheme \<Rightarrow> (nat \<times> bool) \<times> ('w, 'z) LoopState_scheme" where
  "uncork_with wri this src optionally st =
    (if corkedSocket st = Some this then
       let st = st\<lparr>corkedSocket := None\<rparr> in
       if corkOffset st \<noteq> 0 then
         (case wri (corkBuffer st) False (length src) st of
            ((_, failed), st) \<Rightarrow>
              let st = st\<lparr>corkBuffer := []\<rparr> in
              if failed then ((0, True), st) else wri src optionally 0 st)
       else wri src optionally 0 st
     else ((0, False), st))"

definition write_uncorked ::
  "'w SocketOps \<Rightarrow> nat \<Rightarrow> byte list \<Rightarrow> bool \<Rightarrow> nat \<Rightarrow> ('w, 'z) LoopState_scheme \<Rightarrow> (nat \<times> bool) \<times> ('w, 'z) LoopState_scheme" where
  "write_uncorked ops this = write_with (\<lambda>src optionally st. ((0, False), st)) ops this"

definition uncork ::
  "'w SocketOps \<Rightarrow> nat \<Rightarrow> byte list \<Rightarrow> bool \<Rightarrow> ('w, 'z) LoopState_scheme \<Rightarrow> (nat \<times> bool) \<times> ('w, 'z) LoopState_scheme" where
  "uncork ops this = uncork_with (write_uncorked ops this) this"

definition async_write ::
  "'w SocketOps \<Rightarrow> nat \<Rightarrow> byte list \<Rightarrow> bool \<Rightarrow> nat \<Rightarrow> ('w, 'z) LoopState_scheme \<Rightarrow> (nat \<times> bool) \<times> ('w, 'z) LoopState_scheme" where
  "async_write ops this = write_with (uncork ops this) ops this"

lemma set_buffer_simps [simp]:
  "corkBuffer (set_buffer this b st) = corkBuffer st" "corkedSocket (set_buffer this b st) = corkedSocket st"
  "kernel (set_buffer this b st) = kernel st" "buffers (set_buffer this b st) = (buffers st)(this := b)"
  by (simp_all add: set_buffer_def)

lemma socket_write_kernel:
  "socket_write ops this src coming st = (written, st') \<Longrightarrow> \<exists>w. us_socket_write ops this src coming (kernel st) = (written, w) \<and> st' = st\<lparr>kernel := w\<rparr>"
  by (auto simp: socket_write_def split: prod.splits)

text \<open>A socket that is not corked takes the same path whatever \<open>uncork\<close> does, and stays so.\<close>

lemma write_with_uncorked:
  assumes "corkedSocket st \<noteq> Some this"
  shows "write_with unc ops this src optionally nextLength st = write_uncorked ops this src optionally nextLength st"
    and "corkedSocket (snd (write_uncorked ops this src optionally nextLength st)) = corkedSocket st"
  using assms unfolding write_uncorked_def write_with_def Let_def
  by (auto split: prod.splits if_splits dest!: socket_write_kernel)

lemma uncork_calls_write: "uncork ops this src optionally st = uncork_with (async_write ops this) this src optionally st"
proof -
  have *: "async_write ops this src' o' n st' = write_uncorked ops this src' o' n st'" if "corkedSocket st' \<noteq> Some this" for src' o' n st'
    unfolding async_write_def by (rule write_with_uncorked(1) [OF that])
  show ?thesis
  proof (cases "corkedSocket st = Some this")
    case True
    let ?st = "st\<lparr>corkedSocket := None\<rparr>"
    obtain x f st1 where w: "write_uncorked ops this (corkBuffer st) False (length src) ?st = ((x, f), st1)"
      by (metis prod.collapse)
    have "corkedSocket st1 = None"
      using write_with_uncorked(2) [of ?st this ops "corkBuffer st" False "length src"] w by simp
    then show ?thesis using w by (simp add: uncork_def uncork_with_def * True Let_def)
  qed (simp add: uncork_def uncork_with_def)
qed

end
