(* ===== verification/Topic_Tree.thy ===== *)
theory Topic_Tree
  imports Uws_Prelude
begin

text \<open>
  Publish and subscribe, \<open>src/src/TopicTree.h\<close>. Subscribers are numbered by naturals, their
  pointers; \<open>live\<close> lists those that are allocated. The subscribers that need drainage form a doubly
  linked list through \<open>prev\<close> and \<open>next\<close>. The sets of pointers and the hash map are lists in the order
  of their iteration, which C++ leaves open. A topic is named by its text, as in the code, where at
  most one topic of a name exists at any time.

  The drain callback acts on a state \<open>'u\<close> of the application and returns true to stop early; its
  contract forbids it to touch the tree. None is an access outside a vector, a call of
  \<open>std::terminate\<close>, or a walk along the list that does not end.
\<close>

section \<open>State\<close>

type_synonym topic = "byte list"

record Subscriber =
  prev_sub :: "nat option"
  next_sub :: "nat option"
  messageIndices :: "nat list"
  numMessageIndices :: nat
  sub_topics :: "topic list"

record ('m, 'u) TopicTree =
  iteratingSubscriber :: "nat option"
  topic_map :: "(topic \<times> nat list) list"
  drainableSubscribers :: "nat option"
  outgoingMessages :: "'m list"
  live :: "nat list"
  subs :: "nat \<Rightarrow> Subscriber"
  app :: 'u

text \<open>The callback gets the subscriber, the message, and the flags FIRST and LAST.\<close>

type_synonym ('m, 'u) drain_cb = "nat \<Rightarrow> 'm \<Rightarrow> bool \<Rightarrow> bool \<Rightarrow> 'u \<Rightarrow> bool \<times> 'u"

definition MESSAGE_LIMIT :: nat where "MESSAGE_LIMIT = 32"
definition INDEX_LIMIT :: nat where "INDEX_LIMIT = 65535"

definition needsDrainage :: "Subscriber \<Rightarrow> bool" where
  "needsDrainage s \<longleftrightarrow> numMessageIndices s \<noteq> 0"

definition set_sub :: "nat \<Rightarrow> Subscriber \<Rightarrow> ('m, 'u) TopicTree \<Rightarrow> ('m, 'u) TopicTree" where
  "set_sub s r t = t\<lparr>subs := (subs t)(s := r)\<rparr>"

definition empty_tree :: "'u \<Rightarrow> ('m, 'u) TopicTree" where
  "empty_tree u = \<lparr>iteratingSubscriber = None, topic_map = [], drainableSubscribers = None, outgoingMessages = [],
     live = [], subs = (\<lambda>_. \<lparr>prev_sub = None, next_sub = None, messageIndices = replicate MESSAGE_LIMIT 0, numMessageIndices = 0, sub_topics = []\<rparr>),
     app = u\<rparr>"

definition checkIteratingSubscriber :: "nat \<Rightarrow> ('m, 'u) TopicTree \<Rightarrow> bool" where
  "checkIteratingSubscriber s t \<longleftrightarrow> iteratingSubscriber t \<noteq> Some s"

definition lookupTopic :: "topic \<Rightarrow> ('m, 'u) TopicTree \<Rightarrow> nat list option" where
  "lookupTopic topic t = map_of (topic_map t) topic"

definition set_topic :: "topic \<Rightarrow> nat list \<Rightarrow> ('m, 'u) TopicTree \<Rightarrow> ('m, 'u) TopicTree" where
  "set_topic topic ss t = t\<lparr>topic_map := map (\<lambda>p. if fst p = topic then (topic, ss) else p) (topic_map t)\<rparr>"

definition erase_topic :: "topic \<Rightarrow> ('m, 'u) TopicTree \<Rightarrow> ('m, 'u) TopicTree" where
  "erase_topic topic t = t\<lparr>topic_map := filter (\<lambda>p. fst p \<noteq> topic) (topic_map t)\<rparr>"

section \<open>Draining\<close>

fun drainLoop :: "('m, 'u) drain_cb \<Rightarrow> nat \<Rightarrow> 'm list \<Rightarrow> bool \<Rightarrow> nat list \<Rightarrow> 'u \<Rightarrow> 'u option" where
  "drainLoop cb s out first [] u = Some u"
| "drainLoop cb s out first (i # is) u =
    (if i < length out then
       (case cb s (out ! i) first (is = []) u of
          (stop, u) \<Rightarrow> if stop then Some u else drainLoop cb s out False is u)
     else None)"

definition drainImpl :: "('m, 'u) drain_cb \<Rightarrow> nat \<Rightarrow> ('m, 'u) TopicTree \<Rightarrow> ('m, 'u) TopicTree option" where
  "drainImpl cb s t =
    (let n = numMessageIndices (subs t s);
         t = set_sub s ((subs t s)\<lparr>numMessageIndices := 0\<rparr>) t
     in map_option (\<lambda>u. t\<lparr>app := u\<rparr>)
          (drainLoop cb s (outgoingMessages t) True (take n (messageIndices (subs t s))) (app t)))"

definition unlinkDrainableSubscriber :: "nat \<Rightarrow> ('m, 'u) TopicTree \<Rightarrow> ('m, 'u) TopicTree" where
  "unlinkDrainableSubscriber s t =
    (let t = (case prev_sub (subs t s) of
                None \<Rightarrow> t | Some p \<Rightarrow> set_sub p ((subs t p)\<lparr>next_sub := next_sub (subs t s)\<rparr>) t);
         t = (case next_sub (subs t s) of
                None \<Rightarrow> t | Some n \<Rightarrow> set_sub n ((subs t n)\<lparr>prev_sub := prev_sub (subs t s)\<rparr>) t)
     in if drainableSubscribers t = Some s then t\<lparr>drainableSubscribers := next_sub (subs t s)\<rparr> else t)"

text \<open>\<open>drain(Subscriber *)\<close>.\<close>

definition drain_subscriber :: "('m, 'u) drain_cb \<Rightarrow> nat \<Rightarrow> ('m, 'u) TopicTree \<Rightarrow> ('m, 'u) TopicTree option" where
  "drain_subscriber cb s t =
    (if needsDrainage (subs t s) then
       (case drainImpl cb s (unlinkDrainableSubscriber s t) of
          None \<Rightarrow> None
        | Some t \<Rightarrow> Some (if drainableSubscribers t = None then t\<lparr>outgoingMessages := []\<rparr> else t))
     else Some t)"

text \<open>\<open>drain()\<close>: the walk along the list reads \<open>next\<close> after the callbacks.\<close>

partial_function (option) drainWalk ::
  "('m, 'u) drain_cb \<Rightarrow> nat option \<Rightarrow> ('m, 'u) TopicTree \<Rightarrow> ('m, 'u) TopicTree option" where
  "drainWalk cb p t =
    (case p of
       None \<Rightarrow> Some t
     | Some s \<Rightarrow> Option.bind (drainImpl cb s t) (\<lambda>t. drainWalk cb (next_sub (subs t s)) t))"

definition drain_all :: "('m, 'u) drain_cb \<Rightarrow> ('m, 'u) TopicTree \<Rightarrow> ('m, 'u) TopicTree option" where
  "drain_all cb t =
    (if drainableSubscribers t = None then Some t
     else map_option (\<lambda>t. t\<lparr>drainableSubscribers := None, outgoingMessages := []\<rparr>)
       (drainWalk cb (drainableSubscribers t) t))"

section \<open>Subscriptions\<close>

definition createSubscriber :: "nat \<Rightarrow> ('m, 'u) TopicTree \<Rightarrow> ('m, 'u) TopicTree" where
  "createSubscriber s t = set_sub s
     \<lparr>prev_sub = None, next_sub = None, messageIndices = replicate MESSAGE_LIMIT 0, numMessageIndices = 0, sub_topics = []\<rparr>
     (t\<lparr>live := s # live t\<rparr>)"

text \<open>The result is the size of the topic, or None when already subscribed.\<close>

definition subscribe :: "nat \<Rightarrow> topic \<Rightarrow> ('m, 'u) TopicTree \<Rightarrow> (nat option \<times> ('m, 'u) TopicTree) option" where
  "subscribe s topic t =
    (if \<not> checkIteratingSubscriber s t then None
     else
       let t = (case lookupTopic topic t of None \<Rightarrow> t\<lparr>topic_map := (topic, []) # topic_map t\<rparr> | Some _ \<Rightarrow> t);
           ss = (case lookupTopic topic t of None \<Rightarrow> [] | Some ss \<Rightarrow> ss)
       in if topic \<in> set (sub_topics (subs t s)) then Some (None, t)
          else Some (Some (length (List.insert s ss)),
            set_topic topic (List.insert s ss) (set_sub s ((subs t s)\<lparr>sub_topics := topic # sub_topics (subs t s)\<rparr>) t)))"

definition unsubscribe :: "nat \<Rightarrow> topic \<Rightarrow> ('m, 'u) TopicTree \<Rightarrow> ((bool \<times> bool \<times> int) \<times> ('m, 'u) TopicTree) option" where
  "unsubscribe s topic t =
    (if \<not> checkIteratingSubscriber s t then None
     else
       case lookupTopic topic t of
         None \<Rightarrow> Some ((False, False, -1), t)
       | Some ss \<Rightarrow>
           if topic \<notin> set (sub_topics (subs t s)) then Some ((False, False, -1), t)
           else
             let t = set_sub s ((subs t s)\<lparr>sub_topics := removeAll topic (sub_topics (subs t s))\<rparr>) t;
                 ss = removeAll s ss;
                 t = (if ss = [] then erase_topic topic t else set_topic topic ss t)
             in Some ((True, sub_topics (subs t s) = [], int (length ss)), t))"

definition leaveTopic :: "nat \<Rightarrow> topic \<Rightarrow> ('m, 'u) TopicTree \<Rightarrow> ('m, 'u) TopicTree" where
  "leaveTopic s topic t =
    (case lookupTopic topic t of
       None \<Rightarrow> t
     | Some ss \<Rightarrow> if length ss = 1 then erase_topic topic t else set_topic topic (removeAll s ss) t)"

text \<open>None is the null pointer.\<close>

definition freeSubscriber :: "nat option \<Rightarrow> ('m, 'u) TopicTree \<Rightarrow> ('m, 'u) TopicTree" where
  "freeSubscriber p t =
    (case p of
       None \<Rightarrow> t
     | Some s \<Rightarrow>
       let t = fold (leaveTopic s) (sub_topics (subs t s)) t;
           t = (if needsDrainage (subs t s) then unlinkDrainableSubscriber s t else t)
       in t\<lparr>live := removeAll s (live t)\<rparr>)"

section \<open>Publishing\<close>

fun bigLoop :: "nat option \<Rightarrow> (nat \<Rightarrow> ('m, 'u) TopicTree \<Rightarrow> ('m, 'u) TopicTree option) \<Rightarrow> nat list \<Rightarrow> ('m, 'u) TopicTree \<Rightarrow> ('m, 'u) TopicTree option" where
  "bigLoop sender f [] t = Some t"
| "bigLoop sender f (s # ss) t =
    (if sender \<noteq> Some s then (case f s t of None \<Rightarrow> None | Some t \<Rightarrow> bigLoop sender f ss t) else bigLoop sender f ss t)"

text \<open>The function that gets the big message may send, so it acts on the tree, too.\<close>

definition publishBig ::
  "nat option \<Rightarrow> topic \<Rightarrow> (nat \<Rightarrow> ('m, 'u) TopicTree \<Rightarrow> ('m, 'u) TopicTree option) \<Rightarrow> ('m, 'u) TopicTree \<Rightarrow> (bool \<times> ('m, 'u) TopicTree) option" where
  "publishBig sender topic f t =
    (case lookupTopic topic t of
       None \<Rightarrow> Some (False, t)
     | Some ss \<Rightarrow> map_option (Pair True) (bigLoop sender f ss t))"

definition linkDrainableSubscriber :: "nat \<Rightarrow> ('m, 'u) TopicTree \<Rightarrow> ('m, 'u) TopicTree" where
  "linkDrainableSubscriber s t =
    (let t = set_sub s ((subs t s)\<lparr>next_sub := drainableSubscribers t, prev_sub := None\<rparr>) t;
         t = (case next_sub (subs t s) of None \<Rightarrow> t | Some n \<Rightarrow> set_sub n ((subs t n)\<lparr>prev_sub := Some s\<rparr>) t)
     in t\<lparr>drainableSubscribers := Some s\<rparr>)"

definition addMessageIndex :: "nat \<Rightarrow> ('m, 'u) TopicTree \<Rightarrow> ('m, 'u) TopicTree" where
  "addMessageIndex s t =
    (let r = subs t s;
         t = set_sub s (r\<lparr>messageIndices := (messageIndices r)[numMessageIndices r := length (outgoingMessages t) mod 65536],
                          numMessageIndices := numMessageIndices r + 1\<rparr>) t
     in if numMessageIndices (subs t s) = 1 then linkDrainableSubscriber s t else t)"

definition publishTo :: "('m, 'u) drain_cb \<Rightarrow> nat \<Rightarrow> ('m, 'u) TopicTree \<Rightarrow> ('m, 'u) TopicTree option" where
  "publishTo cb s t =
    map_option (addMessageIndex s)
      (if numMessageIndices (subs t s) = MESSAGE_LIMIT then drain_subscriber cb s t else Some t)"

fun publishLoop :: "('m, 'u) drain_cb \<Rightarrow> nat option \<Rightarrow> nat list \<Rightarrow> bool \<Rightarrow> ('m, 'u) TopicTree \<Rightarrow> (bool \<times> ('m, 'u) TopicTree) option" where
  "publishLoop cb sender [] referenced t = Some (referenced, t)"
| "publishLoop cb sender (s # ss) referenced t =
    (if sender \<noteq> Some s then
       (case publishTo cb s t of None \<Rightarrow> None | Some t \<Rightarrow> publishLoop cb sender ss True t)
     else publishLoop cb sender ss referenced t)"

definition publish :: "('m, 'u) drain_cb \<Rightarrow> nat option \<Rightarrow> topic \<Rightarrow> 'm \<Rightarrow> ('m, 'u) TopicTree \<Rightarrow> (bool \<times> ('m, 'u) TopicTree) option" where
  "publish cb sender topic m t =
    (case lookupTopic topic t of
       None \<Rightarrow> Some (False, t)
     | Some ss \<Rightarrow>
       (case (if length (outgoingMessages t) = INDEX_LIMIT then drain_all cb t else Some t) of
          None \<Rightarrow> None
        | Some t \<Rightarrow>
          (case publishLoop cb sender ss False t of
             None \<Rightarrow> None
           | Some (referenced, t) \<Rightarrow>
               Some (referenced, if referenced then t\<lparr>outgoingMessages := outgoingMessages t @ [m]\<rparr> else t))))"

lemma set_sub_simps [simp]:
  "subs (set_sub s r t) = (subs t)(s := r)" "iteratingSubscriber (set_sub s r t) = iteratingSubscriber t"
  "topic_map (set_sub s r t) = topic_map t" "drainableSubscribers (set_sub s r t) = drainableSubscribers t"
  "outgoingMessages (set_sub s r t) = outgoingMessages t" "live (set_sub s r t) = live t" "app (set_sub s r t) = app t"
  by (simp_all add: set_sub_def)

end
