(* ===== verification/Ws_Server.thy ===== *)
theory Ws_Server
  imports Ws_Protocol Async_Socket Topic_Tree
begin

text \<open>
  The state of a WebSocket server and what an application calls on it: \<open>WebSocketData.h\<close>,
  \<open>WebSocketContextData.h\<close>, \<open>WebSocket.h\<close> and the publish functions of \<open>App.h\<close>.

  The state is the topic tree of the app, whose application state is the loop: the cork buffer and
  send buffers of \<open>Async_Socket\<close>, the data of each socket, the compressors, and a state \<open>'u\<close> of the
  user's program. Sockets are numbered by naturals. What does not change while the server runs is an
  environment: the library functions (uSockets, zlib) and the context data of each socket, with the
  user's handlers. A handler is a function on the whole state, so it may call anything below; None is
  a run that ended in \<open>std::terminate\<close> or outside a vector. \<open>droppedHandler\<close> may be called while the
  tree is drained, where its contract forbids to touch the tree, and acts on the loop alone.

  \<open>terminated\<close> records a call of \<open>std::terminate\<close> by the cork buffer; what a model run does after
  it is meaningless.
\<close>

section \<open>State\<close>

datatype CompressionStatus = DISABLED | ENABLED | COMPRESSED_FRAME

record WebSocketData =
  ws_state :: WsState
  fragmentBuffer :: "byte list"
  controlTipLength :: nat
  isShuttingDown :: bool
  hasTimedOut :: bool
  compressionStatus :: CompressionStatus
  deflationStream :: bool
  inflationStream :: bool
  subscriber :: "nat option"

text \<open>The constructor; a dedicated stream is present or not.\<close>

definition COMPRESSOR_MASK :: u16 where "COMPRESSOR_MASK = 0x00FF"
definition DECOMPRESSOR_MASK :: u16 where "DECOMPRESSOR_MASK = 0x0F00"
definition SHARED_COMPRESSOR :: u16 where "SHARED_COMPRESSOR = 1"
definition SHARED_DECOMPRESSOR :: u16 where "SHARED_DECOMPRESSOR = push_bit 8 1"

definition webSocketData :: "bool \<Rightarrow> u16 \<Rightarrow> WebSocketData" where
  "webSocketData perMessageDeflate compressOptions =
     \<lparr> ws_state = initial_ws True, fragmentBuffer = [], controlTipLength = 0, isShuttingDown = False,
       hasTimedOut = False, compressionStatus = (if perMessageDeflate then ENABLED else DISABLED),
       deflationStream = (perMessageDeflate \<and> compressOptions AND COMPRESSOR_MASK \<noteq> SHARED_COMPRESSOR),
       inflationStream = (perMessageDeflate \<and> compressOptions AND DECOMPRESSOR_MASK \<noteq> SHARED_DECOMPRESSOR),
       subscriber = None \<rparr>"

record TopicTreeMessage =
  tm_message :: "byte list"
  tm_opCode :: byte
  tm_compress :: bool

text \<open>
  \<open>sub_user\<close> is \<open>Subscriber::user\<close>, the socket of a subscriber, and \<open>needsUncork\<close> the variable that
  the drain callback captures.
\<close>

record ('w, 'z, 'u) ServerLoop = "'w LoopState" +
  sockets :: "nat \<Rightarrow> WebSocketData"
  zlib :: 'z
  sub_user :: "nat \<Rightarrow> nat"
  needsUncork :: bool
  terminated :: bool
  user :: 'u

type_synonym ('w, 'z, 'u) server = "(TopicTreeMessage, ('w, 'z, 'u) ServerLoop) TopicTree"

text \<open>\<open>WebSocketContextData\<close>. A handler that is not set is None.\<close>

record ('w, 'z, 'u) WsContext =
  openHandler :: "(nat \<Rightarrow> ('w, 'z, 'u) server \<Rightarrow> ('w, 'z, 'u) server option) option"
  messageHandler :: "(nat \<Rightarrow> byte list \<Rightarrow> byte \<Rightarrow> ('w, 'z, 'u) server \<Rightarrow> ('w, 'z, 'u) server option) option"
  droppedHandler :: "(nat \<Rightarrow> byte list \<Rightarrow> byte \<Rightarrow> ('w, 'z, 'u) ServerLoop \<Rightarrow> ('w, 'z, 'u) ServerLoop) option"
  drainHandler :: "(nat \<Rightarrow> ('w, 'z, 'u) server \<Rightarrow> ('w, 'z, 'u) server option) option"
  subscriptionHandler :: "(nat \<Rightarrow> topic \<Rightarrow> int \<Rightarrow> int \<Rightarrow> ('w, 'z, 'u) server \<Rightarrow> ('w, 'z, 'u) server option) option"
  closeHandler :: "(nat \<Rightarrow> int \<Rightarrow> byte list \<Rightarrow> ('w, 'z, 'u) server \<Rightarrow> ('w, 'z, 'u) server option) option"
  pingHandler :: "(nat \<Rightarrow> byte list \<Rightarrow> ('w, 'z, 'u) server \<Rightarrow> ('w, 'z, 'u) server option) option"
  pongHandler :: "(nat \<Rightarrow> byte list \<Rightarrow> ('w, 'z, 'u) server \<Rightarrow> ('w, 'z, 'u) server option) option"
  maxPayloadLength :: nat
  compression :: u16
  maxBackpressure :: nat
  closeOnBackpressureLimit :: bool
  resetIdleTimeoutOnSend :: bool
  sendPingsAutomatically :: bool
  maxLifetime :: u16
  idleTimeoutComponents :: "u16 \<times> u16"

text \<open>
  \<open>kernel_close\<close> is what \<open>us_socket_close\<close> does to an open socket before it calls the close handler
  of the context. The streams of zlib are those of a socket or, for None, the shared ones of the
  loop, which are reset after each use; inflation gets the largest length it may return.
\<close>

record ('w, 'z, 'u) Env =
  socket_ops :: "'w SocketOps"
  kernel_close :: "nat \<Rightarrow> 'w \<Rightarrow> 'w"
  ssl :: bool
  deflate :: "nat option \<Rightarrow> byte list \<Rightarrow> 'z \<Rightarrow> byte list \<times> 'z"
  inflate :: "nat option \<Rightarrow> byte list \<Rightarrow> nat \<Rightarrow> 'z \<Rightarrow> byte list option \<times> 'z"
  contextData :: "nat \<Rightarrow> ('w, 'z, 'u) WsContext"

subsection \<open>Timeouts\<close>

text \<open>The margin is doubled at most twice before it is 16.\<close>

fun idle_margin :: "nat \<Rightarrow> u16 \<Rightarrow> u16 \<Rightarrow> u16" where
  "idle_margin 0 idleTimeout margin = margin"
| "idle_margin (Suc n) idleTimeout margin =
     (if uint idleTimeout - uint margin * 2 \<ge> uint margin * 2 \<and> margin < 16
      then idle_margin n idleTimeout (push_bit 1 margin) else margin)"

definition calculateIdleTimeoutCompnents :: "bool \<Rightarrow> u16 \<Rightarrow> u16 \<times> u16" where
  "calculateIdleTimeoutCompnents pings idleTimeout =
     (let margin = idle_margin 3 idleTimeout 4 in (of_int (uint idleTimeout - (if pings then uint margin else 0)), margin))"

subsection \<open>Access to the state\<close>

definition on_socket :: "nat \<Rightarrow> (WebSocketData \<Rightarrow> WebSocketData) \<Rightarrow> ('w, 'z, 'u) ServerLoop \<Rightarrow> ('w, 'z, 'u) ServerLoop" where
  "on_socket this f l = l\<lparr> sockets := (sockets l)(this := f (sockets l this)) \<rparr>"

abbreviation data_of :: "nat \<Rightarrow> ('w, 'z, 'u) server \<Rightarrow> WebSocketData" where
  "data_of this t \<equiv> sockets (app t) this"

abbreviation socket_closed :: "('w, 'z, 'u) Env \<Rightarrow> nat \<Rightarrow> ('w, 'z, 'u) server \<Rightarrow> bool" where
  "socket_closed env this t \<equiv> us_socket_is_closed (socket_ops env) this (kernel (app t))"

definition on_loop :: "(('w, 'z, 'u) ServerLoop \<Rightarrow> ('w, 'z, 'u) ServerLoop) \<Rightarrow> ('w, 'z, 'u) server \<Rightarrow> ('w, 'z, 'u) server" where
  "on_loop f t = t\<lparr> app := f (app t) \<rparr>"

definition ws_timeout :: "('w, 'z, 'u) Env \<Rightarrow> nat \<Rightarrow> u16 \<Rightarrow> ('w, 'z, 'u) ServerLoop \<Rightarrow> ('w, 'z, 'u) ServerLoop" where
  "ws_timeout env this seconds l = timeout (socket_ops env) this (unat seconds) l"

text \<open>The two lines that every activity of a socket runs.\<close>

definition refresh_timeout :: "('w, 'z, 'u) Env \<Rightarrow> nat \<Rightarrow> ('w, 'z, 'u) ServerLoop \<Rightarrow> ('w, 'z, 'u) ServerLoop" where
  "refresh_timeout env this l =
     on_socket this (\<lambda>d. d\<lparr> hasTimedOut := False \<rparr>)
       (ws_timeout env this (fst (idleTimeoutComponents (contextData env this))) l)"

section \<open>Sending\<close>

datatype SendStatus = BACKPRESSURE | SUCCESS | DROPPED

text \<open>\<open>CompressFlags\<close>: 0 for no action, 1 to compress, 2 for a message that is compressed already.\<close>

definition over_limit :: "('w, 'z, 'u) Env \<Rightarrow> nat \<Rightarrow> ('w, 'z, 'u) ServerLoop \<Rightarrow> bool" where
  "over_limit env this l \<longleftrightarrow> maxBackpressure (contextData env this) \<noteq> 0 \<and>
     maxBackpressure (contextData env this) < getBufferedAmount this l"

definition drop_message :: "('w, 'z, 'u) Env \<Rightarrow> nat \<Rightarrow> byte list \<Rightarrow> byte \<Rightarrow> ('w, 'z, 'u) ServerLoop \<Rightarrow> ('w, 'z, 'u) ServerLoop" where
  "drop_message env this message op l =
     (let l = (if closeOnBackpressureLimit (contextData env this)
               then l\<lparr> kernel := us_socket_shutdown_read (socket_ops env) this (kernel l) \<rparr> else l)
      in case droppedHandler (contextData env this) of None \<Rightarrow> l | Some h \<Rightarrow> h this message op l)"

definition takes_long_path :: "('w, 'z, 'u) Env \<Rightarrow> nat \<Rightarrow> byte list \<Rightarrow> nat \<Rightarrow> ('w, 'z, 'u) ServerLoop \<Rightarrow> bool" where
  "takes_long_path env this message compress l \<longleftrightarrow> length message \<ge> 16 * 1024 \<and> compress = 0 \<and> \<not> ssl env \<and>
     subscriber (sockets l this) = None \<and> getBufferedAmount this l = 0 \<and> corkOffset l = 0"

text \<open>The result of either path: false is the early \<open>return BACKPRESSURE\<close>.\<close>

definition send_long ::
  "('w, 'z, 'u) Env \<Rightarrow> nat \<Rightarrow> byte list \<Rightarrow> byte \<Rightarrow> nat \<Rightarrow> bool \<Rightarrow> ('w, 'z, 'u) ServerLoop \<Rightarrow> bool \<times> ('w, 'z, 'u) ServerLoop" where
  "send_long env this message op compress fin l =
     (let header = formatMessage True [] [] op (length message) (compress \<noteq> 0) fin in
      case us_socket_write2 (socket_ops env) this header message (kernel l) of
        (written, w) \<Rightarrow>
          let l = l\<lparr> kernel := w \<rparr> in
          if written \<noteq> length header + length message
          then (let b = (if written > length header
                         then bp_append (drop (written - length header) message) (buffers l this)
                         else bp_append message (bp_append (drop written header) (buffers l this)))
                in (False, uncorkWithoutSending this (set_buffer this b l)))
          else (True, l))"

definition compress_message ::
  "('w, 'z, 'u) Env \<Rightarrow> nat \<Rightarrow> byte list \<Rightarrow> byte \<Rightarrow> nat \<Rightarrow> ('w, 'z, 'u) ServerLoop \<Rightarrow> byte list \<times> nat \<times> ('w, 'z, 'u) ServerLoop" where
  "compress_message env this message op compress l =
     (if compress = 0 then (message, 0, l)
      else if length message \<noteq> 0 \<and> op < 3 \<and> compressionStatus (sockets l this) = ENABLED
      then (if compress \<noteq> 2
            then (case deflate env (if deflationStream (sockets l this) then Some this else None) message (zlib l) of
                    (message, z) \<Rightarrow> (message, compress, l\<lparr> zlib := z \<rparr>))
            else (message, compress, l))
      else (message, 0, l))"

definition send_framed ::
  "('w, 'z, 'u) Env \<Rightarrow> nat \<Rightarrow> byte list \<Rightarrow> byte \<Rightarrow> nat \<Rightarrow> bool \<Rightarrow> ('w, 'z, 'u) ServerLoop \<Rightarrow> bool \<times> ('w, 'z, 'u) ServerLoop" where
  "send_framed env this message op compress fin l =
     (case compress_message env this message op compress l of
        (message, compress, l) \<Rightarrow>
          case getSendBuffer this (messageFrameSize (length message)) l of
            None \<Rightarrow> (False, l\<lparr> terminated := True \<rparr>)
          | Some ((sendBuffer, attribute), l) \<Rightarrow>
              let l = fillSendBuffer this sendBuffer
                    (formatMessage True [] message op (length message) (compress \<noteq> 0) fin) l
              in case attribute of
                   NEEDS_DRAIN \<Rightarrow> (case async_write (socket_ops env) this [] False 0 l of ((written, failed), l) \<Rightarrow> (\<not> failed, l))
                 | NEEDS_UNCORK \<Rightarrow> (case uncork (socket_ops env) this [] False l of ((written, failed), l) \<Rightarrow> (\<not> failed, l))
                 | NEEDS_NOTHING \<Rightarrow> (True, l))"

definition finish_send :: "('w, 'z, 'u) Env \<Rightarrow> nat \<Rightarrow> bool \<times> ('w, 'z, 'u) ServerLoop \<Rightarrow> SendStatus \<times> ('w, 'z, 'u) ServerLoop" where
  "finish_send env this r =
     (case r of (ok, l) \<Rightarrow>
        if \<not> ok then (BACKPRESSURE, l)
        else (SUCCESS, if resetIdleTimeoutOnSend (contextData env this) then refresh_timeout env this l else l))"

text \<open>\<open>send\<close> from inside the drain callback: \<open>drainImpl\<close> has reset the subscriber's indices, so the
  drain at its start does nothing.\<close>

definition send_nested ::
  "('w, 'z, 'u) Env \<Rightarrow> nat \<Rightarrow> byte list \<Rightarrow> byte \<Rightarrow> nat \<Rightarrow> bool \<Rightarrow> ('w, 'z, 'u) ServerLoop \<Rightarrow> SendStatus \<times> ('w, 'z, 'u) ServerLoop" where
  "send_nested env this message op compress fin l =
     (if over_limit env this l then (DROPPED, drop_message env this message op l)
      else finish_send env this
        (if takes_long_path env this message compress l then send_long env this message op compress fin l
         else send_framed env this message op compress fin l))"

subsection \<open>The drain callback of the app\<close>

text \<open>\<open>flags & FIRST\<close> and \<open>flags & LAST\<close> are the two booleans.\<close>

definition app_drain ::
  "('w, 'z, 'u) Env \<Rightarrow> nat \<Rightarrow> TopicTreeMessage \<Rightarrow> bool \<Rightarrow> bool \<Rightarrow> ('w, 'z, 'u) ServerLoop \<Rightarrow> bool \<times> ('w, 'z, 'u) ServerLoop" where
  "app_drain env s message isFirst isLast l =
     (let this = sub_user l s;
          l = (if isFirst \<and> canCork l \<and> \<not> isCorked this l
               then (case cork this l of None \<Rightarrow> l\<lparr> terminated := True \<rparr> | Some l \<Rightarrow> l\<lparr> needsUncork := True \<rparr>)
               else l)
      in case send_nested env this (tm_message message) (tm_opCode message) (if tm_compress message then 1 else 0) True l of
           (status, l) \<Rightarrow>
             if status = DROPPED
             then (True, if needsUncork l then (snd (uncork (socket_ops env) this [] False l))\<lparr> needsUncork := False \<rparr> else l)
             else (False, if isLast \<and> needsUncork l then snd (uncork (socket_ops env) this [] False l) else l))"

definition ws_send ::
  "('w, 'z, 'u) Env \<Rightarrow> nat \<Rightarrow> byte list \<Rightarrow> byte \<Rightarrow> nat \<Rightarrow> bool \<Rightarrow> ('w, 'z, 'u) server \<Rightarrow> (SendStatus \<times> ('w, 'z, 'u) server) option" where
  "ws_send env this message op compress fin t =
     (if over_limit env this (app t) then Some (DROPPED, on_loop (drop_message env this message op) t)
      else if takes_long_path env this message compress (app t)
      then (case finish_send env this (send_long env this message op compress fin (app t)) of
              (status, l) \<Rightarrow> Some (status, t\<lparr> app := l \<rparr>))
      else
        (case (case subscriber (data_of this t) of None \<Rightarrow> Some t | Some s \<Rightarrow> drain_subscriber (app_drain env) s t) of
           None \<Rightarrow> None
         | Some t \<Rightarrow>
             (case finish_send env this (send_framed env this message op compress fin (app t)) of
                (status, l) \<Rightarrow> Some (status, t\<lparr> app := l \<rparr>))))"

abbreviation CONTINUATION :: byte where "CONTINUATION \<equiv> 0"
abbreviation TEXT :: byte where "TEXT \<equiv> 1"
abbreviation BINARY :: byte where "BINARY \<equiv> 2"
abbreviation CLOSE :: byte where "CLOSE \<equiv> 8"
abbreviation PING :: byte where "PING \<equiv> 9"
abbreviation PONG :: byte where "PONG \<equiv> 10"

definition sendFirstFragment where
  "sendFirstFragment env this message op (compress::bool) t = ws_send env this message op (if compress then 1 else 0) False t"

definition sendFragment where
  "sendFragment env this message (compress::bool) t = ws_send env this message CONTINUATION (if compress then 1 else 0) False t"

definition sendLastFragment where
  "sendLastFragment env this message (compress::bool) t = ws_send env this message CONTINUATION (if compress then 1 else 0) True t"

definition hasNegotiatedCompression :: "nat \<Rightarrow> ('w, 'z, 'u) server \<Rightarrow> bool" where
  "hasNegotiatedCompression this t \<longleftrightarrow> compressionStatus (data_of this t) = ENABLED"

record PreparedMessage =
  originalMessage :: "byte list"
  compressedMessage :: "byte list"
  prepared_compressed :: bool
  prepared_opCode :: byte

definition sendPrepared ::
  "('w, 'z, 'u) Env \<Rightarrow> nat \<Rightarrow> PreparedMessage \<Rightarrow> ('w, 'z, 'u) server \<Rightarrow> (SendStatus \<times> ('w, 'z, 'u) server) option" where
  "sendPrepared env this p t =
     (if prepared_compressed p \<and> hasNegotiatedCompression this t \<and> length (compressedMessage p) < length (originalMessage p)
      then ws_send env this (compressedMessage p) (prepared_opCode p) 2 True t
      else ws_send env this (originalMessage p) (prepared_opCode p) 0 True t)"

definition ws_cork ::
  "('w, 'z, 'u) Env \<Rightarrow> nat \<Rightarrow> (('w, 'z, 'u) server \<Rightarrow> ('w, 'z, 'u) server option) \<Rightarrow> ('w, 'z, 'u) server \<Rightarrow> ('w, 'z, 'u) server option" where
  "ws_cork env this handler t =
     (if \<not> isCorked this (app t) \<and> canCork (app t)
      then (case cork this (app t) of
              None \<Rightarrow> None
            | Some l \<Rightarrow> map_option (on_loop (\<lambda>l. snd (uncork (socket_ops env) this [] False l))) (handler (t\<lparr> app := l \<rparr>)))
      else handler t)"

section \<open>Publish and subscribe\<close>

text \<open>The address of a new subscriber: any that is not in use.\<close>

definition fresh_subscriber :: "('w, 'z, 'u) server \<Rightarrow> nat" where
  "fresh_subscriber t = Suc (fold max (live t) 0)"

definition make_subscriber :: "nat \<Rightarrow> ('w, 'z, 'u) server \<Rightarrow> nat \<times> ('w, 'z, 'u) server" where
  "make_subscriber this t =
     (case subscriber (data_of this t) of
        Some s \<Rightarrow> (s, t)
      | None \<Rightarrow>
          (let s = fresh_subscriber t in
           (s, on_loop (\<lambda>l. on_socket this (\<lambda>d. d\<lparr> subscriber := Some s \<rparr>) (l\<lparr> sub_user := (sub_user l)(s := this) \<rparr>))
                 (createSubscriber s t))))"

definition ws_subscribe :: "('w, 'z, 'u) Env \<Rightarrow> nat \<Rightarrow> topic \<Rightarrow> ('w, 'z, 'u) server \<Rightarrow> (bool \<times> ('w, 'z, 'u) server) option" where
  "ws_subscribe env this topic t =
     (case make_subscriber this t of (s, t) \<Rightarrow>
        (case subscribe s topic t of
           None \<Rightarrow> None
         | Some (topicOrNull, t) \<Rightarrow>
             map_option (Pair True)
               (case topicOrNull of
                  None \<Rightarrow> Some t
                | Some n \<Rightarrow>
                    (case subscriptionHandler (contextData env this) of
                       None \<Rightarrow> Some t
                     | Some h \<Rightarrow> h this topic (int n) (int n - 1) t))))"

definition ws_unsubscribe :: "('w, 'z, 'u) Env \<Rightarrow> nat \<Rightarrow> topic \<Rightarrow> ('w, 'z, 'u) server \<Rightarrow> (bool \<times> ('w, 'z, 'u) server) option" where
  "ws_unsubscribe env this topic t =
     (case subscriber (data_of this t) of
        None \<Rightarrow> Some (False, t)
      | Some s \<Rightarrow>
          (case unsubscribe s topic t of
             None \<Rightarrow> None
           | Some ((ok, isLast, newCount), t) \<Rightarrow>
               map_option (Pair ok)
                 (if ok
                  then (case subscriptionHandler (contextData env this) of
                          None \<Rightarrow> Some t | Some h \<Rightarrow> h this topic newCount (newCount + 1) t)
                  else Some t)))"

definition isSubscribed :: "nat \<Rightarrow> topic \<Rightarrow> ('w, 'z, 'u) server \<Rightarrow> bool" where
  "isSubscribed this topic t =
     (case subscriber (data_of this t) of
        None \<Rightarrow> False
      | Some s \<Rightarrow> (case lookupTopic topic t of None \<Rightarrow> False | Some ss \<Rightarrow> s \<in> set ss))"

fun for_topics :: "(topic \<Rightarrow> ('w, 'z, 'u) server \<Rightarrow> ('w, 'z, 'u) server option) \<Rightarrow> topic list \<Rightarrow>
    ('w, 'z, 'u) server \<Rightarrow> ('w, 'z, 'u) server option" where
  "for_topics cb [] t = Some t"
| "for_topics cb (topic # topics) t = (case cb topic t of None \<Rightarrow> None | Some t \<Rightarrow> for_topics cb topics t)"

definition iterateTopics ::
  "nat \<Rightarrow> (topic \<Rightarrow> ('w, 'z, 'u) server \<Rightarrow> ('w, 'z, 'u) server option) \<Rightarrow> ('w, 'z, 'u) server \<Rightarrow> ('w, 'z, 'u) server option" where
  "iterateTopics this cb t =
     (case subscriber (data_of this t) of
        None \<Rightarrow> Some t
      | Some s \<Rightarrow>
          map_option (\<lambda>t. t\<lparr> iteratingSubscriber := None \<rparr>)
            (for_topics cb (sub_topics (subs t s)) (t\<lparr> iteratingSubscriber := Some s \<rparr>)))"

text \<open>The function a big message is given to: send to the subscriber's socket, ignoring the status.\<close>

definition send_big :: "('w, 'z, 'u) Env \<Rightarrow> byte list \<Rightarrow> byte \<Rightarrow> bool \<Rightarrow> nat \<Rightarrow> ('w, 'z, 'u) server \<Rightarrow> ('w, 'z, 'u) server option" where
  "send_big env message op compress s t =
     map_option snd (ws_send env (sub_user (app t) s) message op (if compress then 1 else 0) True t)"

text \<open>\<open>WebSocket::publish\<close> has a sender, \<open>App::publish\<close> none.\<close>

definition publish_as ::
  "('w, 'z, 'u) Env \<Rightarrow> nat option \<Rightarrow> topic \<Rightarrow> byte list \<Rightarrow> byte \<Rightarrow> bool \<Rightarrow> ('w, 'z, 'u) server \<Rightarrow> (bool \<times> ('w, 'z, 'u) server) option" where
  "publish_as env sender topic message op compress t =
     (if length message \<ge> CORK_BUFFER_SIZE
      then publishBig sender topic (send_big env message op compress) t
      else publish (app_drain env) sender topic \<lparr> tm_message = message, tm_opCode = op, tm_compress = compress \<rparr> t)"

definition ws_publish ::
  "('w, 'z, 'u) Env \<Rightarrow> nat \<Rightarrow> topic \<Rightarrow> byte list \<Rightarrow> byte \<Rightarrow> bool \<Rightarrow> ('w, 'z, 'u) server \<Rightarrow> (bool \<times> ('w, 'z, 'u) server) option" where
  "ws_publish env this topic message op compress t =
     (case subscriber (data_of this t) of
        None \<Rightarrow> Some (False, t)
      | Some s \<Rightarrow> publish_as env (Some s) topic message op compress t)"

definition app_publish ::
  "('w, 'z, 'u) Env \<Rightarrow> topic \<Rightarrow> byte list \<Rightarrow> byte \<Rightarrow> bool \<Rightarrow> ('w, 'z, 'u) server \<Rightarrow> (bool \<times> ('w, 'z, 'u) server) option" where
  "app_publish env topic message op compress t = publish_as env None topic message op compress t"

definition publishPrepared ::
  "('w, 'z, 'u) Env \<Rightarrow> topic \<Rightarrow> PreparedMessage \<Rightarrow> ('w, 'z, 'u) server \<Rightarrow> (bool \<times> ('w, 'z, 'u) server) option" where
  "publishPrepared env topic p t =
     publishBig None topic (\<lambda>s t. map_option snd (sendPrepared env (sub_user (app t) s) p t)) t"

definition numSubscribers :: "topic \<Rightarrow> ('w, 'z, 'u) server \<Rightarrow> nat" where
  "numSubscribers topic t = (case lookupTopic topic t of Some ss \<Rightarrow> length ss | None \<Rightarrow> 0)"

text \<open>The pre and post handler of the loop.\<close>

definition drain_topics :: "('w, 'z, 'u) Env \<Rightarrow> ('w, 'z, 'u) server \<Rightarrow> ('w, 'z, 'u) server option" where
  "drain_topics env t = drain_all (app_drain env) t"

end
