(* ===== verification/Ws_Context.thy ===== *)
theory Ws_Context
  imports Ws_Server
begin

text \<open>
  The life of a server's WebSocket: \<open>WebSocket::close\<close> and \<open>end\<close>, and the socket events of
  \<open>WebSocketContext.h\<close>: data, writable, end of stream, timeouts and disconnection.

  \<open>us_socket_close\<close> calls the disconnection handler of the context itself, once, unless the socket
  is closed already. The frame parser calls back through \<open>websocket_impl\<close>.
\<close>

definition ERR_TOO_BIG_MESSAGE_INFLATION :: "byte list" where
  "ERR_TOO_BIG_MESSAGE_INFLATION = bytes ''Received too big message, or other inflation error''"
definition ERR_INVALID_TEXT :: "byte list" where "ERR_INVALID_TEXT = bytes ''Received invalid UTF-8''"
definition ERR_WEBSOCKET_TIMEOUT :: "byte list" where "ERR_WEBSOCKET_TIMEOUT = bytes ''WebSocket timed out from inactivity''"
definition ERR_TCP_FIN :: "byte list" where "ERR_TCP_FIN = bytes ''Received TCP FIN before WebSocket close frame''"

section \<open>Closing\<close>

text \<open>A socket that goes away tells its subscriptions, leaves the tree and tells the close handler.\<close>

definition announce_topics :: "('w, 'z, 'u) Env \<Rightarrow> nat \<Rightarrow> ('w, 'z, 'u) server \<Rightarrow> ('w, 'z, 'u) server option" where
  "announce_topics env this t =
     (case (subscriber (data_of this t), subscriptionHandler (contextData env this)) of
        (Some s, Some h) \<Rightarrow>
          for_topics (\<lambda>topic t. h this topic (int (numSubscribers topic t) - 1) (int (numSubscribers topic t)) t)
            (sub_topics (subs t s)) t
      | _ \<Rightarrow> Some t)"

definition leave_tree :: "nat \<Rightarrow> ('w, 'z, 'u) server \<Rightarrow> ('w, 'z, 'u) server" where
  "leave_tree this t =
     on_loop (on_socket this (\<lambda>d. d\<lparr> subscriber := None \<rparr>)) (freeSubscriber (subscriber (data_of this t)) t)"

definition emit_close :: "('w, 'z, 'u) Env \<Rightarrow> nat \<Rightarrow> int \<Rightarrow> byte list \<Rightarrow> ('w, 'z, 'u) server \<Rightarrow> ('w, 'z, 'u) server option" where
  "emit_close env this code message t =
     (case announce_topics env this t of
        None \<Rightarrow> None
      | Some t \<Rightarrow>
          (case closeHandler (contextData env this) of
             None \<Rightarrow> Some (leave_tree this t) | Some h \<Rightarrow> h this code message (leave_tree this t)))"

definition on_close :: "('w, 'z, 'u) Env \<Rightarrow> nat \<Rightarrow> byte list \<Rightarrow> ('w, 'z, 'u) server \<Rightarrow> ('w, 'z, 'u) server option" where
  "on_close env this reason t =
     (if \<not> isShuttingDown (data_of this t) then emit_close env this 1006 reason t else Some t)"

definition socket_close :: "('w, 'z, 'u) Env \<Rightarrow> nat \<Rightarrow> byte list \<Rightarrow> ('w, 'z, 'u) server \<Rightarrow> ('w, 'z, 'u) server option" where
  "socket_close env this reason t =
     (if socket_closed env this t then Some t
      else on_close env this reason (on_loop (\<lambda>l. l\<lparr> kernel := kernel_close env this (kernel l) \<rparr>) t))"

definition ws_close :: "('w, 'z, 'u) Env \<Rightarrow> nat \<Rightarrow> ('w, 'z, 'u) server \<Rightarrow> ('w, 'z, 'u) server option" where
  "ws_close env this t =
     (if socket_closed env this t then Some t
      else if isShuttingDown (data_of this t) then Some t
      else socket_close env this [] t)"

text \<open>\<open>bool ok = send(...)\<close>: the conversion of the enumeration, where \<open>BACKPRESSURE\<close> is 0.\<close>

definition status_ok :: "SendStatus \<Rightarrow> bool" where
  "status_ok status \<longleftrightarrow> status \<noteq> BACKPRESSURE"

definition MAX_CLOSE_PAYLOAD :: nat where "MAX_CLOSE_PAYLOAD = 123"

definition ws_end :: "('w, 'z, 'u) Env \<Rightarrow> nat \<Rightarrow> int \<Rightarrow> byte list option \<Rightarrow> ('w, 'z, 'u) server \<Rightarrow> ('w, 'z, 'u) server option" where
  "ws_end env this code message t =
     (if isShuttingDown (data_of this t) then Some t
      else
        (let t = on_loop (on_socket this (\<lambda>d. d\<lparr> isShuttingDown := True \<rparr>)) t;
             closePayload = formatClosePayload (nat (code mod 2 ^ 16)) (map_option (take MAX_CLOSE_PAYLOAD) message)
         in case ws_send env this closePayload CLOSE 0 True t of
              None \<Rightarrow> None
            | Some (status, t) \<Rightarrow>
                (let t = (if \<not> isCorked this (app t) \<and> status_ok status
                          then on_loop (shutdown (socket_ops env) this) t else t);
                     t = on_loop (ws_timeout env this (snd (idleTimeoutComponents (contextData env this)))) t
                 in emit_close env this code (case message of None \<Rightarrow> [] | Some m \<Rightarrow> m) t)))"

section \<open>Frames\<close>

definition set_compressed :: "nat \<Rightarrow> ('w, 'z, 'u) server \<Rightarrow> bool \<times> ('w, 'z, 'u) server" where
  "set_compressed this t =
     (if compressionStatus (data_of this t) = ENABLED
      then (True, on_loop (on_socket this (\<lambda>d. d\<lparr> compressionStatus := COMPRESSED_FRAME \<rparr>)) t)
      else (False, t))"

definition refuse_payload :: "('w, 'z, 'u) Env \<Rightarrow> nat \<Rightarrow> nat \<Rightarrow> bool" where
  "refuse_payload env this len \<longleftrightarrow> maxPayloadLength (contextData env this) < len"

text \<open>A result of the frame handler is a flag of breakage and the state.\<close>

type_synonym ('w, 'z, 'u) verdict = "(bool \<times> ('w, 'z, 'u) server) option"

definition break_off :: "('w, 'z, 'u) Env \<Rightarrow> nat \<Rightarrow> byte list \<Rightarrow> ('w, 'z, 'u) server \<Rightarrow> ('w, 'z, 'u) verdict" where
  "break_off env this reason t = map_option (Pair True) (socket_close env this reason t)"

text \<open>After a handler: stop if it closed the socket or shut it down.\<close>

definition check_gone :: "('w, 'z, 'u) Env \<Rightarrow> nat \<Rightarrow> ('w, 'z, 'u) server option \<Rightarrow> ('w, 'z, 'u) verdict" where
  "check_gone env this r =
     map_option (\<lambda>t. (socket_closed env this t \<or> isShuttingDown (data_of this t), t)) r"

definition use_inflate ::
  "('w, 'z, 'u) Env \<Rightarrow> nat \<Rightarrow> byte list \<Rightarrow> ('w, 'z, 'u) server \<Rightarrow> byte list option \<times> ('w, 'z, 'u) server" where
  "use_inflate env this payload t =
     (case inflate env (if inflationStream (data_of this t) then Some this else None) payload
             (maxPayloadLength (contextData env this)) (zlib (app t)) of
        (inflated, z) \<Rightarrow> (inflated, on_loop (\<lambda>l. l\<lparr> zlib := z \<rparr>) t))"

text \<open>The payload of a whole message, inflated if its first frame was compressed.\<close>

definition inflate_message ::
  "('w, 'z, 'u) Env \<Rightarrow> nat \<Rightarrow> byte list \<Rightarrow> ('w, 'z, 'u) server \<Rightarrow> byte list option \<times> ('w, 'z, 'u) server" where
  "inflate_message env this payload t =
     (if compressionStatus (data_of this t) = COMPRESSED_FRAME
      then use_inflate env this payload (on_loop (on_socket this (\<lambda>d. d\<lparr> compressionStatus := ENABLED \<rparr>)) t)
      else (Some payload, t))"

text \<open>A complete message: the check of texts and the message handler.\<close>

definition deliver ::
  "('w, 'z, 'u) Env \<Rightarrow> nat \<Rightarrow> byte \<Rightarrow> byte list \<Rightarrow> ('w, 'z, 'u) server \<Rightarrow> ('w, 'z, 'u) verdict" where
  "deliver env this op payload t =
     (case inflate_message env this payload t of
        (None, t) \<Rightarrow> break_off env this ERR_TOO_BIG_MESSAGE_INFLATION t
      | (Some message, t) \<Rightarrow>
          if op = TEXT \<and> \<not> isValidUtf8 message then break_off env this ERR_INVALID_TEXT t
          else (case messageHandler (contextData env this) of
                  None \<Rightarrow> Some (False, t) | Some h \<Rightarrow> check_gone env this (h this message op t)))"

definition data_frame ::
  "('w, 'z, 'u) Env \<Rightarrow> nat \<Rightarrow> byte list \<Rightarrow> nat \<Rightarrow> byte \<Rightarrow> bool \<Rightarrow> ('w, 'z, 'u) server \<Rightarrow> ('w, 'z, 'u) verdict" where
  "data_frame env this data remaining op fin t =
     (if remaining = 0 \<and> fin \<and> length (fragmentBuffer (data_of this t)) = 0 then deliver env this op data t
      else if refuse_payload env this (length data + length (fragmentBuffer (data_of this t)))
      then break_off env this ERR_TOO_BIG_MESSAGE t
      else
        (let t = on_loop (on_socket this (\<lambda>d. d\<lparr> fragmentBuffer := fragmentBuffer d @ data \<rparr>)) t in
         if \<not> (remaining = 0 \<and> fin) then Some (False, t)
         else
           (let payload = fragmentBuffer (data_of this t);
                t = (if compressionStatus (data_of this t) = COMPRESSED_FRAME
                     then on_loop (on_socket this (\<lambda>d. d\<lparr> fragmentBuffer := fragmentBuffer d @ bytes ''123456789'' \<rparr>)) t
                     else t)
            in case deliver env this op payload t of
                 None \<Rightarrow> None
               | Some (True, t) \<Rightarrow> Some (True, t)
               | Some (False, t) \<Rightarrow> Some (False, on_loop (on_socket this (\<lambda>d. d\<lparr> fragmentBuffer := [] \<rparr>)) t))))"

text \<open>A complete control frame.\<close>

definition control_message ::
  "('w, 'z, 'u) Env \<Rightarrow> nat \<Rightarrow> byte list \<Rightarrow> byte \<Rightarrow> ('w, 'z, 'u) server \<Rightarrow> ('w, 'z, 'u) verdict" where
  "control_message env this payload op t =
     (if op = CLOSE
      then (let closeFrame = parseClosePayload payload in
            map_option (Pair True) (ws_end env this (int (close_code closeFrame)) (Some (close_message closeFrame)) t))
      else if op = PING
      then (case ws_send env this payload PONG 0 True t of
              None \<Rightarrow> None
            | Some (_, t) \<Rightarrow>
                (case pingHandler (contextData env this) of
                   None \<Rightarrow> Some (False, t) | Some h \<Rightarrow> check_gone env this (h this payload t)))
      else if op = PONG
      then (case pongHandler (contextData env this) of
              None \<Rightarrow> Some (False, t) | Some h \<Rightarrow> check_gone env this (h this payload t))
      else Some (False, t))"

text \<open>A control frame in pieces is put behind the message in progress; \<open>controlTipLength\<close> is its part.\<close>

definition control_frame ::
  "('w, 'z, 'u) Env \<Rightarrow> nat \<Rightarrow> byte list \<Rightarrow> nat \<Rightarrow> byte \<Rightarrow> bool \<Rightarrow> ('w, 'z, 'u) server \<Rightarrow> ('w, 'z, 'u) verdict" where
  "control_frame env this data remaining op fin t =
     (if remaining = 0 \<and> fin \<and> controlTipLength (data_of this t) = 0 then control_message env this data op t
      else
        (let t = on_loop (on_socket this (\<lambda>d. d\<lparr> fragmentBuffer := fragmentBuffer d @ data,
                   controlTipLength := controlTipLength d + length data \<rparr>)) t in
         if \<not> (remaining = 0 \<and> fin) then Some (False, t)
         else
           (let d = data_of this t;
                controlBuffer = drop (length (fragmentBuffer d) - controlTipLength d) (fragmentBuffer d)
            in case control_message env this controlBuffer op t of
                 None \<Rightarrow> None
               | Some (True, t) \<Rightarrow> Some (True, t)
               | Some (False, t) \<Rightarrow>
                   Some (False, on_loop (on_socket this (\<lambda>d. d\<lparr>
                     fragmentBuffer := take (length (fragmentBuffer d) - controlTipLength d) (fragmentBuffer d),
                     controlTipLength := 0 \<rparr>)) t))))"

definition handle_fragment ::
  "('w, 'z, 'u) Env \<Rightarrow> nat \<Rightarrow> byte list \<Rightarrow> nat \<Rightarrow> byte \<Rightarrow> bool \<Rightarrow> ('w, 'z, 'u) server \<Rightarrow> ('w, 'z, 'u) verdict" where
  "handle_fragment env this data remaining op fin t =
     (if op < 3 then data_frame env this data remaining op fin t else control_frame env this data remaining op fin t)"

text \<open>What the frame parser is given. Its state is None after a run has ended.\<close>

definition websocket_impl :: "('w, 'z, 'u) Env \<Rightarrow> nat \<Rightarrow> ('w, 'z, 'u) server option Impl" where
  "websocket_impl env this =
     \<lparr> forceClose = (\<lambda>reason r. Option.bind r (socket_close env this reason)),
       refusePayloadLength = (\<lambda>n r. refuse_payload env this n),
       setCompressed = (\<lambda>r. case r of None \<Rightarrow> (False, None) | Some t \<Rightarrow> map_prod id Some (set_compressed this t)),
       handleFragment = (\<lambda>data remaining op fin r.
         case Option.bind r (handle_fragment env this data remaining op fin) of
           None \<Rightarrow> (True, None) | Some (broken, t) \<Rightarrow> (broken, Some t)) \<rparr>"

section \<open>Events\<close>

text \<open>
  Data arrives in the receive buffer \<open>m\<close> at \<open>src\<close>. \<open>recvLength\<close> is the size of that buffer.
\<close>

definition run_parser ::
  "('w, 'z, 'u) Env \<Rightarrow> nat \<Rightarrow> nat \<Rightarrow> memory \<Rightarrow> nat \<Rightarrow> nat \<Rightarrow> ('w, 'z, 'u) server \<Rightarrow> ('w, 'z, 'u) server option" where
  "run_parser env this recvLength m src len t =
     (case consume (websocket_impl env this) True recvLength m src len (ws_state (data_of this t)) (Some t) of
        Some (m, w, Some t) \<Rightarrow> Some (on_loop (on_socket this (\<lambda>d. d\<lparr> ws_state := w \<rparr>)) t)
      | _ \<Rightarrow> None)"

definition on_data ::
  "('w, 'z, 'u) Env \<Rightarrow> nat \<Rightarrow> nat \<Rightarrow> memory \<Rightarrow> nat \<Rightarrow> nat \<Rightarrow> ('w, 'z, 'u) server \<Rightarrow> ('w, 'z, 'u) server option" where
  "on_data env this recvLength m src len t =
     (if isShuttingDown (data_of this t) then Some t
      else
        (let t = on_loop (refresh_timeout env this) t in
         case cork this (app t) of
           None \<Rightarrow> None
         | Some l \<Rightarrow>
             (case run_parser env this recvLength m src len (t\<lparr> app := l \<rparr>) of
                None \<Rightarrow> None
              | Some t \<Rightarrow>
                  (let t = on_loop (\<lambda>l. snd (uncork (socket_ops env) this [] False l)) t in
                   Some (if getBufferedAmount this (app t) = 0 \<and> isShuttingDown (data_of this t)
                         then on_loop (shutdown (socket_ops env) this) t else t)))))"

definition on_writable :: "('w, 'z, 'u) Env \<Rightarrow> nat \<Rightarrow> ('w, 'z, 'u) server \<Rightarrow> ('w, 'z, 'u) server option" where
  "on_writable env this t =
     (if us_socket_is_shut_down (socket_ops env) this (kernel (app t)) then Some t
      else
        (let backpressure = getBufferedAmount this (app t);
             t = on_loop (\<lambda>l. snd (async_write (socket_ops env) this [] False 0 l)) t;
             progress = (backpressure = 0 \<or> backpressure > getBufferedAmount this (app t));
             t = (if progress then on_loop (refresh_timeout env this) t else t)
         in if isShuttingDown (data_of this t)
            then Some (if getBufferedAmount this (app t) = 0 then on_loop (shutdown (socket_ops env) this) t else t)
            else if progress
            then (case drainHandler (contextData env this) of None \<Rightarrow> Some t | Some h \<Rightarrow> h this t)
            else Some t))"

definition on_end :: "('w, 'z, 'u) Env \<Rightarrow> nat \<Rightarrow> ('w, 'z, 'u) server \<Rightarrow> ('w, 'z, 'u) server option" where
  "on_end env this t = socket_close env this ERR_TCP_FIN t"

definition on_long_timeout :: "('w, 'z, 'u) Env \<Rightarrow> nat \<Rightarrow> ('w, 'z, 'u) server \<Rightarrow> ('w, 'z, 'u) server option" where
  "on_long_timeout env this t = ws_end env this 1000 (Some (bytes ''please reconnect'')) t"

definition on_timeout :: "('w, 'z, 'u) Env \<Rightarrow> nat \<Rightarrow> ('w, 'z, 'u) server \<Rightarrow> ('w, 'z, 'u) server option" where
  "on_timeout env this t =
     (let d = data_of this t; c = contextData env this in
      if sendPingsAutomatically c \<and> \<not> isShuttingDown d \<and> \<not> hasTimedOut d
      then Some (on_loop (\<lambda>l. snd (async_write (socket_ops env) this [0x89, 0x00] False 0
             (ws_timeout env this (snd (idleTimeoutComponents c)) (on_socket this (\<lambda>d. d\<lparr> hasTimedOut := True \<rparr>) l)))) t)
      else socket_close env this ERR_WEBSOCKET_TIMEOUT t)"

end
