(* ===== verification/Socket_Stream.thy ===== *)
theory Socket_Stream
  imports Async_Socket
begin

text \<open>
  What the socket layer guarantees: the bytes that were accepted for a socket are on the wire, in its
  backpressure or in the cork buffer, in this order and each exactly once, whatever sockets are
  corked and however little the kernel takes. The laws assumed of \<open>us_socket_write\<close> are the
  documented ones: it sends a prefix of what it is given and returns its length.
\<close>

definition socket_laws :: "'w SocketOps \<Rightarrow> (nat \<Rightarrow> 'w \<Rightarrow> byte list) \<Rightarrow> bool" where
  "socket_laws ops wire \<longleftrightarrow> (\<forall>this src coming w n w'. us_socket_write ops this src coming w = (n, w') \<longrightarrow>
     n \<le> length src \<and> wire this w' = wire this w @ take n src \<and> (\<forall>other. other \<noteq> this \<longrightarrow> wire other w' = wire other w) \<and>
     (\<forall>other. us_socket_is_closed ops other w' = us_socket_is_closed ops other w))"

abbreviation closed :: "'w SocketOps \<Rightarrow> nat \<Rightarrow> ('w, 'z) LoopState_scheme \<Rightarrow> bool" where
  "closed ops this st \<equiv> us_socket_is_closed ops this (kernel st)"

definition bp_ok :: "BackPressure \<Rightarrow> bool" where
  "bp_ok b \<longleftrightarrow> pendingRemoval b \<le> length (bp_string b)"

definition out_stream :: "(nat \<Rightarrow> 'w \<Rightarrow> byte list) \<Rightarrow> nat \<Rightarrow> ('w, 'z) LoopState_scheme \<Rightarrow> byte list" where
  "out_stream wire this st = wire this (kernel st) @ bp_data (buffers st this)"

definition corked_bytes :: "nat \<Rightarrow> ('w, 'z) LoopState_scheme \<Rightarrow> byte list" where
  "corked_bytes this st = (if corkedSocket st = Some this then corkBuffer st else [])"

definition socket_stream :: "(nat \<Rightarrow> 'w \<Rightarrow> byte list) \<Rightarrow> nat \<Rightarrow> ('w, 'z) LoopState_scheme \<Rightarrow> byte list" where
  "socket_stream wire this st = out_stream wire this st @ corked_bytes this st"

definition loop_ok :: "('w, 'z) LoopState_scheme \<Rightarrow> bool" where
  "loop_ok st \<longleftrightarrow> corkOffset st \<le> CORK_BUFFER_SIZE \<and> (\<forall>s. bp_ok (buffers st s)) \<and>
     (corkBuffer st \<noteq> [] \<longrightarrow> (\<exists>s. corkedSocket st = Some s \<and> bp_data (buffers st s) = []))"

section \<open>Backpressure\<close>

lemma bp_simps:
  "bp_data (bp_append s b) = bp_data b @ s" if "bp_ok b"
  using that by (simp add: bp_data_def bp_append_def bp_ok_def)

lemma bp_erase_data: "bp_data (bp_erase n b) = drop n (bp_data b)"
  by (simp add: bp_data_def bp_erase_def Let_def add.commute)

lemma bp_clear_data [simp]: "bp_data (bp_clear b) = []"
  by (simp add: bp_data_def bp_clear_def)

lemma bp_length_data: "bp_length b = length (bp_data b)"
  by (simp add: bp_length_def bp_data_def)

lemma bp_keeps_ok:
  "bp_ok b \<Longrightarrow> bp_ok (bp_append s b)" "bp_ok (bp_clear b)" "bp_ok b \<Longrightarrow> n \<le> bp_length b \<Longrightarrow> bp_ok (bp_erase n b)"
  by (auto simp: bp_ok_def bp_append_def bp_clear_def bp_erase_def bp_length_def Let_def)

section \<open>Writes of a socket that is not corked\<close>

lemma socket_write_law:
  assumes "socket_laws ops wire" "socket_write ops this src coming st = (n, st')"
  shows "n \<le> length src" "wire this (kernel st') = wire this (kernel st) @ take n src"
    "other \<noteq> this \<Longrightarrow> wire other (kernel st') = wire other (kernel st)" "closed ops other st' = closed ops other st"
    "corkBuffer st' = corkBuffer st" "corkedSocket st' = corkedSocket st" "buffers st' = buffers st"
proof -
  obtain w where w: "us_socket_write ops this src coming (kernel st) = (n, w)" "st' = st\<lparr>kernel := w\<rparr>"
    using socket_write_kernel [OF assms(2)] by blast
  note law = assms(1) [unfolded socket_laws_def, rule_format, OF w(1)]
  show "n \<le> length src" "wire this (kernel st') = wire this (kernel st) @ take n src"
    "other \<noteq> this \<Longrightarrow> wire other (kernel st') = wire other (kernel st)" "closed ops other st' = closed ops other st"
    "corkBuffer st' = corkBuffer st" "corkedSocket st' = corkedSocket st" "buffers st' = buffers st"
    using law w(2) by simp_all
qed

text \<open>The effect of sending \<open>bs\<close> past the cork buffer.\<close>

definition sent_out ::
  "'w SocketOps \<Rightarrow> (nat \<Rightarrow> 'w \<Rightarrow> byte list) \<Rightarrow> nat \<Rightarrow> byte list \<Rightarrow> ('w, 'z) LoopState_scheme \<Rightarrow> ('w, 'z) LoopState_scheme \<Rightarrow> bool" where
  "sent_out ops wire this bs st st' \<longleftrightarrow>
     corkBuffer st' = corkBuffer st \<and> corkedSocket st' = corkedSocket st \<and>
     out_stream wire this st' = out_stream wire this st @ bs \<and>
     (\<forall>other. other \<noteq> this \<longrightarrow> buffers st' other = buffers st other \<and> wire other (kernel st') = wire other (kernel st)) \<and>
     (\<forall>other. closed ops other st' = closed ops other st) \<and> bp_ok (buffers st' this)"

lemma sent_out_trans:
  "sent_out ops wire this as st st1 \<Longrightarrow> sent_out ops wire this bs st1 st2 \<Longrightarrow> sent_out ops wire this (as @ bs) st st2"
  by (simp add: sent_out_def)

lemma sent_out_refl: "bp_ok (buffers st this) \<Longrightarrow> sent_out ops wire this [] st st"
  by (simp add: sent_out_def)

lemma drain_step:
  assumes "socket_laws ops wire" "socket_write ops this (bp_data (buffers st this)) coming st = (n, st1)" "bp_ok (buffers st this)"
  shows "n < bp_length (buffers st this) \<Longrightarrow> sent_out ops wire this [] st (set_buffer this (bp_erase n (buffers st this)) st1)"
    and "\<not> n < bp_length (buffers st this) \<Longrightarrow> sent_out ops wire this [] st (set_buffer this (bp_clear (buffers st this)) st1)"
  using socket_write_law [OF assms(1, 2)] assms(3)
  by (simp_all add: sent_out_def out_stream_def bp_erase_data bp_keeps_ok bp_length_data)

lemma append_step:
  assumes "bp_ok (buffers st this)"
  shows "sent_out ops wire this src st (set_buffer this (bp_append src (buffers st this)) st)"
  using assms by (simp add: sent_out_def out_stream_def bp_simps bp_keeps_ok)

lemma direct_step:
  assumes "socket_laws ops wire" "socket_write ops this src coming st = (n, st1)" "bp_data (buffers st this) = []" "bp_ok (buffers st this)"
  shows "sent_out ops wire this (take n src) st st1"
  using socket_write_law [OF assms(1, 2)] assms(3, 4) by (simp add: sent_out_def out_stream_def)

text \<open>
  The first part of \<open>write\<close>: afterwards either the backpressure is gone, or it is not and the
  call ends.
\<close>

definition drain_first :: "'w SocketOps \<Rightarrow> nat \<Rightarrow> byte list \<Rightarrow> ('w, 'z) LoopState_scheme \<Rightarrow> bool \<times> ('w, 'z) LoopState_scheme" where
  "drain_first ops this src st =
    (if bp_length (buffers st this) \<noteq> 0 then
       (case socket_write ops this (bp_data (buffers st this)) (src \<noteq> []) st of
          (written, st1) \<Rightarrow>
            if written < bp_length (buffers st this) then (False, set_buffer this (bp_erase written (buffers st this)) st1)
            else (True, set_buffer this (bp_clear (buffers st this)) st1))
     else (True, st))"

lemma drain_first_sent:
  assumes "socket_laws ops wire" "bp_ok (buffers st this)" "drain_first ops this src st = (drained, st1)"
  shows "sent_out ops wire this [] st st1" "drained \<Longrightarrow> bp_data (buffers st1 this) = []"
    "bp_data (buffers st this) = [] \<Longrightarrow> drained \<and> st1 = st"
proof -
  obtain n st2 where w: "socket_write ops this (bp_data (buffers st this)) (src \<noteq> []) st = (n, st2)" by fastforce
  show "sent_out ops wire this [] st st1"
    using assms(3) w drain_step [OF assms(1) w assms(2)] sent_out_refl [of st this, OF assms(2)]
    by (auto simp: drain_first_def split: if_splits)
  show "drained \<Longrightarrow> bp_data (buffers st1 this) = []"
    using assms(3) w by (auto simp: drain_first_def bp_length_data split: if_splits)
  show "bp_data (buffers st this) = [] \<Longrightarrow> drained \<and> st1 = st"
    using assms(3) by (simp add: drain_first_def bp_length_data)
qed

lemma write_with_eq:
  "write_with unc ops this src optionally nextLength st =
    (if closed ops this st then ((length src, False), st)
     else case drain_first ops this src st of (drained, st) \<Rightarrow>
       if \<not> drained then
         (if optionally then ((0, True), st)
          else ((length src, True), set_buffer this (bp_append src (buffers st this)) st))
       else if src = [] then ((0, False), st)
       else if corkedSocket st = Some this then
         (if CORK_BUFFER_SIZE - corkOffset st \<ge> length src
          then ((length src, False), st\<lparr>corkBuffer := corkBuffer st @ src\<rparr>)
          else unc src optionally st)
       else
         (case socket_write ops this src (nextLength \<noteq> 0) st of
            (written, st) \<Rightarrow>
              if written < length src then
                (if optionally then ((written, True), st)
                 else ((length src, True), set_buffer this (bp_append (drop written src) (buffers st this)) st))
              else ((length src, False), st)))"
  by (simp add: write_with_def drain_first_def Let_def)

lemma write_uncorked_sent:
  assumes laws: "socket_laws ops wire" and ok: "bp_ok (buffers st this)" and corked: "corkedSocket st \<noteq> Some this"
    and alive: "\<not> closed ops this st" and w: "write_uncorked ops this src optionally nextLength st = ((k, failed), st')"
  shows "k \<le> length src \<and> sent_out ops wire this (take k src) st st' \<and>
    (\<not> failed \<longrightarrow> k = length src \<and> bp_data (buffers st' this) = []) \<and> (\<not> optionally \<longrightarrow> k = length src)"
proof -
  obtain drained st1 where d: "drain_first ops this src st = (drained, st1)" by fastforce
  note s = drain_first_sent [OF laws ok d]
  have ok1: "bp_ok (buffers st1 this)" "corkedSocket st1 \<noteq> Some this" using s(1) corked by (simp_all add: sent_out_def)
  note e = w [unfolded write_uncorked_def write_with_eq d prod.case]
  show ?thesis
  proof (cases "drained \<and> src \<noteq> []")
    case True
    obtain n st2 where w2: "socket_write ops this src (nextLength \<noteq> 0) st1 = (n, st2)" by fastforce
    have b: "bp_data (buffers st1 this) = []" using s(2) True by simp
    have d2: "sent_out ops wire this (take n src) st1 st2" by (rule direct_step [OF laws w2 b ok1(1)])
    have bs: "buffers st2 = buffers st1" "n \<le> length src" using socket_write_law [OF laws w2] by simp_all
    note t = sent_out_trans [OF s(1) d2, unfolded append_Nil]
    have ok2: "bp_ok (buffers st2 this)" using d2 by (simp add: sent_out_def)
    note a = sent_out_trans [OF t append_step [OF ok2, of ops wire "drop n src"], unfolded append_take_drop_id]
    show ?thesis using e True alive ok1(2) w2 t a bs b
      by (auto split: if_splits)
  next
    case False
    note a = sent_out_trans [OF s(1) append_step [OF ok1(1), of ops wire src], unfolded append_Nil]
    show ?thesis using e False alive s a by (auto split: if_splits)
  qed
qed

section \<open>All operations\<close>

definition sent ::
  "'w SocketOps \<Rightarrow> (nat \<Rightarrow> 'w \<Rightarrow> byte list) \<Rightarrow> nat \<Rightarrow> byte list \<Rightarrow> ('w, 'z) LoopState_scheme \<Rightarrow> ('w, 'z) LoopState_scheme \<Rightarrow> bool" where
  "sent ops wire this bs st st' \<longleftrightarrow> loop_ok st' \<and> (\<forall>other. closed ops other st' = closed ops other st) \<and>
     (\<forall>other. other \<noteq> this \<longrightarrow> socket_stream wire other st' = socket_stream wire other st) \<and>
     (\<not> closed ops this st \<longrightarrow> socket_stream wire this st' = socket_stream wire this st @ bs)"

lemma sent_trans:
  "sent ops wire this as st st1 \<Longrightarrow> sent ops wire this bs st1 st2 \<Longrightarrow> sent ops wire this (as @ bs) st st2"
  by (simp add: sent_def)

lemma sent_refl: "loop_ok st \<Longrightarrow> sent ops wire this [] st st"
  by (simp add: sent_def)

lemma sent_outI:
  assumes ok: "loop_ok st" and out: "sent_out ops wire this bs st st'" and c: "corkedSocket st \<noteq> Some this \<or> corkBuffer st = []"
  shows "sent ops wire this bs st st'"
proof -
  have b: "bp_ok (buffers st' s)" for s using ok out by (cases "s = this") (auto simp: sent_out_def loop_ok_def)
  have "corkBuffer st' \<noteq> [] \<longrightarrow> (\<exists>s. corkedSocket st' = Some s \<and> bp_data (buffers st' s) = [])"
  proof
    assume n: "corkBuffer st' \<noteq> []"
    then obtain s where s: "corkedSocket st = Some s" "bp_data (buffers st s) = []" using ok out by (auto simp: loop_ok_def sent_out_def)
    moreover have "s \<noteq> this" using c n s(1) out by (auto simp: sent_out_def)
    ultimately show "\<exists>s. corkedSocket st' = Some s \<and> bp_data (buffers st' s) = []" using out by (auto simp: sent_out_def)
  qed
  then have "loop_ok st'" using ok out b by (simp add: loop_ok_def sent_out_def)
  moreover have "corked_bytes this st = []" using c by (auto simp: corked_bytes_def)
  ultimately show ?thesis using out
    by (auto simp: sent_def sent_out_def socket_stream_def corked_bytes_def out_stream_def)
qed

lemma uncork_sent:
  assumes laws: "socket_laws ops wire" and ok: "loop_ok st" and u: "uncork ops this src optionally st = ((k, failed), st')"
  shows "k \<le> length src \<and> sent ops wire this (take k src) st st'"
proof (cases "corkedSocket st = Some this")
  case False
  then show ?thesis using u ok by (simp add: uncork_def uncork_with_def sent_refl)
next
  case True
  let ?st = "st\<lparr>corkedSocket := None\<rparr>"
  obtain k1 f1 st1 where w1: "write_uncorked ops this (corkBuffer st) False (length src) ?st = ((k1, f1), st1)"
    by (metis prod.collapse)
  let ?st2 = "if corkBuffer st = [] then ?st else st1\<lparr>corkBuffer := []\<rparr>"
  have bp: "bp_ok (buffers ?st this)" using ok by (simp add: loop_ok_def)
  have flushed: "sent ops wire this [] st ?st2 \<and> corkedSocket ?st2 = None"
  proof (cases "closed ops this st \<or> corkBuffer st = []")
    case True
    then have "corkBuffer st \<noteq> [] \<Longrightarrow> st1 = ?st" using w1 by (auto simp: write_uncorked_def write_with_eq)
    then have "corkedSocket ?st2 = None" "loop_ok ?st2" "out_stream wire other ?st2 = out_stream wire other st" "closed ops other ?st2 = closed ops other st"
      for other using ok by (auto simp: loop_ok_def out_stream_def)
    then show ?thesis using True \<open>corkedSocket st = Some this\<close> by (auto simp: sent_def socket_stream_def corked_bytes_def)
  next
    case False
    have "corkedSocket ?st \<noteq> Some this" "\<not> closed ops this ?st" using False by simp_all
    from write_uncorked_sent [OF laws bp this w1]
    have k0: "sent_out ops wire this (take k1 (corkBuffer st)) ?st st1" "k1 = length (corkBuffer st)"
      by blast+
    then have k1: "sent_out ops wire this (corkBuffer st) ?st st1" by simp
    have b: "bp_ok (buffers st1 s)" for s
      using k1 ok by (cases "s = this") (auto simp: sent_out_def loop_ok_def)
    show ?thesis using k1 False True b
      by (auto simp: sent_def sent_out_def loop_ok_def socket_stream_def corked_bytes_def out_stream_def)
  qed
  have eq: "uncork ops this src optionally st =
      (if corkBuffer st \<noteq> [] \<and> f1 then ((0, True), ?st2) else write_uncorked ops this src optionally 0 ?st2)"
    using True w1 by (simp add: uncork_def uncork_with_def Let_def)
  show ?thesis
  proof (cases "corkBuffer st \<noteq> [] \<and> f1")
    case True
    then show ?thesis using u eq flushed by simp
  next
    case False
    have w2: "write_uncorked ops this src optionally 0 ?st2 = ((k, failed), st')"
      using u unfolding eq if_not_P [OF False] .
    have ok2: "loop_ok ?st2" and c2: "corkedSocket ?st2 \<noteq> Some this" using flushed by (simp_all add: sent_def)
    then have bp2: "bp_ok (buffers ?st2 this)" by (simp add: loop_ok_def)
    show ?thesis
    proof (cases "closed ops this ?st2")
      case True
      then show ?thesis using w2 flushed by (simp add: write_uncorked_def write_with_eq sent_def)
    next
      case False
      from write_uncorked_sent [OF laws bp2 c2 False w2]
      have k: "k \<le> length src" "sent_out ops wire this (take k src) ?st2 st'" by simp_all
      have "sent ops wire this ([] @ take k src) st st'"
        by (rule sent_trans [OF _ sent_outI [OF ok2 k(2)]]) (use flushed c2 in simp_all)
      then show ?thesis using k(1) by simp
    qed
  qed
qed

lemma async_write_sent:
  assumes laws: "socket_laws ops wire" and ok: "loop_ok st" and w: "async_write ops this src optionally n st = ((k, failed), st')"
  shows "k \<le> length src \<and> sent ops wire this (take k src) st st'"
proof (cases "closed ops this st")
  case True
  then show ?thesis using w ok by (simp add: async_write_def write_with_eq sent_def)
next
  case alive: False
  have bp: "bp_ok (buffers st this)" using ok by (simp add: loop_ok_def)
  show ?thesis
  proof (cases "corkedSocket st = Some this")
    case False
    have "write_uncorked ops this src optionally n st = ((k, failed), st')"
      using w write_with_uncorked(1) [OF False] by (simp add: async_write_def)
    from write_uncorked_sent [OF laws bp False alive this] show ?thesis using sent_outI [OF ok] False by blast
  next
    case True
    obtain drained st1 where d: "drain_first ops this src st = (drained, st1)" by fastforce
    note s = drain_first_sent [OF laws bp d]
    have empty: "corkBuffer st = []" if "bp_data (buffers st this) \<noteq> []" using ok True that by (auto simp: loop_ok_def)
    have sent1: "sent ops wire this [] st st1"
    proof (cases "bp_data (buffers st this) = []")
      case True
      then show ?thesis using s(3) sent_refl [OF ok] by simp
    next
      case False
      then show ?thesis using sent_outI [OF ok s(1)] empty by simp
    qed
    then have ok1: "loop_ok st1" by (simp add: sent_def)
    then have bp1: "bp_ok (buffers st1 this)" by (simp add: loop_ok_def)
    have c1: "corkedSocket st1 = Some this" using s(1) True by (simp add: sent_out_def)
    note e = w [unfolded async_write_def write_with_eq d prod.case]
    consider (undrained) "\<not> drained" | (nothing) "drained" "src = []"
      | (fits) "drained" "src \<noteq> []" "length src \<le> CORK_BUFFER_SIZE - corkOffset st1"
      | (full) "drained" "src \<noteq> []" "\<not> length src \<le> CORK_BUFFER_SIZE - corkOffset st1" by blast
    then show ?thesis
    proof cases
      case undrained
      then have "corkBuffer st1 = []" using s(1, 3) empty by (auto simp: sent_out_def)
      then have a: "sent ops wire this src st1 (set_buffer this (bp_append src (buffers st1 this)) st1)"
        by (intro sent_outI [OF ok1 append_step [OF bp1]]) simp
      show ?thesis using e alive undrained sent_trans [OF sent1 a] sent1 by (auto split: if_splits)
    next
      case nothing
      then show ?thesis using e alive sent1 by simp
    next
      case fits
      let ?st = "st1\<lparr>corkBuffer := corkBuffer st1 @ src\<rparr>"
      have "loop_ok ?st" using ok1 fits(3) c1 s(2) [OF fits(1)] by (auto simp: loop_ok_def)
      then have a: "sent ops wire this src st1 ?st"
        using c1 by (simp add: sent_def socket_stream_def corked_bytes_def out_stream_def)
      show ?thesis using e alive fits c1 sent_trans [OF sent1 a] by simp
    next
      case full
      then have "uncork ops this src optionally st1 = ((k, failed), st')" using e alive c1 by simp
      from uncork_sent [OF laws ok1 this] show ?thesis using sent_trans [OF sent1] by fastforce
    qed
  qed
qed

lemma bp_resize_pending [simp]: "pendingRemoval (bp_resize n b) = pendingRemoval b"
  by (simp add: bp_resize_def)

lemma fill_drained:
  assumes "loop_ok st" "\<not> (bp_length (buffers st this) = 0 \<and> (isCorked this st \<or> canCork st) \<and> corkOffset st + length bs < CORK_BUFFER_SIZE)"
    and g: "getSendBuffer this (length bs) st = Some ((sb, attr), st1)"
  shows "attr = NEEDS_DRAIN \<and> sent_out ops wire this (corked_bytes this st @ bs) (st\<lparr>corkBuffer := (if isCorked this st then [] else corkBuffer st)\<rparr>) (fillSendBuffer this sb bs st1)"
proof -
  define ours where "ours = (if isCorked this st \<and> corkOffset st \<noteq> 0 then corkBuffer st else [])"
  have o: "ours = corked_bytes this st" by (simp add: ours_def corked_bytes_def isCorked_def)
  let ?b = "buffers st this" let ?n = "length (bp_string ?b)"
  have b: "pendingRemoval ?b \<le> ?n" using assms(1) by (simp add: loop_ok_def bp_ok_def)
  have r: "bp_string (bp_resize (length ours + bp_length ?b + length bs) ?b) = bp_string ?b @ replicate (length ours + length bs) 0"
    using b by (simp add: bp_resize_def string_resize_def bp_length_def)
  have p: "pendingRemoval (bp_resize (length ours + bp_length ?b + length bs) ?b) = pendingRemoval ?b" by (simp add: bp_resize_def)
  have a: "pendingRemoval ?b + bp_length ?b = ?n" using b by (simp add: bp_length_def)
  let ?st = "st\<lparr>corkBuffer := (if isCorked this st then [] else corkBuffer st)\<rparr>"
  have st: "(if isCorked this st \<and> corkOffset st \<noteq> 0 then st\<lparr>corkBuffer := []\<rparr> else st) = ?st" by simp
  define b1 where "b1 = (bp_resize (length ours + bp_length ?b + length bs) ?b)\<lparr>bp_string := bp_string ?b @ ours @ replicate (length bs) 0\<rparr>"
  have g1: "sb = InBackpressure (?n + length ours)" "attr = NEEDS_DRAIN" "st1 = set_buffer this b1 ?st"
    using g assms(2) unfolding getSendBuffer_def Let_def ours_def [symmetric] st by (auto simp: p a r b1_def)
  have "fillSendBuffer this sb bs st1 = set_buffer this (b1\<lparr>bp_string := bp_string ?b @ ours @ bs\<rparr>) ?st"
    unfolding g1 fillSendBuffer_def by (simp add: b1_def overwrite_def set_buffer_def)
  then show ?thesis using b g1(2)
    by (simp add: sent_out_def out_stream_def bp_data_def bp_ok_def b1_def p o)
qed

lemma send_sent:
  assumes ok: "loop_ok st" and g: "getSendBuffer this (length bs) st = Some ((sb, attr), st1)"
  shows "sent ops wire this bs st (fillSendBuffer this sb bs st1)"
proof (cases "bp_length (buffers st this) = 0 \<and> (isCorked this st \<or> canCork st) \<and> corkOffset st + length bs < CORK_BUFFER_SIZE")
  case True
  let ?st = "st\<lparr>corkedSocket := Some this, corkBuffer := corkBuffer st @ bs\<rparr>"
  have "corkedSocket st = None \<Longrightarrow> corkBuffer st = []" using ok by (auto simp: loop_ok_def)
  then have e: "fillSendBuffer this sb bs st1 = ?st" "corkedSocket st = None \<Longrightarrow> corkBuffer st = []"
    using g True by (auto simp: getSendBuffer_def fillSendBuffer_def overwrite_def isCorked_def canCork_def cork_def split: if_splits)
  have "loop_ok ?st" using ok True by (auto simp: loop_ok_def bp_length_data)
  then show ?thesis unfolding e(1) using True e(2)
    by (auto simp: sent_def socket_stream_def corked_bytes_def out_stream_def isCorked_def canCork_def)
next
  case False
  let ?st = "st\<lparr>corkBuffer := (if isCorked this st then [] else corkBuffer st)\<rparr>"
  note f = conjunct2 [OF fill_drained [OF ok False g, of ops wire]]
  have "loop_ok ?st" using ok by (auto simp: loop_ok_def isCorked_def)
  moreover have "corkedSocket ?st \<noteq> Some this \<or> corkBuffer ?st = []" by (simp add: isCorked_def)
  ultimately have s: "sent ops wire this (corked_bytes this st @ bs) ?st (fillSendBuffer this sb bs st1)"
    using f by (intro sent_outI)
  have "socket_stream wire this ?st @ corked_bytes this st = socket_stream wire this st"
    "\<And>other. other \<noteq> this \<Longrightarrow> socket_stream wire other ?st = socket_stream wire other st"
    by (auto simp: socket_stream_def corked_bytes_def out_stream_def isCorked_def)
  then show ?thesis using s by (simp add: sent_def flip: append_assoc)
qed

lemma cork_sent:
  assumes "loop_ok st" "cork this st = Some st'"
  shows "sent ops wire this [] st st'"
  using assms by (auto simp: cork_def sent_def loop_ok_def socket_stream_def corked_bytes_def out_stream_def split: if_splits)

section \<open>Any sequence of calls\<close>

datatype SocketCall =
    Cork nat
  | Write nat "byte list" bool
  | Uncork nat "byte list" bool
  | Send nat "byte list"

text \<open>
  A call on its socket, and the bytes it accepted: of a write or an uncork as many as it returns, of
  a send buffer all that was asked for.
\<close>

definition socket_call :: "'w SocketOps \<Rightarrow> SocketCall \<Rightarrow> 'w LoopState \<Rightarrow> ((nat \<times> byte list) \<times> 'w LoopState) option" where
  "socket_call ops c st =
    (case c of
       Cork this \<Rightarrow> map_option (Pair (this, [])) (cork this st)
     | Write this src optionally \<Rightarrow>
         (case async_write ops this src optionally 0 st of ((k, _), st) \<Rightarrow> Some ((this, take k src), st))
     | Uncork this src optionally \<Rightarrow>
         (case uncork ops this src optionally st of ((k, _), st) \<Rightarrow> Some ((this, take k src), st))
     | Send this bs \<Rightarrow>
         (case getSendBuffer this (length bs) st of
            None \<Rightarrow> None
          | Some ((sb, _), st) \<Rightarrow> Some ((this, bs), fillSendBuffer this sb bs st)))"

fun socket_calls :: "'w SocketOps \<Rightarrow> SocketCall list \<Rightarrow> 'w LoopState \<Rightarrow> ((nat \<times> byte list) list \<times> 'w LoopState) option" where
  "socket_calls ops [] st = Some ([], st)"
| "socket_calls ops (c # cs) st =
    (case socket_call ops c st of
       None \<Rightarrow> None
     | Some (acc, st) \<Rightarrow> (case socket_calls ops cs st of None \<Rightarrow> None | Some (log, st) \<Rightarrow> Some (acc # log, st)))"

definition accepted :: "nat \<Rightarrow> (nat \<times> byte list) list \<Rightarrow> byte list" where
  "accepted this log = concat (map snd (filter (\<lambda>a. fst a = this) log))"

lemma socket_call_sent:
  assumes "socket_laws ops wire" "loop_ok st" "socket_call ops c st = Some ((this, bs), st')"
  shows "sent ops wire this bs st st'"
  using assms(3) async_write_sent [OF assms(1, 2)] uncork_sent [OF assms(1, 2)] send_sent [OF assms(2)] cork_sent [OF assms(2)]
  by (fastforce simp: socket_call_def split: SocketCall.splits option.splits prod.splits)

lemma socket_calls_sent:
  assumes laws: "socket_laws ops wire"
  shows "loop_ok st \<Longrightarrow> socket_calls ops cs st = Some (log, st') \<Longrightarrow>
    loop_ok st' \<and> (\<forall>s. closed ops s st' = closed ops s st) \<and>
    (\<forall>s. \<not> closed ops s st \<longrightarrow> socket_stream wire s st' = socket_stream wire s st @ accepted s log)"
proof (induction cs arbitrary: st log)
  case Nil
  then show ?case by (simp add: accepted_def)
next
  case (Cons c cs)
  then obtain this bs st1 log1 where c: "socket_call ops c st = Some ((this, bs), st1)"
    "socket_calls ops cs st1 = Some (log1, st')" "log = (this, bs) # log1"
    by (auto split: option.splits)
  note s = socket_call_sent [OF laws Cons.prems(1) c(1)]
  then have "loop_ok st1" by (simp add: sent_def)
  from Cons.IH [OF this c(2)] show ?case using s unfolding c(3) sent_def accepted_def by fastforce
qed

text \<open>C10: Whatever sockets of a loop are written to, corked, uncorked or sent on, in any order, and
  however much or little the kernel takes of each write: for every open socket the bytes on the wire,
  then its backpressure, then its part of the cork buffer are together exactly the bytes that the calls
  reported as accepted, in order. Nothing is lost, repeated, reordered or sent to another socket.\<close>

theorem socket_stream_exact:
  assumes "socket_laws ops wire" "loop_ok st" "socket_calls ops calls st = Some (log, st')"
  shows "loop_ok st' \<and>
    (\<forall>s. us_socket_is_closed ops s (kernel st) \<or> socket_stream wire s st' = socket_stream wire s st @ accepted s log)"
  using socket_calls_sent [OF assms] by blast

section \<open>Flushing\<close>

lemma write_uncorked_all:
  assumes laws: "socket_laws ops wire" and all: "\<And>src coming w. fst (us_socket_write ops this src coming w) = length src"
    and "corkedSocket st \<noteq> Some this" "bp_ok (buffers st this)"
  shows "fst (write_uncorked ops this src optionally n st) = (length src, False)"
proof -
  have all': "fst (socket_write ops this src coming st) = length src" for src coming and st :: "('a, 'b) LoopState_scheme"
    using all [of src coming "kernel st"] by (simp add: socket_write_def case_prod_beta)
  obtain drained st1 where d: "drain_first ops this src st = (drained, st1)" by fastforce
  have "drained" using d all' [of "bp_data (buffers st this)" "src \<noteq> []" st]
    by (auto simp: drain_first_def bp_length_data split: prod.splits if_splits)
  moreover have "corkedSocket st1 \<noteq> Some this" using drain_first_sent(1) [OF laws assms(4) d] assms(3) by (simp add: sent_out_def)
  moreover obtain st2 where "socket_write ops this src (n \<noteq> 0) st1 = (length src, st2)"
    using all' [of src "n \<noteq> 0" st1] by (metis prod.collapse)
  ultimately show ?thesis using d by (simp add: write_uncorked_def write_with_eq)
qed

text \<open>C33: When the kernel takes everything it is given, \<open>uncork\<close> of an open, corked socket puts
  every byte that was accepted before and all of \<open>src\<close> on the wire, in order, and reports success; nothing
  stays in the backpressure or the cork buffer and the cork is free.\<close>

theorem uncork_delivers:
  assumes "socket_laws ops wire" "\<And>src coming w. fst (us_socket_write ops this src coming w) = length src"
    and "loop_ok st" "corkedSocket st = Some this" "\<not> us_socket_is_closed ops this (kernel st)"
    and "uncork ops this src optionally st = (res, st')"
  shows "res = (length src, False) \<and> wire this (kernel st') = socket_stream wire this st @ src \<and>
    bp_length (buffers st' this) = 0 \<and> corkBuffer st' = [] \<and> corkedSocket st' = None"
proof -
  let ?st = "st\<lparr>corkedSocket := None\<rparr>"
  obtain k1 f1 st1 where w1: "write_uncorked ops this (corkBuffer st) False (length src) ?st = ((k1, f1), st1)"
    by (metis prod.collapse)
  have bp: "bp_ok (buffers ?st this)" using assms(3) by (simp add: loop_ok_def)
  have "f1 = False" using write_uncorked_all [OF assms(1, 2) _ bp, of "corkBuffer st" False "length src"] w1 by simp
  moreover have o1: "sent_out ops wire this (take k1 (corkBuffer st)) ?st st1"
  proof -
    have "corkedSocket ?st \<noteq> Some this" "\<not> closed ops this ?st" using assms(5) by simp_all
    from write_uncorked_sent [OF assms(1) bp this w1] show ?thesis by blast
  qed
  ultimately obtain st2 where st2: "write_uncorked ops this src optionally 0 st2 = (res, st')"
    "corkedSocket st2 = None" "corkBuffer st2 = []" "bp_ok (buffers st2 this)" "\<not> closed ops this st2"
    using assms(4, 5, 6) w1 bp o1 that [of ?st] that [of "st1\<lparr>corkBuffer := []\<rparr>"]
    by (auto simp: uncork_def uncork_with_def Let_def sent_out_def split: if_splits)
  have r: "res = (length src, False)"
    using write_uncorked_all [OF assms(1, 2) _ st2(4), of src optionally 0] st2(1, 2) by simp
  note w2 = write_uncorked_sent [OF assms(1) st2(4) _ st2(5) st2(1) [unfolded r]]
  have b: "bp_data (buffers st' this) = []" and c: "corkBuffer st' = []" "corkedSocket st' = None"
    using w2 st2(2, 3) by (simp_all add: sent_out_def)
  have "socket_stream wire this st' = socket_stream wire this st @ src"
    using uncork_sent [OF assms(1, 3) assms(6) [unfolded r]] assms(5) by (simp add: sent_def)
  moreover have "socket_stream wire this st' = wire this (kernel st')"
    by (simp add: socket_stream_def out_stream_def corked_bytes_def b c)
  ultimately show ?thesis using r b c by (simp add: bp_length_data)
qed

section \<open>Examples\<close>

text \<open>A kernel that takes a fixed number of bytes in all, and its record of what was sent.\<close>

definition quota_ops :: "(nat \<times> (nat \<times> byte list) list) SocketOps" where
  "quota_ops = \<lparr>us_socket_is_closed = (\<lambda>s w. False),
     us_socket_write = (\<lambda>s src coming (q, log). (min q (length src), (q - length src, log @ [(s, take q src)]))),
     us_socket_write2 = (\<lambda>s h src (q, log). (min q (length (h @ src)), (q - length (h @ src), log @ [(s, take q (h @ src))]))),
     us_socket_timeout = (\<lambda>s n w. w), us_socket_shutdown = (\<lambda>s w. w), us_socket_shutdown_read = (\<lambda>s w. w),
     us_socket_is_shut_down = (\<lambda>s w. False), us_poll_events = (\<lambda>s w. 1), us_poll_change = (\<lambda>s n w. w),
     us_socket_remote_address = (\<lambda>s w. [127, 0, 0, 1]), us_socket_remote_port = (\<lambda>s w. 80)\<rparr>"

definition quota_wire :: "nat \<Rightarrow> nat \<times> (nat \<times> byte list) list \<Rightarrow> byte list" where
  "quota_wire s w = accepted s (snd w)"

definition idle_loop :: "'w \<Rightarrow> 'w LoopState" where
  "idle_loop w = \<lparr>corkBuffer = [], corkedSocket = None, buffers = (\<lambda>s. empty_backpressure), us_events = (0, 0), kernel = w\<rparr>"

lemma quota_laws: "socket_laws quota_ops quota_wire"
  by (auto simp: socket_laws_def quota_ops_def quota_wire_def accepted_def min_def)

lemma idle_loop_ok: "loop_ok (idle_loop w)"
  by (simp add: loop_ok_def idle_loop_def bp_ok_def empty_backpressure_def)

definition example_calls :: "SocketCall list" where
  "example_calls = [Cork 0, Write 0 [1, 2] False, Send 0 [3], Uncork 0 [4, 5] False, Write 1 [7, 8] True, Write 0 [6] False]"

lemma example_calls_run:
  "\<exists>log st'. socket_calls quota_ops example_calls (idle_loop (4, [])) = Some (log, st') \<and>
     accepted 0 log = [1, 2, 3, 4, 5, 6] \<and> accepted 1 log = [] \<and> socket_stream quota_wire 0 st' = [1, 2, 3, 4, 5, 6]"
  by (simp add: example_calls_def socket_call_def async_write_def write_with_eq uncork_def uncork_with_def write_uncorked_def drain_first_def
      socket_write_def getSendBuffer_def fillSendBuffer_def overwrite_def cork_def isCorked_def canCork_def idle_loop_def quota_ops_def
      bp_length_def bp_data_def bp_append_def bp_erase_def bp_clear_def empty_backpressure_def CORK_BUFFER_SIZE_def set_buffer_def
      accepted_def socket_stream_def out_stream_def corked_bytes_def quota_wire_def Let_def)

theorem socket_stream_exact_witness:
  "\<exists>log st'. socket_calls quota_ops example_calls (idle_loop (4, [])) = Some (log, st') \<and>
     loop_ok st' \<and> accepted 0 log = [1, 2, 3, 4, 5, 6] \<and>
     (us_socket_is_closed quota_ops 0 (kernel (idle_loop (4, []))) \<or>
      socket_stream quota_wire 0 st' = socket_stream quota_wire 0 (idle_loop (4, [])) @ accepted 0 log)"
  using example_calls_run socket_stream_exact [OF quota_laws idle_loop_ok] by blast

text \<open>
  Two sockets share the cell of saved poll events: pausing an idle one after another that polls for
  writing makes the first resume with the events of the second.
\<close>

lemma resume_takes_other_events:
  assumes "us_poll_events ops 1 (kernel st) = 1" "us_poll_events ops 2 (us_poll_change ops 1 0 (kernel st)) = 3"
    and "getBufferedAmount 1 st = 0" "getBufferedAmount 2 st = 0"
  shows "\<exists>w. kernel (resume ops 1 (pause ops 2 (pause ops 1 st))) = us_poll_change ops 1 3 w"
  using assms unfolding pause_def resume_def throttle_helper_def getBufferedAmount_def Let_def
  by (intro exI [of _ "us_poll_change ops 2 0 (us_poll_change ops 1 0 (kernel st))"]) simp

text \<open>A kernel that takes everything.\<close>

definition greedy_ops :: "(nat \<times> (nat \<times> byte list) list) SocketOps" where
  "greedy_ops = quota_ops\<lparr>us_socket_write := (\<lambda>s src coming (q, log). (length src, (q, log @ [(s, src)])))\<rparr>"

lemma greedy_laws: "socket_laws greedy_ops quota_wire"
  by (auto simp: socket_laws_def greedy_ops_def quota_ops_def quota_wire_def accepted_def)

definition corked_loop :: "(nat \<times> (nat \<times> byte list) list) LoopState" where
  "corked_loop = (idle_loop (0, []))\<lparr>corkBuffer := [1, 2], corkedSocket := Some 3\<rparr>"

theorem uncork_delivers_witness:
  "\<exists>st'. uncork greedy_ops 3 [9] False corked_loop = ((1, False), st') \<and> quota_wire 3 (kernel st') = [1, 2, 9]"
proof -
  obtain res st' where u: "uncork greedy_ops 3 [9] False corked_loop = (res, st')" by fastforce
  have "loop_ok corked_loop"
    using idle_loop_ok [of "(0, [])"] by (auto simp: corked_loop_def loop_ok_def idle_loop_def bp_data_def empty_backpressure_def CORK_BUFFER_SIZE_def)
  moreover have "fst (us_socket_write greedy_ops 3 src coming w) = length src" for src coming w
    by (simp add: greedy_ops_def split: prod.split)
  moreover have "corkedSocket corked_loop = Some 3" "\<not> us_socket_is_closed greedy_ops 3 (kernel corked_loop)"
    by (simp_all add: corked_loop_def greedy_ops_def quota_ops_def)
  moreover have "socket_stream quota_wire 3 corked_loop = [1, 2]"
    by (simp add: corked_loop_def idle_loop_def socket_stream_def out_stream_def corked_bytes_def quota_wire_def accepted_def
        bp_data_def empty_backpressure_def)
  ultimately show ?thesis using uncork_delivers [OF greedy_laws _ _ _ _ u] u by simp
qed

text \<open>
  The call of \<open>write\<close> on a corked socket whose data do not fit in the cork buffer: when the kernel
  does not take the corked bytes, \<open>uncork\<close> returns before it looks at \<open>src\<close>. The caller asked for
  all of it to be buffered, and none is.
\<close>

lemma write_drops_data:
  assumes "CORK_BUFFER_SIZE - corkOffset st < length src" "corkBuffer st \<noteq> []" "corkedSocket st = Some s" "loop_ok st" "kernel st = (0, log)"
  shows "\<exists>st'. async_write quota_ops s src False 0 st = ((0, True), st') \<and>
    socket_stream quota_wire s st' = socket_stream quota_wire s st"
proof -
  have b: "bp_data (buffers st s) = []" using assms by (auto simp: loop_ok_def)
  then have l: "bp_length (buffers st s) = 0" by (simp add: bp_length_data)
  have "src \<noteq> []" using assms(1) by auto
  obtain res st' where w: "async_write quota_ops s src False 0 st = (res, st')" by fastforce
  have "fst (async_write quota_ops s src False 0 st) = (0, True)"
    using assms l \<open>src \<noteq> []\<close>
    by (simp add: async_write_def write_with_eq drain_first_def uncork_def uncork_with_def write_uncorked_def socket_write_def quota_ops_def Let_def
        not_le)
  then have r: "res = (0, True)" using w by simp
  from async_write_sent [OF quota_laws assms(4) w [unfolded r]] have "socket_stream quota_wire s st' = socket_stream quota_wire s st"
    by (simp add: sent_def quota_ops_def)
  then show ?thesis using w r by blast
qed

end
