(* ===== verification/Ws_Send.thy ===== *)
theory Ws_Send
  imports Ws_Server Socket_Stream
begin

text \<open>
  What a send does to the wire. The socket layer's guarantee (\<open>Socket_Stream\<close>) is lifted to
  \<open>WebSocket::send\<close>: a message that is not dropped adds exactly its frame to the socket's stream,
  whichever of the two paths it takes, and nothing else of the server changes.
\<close>

section \<open>The library\<close>

text \<open>
  Beside \<open>socket_laws\<close>: \<open>us_socket_write2\<close> sends a prefix of the two buffers, and timeouts and
  shutdowns neither send nor close.
\<close>

definition server_laws :: "'w SocketOps \<Rightarrow> (nat \<Rightarrow> 'w \<Rightarrow> byte list) \<Rightarrow> bool" where
  "server_laws ops wire \<longleftrightarrow> socket_laws ops wire \<and>
     (\<forall>this header payload w n w'. us_socket_write2 ops this header payload w = (n, w') \<longrightarrow>
        n \<le> length header + length payload \<and> wire this w' = wire this w @ take n (header @ payload) \<and>
        (\<forall>other. other \<noteq> this \<longrightarrow> wire other w' = wire other w) \<and>
        (\<forall>other. us_socket_is_closed ops other w' = us_socket_is_closed ops other w)) \<and>
     (\<forall>this s w other. wire other (us_socket_timeout ops this s w) = wire other w \<and>
        us_socket_is_closed ops other (us_socket_timeout ops this s w) = us_socket_is_closed ops other w) \<and>
     (\<forall>this w other. wire other (us_socket_shutdown_read ops this w) = wire other w \<and>
        us_socket_is_closed ops other (us_socket_shutdown_read ops this w) = us_socket_is_closed ops other w) \<and>
     (\<forall>this w other. wire other (us_socket_shutdown ops this w) = wire other w \<and>
        us_socket_is_closed ops other (us_socket_shutdown ops this w) = us_socket_is_closed ops other w)"

lemma server_socket_laws: "server_laws ops wire \<Longrightarrow> socket_laws ops wire"
  by (simp add: server_laws_def)

lemma write2_law:
  assumes "server_laws ops wire" "us_socket_write2 ops this header payload w = (n, w')"
  shows "n \<le> length header + length payload" "wire this w' = wire this w @ take n (header @ payload)"
    "other \<noteq> this \<Longrightarrow> wire other w' = wire other w" "us_socket_is_closed ops other w' = us_socket_is_closed ops other w"
  using assms unfolding server_laws_def by blast+

section \<open>The socket layer leaves the rest of the state alone\<close>

named_theorems keeps_more \<open>the fields behind those of the loop\<close>

lemma set_buffer_more [keeps_more]: "LoopState.more (set_buffer this b l) = LoopState.more l"
  by (simp add: set_buffer_def)

lemma socket_write_more: "socket_write ops this src c l = (n, l') \<Longrightarrow> LoopState.more l' = LoopState.more l"
  by (auto simp: socket_write_def split: prod.splits)

lemma write_with_more:
  assumes "\<And>src opt l. LoopState.more (snd (unc src opt l)) = LoopState.more l"
  shows "LoopState.more (snd (write_with unc ops this src opt n l)) = LoopState.more l"
proof -
  obtain d l1 where d: "drain_first ops this src l = (d, l1)" by fastforce
  then have l1: "LoopState.more l1 = LoopState.more l"
    by (auto simp: drain_first_def keeps_more dest: socket_write_more split: if_splits prod.splits)
  show ?thesis
    using l1 assms by (auto simp: write_with_eq d keeps_more dest!: socket_write_more split: prod.splits if_splits)
qed

lemma write_uncorked_more: "LoopState.more (snd (write_uncorked ops this src opt n l)) = LoopState.more l"
  unfolding write_uncorked_def by (rule write_with_more) simp

lemma uncork_more [keeps_more]: "LoopState.more (snd (uncork ops this src opt l)) = LoopState.more l"
proof -
  obtain x f l1 where w: "write_uncorked ops this (corkBuffer l) False (length src) (l\<lparr>corkedSocket := None\<rparr>) = ((x, f), l1)"
    by (metis prod.collapse)
  have "LoopState.more l1 = LoopState.more l"
    using write_uncorked_more [of ops this "corkBuffer l" False "length src" "l\<lparr>corkedSocket := None\<rparr>"] w by simp
  then show ?thesis by (simp add: uncork_def uncork_with_def w Let_def write_uncorked_more)
qed

lemma async_write_more [keeps_more]: "LoopState.more (snd (async_write ops this src opt n l)) = LoopState.more l"
  unfolding async_write_def by (rule write_with_more) (rule uncork_more)

lemma cork_more: "cork this l = Some l' \<Longrightarrow> LoopState.more l' = LoopState.more l"
  by (auto simp: cork_def split: if_splits)

lemma getSendBuffer_more: "getSendBuffer this n l = Some (r, l') \<Longrightarrow> LoopState.more l' = LoopState.more l"
  by (auto simp: getSendBuffer_def Let_def keeps_more dest: cork_more split: if_splits option.splits)

lemma fillSendBuffer_more [keeps_more]: "LoopState.more (fillSendBuffer this sb bs l) = LoopState.more l"
  by (simp add: fillSendBuffer_def keeps_more split: SendBuffer.split)

text \<open>Everything of the server but the loop and the compressors.\<close>

definition same_server :: "('w, 'z, 'u) ServerLoop \<Rightarrow> ('w, 'z, 'u) ServerLoop \<Rightarrow> bool" where
  "same_server l l' \<longleftrightarrow> sockets l' = sockets l \<and> sub_user l' = sub_user l \<and> needsUncork l' = needsUncork l \<and>
     terminated l' = terminated l \<and> user l' = user l"

lemma same_server_refl [simp]: "same_server l l"
  by (simp add: same_server_def)

lemma same_server_trans: "same_server l l1 \<Longrightarrow> same_server l1 l2 \<Longrightarrow> same_server l l2"
  by (simp add: same_server_def)

lemma same_serverI: "LoopState.more l' = LoopState.more l \<Longrightarrow> same_server l l'"
  by (cases l; cases l') (simp add: same_server_def)

section \<open>Room in the buffers\<close>

lemma getSendBuffer_total:
  assumes "loop_ok l"
  obtains sb attr l' where "getSendBuffer this n l = Some ((sb, attr), l')"
proof -
  have "corkedSocket l = None \<Longrightarrow> corkBuffer l = []" using assms by (auto simp: loop_ok_def)
  then have "getSendBuffer this n l \<noteq> None"
    by (auto simp: getSendBuffer_def Let_def cork_def canCork_def)
  then show thesis using that by (metis option.exhaust prod.collapse)
qed

lemma frame_size: "length (formatMessage True [] m op (length m) c fin) = messageFrameSize (length m)"
  by (simp add: formatMessage_def messageFrameSize_def Let_def)

lemma long_header: "formatMessage True [] [] op n c fin @ m = formatMessage True [] m op n c fin"
  by (simp add: formatMessage_def Let_def)

section \<open>The two paths\<close>

text \<open>The frame a message becomes: compressed or not.\<close>

definition frame_of ::
  "('w, 'z, 'u) Env \<Rightarrow> nat \<Rightarrow> byte list \<Rightarrow> byte \<Rightarrow> nat \<Rightarrow> bool \<Rightarrow> ('w, 'z, 'u) ServerLoop \<Rightarrow> byte list" where
  "frame_of env this message op compress fin l =
     (case compress_message env this message op compress l of
        (m, c, _) \<Rightarrow> formatMessage True [] m op (length m) (c \<noteq> 0) fin)"

lemma compress_message_loop:
  "compress_message env this message op compress l = (m, c, l') \<Longrightarrow> \<exists>z. l' = l\<lparr> zlib := z \<rparr>"
proof -
  assume "compress_message env this message op compress l = (m, c, l')"
  then have "l' = l \<or> (\<exists>z. l' = l\<lparr> zlib := z \<rparr>)"
    by (auto simp: compress_message_def split: if_splits prod.splits)
  moreover have "l = l\<lparr> zlib := zlib l \<rparr>" by simp
  ultimately show ?thesis by blast
qed

lemma zlib_same [simp]: "same_server l (l\<lparr> zlib := z \<rparr>)" "loop_ok (l\<lparr> zlib := z \<rparr>) = loop_ok l"
  "sent ops wire this bs (l\<lparr> zlib := z \<rparr>) l' = sent ops wire this bs l l'"
  by (simp_all add: same_server_def loop_ok_def sent_def socket_stream_def out_stream_def corked_bytes_def)

lemma send_framed_sent:
  assumes laws: "server_laws (socket_ops env) wire" and ok: "loop_ok l"
    and s: "send_framed env this message op compress fin l = (done', l')"
  shows "sent (socket_ops env) wire this (frame_of env this message op compress fin l) l l'" "same_server l l'"
proof -
  obtain m c l0 where c: "compress_message env this message op compress l = (m, c, l0)" by (metis prod_cases3)
  obtain z where l0: "l0 = l\<lparr> zlib := z \<rparr>" using compress_message_loop [OF c] by blast
  have ok0: "loop_ok l0" using ok by (simp add: l0)
  obtain sb attr l1 where g: "getSendBuffer this (messageFrameSize (length m)) l0 = Some ((sb, attr), l1)"
    by (rule getSendBuffer_total [OF ok0])
  let ?f = "formatMessage True [] m op (length m) (c \<noteq> 0) fin"
  define l2 where "l2 = fillSendBuffer this sb ?f l1"
  have fill: "sent (socket_ops env) wire this ?f l0 l2" unfolding l2_def
    by (rule send_sent [OF ok0]) (simp add: frame_size g)
  then have ok2: "loop_ok l2" by (simp add: sent_def)
  have same2: "same_server l0 l2"
    unfolding l2_def using getSendBuffer_more [OF g] by (intro same_serverI) (simp add: keeps_more)
  note sl = server_socket_laws [OF laws]
  have flush: "sent (socket_ops env) wire this [] l2 (snd (uncork (socket_ops env) this [] False l2))"
      "sent (socket_ops env) wire this [] l2 (snd (async_write (socket_ops env) this [] False 0 l2))"
    using uncork_sent [OF sl ok2] async_write_sent [OF sl ok2] by (metis prod.collapse take_Nil)+
  have "l' = l2 \<or> l' = snd (uncork (socket_ops env) this [] False l2) \<or> l' = snd (async_write (socket_ops env) this [] False 0 l2)"
    using s unfolding send_framed_def c by (auto simp: g l2_def Let_def split: SendBufferAttribute.splits prod.splits)
  then have "sent (socket_ops env) wire this (?f @ []) l0 l' \<and> same_server l0 l'"
    using sent_trans [OF fill flush(1)] sent_trans [OF fill flush(2)] fill same2 same_server_trans [OF same2]
    by (elim disjE) (simp_all add: same_serverI keeps_more)
  then show "sent (socket_ops env) wire this (frame_of env this message op compress fin l) l l'" "same_server l l'"
    using same_server_trans [of l l0 l'] by (simp_all add: frame_of_def c l0)
qed

lemma uncorkWithoutSending_sent:
  "sent ops wire this bs l l1 \<Longrightarrow> corkBuffer l1 = [] \<Longrightarrow> sent ops wire this bs l (uncorkWithoutSending this l1)"
  by (simp add: sent_def socket_stream_def corked_bytes_def out_stream_def uncorkWithoutSending_def loop_ok_def cong: if_cong)

lemma send_long_sent:
  assumes laws: "server_laws (socket_ops env) wire" and ok: "loop_ok l"
    and long: "takes_long_path env this message compress l" and s: "send_long env this message op compress fin l = (done', l')"
  shows "sent (socket_ops env) wire this (frame_of env this message op compress fin l) l l'" "same_server l l'"
proof -
  let ?h = "formatMessage True [] [] op (length message) (compress \<noteq> 0) fin"
  obtain n w where w: "us_socket_write2 (socket_ops env) this ?h message (kernel l) = (n, w)" by fastforce
  note law = write2_law [OF laws w]
  have b: "bp_data (buffers l this) = []" "corkBuffer l = []" "compress = 0" "bp_ok (buffers l this)"
    using long ok by (simp_all add: takes_long_path_def getBufferedAmount_def bp_totalLength_def bp_data_def loop_ok_def)
  have frame: "frame_of env this message op compress fin l = ?h @ message"
    by (simp add: frame_of_def compress_message_def b(3) long_header)
  define rest where "rest = drop n (?h @ message)"
  have l': "l' = (if n = length ?h + length message then l\<lparr> kernel := w \<rparr>
      else uncorkWithoutSending this (set_buffer this (bp_append rest (buffers l this)) (l\<lparr> kernel := w \<rparr>)))"
    using s law(1) unfolding send_long_def w Let_def prod.case rest_def bp_append_def by (auto split: if_splits)
  show "same_server l l'"
    unfolding l' by (simp add: same_server_def uncorkWithoutSending_def set_buffer_def)
  have out: "sent_out (socket_ops env) wire this F l
      (if n = length F then l\<lparr> kernel := w \<rparr> else set_buffer this (bp_append (drop n F) (buffers l this)) (l\<lparr> kernel := w \<rparr>))"
    if "F = ?h @ message" for F
    using law(3, 4) law(2) [folded that] law(1) b(1, 2, 4)
    by (auto simp: sent_out_def out_stream_def bp_simps bp_keeps_ok)
  have "sent_out (socket_ops env) wire this (?h @ message) l
      (if n = length ?h + length message then l\<lparr> kernel := w \<rparr> else set_buffer this (bp_append rest (buffers l this)) (l\<lparr> kernel := w \<rparr>))"
    using out [OF refl] by (simp only: rest_def length_append)
  from sent_outI [OF ok this] b(2) have "sent (socket_ops env) wire this (?h @ message) l
      (if n = length ?h + length message then l\<lparr> kernel := w \<rparr> else set_buffer this (bp_append rest (buffers l this)) (l\<lparr> kernel := w \<rparr>))"
    by simp
  then show "sent (socket_ops env) wire this (frame_of env this message op compress fin l) l l'"
    unfolding frame l' using b(2) by (cases "n = length ?h + length message") (simp_all add: uncorkWithoutSending_sent)
qed


section \<open>WebSocket::send\<close>

lemma refresh_timeout_sent:
  assumes "server_laws (socket_ops env) wire" and "loop_ok l"
  shows "sent (socket_ops env) wire this [] l (refresh_timeout env that l)"
  using assms unfolding server_laws_def
  by (simp add: sent_def refresh_timeout_def on_socket_def ws_timeout_def timeout_def socket_stream_def out_stream_def
      corked_bytes_def loop_ok_def)

lemma finish_send_sent:
  assumes laws: "server_laws (socket_ops env) wire" and "sent (socket_ops env) wire this bs l l1"
    and "finish_send env this (ok, l1) = (status, l')"
  shows "status \<noteq> DROPPED \<and> sent (socket_ops env) wire this bs l l'"
proof -
  have "loop_ok l1" using assms(2) by (simp add: sent_def)
  from sent_trans [OF assms(2) refresh_timeout_sent [OF laws this]] assms(2, 3)
  show ?thesis by (auto simp: finish_send_def split: if_splits)
qed

lemma finish_send_keeps:
  assumes "finish_send env this (ok, l1) = (status, l')"
  shows "sub_user l' = sub_user l1 \<and> needsUncork l' = needsUncork l1 \<and> terminated l' = terminated l1 \<and> user l' = user l1 \<and>
    sockets l' = (if ok \<and> resetIdleTimeoutOnSend (contextData env this)
      then (sockets l1)(this := (sockets l1 this)\<lparr> hasTimedOut := False \<rparr>) else sockets l1)"
  using assms by (auto simp: finish_send_def refresh_timeout_def on_socket_def ws_timeout_def timeout_def split: if_splits)

text \<open>What else a send leaves alone: the loop's other sockets may not become corked, and of the server at
  most the timeout flag of the socket changes.\<close>

definition cork_free :: "nat \<Rightarrow> ('w, 'z) LoopState_scheme \<Rightarrow> bool" where
  "cork_free this l \<longleftrightarrow> corkedSocket l = None \<or> corkedSocket l = Some this"

lemma write_uncorked_cork: "corkedSocket l = None \<Longrightarrow> corkedSocket (snd (write_uncorked ops this src opt n l)) = None"
  by (simp add: write_with_uncorked)

lemma uncork_cork: "cork_free this l \<Longrightarrow> corkedSocket (snd (uncork ops this src opt l)) = None"
proof -
  assume l: "cork_free this l"
  obtain x f l1 where w: "write_uncorked ops this (corkBuffer l) False (length src) (l\<lparr>corkedSocket := None\<rparr>) = ((x, f), l1)"
    by (metis prod.collapse)
  have "corkedSocket l1 = None"
    using write_uncorked_cork [of "l\<lparr>corkedSocket := None\<rparr>" ops this "corkBuffer l" False "length src"] w by simp
  then show ?thesis using l by (auto simp: uncork_def uncork_with_def w Let_def write_uncorked_cork cork_free_def)
qed

lemma async_write_nothing_cork: "corkedSocket (snd (async_write ops this [] opt n l)) = corkedSocket l"
proof -
  obtain d l1 where d: "drain_first ops this [] l = (d, l1)" by fastforce
  then have "corkedSocket l1 = corkedSocket l"
    by (auto simp: drain_first_def split: if_splits prod.splits dest!: socket_write_kernel)
  then show ?thesis by (auto simp: async_write_def write_with_eq d split: prod.splits)
qed

lemma getSendBuffer_cork:
  "getSendBuffer this n l = Some ((sb, attr), l') \<Longrightarrow> cork_free this l \<Longrightarrow> cork_free this l'"
  by (auto simp: getSendBuffer_def Let_def cork_def cork_free_def split: if_splits)

lemma fillSendBuffer_cork [simp]: "corkedSocket (fillSendBuffer this sb bs l) = corkedSocket l"
  by (simp add: fillSendBuffer_def split: SendBuffer.split)

lemma send_framed_cork:
  assumes "cork_free this l" and "send_framed env this message op compress fin l = (r, l')"
  shows "cork_free this l'"
proof -
  obtain m c l0 where c: "compress_message env this message op compress l = (m, c, l0)" by (metis prod_cases3)
  then obtain z where "l0 = l\<lparr> zlib := z \<rparr>" using compress_message_loop by blast
  then have l0: "cork_free this l0" using assms(1) by (simp add: cork_free_def)
  show ?thesis
  proof (cases "getSendBuffer this (messageFrameSize (length m)) l0")
    case None
    then show ?thesis using assms(2) l0 by (auto simp: send_framed_def c cork_free_def)
  next
    case (Some g)
    then obtain sb attr l1 where g: "getSendBuffer this (messageFrameSize (length m)) l0 = Some ((sb, attr), l1)"
      by (metis prod.collapse)
    define l2 where "l2 = fillSendBuffer this sb (formatMessage True [] m op (length m) (c \<noteq> 0) fin) l1"
    have l2: "cork_free this l2" using getSendBuffer_cork [OF g l0] by (simp add: l2_def cork_free_def)
    have "l' = l2 \<or> l' = snd (uncork (socket_ops env) this [] False l2) \<or> l' = snd (async_write (socket_ops env) this [] False 0 l2)"
      using assms(2) unfolding send_framed_def c by (auto simp: g l2_def Let_def split: SendBufferAttribute.splits prod.splits)
    then show ?thesis using l2 uncork_cork [OF l2, of "socket_ops env" "[]" False]
        async_write_nothing_cork [of "socket_ops env" this False 0 l2] by (auto simp: cork_free_def)
  qed
qed

lemma send_long_cork:
  "cork_free this l \<Longrightarrow> send_long env this message op compress fin l = (r, l') \<Longrightarrow> cork_free this l'"
  by (auto simp: send_long_def Let_def cork_free_def uncorkWithoutSending_def isCorked_def split: prod.splits if_splits)

definition quiet :: "nat \<Rightarrow> ('w, 'z, 'u) ServerLoop \<Rightarrow> ('w, 'z, 'u) ServerLoop \<Rightarrow> bool" where
  "quiet this l l' \<longleftrightarrow> sub_user l' = sub_user l \<and> needsUncork l' = needsUncork l \<and> terminated l' = terminated l \<and>
     user l' = user l \<and> (\<exists>b. sockets l' = (sockets l)(this := (sockets l this)\<lparr> hasTimedOut := b \<rparr>)) \<and>
     (cork_free this l \<longrightarrow> cork_free this l')"

lemma same_server_quiet: "same_server l l' \<Longrightarrow> (cork_free this l \<Longrightarrow> cork_free this l') \<Longrightarrow> quiet this l l'"
  unfolding quiet_def same_server_def by (intro conjI exI [of _ "hasTimedOut (sockets l this)"]) simp_all

lemma finish_send_quiet:
  assumes "quiet this l l1" and "finish_send env this (ok, l1) = (status, l')"
  shows "quiet this l l'"
proof -
  obtain b where b: "sockets l1 = (sockets l)(this := (sockets l this)\<lparr> hasTimedOut := b \<rparr>)"
    using assms(1) by (auto simp: quiet_def)
  have "corkedSocket l' = corkedSocket l1"
    using assms(2) by (auto simp: finish_send_def refresh_timeout_def on_socket_def ws_timeout_def timeout_def split: if_splits)
  moreover have "\<exists>b. sockets l' = (sockets l)(this := (sockets l this)\<lparr> hasTimedOut := b \<rparr>)"
    using finish_send_keeps [OF assms(2)] b by (cases "ok \<and> resetIdleTimeoutOnSend (contextData env this)") auto
  ultimately show ?thesis
    using assms(1) finish_send_keeps [OF assms(2)] by (simp add: quiet_def cork_free_def)
qed

lemma send_exact:
  assumes "server_laws (socket_ops env) wire" and "loop_ok (app t)" and "subscriber (data_of this t) = None"
    and "\<not> over_limit env this (app t)"
  obtains status l' where "ws_send env this message op compress fin t = Some (status, t\<lparr> app := l' \<rparr>)"
    and "status \<noteq> DROPPED" and "sent (socket_ops env) wire this (frame_of env this message op compress fin (app t)) (app t) l'"
    and "quiet this (app t) l'"
proof -
  let ?l = "app t"
  obtain ok l1 where path: "(if takes_long_path env this message compress ?l then send_long env this message op compress fin ?l
      else send_framed env this message op compress fin ?l) = (ok, l1)" by fastforce
  have one: "sent (socket_ops env) wire this (frame_of env this message op compress fin ?l) ?l l1" "same_server ?l l1"
    using path send_long_sent [OF assms(1, 2)] send_framed_sent [OF assms(1, 2)] by (auto split: if_splits)
  have "cork_free this ?l \<Longrightarrow> cork_free this l1"
    using path send_long_cork send_framed_cork by (auto split: if_splits)
  then have q: "quiet this ?l l1" by (rule same_server_quiet [OF one(2)])
  obtain status l2 where f: "finish_send env this (ok, l1) = (status, l2)" by fastforce
  have "ws_send env this message op compress fin t = Some (status, t\<lparr> app := l2 \<rparr>)"
    using assms(3, 4) path f by (auto simp: ws_send_def split: if_splits)
  then show thesis
    using finish_send_sent [OF assms(1) one(1) f] finish_send_quiet [OF q f] by (intro that [of status l2]) simp_all
qed

text \<open>C40: Outside of pub/sub, send keeps the wire exact. It drops a message only when a limit is set and the
  buffered amount is above it; then nothing is added to any socket's stream. Otherwise the socket's stream
  (wire, backpressure and its part of the cork buffer) grows by exactly the frame of the message, compressed
  or not, whether the frame is corked, buffered or written at once; no other socket's stream changes,
  no socket is closed, and std::terminate is not called.\<close>

theorem send_appends_frame:
  assumes "server_laws (socket_ops env) wire" and "loop_ok (app t)" and "subscriber (data_of this t) = None"
    and "droppedHandler (contextData env this) = None"
  shows "\<exists>status t'. ws_send env this message op compress fin t = Some (status, t') \<and>
    (status = DROPPED \<longleftrightarrow> over_limit env this (app t)) \<and>
    sent (socket_ops env) wire this (if status = DROPPED then [] else frame_of env this message op compress fin (app t))
      (app t) (app t') \<and>
    terminated (app t') = terminated (app t)"
proof (cases "over_limit env this (app t)")
  case True
  have "sent (socket_ops env) wire this [] (app t) (drop_message env this message op (app t))"
    using assms unfolding server_laws_def
    by (simp add: drop_message_def sent_def socket_stream_def out_stream_def corked_bytes_def loop_ok_def)
  then show ?thesis
    using True assms(4) by (simp add: ws_send_def on_loop_def drop_message_def)
next
  case False
  obtain status l' where "ws_send env this message op compress fin t = Some (status, t\<lparr> app := l' \<rparr>)" "status \<noteq> DROPPED"
    "sent (socket_ops env) wire this (frame_of env this message op compress fin (app t)) (app t) l'" "quiet this (app t) l'"
    by (rule send_exact [OF assms(1-3) False])
  then show ?thesis using False by (simp add: quiet_def)
qed

section \<open>An example server\<close>

definition plain_context :: "('w, 'z, 'u) WsContext" where
  "plain_context = \<lparr> openHandler = None, messageHandler = None, droppedHandler = None, drainHandler = None,
     subscriptionHandler = None, closeHandler = None, pingHandler = None, pongHandler = None, maxPayloadLength = 1000, compression = 0,
     maxBackpressure = 100, closeOnBackpressureLimit = False, resetIdleTimeoutOnSend = False,
     sendPingsAutomatically = True, maxLifetime = 0, idleTimeoutComponents = (104, 16) \<rparr>"

definition plain_env :: "'w SocketOps \<Rightarrow> ('w, unit, 'u) Env" where
  "plain_env ops = \<lparr> socket_ops = ops, kernel_close = (\<lambda>s w. w), ssl = False, deflate = (\<lambda>s m z. (m, z)),
     inflate = (\<lambda>s m n z. (Some m, z)), contextData = (\<lambda>s. plain_context) \<rparr>"

definition idle_server :: "'w \<Rightarrow> 'u \<Rightarrow> ('w, unit, 'u) server" where
  "idle_server w u = empty_tree (LoopState.extend (idle_loop w)
     \<lparr> sockets = (\<lambda>s. webSocketData False 0), zlib = (), sub_user = (\<lambda>s. 0), needsUncork = False, terminated = False, user = u \<rparr>)"

lemma quota_server_laws: "server_laws quota_ops quota_wire"
  unfolding server_laws_def using quota_laws
  by (auto simp: quota_ops_def quota_wire_def accepted_def min_def)

lemma idle_server_ok: "loop_ok (app (idle_server w u))"
  using idle_loop_ok [of w] by (simp add: idle_server_def empty_tree_def idle_loop_def LoopState.defs loop_ok_def)

definition slow_server :: "(nat \<times> (nat \<times> byte list) list, unit, unit) server" where
  "slow_server = idle_server (3, []) ()"

lemma slow_server_ok: "loop_ok (app slow_server)"
  unfolding slow_server_def by (rule idle_server_ok)

theorem send_appends_frame_witness:
  "\<exists>status t'. ws_send (plain_env quota_ops) 5 [1, 2] 2 0 True slow_server = Some (status, t') \<and>
    (status = DROPPED \<longleftrightarrow> over_limit (plain_env quota_ops) 5 (app slow_server)) \<and>
    sent quota_ops quota_wire 5
      (if status = DROPPED then [] else frame_of (plain_env quota_ops) 5 [1, 2] 2 0 True (app slow_server))
      (app slow_server) (app t') \<and>
    terminated (app t') = terminated (app slow_server)"
proof -
  have e: "socket_ops (plain_env quota_ops) = quota_ops" by (simp add: plain_env_def)
  have "subscriber (data_of 5 slow_server) = None"
    by (simp add: slow_server_def idle_server_def empty_tree_def LoopState.defs webSocketData_def)
  moreover have "droppedHandler (contextData (plain_env quota_ops) 5) = None"
    by (simp add: plain_env_def plain_context_def)
  ultimately show ?thesis
    using send_appends_frame [of "plain_env quota_ops" quota_wire slow_server 5 "[1, 2]" 2 0 True]
      quota_server_laws slow_server_ok unfolding e by blast
qed

end
