(* ===== verification/Ws_Session.thy ===== *)
theory Ws_Session
  imports Ws_Context Ws_Send Ws_Stream
begin

text \<open>
  A session of a WebSocket from the bytes on the wire to the application and back: the frame parser of
  \<open>Ws_Stream\<close>, the frame handler and the data event of \<open>Ws_Context\<close>, and the sends of \<open>Ws_Send\<close>. The
  handlers of the application record what they are told.
\<close>

section \<open>What the application is told\<close>

datatype WsEvent = Message "byte list" byte | Pinged "byte list" | Ponged "byte list"

text \<open>
  Of payloads with the opcode of their message and the FIN bit of their frame: the messages put
  together, \<open>buf\<close> being the part of a message that is there already, and the control frames between.
\<close>

fun told :: "byte list \<Rightarrow> (byte list \<times> byte \<times> bool) list \<Rightarrow> WsEvent list" where
  "told buf [] = []"
| "told buf ((p, op, fin) # es) =
    (if op < 3 then (if fin then Message (buf @ p) op # told [] es else told (buf @ p) es)
     else (if op = PING then Pinged p else Ponged p) # told buf es)"

text \<open>What the server takes: messages up to the limit, texts in UTF-8, pings and pongs.\<close>

fun acceptable :: "nat \<Rightarrow> byte list \<Rightarrow> (byte list \<times> byte \<times> bool) list \<Rightarrow> bool" where
  "acceptable limit buf [] = True"
| "acceptable limit buf ((p, op, fin) # es) =
    (if op < 3 then length (buf @ p) \<le> limit \<and> (fin \<and> op = TEXT \<longrightarrow> isValidUtf8 (buf @ p)) \<and>
       acceptable limit (if fin then [] else buf @ p) es
     else fin \<and> (op = PING \<or> op = PONG) \<and> acceptable limit buf es)"

definition pong_frame :: "byte list \<Rightarrow> byte list" where
  "pong_frame p = formatMessage True [] p PONG (length p) False True"

text \<open>Every ping is answered with its payload.\<close>

fun answers :: "WsEvent list \<Rightarrow> byte list" where
  "answers [] = []"
| "answers (Pinged p # evs) = pong_frame p @ answers evs"
| "answers (_ # evs) = answers evs"

definition noted :: "WsEvent \<Rightarrow> ('w, 'z, WsEvent list) server \<Rightarrow> ('w, 'z, WsEvent list) server option" where
  "noted ev t = Some (on_loop (\<lambda>l. l\<lparr> user := user l @ [ev] \<rparr>) t)"

definition records :: "('w, 'z, WsEvent list) Env \<Rightarrow> nat \<Rightarrow> bool" where
  "records env this \<longleftrightarrow> (let c = contextData env this in
     messageHandler c = Some (\<lambda>s m op. noted (Message m op)) \<and> pingHandler c = Some (\<lambda>s p. noted (Pinged p)) \<and>
     pongHandler c = Some (\<lambda>s p. noted (Ponged p)) \<and> maxBackpressure c = 0)"

section \<open>The invariant of a session\<close>

text \<open>The message in progress, and the control frame behind it.\<close>

definition body :: "WebSocketData \<Rightarrow> byte list" where
  "body d = take (length (fragmentBuffer d) - controlTipLength d) (fragmentBuffer d)"

definition tip :: "WebSocketData \<Rightarrow> byte list" where
  "tip d = drop (length (fragmentBuffer d) - controlTipLength d) (fragmentBuffer d)"

fun behind :: "byte list \<Rightarrow> (byte list \<times> byte \<times> bool) list \<Rightarrow> (byte list \<times> byte \<times> bool) list" where
  "behind part [] = []"
| "behind part ((p, op, fin) # es) = (part @ p, op, fin) # es"

lemma behind_Nil [simp]: "behind [] E = E"
  by (cases E) auto

definition reassembly :: "nat \<Rightarrow> WebSocketData \<Rightarrow> (byte list \<times> byte \<times> bool) list \<Rightarrow> bool" where
  "reassembly limit d E \<longleftrightarrow> controlTipLength d \<le> length (fragmentBuffer d) \<and>
     (controlTipLength d \<noteq> 0 \<longrightarrow> (\<forall>p op fin es. E = (p, op, fin) # es \<longrightarrow> \<not> op < 3)) \<and>
     acceptable limit (body d) (behind (tip d) E)"

definition pending :: "WebSocketData \<Rightarrow> (byte list \<times> byte \<times> bool) list \<Rightarrow> WsEvent list" where
  "pending d E = told (body d) (behind (tip d) E)"

definition alive :: "(nat \<Rightarrow> 'w \<Rightarrow> byte list) \<Rightarrow> ('w, 'z, 'u) Env \<Rightarrow> nat \<Rightarrow> (nat \<Rightarrow> byte list) \<Rightarrow> ('w, 'z, 'u) server \<Rightarrow> bool" where
  "alive wire env this others t \<longleftrightarrow> loop_ok (app t) \<and> cork_free this (app t) \<and> \<not> terminated (app t) \<and>
     \<not> socket_closed env this t \<and> subscriber (data_of this t) = None \<and> \<not> isShuttingDown (data_of this t) \<and>
     compressionStatus (data_of this t) \<noteq> COMPRESSED_FRAME \<and>
     (\<forall>other. other \<noteq> this \<longrightarrow> socket_stream wire other (app t) = others other)"

definition session ::
  "(nat \<Rightarrow> 'w \<Rightarrow> byte list) \<Rightarrow> ('w, 'z, WsEvent list) Env \<Rightarrow> nat \<Rightarrow> WsEvent list \<Rightarrow> byte list \<Rightarrow> (nat \<Rightarrow> byte list) \<Rightarrow>
   ('w, 'z, WsEvent list) server \<Rightarrow> (byte list \<times> byte \<times> bool) list \<Rightarrow> bool" where
  "session wire env this events sent_bytes others t E \<longleftrightarrow> alive wire env this others t \<and>
     reassembly (maxPayloadLength (contextData env this)) (data_of this t) E \<and>
     user (app t) @ pending (data_of this t) E = events \<and>
     socket_stream wire this (app t) @ answers (pending (data_of this t) E) = sent_bytes"

text \<open>Changing the data of the socket leaves the loop alone.\<close>

lemma on_socket_simps [simp]:
  "data_of this (on_loop (on_socket this f) t) = f (data_of this t)"
  "user (app (on_loop (on_socket this f) t)) = user (app t)"
  "socket_stream wire s (app (on_loop (on_socket this f) t)) = socket_stream wire s (app t)"
  "loop_ok (app (on_loop (on_socket this f) t)) = loop_ok (app t)"
  "cork_free s (app (on_loop (on_socket this f) t)) = cork_free s (app t)"
  "terminated (app (on_loop (on_socket this f) t)) = terminated (app t)"
  "socket_closed env s (on_loop (on_socket this f) t) = socket_closed env s t"
  by (simp_all add: on_loop_def on_socket_def socket_stream_def out_stream_def corked_bytes_def loop_ok_def cork_free_def)

lemma note_simps [simp]:
  "data_of s (on_loop (\<lambda>l. l\<lparr> user := u l \<rparr>) t) = data_of s t"
  "user (app (on_loop (\<lambda>l. l\<lparr> user := u l \<rparr>) t)) = u (app t)"
  "socket_stream wire s (app (on_loop (\<lambda>l. l\<lparr> user := u l \<rparr>) t)) = socket_stream wire s (app t)"
  "loop_ok (app (on_loop (\<lambda>l. l\<lparr> user := u l \<rparr>) t)) = loop_ok (app t)"
  "cork_free s (app (on_loop (\<lambda>l. l\<lparr> user := u l \<rparr>) t)) = cork_free s (app t)"
  "terminated (app (on_loop (\<lambda>l. l\<lparr> user := u l \<rparr>) t)) = terminated (app t)"
  "socket_closed env s (on_loop (\<lambda>l. l\<lparr> user := u l \<rparr>) t) = socket_closed env s t"
  by (simp_all add: on_loop_def socket_stream_def out_stream_def corked_bytes_def loop_ok_def cork_free_def)

lemma alive_note: "alive wire env this others t \<Longrightarrow> alive wire env this others (on_loop (\<lambda>l. l\<lparr> user := u l \<rparr>) t)"
  by (simp add: alive_def)

lemma deliver_records:
  assumes "records env this" and "alive wire env this others t" and "op = TEXT \<longrightarrow> isValidUtf8 payload"
  shows "deliver env this op payload t = Some (False, on_loop (\<lambda>l. l\<lparr> user := user l @ [Message payload op] \<rparr>) t)"
proof -
  have c: "compressionStatus (data_of this t) \<noteq> COMPRESSED_FRAME" "\<not> isShuttingDown (data_of this t)" "\<not> socket_closed env this t"
    using assms(2) by (simp_all add: alive_def)
  have i: "inflate_message env this payload t = (Some payload, t)" using c(1) by (simp add: inflate_message_def)
  have h: "messageHandler (contextData env this) = Some (\<lambda>s m op. noted (Message m op))"
    using assms(1) by (simp add: records_def Let_def)
  show ?thesis unfolding deliver_def i using assms(3) c(2, 3) by (auto simp: h check_gone_def noted_def)
qed

section \<open>Data frames\<close>

lemma at_data:
  assumes "reassembly limit d ((p, op, fin) # es)" and "op < 3"
  shows "controlTipLength d = 0" "body d = fragmentBuffer d" "tip d = []"
    "length (fragmentBuffer d @ p) \<le> limit" "fin \<and> op = TEXT \<longrightarrow> isValidUtf8 (fragmentBuffer d @ p)"
    "acceptable limit (if fin then [] else fragmentBuffer d @ p) es"
  using assms by (auto simp: reassembly_def body_def tip_def)

text \<open>The socket's data between two frames.\<close>

lemma at_frame:
  assumes "controlTipLength d = 0"
  shows "reassembly limit d E = acceptable limit (fragmentBuffer d) E" "pending d E = told (fragmentBuffer d) E"
  using assms by (simp_all add: reassembly_def pending_def body_def tip_def)

lemma data_frame_session:
  assumes rec: "records env this" and s: "session wire env this events out others t ((p, op, fin) # es)" and op: "op < 3"
    and c: "after_call ((p, op, fin) # es) (Fragment d r op fin) = Some E'"
  shows "\<exists>t'. data_frame env this d r op fin t = Some (False, t') \<and> session wire env this events out others t' E'"
proof -
  let ?d = "data_of this t" and ?limit = "maxPayloadLength (contextData env this)"
  have al: "alive wire env this others t" and re: "reassembly ?limit ?d ((p, op, fin) # es)"
    and ev: "user (app t) @ pending ?d ((p, op, fin) # es) = events"
    and out: "socket_stream wire this (app t) @ answers (pending ?d ((p, op, fin) # es)) = out"
    using s by (simp_all add: session_def)
  note at = at_data [OF re op]
  have dp: "take (length d) p = d" "length d + r = length p" "E' = (if r = 0 then es else (drop (length d) p, op, fin) # es)"
    using c by (auto split: if_splits)
  have split: "d @ drop (length d) p = p" using dp(1) append_take_drop_id [of "length d" p] by simp
  have size: "\<not> refuse_payload env this (length d + length (fragmentBuffer ?d))"
    using at(4) dp(2) by (simp add: refuse_payload_def)
  let ?t1 = "on_loop (on_socket this (\<lambda>x. x\<lparr> fragmentBuffer := fragmentBuffer x @ d \<rparr>)) t"
  have al1: "alive wire env this others ?t1" using al by (simp add: alive_def)
  have uncompressed: "compressionStatus (data_of this ?t1) \<noteq> COMPRESSED_FRAME" using al by (simp add: alive_def)
  consider (once) "r = 0" "fin" "length (fragmentBuffer ?d) = 0" | (more) "\<not> (r = 0 \<and> fin)" | (complete) "r = 0" "fin" "length (fragmentBuffer ?d) \<noteq> 0"
    by blast
  then show ?thesis
  proof cases
    case once
    then have d: "d = p" using dp(1, 2) by simp
    have utf8: "op = TEXT \<longrightarrow> isValidUtf8 p" using at(5) once by simp
    let ?t' = "on_loop (\<lambda>l. l\<lparr> user := user l @ [Message p op] \<rparr>) t"
    have "session wire env this events out others ?t' es"
      using alive_note [OF al] at_frame [OF at(1)] at(6) ev out once op by (simp add: session_def)
    then show ?thesis
      using once d dp(3) deliver_records [OF rec al utf8] by (simp add: data_frame_def)
  next
    case more
    have "data_frame env this d r op fin t = Some (False, ?t1)"
      using more size by (auto simp: data_frame_def)
    moreover have "session wire env this events out others ?t1 E'"
    proof (cases "r = 0")
      case True
      then have "d = p" "\<not> fin" using dp(1, 2) more by simp_all
      then show ?thesis
        using al1 True dp(3) at_frame [of "data_of this ?t1"] at_frame [OF at(1)] at(1, 6) ev out op
        by (simp add: session_def)
    next
      case False
      then show ?thesis
        using al1 dp(3) at_frame [of "data_of this ?t1"] at_frame [OF at(1)] at(1, 4-6) ev out op split
        by (cases fin) (simp_all add: session_def)
    qed
    ultimately show ?thesis by blast
  next
    case complete
    then have d: "d = p" using dp(1, 2) by simp
    have utf8: "op = TEXT \<longrightarrow> isValidUtf8 (fragmentBuffer (data_of this ?t1))" using at(5) complete d by simp
    let ?t2 = "on_loop (\<lambda>l. l\<lparr> user := user l @ [Message (fragmentBuffer ?d @ p) op] \<rparr>) ?t1"
    let ?t' = "on_loop (on_socket this (\<lambda>x. x\<lparr> fragmentBuffer := [] \<rparr>)) ?t2"
    have "deliver env this op (fragmentBuffer (data_of this ?t1)) ?t1 = Some (False, ?t2)"
      using deliver_records [OF rec al1 utf8] d by simp
    then have "data_frame env this d r op fin t = Some (False, ?t')"
      using complete size uncompressed by (simp add: data_frame_def Let_def)
    moreover have "session wire env this events out others ?t' E'"
      using alive_note [OF al1] at_frame [of "data_of this ?t'"] at_frame [OF at(1)] at(1, 6) ev out op complete dp(3)
      by (simp add: session_def alive_def)
    ultimately show ?thesis by blast
  qed
qed

section \<open>Control frames\<close>

lemma control_message_records:
  assumes laws: "server_laws (socket_ops env) wire" and rec: "records env this" and al: "alive wire env this others t"
    and op: "op = PING \<or> op = PONG"
  obtains t' b where "control_message env this p op t = Some (False, t')" and "alive wire env this others t'"
    and "user (app t') = user (app t) @ [if op = PING then Pinged p else Ponged p]"
    and "socket_stream wire this (app t') = socket_stream wire this (app t) @ answers [if op = PING then Pinged p else Ponged p]"
    and "data_of this t' = (data_of this t)\<lparr> hasTimedOut := b \<rparr>"
proof (cases "op = PING")
  case True
  have h: "pingHandler (contextData env this) = Some (\<lambda>s p. noted (Pinged p))" "\<not> over_limit env this (app t)"
    using rec by (simp_all add: records_def Let_def over_limit_def)
  have ok: "loop_ok (app t)" "subscriber (data_of this t) = None" "\<not> socket_closed env this t"
    using al by (simp_all add: alive_def)
  obtain status l' where send: "ws_send env this p PONG 0 True t = Some (status, t\<lparr> app := l' \<rparr>)"
    and sent: "sent (socket_ops env) wire this (frame_of env this p PONG 0 True (app t)) (app t) l'" and q: "quiet this (app t) l'"
    by (rule send_exact [OF laws ok(1, 2) h(2), where message = p and op = PONG and compress = 0 and fin = True]) blast
  have f: "frame_of env this p PONG 0 True (app t) = pong_frame p"
    by (simp add: frame_of_def compress_message_def pong_frame_def)
  let ?t1 = "t\<lparr> app := l' \<rparr>"
  let ?t' = "on_loop (\<lambda>l. l\<lparr> user := user l @ [Pinged p] \<rparr>) ?t1"
  obtain b where b: "sockets l' = (sockets (app t))(this := (data_of this t)\<lparr> hasTimedOut := b \<rparr>)"
    using q by (auto simp: quiet_def)
  have al1: "alive wire env this others ?t1"
    using al sent q b by (simp add: alive_def sent_def quiet_def)
  have gone: "\<not> socket_closed env this ?t'" "\<not> isShuttingDown (data_of this ?t')" using al1 by (simp_all add: alive_def)
  have u: "user l' = user (app t)" "socket_stream wire this l' = socket_stream wire this (app t) @ pong_frame p"
    using q sent ok(3) by (simp_all add: quiet_def sent_def f)
  have "control_message env this p op t = Some (False, ?t')"
    using True gone by (simp add: control_message_def send h check_gone_def noted_def)
  then show thesis
    using that [of ?t' b] alive_note [OF al1] True b u by simp
next
  case False
  then have op: "op = PONG" using assms(4) by simp
  let ?t' = "on_loop (\<lambda>l. l\<lparr> user := user l @ [Ponged p] \<rparr>) t"
  have h: "pongHandler (contextData env this) = Some (\<lambda>s p. noted (Ponged p))"
    using rec by (simp add: records_def Let_def)
  have "control_message env this p op t = Some (False, ?t')"
    using al by (simp add: control_message_def op h check_gone_def noted_def alive_def)
  then show thesis
    using that [of ?t' "hasTimedOut (data_of this t)"] alive_note [OF al] op by simp
qed

lemma body_tip_append:
  assumes "controlTipLength d \<le> length (fragmentBuffer d)"
  shows "body (d\<lparr> fragmentBuffer := fragmentBuffer d @ x, controlTipLength := controlTipLength d + length x \<rparr>) = body d"
    "tip (d\<lparr> fragmentBuffer := fragmentBuffer d @ x, controlTipLength := controlTipLength d + length x \<rparr>) = tip d @ x"
  using assms by (simp_all add: body_def tip_def)

lemma body_tip_timeout [simp]: "body (d\<lparr> hasTimedOut := b \<rparr>) = body d" "tip (d\<lparr> hasTimedOut := b \<rparr>) = tip d"
  by (simp_all add: body_def tip_def)

lemma control_frame_session:
  assumes laws: "server_laws (socket_ops env) wire" and rec: "records env this"
    and s: "session wire env this events out others t ((p, op, fin) # es)" and op: "\<not> op < 3"
    and c: "after_call ((p, op, fin) # es) (Fragment d r op fin) = Some E'"
  shows "\<exists>t'. control_frame env this d r op fin t = Some (False, t') \<and> session wire env this events out others t' E'"
proof -
  let ?d = "data_of this t" and ?limit = "maxPayloadLength (contextData env this)"
  let ?ev = "\<lambda>q. if op = PING then Pinged q else Ponged q"
  have al: "alive wire env this others t" and len: "controlTipLength ?d \<le> length (fragmentBuffer ?d)"
    and acc: "fin" "op = PING \<or> op = PONG" "acceptable ?limit (body ?d) es"
    and ev: "user (app t) @ ?ev (tip ?d @ p) # told (body ?d) es = events"
    and out: "socket_stream wire this (app t) @ answers (?ev (tip ?d @ p) # told (body ?d) es) = out"
    using s op by (simp_all add: session_def reassembly_def pending_def)
  have dp: "take (length d) p = d" "length d + r = length p" "E' = (if r = 0 then es else (drop (length d) p, op, fin) # es)"
    using c by (auto split: if_splits)
  have answer: "answers (?ev q # evs) = answers [?ev q] @ answers evs" for q evs by simp
  let ?f = "\<lambda>x. x\<lparr> fragmentBuffer := fragmentBuffer x @ d, controlTipLength := controlTipLength x + length d \<rparr>"
  let ?t1 = "on_loop (on_socket this ?f) t"
  have al1: "alive wire env this others ?t1" using al by (simp add: alive_def)
  have part: "body (data_of this ?t1) = body ?d" "tip (data_of this ?t1) = tip ?d @ d"
    using body_tip_append [OF len, of d] by simp_all
  consider (once) "r = 0" "controlTipLength ?d = 0" | (more) "r \<noteq> 0" | (complete) "r = 0" "controlTipLength ?d \<noteq> 0"
    by blast
  then show ?thesis
  proof cases
    case once
    then have d: "d = p" "E' = es" "tip ?d = []" using dp by (simp_all add: tip_def)
    obtain t' b where t': "control_message env this p op t = Some (False, t')" "alive wire env this others t'"
      "user (app t') = user (app t) @ [?ev p]" "socket_stream wire this (app t') = socket_stream wire this (app t) @ answers [?ev p]"
      "data_of this t' = ?d\<lparr> hasTimedOut := b \<rparr>"
      by (rule control_message_records [OF laws rec al acc(2), of p])
    have "tip (data_of this t') = []" using t'(5) d(3) by simp
    then have "session wire env this events out others t' es"
      using t' acc ev out once d(3) answer [of p "told (body ?d) es"]
      by (cases "op = PING") (simp_all add: session_def reassembly_def pending_def)
    then show ?thesis using once acc(1) d t'(1) by (simp add: control_frame_def)
  next
    case more
    have split: "(tip ?d @ d) @ drop (length d) p = tip ?d @ p"
      using dp(1) append_take_drop_id [of "length d" p] by simp
    have "session wire env this events out others ?t1 E'"
      unfolding session_def reassembly_def pending_def part
      using al1 more dp(3) acc ev out op len split by simp
    then show ?thesis using more by (simp add: control_frame_def)
  next
    case complete
    then have d: "d = p" "E' = es" using dp by simp_all
    obtain t2 b where t2: "control_message env this (tip ?d @ p) op ?t1 = Some (False, t2)" "alive wire env this others t2"
      "user (app t2) = user (app ?t1) @ [?ev (tip ?d @ p)]"
      "socket_stream wire this (app t2) = socket_stream wire this (app ?t1) @ answers [?ev (tip ?d @ p)]"
      "data_of this t2 = (data_of this ?t1)\<lparr> hasTimedOut := b \<rparr>"
      by (rule control_message_records [OF laws rec al1 acc(2), of "tip ?d @ p"])
    let ?g = "\<lambda>x. x\<lparr> fragmentBuffer := take (length (fragmentBuffer x) - controlTipLength x) (fragmentBuffer x), controlTipLength := 0 \<rparr>"
    let ?t' = "on_loop (on_socket this ?g) t2"
    have bodies: "fragmentBuffer (data_of this ?t') = body ?d"
      using t2(5) part(1) by (simp add: body_def)
    have "control_frame env this d r op fin t = Some (False, ?t')"
      using complete t2(1) part(2) d(1) acc(1) by (simp add: control_frame_def Let_def tip_def)
    moreover have "session wire env this events out others ?t' es"
    proof -
      have zero: "controlTipLength (data_of this ?t') = 0" by simp
      have "alive wire env this others ?t'" using t2(2) by (simp add: alive_def)
      then show ?thesis
        unfolding session_def at_frame [OF zero] bodies using t2(3, 4) acc ev out answer [of "tip ?d @ p" "told (body ?d) es"]
        by (cases "op = PING") simp_all
    qed
    ultimately show ?thesis using d by blast
  qed
qed

section \<open>The parser drives the handlers\<close>

definition session_inv ::
  "(nat \<Rightarrow> 'w \<Rightarrow> byte list) \<Rightarrow> ('w, 'z, WsEvent list) Env \<Rightarrow> nat \<Rightarrow> WsEvent list \<Rightarrow> byte list \<Rightarrow> (nat \<Rightarrow> byte list) \<Rightarrow>
   ('w, 'z, WsEvent list) server option \<Rightarrow> (byte list \<times> byte \<times> bool) list \<Rightarrow> bool" where
  "session_inv wire env this events out others s E \<longleftrightarrow> server_laws (socket_ops env) wire \<and> records env this \<and>
     (\<exists>t. s = Some t \<and> session wire env this events out others t E)"

abbreviation frame_limit :: "('w, 'z, 'u) Env \<Rightarrow> nat \<Rightarrow> nat" where
  "frame_limit env this \<equiv> small_limit (maxPayloadLength (contextData env this))"

interpretation live: fragment_consumer "websocket_impl env this" "frame_limit env this"
  "session_inv wire env this events out others" for env this wire events out others
proof
  show "int (frame_limit env this) < 2 ^ 32" by (simp add: small_limit_def)
  show "\<not> refusePayloadLength (websocket_impl env this) n s" if "n \<le> frame_limit env this" for n s
    using that by (simp add: websocket_impl_def refuse_payload_def small_limit_def split: if_splits)
  show "\<exists>s'. handleFragment (websocket_impl env this) d r op fin s = (False, s') \<and> session_inv wire env this events out others s' E'"
    if I: "session_inv wire env this events out others s E" and c: "after_call E (Fragment d r op fin) = Some E'" for s E d r op fin E'
  proof -
    obtain t where t: "s = Some t" "session wire env this events out others t E"
      and rec: "server_laws (socket_ops env) wire" "records env this"
      using I unfolding session_inv_def by blast
    obtain p es where E: "E = (p, op, fin) # es" using c by (cases E) (auto split: if_splits)
    have "\<exists>t'. handle_fragment env this d r op fin t = Some (False, t') \<and> session wire env this events out others t' E'"
      using data_frame_session [OF rec(2) t(2) [unfolded E] _ c [unfolded E]]
        control_frame_session [OF rec t(2) [unfolded E] _ c [unfolded E]]
      by (cases "op < 3") (simp_all add: handle_fragment_def)
    then show ?thesis using t(1) rec by (auto simp: websocket_impl_def session_inv_def)
  qed
qed

lemma session_loop:
  assumes "session wire env this events out others t E" and "sent (socket_ops env) wire this [] (app t) l'"
    and "sockets l' this = (sockets (app t) this)\<lparr> hasTimedOut := b \<rparr>" and "user l' = user (app t)"
    and "terminated l' = terminated (app t)" and "cork_free this l'"
  shows "session wire env this events out others (t\<lparr> app := l' \<rparr>) E"
  using assms by (simp add: session_def alive_def reassembly_def pending_def sent_def)

lemma session_ws_state:
  assumes "session wire env this events out others t E"
  shows "session wire env this events out others (on_loop (on_socket this (\<lambda>d. d\<lparr> ws_state := w \<rparr>)) t) E"
  using assms by (simp add: session_def alive_def reassembly_def pending_def body_def tip_def)

lemma on_data_session:
  assumes laws: "server_laws (socket_ops env) wire" and rec: "records env this"
    and s: "session wire env this events out others t E"
    and w: "between (frame_limit env this) (ws_state (data_of this t)) (d @ rest) E" and pad: "padded True (pre, d, post)"
  shows "\<exists>t' E'. on_data env this recvLength (pre @ d @ post) (length pre) (length d) t = Some t' \<and>
    session wire env this events out others t' E' \<and> between (frame_limit env this) (ws_state (data_of this t')) rest E'"
proof -
  have ok: "loop_ok (app t)" "cork_free this (app t)" "\<not> isShuttingDown (data_of this t)"
    using s by (simp_all add: session_def alive_def)
  let ?t0 = "on_loop (refresh_timeout env this) t"
  have l0: "sockets (app ?t0) this = (data_of this t)\<lparr> hasTimedOut := False \<rparr>" "user (app ?t0) = user (app t)"
      "terminated (app ?t0) = terminated (app t)" "corkedSocket (app ?t0) = corkedSocket (app t)" "loop_ok (app ?t0)"
    using refresh_timeout_sent [OF laws ok(1), of this this]
    by (simp_all add: on_loop_def refresh_timeout_def on_socket_def ws_timeout_def timeout_def sent_def)
  have "session wire env this events out others (t\<lparr> app := app ?t0 \<rparr>) E"
    by (rule session_loop [OF s _ l0(1-3)])
      (use refresh_timeout_sent [OF laws ok(1), of this this] l0(4) ok(2) in \<open>simp_all add: on_loop_def cork_free_def\<close>)
  then have s0: "session wire env this events out others ?t0 E" by (simp add: on_loop_def)
  have "cork this (app ?t0) = Some ((app ?t0)\<lparr> corkedSocket := Some this \<rparr>)"
    using l0(4, 5) ok(2) by (auto simp: cork_def loop_ok_def cork_free_def)
  then obtain l1 where l1: "cork this (app ?t0) = Some l1" "l1 = (app ?t0)\<lparr> corkedSocket := Some this \<rparr>" by blast
  let ?t1 = "?t0\<lparr> app := l1 \<rparr>"
  have s1: "session wire env this events out others ?t1 E"
    by (rule session_loop [OF s0 cork_sent [OF l0(5) l1(1)], where b = False])
      (simp_all add: l1(2) l0(1) cork_free_def)
  have w1: "between (frame_limit env this) (ws_state (data_of this ?t1)) (d @ rest) E"
    using w l0(1) by (simp add: l1(2))
  have "session_inv wire env this events out others (Some ?t1) E" using laws rec s1 by (simp add: session_inv_def)
  from live.consume_tells [OF w1 this pad, of recvLength] obtain m' w' s' E' where
    c: "consume (websocket_impl env this) True recvLength (pre @ d @ post) (length pre) (length d) (ws_state (data_of this ?t1)) (Some ?t1)
        = Some (m', w', s')" "session_inv wire env this events out others s' E'" "between (frame_limit env this) w' rest E'"
    unfolding live.tells_def by blast
  obtain t2 where t2: "s' = Some t2" "session wire env this events out others t2 E'"
    using c(2) unfolding session_inv_def by blast
  let ?t3 = "on_loop (on_socket this (\<lambda>d. d\<lparr> ws_state := w' \<rparr>)) t2"
  have run: "run_parser env this recvLength (pre @ d @ post) (length pre) (length d) ?t1 = Some ?t3"
    unfolding run_parser_def c(1) t2(1) by simp
  have s3: "session wire env this events out others ?t3 E'" by (rule session_ws_state [OF t2(2)])
  let ?l4 = "snd (uncork (socket_ops env) this [] False (app ?t3))"
  let ?t4 = "on_loop (\<lambda>l. snd (uncork (socket_ops env) this [] False l)) ?t3"
  have ok3: "loop_ok (app ?t3)" "cork_free this (app ?t3)" "\<not> isShuttingDown (data_of this ?t3)"
    using s3 by (simp_all add: session_def alive_def)
  have "sent (socket_ops env) wire this [] (app ?t3) ?l4"
    using uncork_sent [OF server_socket_laws [OF laws] ok3(1)] by (metis prod.collapse take_Nil)
  moreover have same: "same_server (app ?t3) ?l4" by (rule same_serverI) (rule uncork_more)
  moreover have "corkedSocket ?l4 = None" by (rule uncork_cork [OF ok3(2)])
  ultimately have "session wire env this events out others (?t3\<lparr> app := ?l4 \<rparr>) E'"
    by (intro session_loop [OF s3, where b = "hasTimedOut (data_of this ?t3)"]) (simp_all add: same_server_def cork_free_def)
  then have s4: "session wire env this events out others ?t4 E'" by (simp add: on_loop_def)
  have "data_of this ?t4 = data_of this ?t3" using same by (simp add: same_server_def on_loop_def)
  then have d4: "ws_state (data_of this ?t4) = w'" "\<not> isShuttingDown (data_of this ?t4)" using ok3(3) by simp_all
  have "on_data env this recvLength (pre @ d @ post) (length pre) (length d) t = Some ?t4"
    unfolding on_data_def Let_def l1(1) option.case run using ok(3) d4(2) by simp
  then show ?thesis using s4 c(3) d4(1) by metis
qed

section \<open>A session\<close>

fun receive ::
  "('w, 'z, 'u) Env \<Rightarrow> nat \<Rightarrow> nat \<Rightarrow> (byte list \<times> byte list \<times> byte list) list \<Rightarrow> ('w, 'z, 'u) server \<Rightarrow> ('w, 'z, 'u) server option" where
  "receive env this recvLength [] t = Some t"
| "receive env this recvLength ((pre, d, post) # rs) t =
    (case on_data env this recvLength (pre @ d @ post) (length pre) (length d) t of
       None \<Rightarrow> None | Some t \<Rightarrow> receive env this recvLength rs t)"

lemma receive_session:
  assumes "server_laws (socket_ops env) wire" and "records env this"
  shows "session wire env this events out others t E \<Longrightarrow>
    between (frame_limit env this) (ws_state (data_of this t)) (concat (map (\<lambda>(pre, d, post). d) rs)) E \<Longrightarrow>
    list_all (padded True) rs \<Longrightarrow>
    \<exists>t' E'. receive env this recvLength rs t = Some t' \<and> session wire env this events out others t' E' \<and>
      between (frame_limit env this) (ws_state (data_of this t')) [] E'"
proof (induction rs arbitrary: t E)
  case Nil
  then show ?case by (intro exI [of _ t] exI [of _ E]) simp
next
  case (Cons r rs)
  obtain pre d post where r: "r = (pre, d, post)" by (metis prod_cases3)
  have pad: "padded True (pre, d, post)" "list_all (padded True) rs" using Cons.prems(3) r by simp_all
  have "between (frame_limit env this) (ws_state (data_of this t)) (d @ concat (map (\<lambda>(pre, d, post). d) rs)) E"
    using Cons.prems(2) r by simp
  from on_data_session [OF assms Cons.prems(1) this pad(1), of recvLength] obtain t1 E1 where
    1: "on_data env this recvLength (pre @ d @ post) (length pre) (length d) t = Some t1"
      "session wire env this events out others t1 E1"
      "between (frame_limit env this) (ws_state (data_of this t1)) (concat (map (\<lambda>(pre, d, post). d) rs)) E1"
    by blast
  show ?case using Cons.IH [OF 1(2, 3) pad(2)] r 1(1) by simp
qed

definition fresh_session :: "('w, 'z, 'u) Env \<Rightarrow> nat \<Rightarrow> ('w, 'z, 'u) server \<Rightarrow> bool" where
  "fresh_session env this t \<longleftrightarrow> loop_ok (app t) \<and> corkedSocket (app t) = None \<and> \<not> terminated (app t) \<and>
     \<not> socket_closed env this t \<and> (\<exists>perMessageDeflate options. data_of this t = webSocketData perMessageDeflate options)"

text \<open>C1: A whole session up to its close. A client's legal frames arrive at a fresh WebSocket in reads cut
  anywhere. If its messages are within maxPayloadLength and its texts are UTF-8, then the application is told
  exactly the messages, each put together from its fragments, with the pings and pongs in the places where they
  arrived; and the socket's output stream grows by exactly one pong frame for each ping, with its payload,
  in order. No other socket's stream changes, the socket stays open and is not shut down.\<close>

theorem session_delivered:
  assumes "server_laws (socket_ops env) wire" and "records env this"
    and "int (maxPayloadLength (contextData env this)) < 2 ^ 32"
    and "fresh_session env this t"
    and "legal (maxPayloadLength (contextData env this)) None fs"
    and "acceptable (maxPayloadLength (contextData env this)) [] (expected None fs)"
    and "concat (map (\<lambda>(pre, d, post). d) rs) = concat (map frame_bytes fs)" and "list_all (padded True) rs"
  shows "\<exists>t'. receive env this recvLength rs t = Some t' \<and>
    user (app t') = user (app t) @ told [] (expected None fs) \<and>
    socket_stream wire this (app t') = socket_stream wire this (app t) @ answers (told [] (expected None fs)) \<and>
    (\<forall>other. other = this \<or> socket_stream wire other (app t') = socket_stream wire other (app t)) \<and>
    \<not> socket_closed env this t' \<and> \<not> isShuttingDown (data_of this t') \<and> \<not> terminated (app t')"
proof -
  let ?E = "expected None fs" and ?others = "\<lambda>other. socket_stream wire other (app t)"
  let ?events = "user (app t) @ told [] ?E" and ?out = "socket_stream wire this (app t) @ answers (told [] ?E)"
  have limit: "frame_limit env this = maxPayloadLength (contextData env this)" using assms(3) by (simp add: small_limit_def)
  obtain deflating options where d: "data_of this t = webSocketData deflating options"
    and fresh: "loop_ok (app t)" "corkedSocket (app t) = None" "\<not> terminated (app t)" "\<not> socket_closed env this t"
    using assms(4) by (auto simp: fresh_session_def)
  have "alive wire env this ?others t"
    using fresh by (simp add: alive_def d webSocketData_def cork_free_def)
  then have s: "session wire env this ?events ?out ?others t ?E"
    using assms(6) by (simp add: session_def reassembly_def pending_def d webSocketData_def body_def tip_def)
  have "between (frame_limit env this) (ws_state (data_of this t)) (concat (map (\<lambda>(pre, d, post). d) rs)) ?E"
    using between_head [OF at_head_initial [OF assms(5, 7)]] by (simp add: limit d webSocketData_def)
  from receive_session [OF assms(1, 2) s this assms(8), of recvLength] obtain t' E' where
    t': "receive env this recvLength rs t = Some t'" "session wire env this ?events ?out ?others t' E'"
      "between (frame_limit env this) (ws_state (data_of this t')) [] E'"
    by blast
  have E': "E' = []" by (rule between_end [OF t'(3)])
  have "pending (data_of this t') [] = []" by (simp add: pending_def)
  then show ?thesis using t'(1, 2) unfolding E' session_def alive_def by auto
qed

definition recording_env :: "'w SocketOps \<Rightarrow> ('w, unit, WsEvent list) Env" where
  "recording_env ops = (plain_env ops)\<lparr> contextData := (\<lambda>s. plain_context\<lparr> maxPayloadLength := 100, maxBackpressure := 0,
     messageHandler := Some (\<lambda>s m op. noted (Message m op)), pingHandler := Some (\<lambda>s p. noted (Pinged p)),
     pongHandler := Some (\<lambda>s p. noted (Ponged p)) \<rparr>) \<rparr>"

definition recorded_server :: "(nat \<times> (nat \<times> byte list) list, unit, WsEvent list) server" where
  "recorded_server = idle_server (3, []) []"

lemma example_told: "told [] (expected None example_frames) = [Pinged [33], Message [72, 101, 108, 108, 111] 1]"
  by (simp add: example_frames_def next_cur_def control_def message_op_def)

lemma example_acceptable: "acceptable 100 [] (expected None example_frames)"
  using utf8_scan_ascii [of "[72, 101, 108, 108, 111]" "[]"]
  by (simp add: example_frames_def next_cur_def control_def message_op_def isValidUtf8_scan not_ascii_iff utf8_scan.simps)

theorem session_delivered_witness:
  "\<exists>t'. receive (recording_env quota_ops) 5 524288 example_reads recorded_server = Some t' \<and>
    user (app t') = [Pinged [33], Message [72, 101, 108, 108, 111] 1] \<and>
    socket_stream quota_wire 5 (app t') = [138, 1, 33] \<and>
    \<not> us_socket_is_closed quota_ops 5 (kernel (app t'))"
proof -
  have e: "socket_ops (recording_env quota_ops) = quota_ops" "maxPayloadLength (contextData (recording_env quota_ops) 5) = 100"
    by (simp_all add: recording_env_def plain_env_def)
  have rec: "records (recording_env quota_ops) 5" by (simp add: recording_env_def records_def)
  have fresh: "fresh_session (recording_env quota_ops) 5 recorded_server"
    using idle_server_ok [of "(3, [])" "[]"]
    by (auto simp: fresh_session_def recording_env_def plain_env_def recorded_server_def idle_server_def empty_tree_def
        idle_loop_def LoopState.defs quota_ops_def)
  have legal: "legal 100 None example_frames"
    by (simp add: example_frames_def frame_legal_def next_cur_def control_def)
  let ?bs = "concat (map frame_bytes example_frames)"
  have "take 5 ?bs @ take 9 (drop 5 ?bs) @ drop 14 ?bs = ?bs"
    using append_take_drop_id [of 5 ?bs] append_take_drop_id [of 9 "drop 5 ?bs"] by (simp add: add.commute)
  then have reads: "concat (map (\<lambda>(pre, d, post). d) example_reads) = ?bs" by (simp add: example_reads_def Let_def)
  have pad: "list_all (padded True) example_reads"
    by (simp add: example_reads_def Let_def padded_def POST_PADDING_def LONG_MESSAGE_HEADER_def)
  have start: "user (app recorded_server) = []" "socket_stream quota_wire 5 (app recorded_server) = []"
    by (simp_all add: recorded_server_def idle_server_def empty_tree_def idle_loop_def LoopState.defs socket_stream_def
        out_stream_def corked_bytes_def quota_wire_def accepted_def bp_data_def empty_backpressure_def)
  have pong: "pong_frame [33] = [138, 1, 33]"
    by (simp add: pong_frame_def formatMessage_def)
  show ?thesis
    using session_delivered [of "recording_env quota_ops" quota_wire 5 recorded_server example_frames example_reads 524288]
      quota_server_laws rec fresh legal example_acceptable reads pad start
    unfolding e example_told by (auto simp: pong)
qed

end
