(* ===== verification/Ws_Lifecycle.thy ===== *)
theory Ws_Lifecycle
  imports Ws_Session
begin

text \<open>
  The life of the sockets of a server (the events of \<open>src/src/WebSocketContext.h\<close>, \<open>close\<close> and \<open>end\<close> of
  \<open>src/src/WebSocket.h\<close>): whatever clients send and whatever the program calls, each socket's close is told
  once, and nothing is told after it.

  Sends, drains and subscriptions leave the life of sockets alone (\<open>still\<close>, \<open>drain_invariant\<close>), the parser
  calls nothing once a socket is gone (\<open>parser_guard\<close>), and the ledger of what the program was told is kept by
  every event (\<open>life\<close>). The laws of the library: only \<open>us_socket_close\<close> closes a socket.
\<close>

section \<open>Operations that leave the life of sockets alone\<close>

definition close_laws :: "('w, 'z, 'u) Env \<Rightarrow> bool" where
  "close_laws env \<longleftrightarrow> (let ops = socket_ops env; closed = us_socket_is_closed ops in
     (\<forall>this src coming w s. closed s (snd (us_socket_write ops this src coming w)) = closed s w) \<and>
     (\<forall>this header payload w s. closed s (snd (us_socket_write2 ops this header payload w)) = closed s w) \<and>
     (\<forall>this n w s. closed s (us_socket_timeout ops this n w) = closed s w) \<and>
     (\<forall>this w s. closed s (us_socket_shutdown ops this w) = closed s w) \<and>
     (\<forall>this w s. closed s (us_socket_shutdown_read ops this w) = closed s w) \<and>
     (\<forall>this w s. closed s (kernel_close env this w) = (s = this \<or> closed s w)))"

lemma close_law:
  assumes "close_laws env"
  shows "us_socket_is_closed (socket_ops env) s (snd (us_socket_write (socket_ops env) this src coming w)) = us_socket_is_closed (socket_ops env) s w"
    "us_socket_is_closed (socket_ops env) s (snd (us_socket_write2 (socket_ops env) this header payload w)) = us_socket_is_closed (socket_ops env) s w"
    "us_socket_is_closed (socket_ops env) s (us_socket_timeout (socket_ops env) this n w) = us_socket_is_closed (socket_ops env) s w"
    "us_socket_is_closed (socket_ops env) s (us_socket_shutdown (socket_ops env) this w) = us_socket_is_closed (socket_ops env) s w"
    "us_socket_is_closed (socket_ops env) s (us_socket_shutdown_read (socket_ops env) this w) = us_socket_is_closed (socket_ops env) s w"
    "us_socket_is_closed (socket_ops env) s (kernel_close env this w) = (s = this \<or> us_socket_is_closed (socket_ops env) s w)"
  using assms by (simp_all add: close_laws_def Let_def)

text \<open>The loop is as before for the life of its sockets and for the user.\<close>

definition still :: "('w, 'z, 'u) Env \<Rightarrow> ('w, 'z, 'u) ServerLoop \<Rightarrow> ('w, 'z, 'u) ServerLoop \<Rightarrow> bool" where
  "still env l l' \<longleftrightarrow> (\<forall>s. closed (socket_ops env) s l' = closed (socket_ops env) s l) \<and>
     (\<forall>s. isShuttingDown (sockets l' s) = isShuttingDown (sockets l s)) \<and> user l' = user l"

lemma still_refl [simp]: "still env l l"
  by (simp add: still_def)

lemma still_trans: "still env l l1 \<Longrightarrow> still env l1 l2 \<Longrightarrow> still env l l2"
  by (simp add: still_def)

lemma still_layer:
  assumes "LoopState.more l' = LoopState.more l" and "\<And>s. closed (socket_ops env) s l' = closed (socket_ops env) s l"
  shows "still env l l'"
  using same_serverI [OF assms(1)] assms(2) by (simp add: still_def same_server_def)

lemma still_socket_write:
  assumes laws: "close_laws env" and wr: "socket_write (socket_ops env) this src c l = (n, l')"
  shows "still env l l'"
proof (rule still_layer)
  obtain k w where w: "us_socket_write (socket_ops env) this src c (kernel l) = (k, w)" by fastforce
  have l': "l' = l\<lparr> kernel := w \<rparr>" using wr by (simp add: socket_write_def w)
  show "LoopState.more l' = LoopState.more l" by (simp add: l')
  show "closed (socket_ops env) s l' = closed (socket_ops env) s l" for s
    using close_law(1) [OF laws, of s this src c "kernel l"] by (simp add: l' w)
qed

lemma still_set_buffer [simp]: "still env l (set_buffer this b l)"
  by (simp add: still_def set_buffer_def)

lemma still_write_with:
  assumes laws: "close_laws env" and unc: "\<And>src opt l. still env l (snd (unc src opt l))"
  shows "still env l (snd (write_with unc (socket_ops env) this src opt n l))"
proof -
  obtain d l1 where d: "drain_first (socket_ops env) this src l = (d, l1)" by fastforce
  then have l1: "still env l l1"
    by (auto simp: drain_first_def dest!: still_socket_write [OF laws] intro: still_trans split: if_splits prod.splits)
  have u: "still env l (snd (unc src opt l1))" by (rule still_trans [OF l1 unc])
  have b: "still env l (set_buffer this b l1)" for b by (rule still_trans [OF l1]) simp
  have c: "still env l (l1\<lparr>corkBuffer := x\<rparr>)" for x by (rule still_trans [OF l1]) (simp add: still_def)
  obtain k l2 where w: "socket_write (socket_ops env) this src (0 < n) l1 = (k, l2)" by fastforce
  have l2: "still env l l2" by (rule still_trans [OF l1 still_socket_write [OF laws w]])
  have b2: "still env l (set_buffer this b l2)" for b by (rule still_trans [OF l2]) simp
  show ?thesis using l1 u b c l2 b2 by (simp add: write_with_eq d w)
qed

lemma still_write_uncorked: "close_laws env \<Longrightarrow> still env l (snd (write_uncorked (socket_ops env) this src opt n l))"
  unfolding write_uncorked_def by (rule still_write_with) simp_all

lemma still_uncork: "close_laws env \<Longrightarrow> still env l (snd (uncork (socket_ops env) this src opt l))"
proof -
  assume laws: "close_laws env"
  obtain x f l1 where w: "write_uncorked (socket_ops env) this (corkBuffer l) False (length src) (l\<lparr>corkedSocket := None\<rparr>) = ((x, f), l1)"
    by (metis prod.collapse)
  have "still env (l\<lparr>corkedSocket := None\<rparr>) l1"
    using still_write_uncorked [OF laws, of "l\<lparr>corkedSocket := None\<rparr>" this "corkBuffer l" False "length src"] w by simp
  then have l1: "still env l l1" by (simp add: still_def)
  have l2: "still env l (l1\<lparr>corkBuffer := []\<rparr>)" by (rule still_trans [OF l1]) (simp add: still_def)
  have l3: "still env l (snd (write_uncorked (socket_ops env) this src opt 0 (l1\<lparr>corkBuffer := []\<rparr>)))"
    by (rule still_trans [OF l2 still_write_uncorked [OF laws]])
  have "still env l (l\<lparr>corkedSocket := None\<rparr>)" by (simp add: still_def)
  then have l4: "still env l (snd (write_uncorked (socket_ops env) this src opt 0 (l\<lparr>corkedSocket := None\<rparr>)))"
    by (rule still_trans [OF _ still_write_uncorked [OF laws]])
  show ?thesis using l2 l3 l4 by (simp add: uncork_def uncork_with_def w Let_def)
qed

lemma still_async_write: "close_laws env \<Longrightarrow> still env l (snd (async_write (socket_ops env) this src opt n l))"
  unfolding async_write_def by (rule still_write_with) (simp_all add: still_uncork)

lemma still_cork: "cork this l = Some l' \<Longrightarrow> still env l l'"
  by (auto simp: cork_def still_def split: if_splits)

lemma still_getSendBuffer: "getSendBuffer this n l = Some (r, l') \<Longrightarrow> still env l l'"
  by (auto simp: getSendBuffer_def Let_def still_def set_buffer_def cork_def split: if_splits option.splits)

lemma still_fill [simp]: "still env l (fillSendBuffer this sb bs l)"
  by (simp add: fillSendBuffer_def still_def set_buffer_def split: SendBuffer.split)

lemma still_refresh: "close_laws env \<Longrightarrow> still env l (refresh_timeout env this l)"
  by (simp add: still_def refresh_timeout_def on_socket_def ws_timeout_def timeout_def close_law)

lemma still_timeout: "close_laws env \<Longrightarrow> still env l (ws_timeout env this n l)"
  by (simp add: still_def ws_timeout_def timeout_def close_law)

lemma still_shutdown: "close_laws env \<Longrightarrow> still env l (shutdown (socket_ops env) this l)"
  by (simp add: still_def shutdown_def close_law)

section \<open>Sends\<close>

text \<open>The handlers that run in the middle of another operation leave the life of sockets alone.\<close>

definition dropped_still :: "('w, 'z, 'u) Env \<Rightarrow> bool" where
  "dropped_still env \<longleftrightarrow> (\<forall>this h s m op l. droppedHandler (contextData env this) = Some h \<longrightarrow> still env l (h s m op l))"

lemma still_drop:
  assumes "close_laws env" and "dropped_still env"
  shows "still env l (drop_message env this message op l)"
proof -
  have r: "still env l (l\<lparr> kernel := us_socket_shutdown_read (socket_ops env) this (kernel l) \<rparr>)" for l
    using close_law(5) [OF assms(1)] by (simp add: still_def)
  define l1 where "l1 = (if closeOnBackpressureLimit (contextData env this)
    then l\<lparr> kernel := us_socket_shutdown_read (socket_ops env) this (kernel l) \<rparr> else l)"
  have "still env l l1" using r by (simp add: l1_def)
  moreover have "still env l1 (h this message op l1)" if "droppedHandler (contextData env this) = Some h" for h
    using assms(2) that by (simp add: dropped_still_def)
  ultimately show ?thesis
    unfolding drop_message_def Let_def l1_def [symmetric] by (auto intro: still_trans split: option.split)
qed

lemma still_zlib [simp]: "still env l (l\<lparr> zlib := z \<rparr>)"
  by (simp add: still_def)

lemma still_send_framed:
  assumes laws: "close_laws env" and s: "send_framed env this message op compress fin l = (r, l')"
  shows "still env l l'"
proof -
  obtain m c l0 where c: "compress_message env this message op compress l = (m, c, l0)" by (metis prod_cases3)
  then have l0: "still env l l0" using compress_message_loop by fastforce
  show ?thesis
  proof (cases "getSendBuffer this (messageFrameSize (length m)) l0")
    case None
    then show ?thesis using s l0 by (auto simp: send_framed_def c still_def)
  next
    case (Some g)
    then obtain sb attr l1 where g: "getSendBuffer this (messageFrameSize (length m)) l0 = Some ((sb, attr), l1)"
      by (metis prod.collapse)
    define l2 where "l2 = fillSendBuffer this sb (formatMessage True [] m op (length m) (c \<noteq> 0) fin) l1"
    have l2: "still env l l2"
      unfolding l2_def using still_trans [OF l0 still_getSendBuffer [OF g]] still_fill still_trans by blast
    have "l' = l2 \<or> l' = snd (uncork (socket_ops env) this [] False l2) \<or> l' = snd (async_write (socket_ops env) this [] False 0 l2)"
      using s unfolding send_framed_def c by (auto simp: g l2_def Let_def split: SendBufferAttribute.splits prod.splits)
    then show ?thesis
      using l2 still_trans [OF l2 still_uncork [OF laws]] still_trans [OF l2 still_async_write [OF laws]] by auto
  qed
qed

lemma still_send_long:
  assumes laws: "close_laws env" and s: "send_long env this message op compress fin l = (r, l')"
  shows "still env l l'"
proof -
  let ?h = "formatMessage True [] [] op (length message) (compress \<noteq> 0) fin"
  obtain n w where w: "us_socket_write2 (socket_ops env) this ?h message (kernel l) = (n, w)" by fastforce
  have l1: "still env l (l\<lparr> kernel := w \<rparr>)"
    using close_law(2) [OF laws, where header = ?h and payload = message and this = this and w = "kernel l", unfolded w]
    by (simp add: still_def)
  have u: "still env k (uncorkWithoutSending this (set_buffer this b k))" for k b
    by (simp add: still_def uncorkWithoutSending_def set_buffer_def)
  show ?thesis using s l1 still_trans [OF l1 u] unfolding send_long_def Let_def w prod.case by (auto split: if_splits)
qed

lemma still_finish: "close_laws env \<Longrightarrow> finish_send env this (ok, l) = (status, l') \<Longrightarrow> still env l l'"
  by (auto simp: finish_send_def still_refresh split: if_splits)

lemma still_send_nested:
  assumes "close_laws env" and "dropped_still env" and "send_nested env this message op compress fin l = (status, l')"
  shows "still env l l'"
proof -
  obtain ok l1 where path: "(if takes_long_path env this message compress l then send_long env this message op compress fin l
      else send_framed env this message op compress fin l) = (ok, l1)" by fastforce
  then have "still env l l1" using still_send_long still_send_framed assms(1) by (metis (full_types))
  then show ?thesis
    using assms(3) path still_finish [OF assms(1)] still_drop [OF assms(1, 2)]
    by (auto simp: send_nested_def intro: still_trans split: if_splits)
qed

lemma still_needsUncork [simp]: "still env l (l'\<lparr> needsUncork := b \<rparr>) = still env l l'"
  "still env l (l'\<lparr> terminated := b \<rparr>) = still env l l'"
  by (simp_all add: still_def)

lemma still_app_drain:
  assumes "close_laws env" and "dropped_still env"
  shows "still env l (snd (app_drain env s m isFirst isLast l))"
proof -
  let ?sock = "sub_user l s"
  define l1 where "l1 = (if isFirst \<and> canCork l \<and> \<not> isCorked ?sock l
    then (case cork ?sock l of None \<Rightarrow> l\<lparr> terminated := True \<rparr> | Some l \<Rightarrow> l\<lparr> needsUncork := True \<rparr>) else l)"
  have l1: "still env l l1" by (auto simp: l1_def dest: still_cork split: option.splits)
  obtain status l2 where n: "send_nested env ?sock (tm_message m) (tm_opCode m) (if tm_compress m then 1 else 0) True l1 = (status, l2)"
    by fastforce
  have l2: "still env l l2" by (rule still_trans [OF l1 still_send_nested [OF assms n]])
  then show ?thesis
    using still_trans [OF l2 still_uncork [OF assms(1)]]
    unfolding app_drain_def Let_def l1_def [symmetric] n by simp
qed

section \<open>Drains\<close>

text \<open>What every call of the callback keeps, every operation that drains the tree keeps.\<close>

locale drain_invariant =
  fixes cb :: "('m, 'u) drain_cb" and P :: "'u \<Rightarrow> bool"
  assumes cb_keeps: "P u \<Longrightarrow> P (snd (cb s m isFirst isLast u))"
begin

lemma drainLoop_keeps: "drainLoop cb s out isFirst is u = Some u' \<Longrightarrow> P u \<Longrightarrow> P u'"
proof (induction "is" arbitrary: isFirst u)
  case (Cons i "is")
  obtain stop u1 where c: "cb s (out ! i) isFirst (is = []) u = (stop, u1)" by fastforce
  then have "P u1" using cb_keeps [OF Cons.prems(2), of s "out ! i" isFirst "is = []"] by simp
  then show ?case using Cons c by (auto split: if_splits)
qed simp

lemma drainImpl_keeps: "drainImpl cb s t = Some t' \<Longrightarrow> P (app t) \<Longrightarrow> P (app t')"
  by (auto simp: drainImpl_def Let_def dest: drainLoop_keeps)

lemma unlink_app [simp]: "app (unlinkDrainableSubscriber s t) = app t"
  by (simp add: unlinkDrainableSubscriber_def Let_def split: option.split)

lemma drain_subscriber_keeps: "drain_subscriber cb s t = Some t' \<Longrightarrow> P (app t) \<Longrightarrow> P (app t')"
  by (auto simp: drain_subscriber_def dest!: drainImpl_keeps split: if_splits option.splits)

lemma drainWalk_keeps:
  assumes "drainWalk cb p t = Some t'"
  shows "P (app t) \<Longrightarrow> P (app t')"
proof -
  have "cb = cb \<longrightarrow> P (app t) \<longrightarrow> P (app t')"
  proof (rule drainWalk.raw_induct [of "\<lambda>c p t t'. c = cb \<longrightarrow> P (app t) \<longrightarrow> P (app t')", OF _ assms])
    fix walk c p t t'
    assume IH: "\<And>c p t t'. walk c p t = Some t' \<Longrightarrow> c = cb \<longrightarrow> P (app t) \<longrightarrow> P (app t')"
      and step: "(case p of None \<Rightarrow> Some t | Some s \<Rightarrow> Option.bind (drainImpl c s t) (\<lambda>t. walk c (next_sub (subs t s)) t)) = Some t'"
    show "c = cb \<longrightarrow> P (app t) \<longrightarrow> P (app t')"
      using step by (cases p) (auto split: bind_splits dest!: IH drainImpl_keeps)
  qed
  then show "P (app t) \<Longrightarrow> P (app t')" by simp
qed

lemma drain_all_keeps: "drain_all cb t = Some t' \<Longrightarrow> P (app t) \<Longrightarrow> P (app t')"
  by (auto simp: drain_all_def dest: drainWalk_keeps split: if_splits)

lemma addMessageIndex_app [simp]: "app (addMessageIndex s t) = app t"
  by (simp add: addMessageIndex_def linkDrainableSubscriber_def Let_def split: option.split)

lemma publishLoop_keeps: "publishLoop cb sender ss referenced t = Some (r, t') \<Longrightarrow> P (app t) \<Longrightarrow> P (app t')"
  by (induction ss arbitrary: referenced t)
    (auto simp: publishTo_def dest: drain_subscriber_keeps split: if_splits option.splits)

lemma publish_keeps: "publish cb sender topic m t = Some (r, t') \<Longrightarrow> P (app t) \<Longrightarrow> P (app t')"
  by (auto simp: publish_def dest!: publishLoop_keeps drain_all_keeps split: if_splits option.splits)

end

definition calm :: "('w, 'z, 'u) Env \<Rightarrow> ('w, 'z, 'u) ServerLoop \<Rightarrow> ('w, 'z, 'u) ServerLoop \<Rightarrow> bool" where
  "calm env l0 l \<longleftrightarrow> close_laws env \<and> dropped_still env \<and> still env l0 l"

interpretation draining: drain_invariant "app_drain env" "calm env l0" for env :: "('w, 'z, 'u) Env" and l0
proof unfold_locales
  fix l :: "('w, 'z, 'u) ServerLoop" and s m isFirst isLast
  assume "calm env l0 l"
  then show "calm env l0 (snd (app_drain env s m isFirst isLast l))"
    using still_trans [OF _ still_app_drain] by (auto simp: calm_def)
qed

lemma still_ws_send:
  assumes laws: "close_laws env" "dropped_still env" and s: "ws_send env this message op compress fin t = Some (status, t')"
  shows "still env (app t) (app t')"
proof -
  have path: "still env (app t) l'" if "still env (app t) l" "finish_send env this (r l) = (st, l')"
    "\<And>ok l1. r l = (ok, l1) \<Longrightarrow> still env l l1" for r l l' st
    using that still_finish [OF laws(1)] still_trans by (metis prod.exhaust)
  have drained: "still env (app t) (app t1)" if "drain_subscriber (app_drain env) sub t = Some t1" for sub t1
    using draining.drain_subscriber_keeps [OF that, of "app t"] laws by (simp add: calm_def)
  show ?thesis
  proof (cases "over_limit env this (app t) \<or> takes_long_path env this message compress (app t)")
    case True
    then show ?thesis
      using s still_drop [OF laws] path [where l = "app t" and r = "send_long env this message op compress fin"] still_send_long [OF laws(1)]
      by (auto simp: ws_send_def on_loop_def split: if_splits prod.splits)
  next
    case False
    then obtain t1 where t1: "(case subscriber (data_of this t) of None \<Rightarrow> Some t | Some s \<Rightarrow> drain_subscriber (app_drain env) s t) = Some t1"
      "finish_send env this (send_framed env this message op compress fin (app t1)) = (status, app t')"
      using s by (auto simp: ws_send_def split: option.splits prod.splits)
    have "still env (app t) (app t1)" using t1(1) drained by (auto split: option.splits)
    then show ?thesis
      using path [where l = "app t1" and r = "send_framed env this message op compress fin"] t1(2) still_send_framed [OF laws(1)] by blast
  qed
qed

lemma bigLoop_keeps:
  assumes "\<And>s t t'. f s t = Some t' \<Longrightarrow> P (app t) \<Longrightarrow> P (app t')"
  shows "bigLoop sender f ss t = Some t' \<Longrightarrow> P (app t) \<Longrightarrow> P (app t')"
  by (induction ss arbitrary: t) (auto dest: assms split: if_splits option.splits)

lemma still_publish:
  assumes laws: "close_laws env" "dropped_still env" and p: "publish_as env sender topic message op compress t = Some (r, t')"
  shows "still env (app t) (app t')"
proof (cases "length message \<ge> CORK_BUFFER_SIZE")
  case True
  have "still env (app t) (app t2)" if "send_big env message op compress s t1 = Some t2" "still env (app t) (app t1)" for s t1 t2
    using that still_ws_send [OF laws] still_trans by (fastforce simp: send_big_def)
  from bigLoop_keeps [of "send_big env message op compress" "still env (app t)", OF this] show ?thesis
    using p True by (auto simp: publish_as_def publishBig_def split: option.splits)
next
  case False
  then show ?thesis
    using p draining.publish_keeps [of env sender topic _ t r t' "app t"] laws by (simp add: publish_as_def calm_def)
qed

lemma app_subscriptions [simp]:
  "app (set_topic topic ss t) = app t" "app (erase_topic topic t) = app t" "app (leaveTopic s topic t) = app t"
  "app (freeSubscriber p t) = app t" "app (createSubscriber s t) = app t"
proof -
  show set: "app (set_topic topic ss t) = app t" "app (erase_topic topic t) = app t" for topic ss t
    by (simp_all add: set_topic_def erase_topic_def)
  show leave: "app (leaveTopic s topic t) = app t" for topic t
    by (simp add: leaveTopic_def set split: option.split)
  have fold: "app (fold (leaveTopic s) topics t) = app t" for s topics t
    by (induction topics arbitrary: t) (simp_all add: leaveTopic_def set split: option.split)
  show "app (freeSubscriber p t) = app t"
    by (simp add: freeSubscriber_def fold Let_def unlinkDrainableSubscriber_def split: option.split)
  show "app (createSubscriber s t) = app t" by (simp add: createSubscriber_def)
qed

section \<open>What the program is told\<close>

datatype LifeEvent = Delivered nat | Closed nat

definition tell :: "LifeEvent \<Rightarrow> ('w, 'z, LifeEvent list) server \<Rightarrow> ('w, 'z, LifeEvent list) server" where
  "tell ev = on_loop (\<lambda>l. l\<lparr> user := user l @ [ev] \<rparr>)"

definition over :: "('w, 'z, 'u) Env \<Rightarrow> nat \<Rightarrow> ('w, 'z, 'u) ServerLoop \<Rightarrow> bool" where
  "over env s l \<longleftrightarrow> closed (socket_ops env) s l \<or> isShuttingDown (sockets l s)"

text \<open>One close for each socket that is gone, none for the others, and nothing after a close.\<close>

definition ledger :: "(nat \<Rightarrow> bool) \<Rightarrow> LifeEvent list \<Rightarrow> bool" where
  "ledger gone log \<longleftrightarrow> (\<forall>s. count_list log (Closed s) = (if gone s then 1 else 0) \<and>
     Delivered s \<notin> set (dropWhile (\<lambda>ev. ev \<noteq> Closed s) log))"

definition life :: "('w, 'z, LifeEvent list) Env \<Rightarrow> ('w, 'z, LifeEvent list) ServerLoop \<Rightarrow> bool" where
  "life env l \<longleftrightarrow> ledger (\<lambda>s. over env s l) (user l)"

text \<open>A socket is gone and its close is still to be told.\<close>

definition owed :: "('w, 'z, LifeEvent list) Env \<Rightarrow> nat \<Rightarrow> ('w, 'z, LifeEvent list) ServerLoop \<Rightarrow> bool" where
  "owed env this l \<longleftrightarrow> over env this l \<and> ledger (\<lambda>s. s \<noteq> this \<and> over env s l) (user l)"

lemma dropWhile_snoc: "set (dropWhile P (xs @ [x])) \<subseteq> insert x (set (dropWhile P xs))"
  by (cases "\<forall>x \<in> set xs. P x") (auto simp: dropWhile_append1 dropWhile_append2)

lemma ledger_delivered: "ledger gone log \<Longrightarrow> \<not> gone s \<Longrightarrow> ledger gone (log @ [Delivered s])"
proof -
  assume l: "ledger gone log" and g: "\<not> gone s"
  have "Delivered s' \<notin> set (dropWhile (\<lambda>ev. ev \<noteq> Closed s') (log @ [Delivered s]))" for s'
  proof (cases "s' = s")
    case True
    have "count_list log (Closed s) = 0" using l g by (simp add: ledger_def)
    then have "Closed s \<notin> set log" by (simp only: count_list_0_iff not_False_eq_True)
    then have "dropWhile (\<lambda>ev. ev \<noteq> Closed s) (log @ [Delivered s]) = []" by (auto simp: dropWhile_eq_Nil_conv)
    then show ?thesis by (simp add: True)
  next
    case False
    then show ?thesis using l dropWhile_snoc [of "\<lambda>ev. ev \<noteq> Closed s'" log "Delivered s"] by (auto simp: ledger_def)
  qed
  then show ?thesis using l by (simp add: ledger_def)
qed

lemma ledger_closed: "ledger (\<lambda>s. s \<noteq> this \<and> gone s) log \<Longrightarrow> gone this \<Longrightarrow> ledger gone (log @ [Closed this])"
  using dropWhile_snoc [of _ log "Closed this"] by (fastforce simp: ledger_def)

lemma life_still: "still env l l' \<Longrightarrow> life env l' = life env l" "still env l l' \<Longrightarrow> owed env s l' = owed env s l"
  "still env l l' \<Longrightarrow> over env s l' = over env s l"
  by (simp_all add: still_def life_def owed_def over_def)

lemma tell_delivered: "life env (app t) \<Longrightarrow> \<not> over env s (app t) \<Longrightarrow> life env (app (tell (Delivered s) t))"
  using ledger_delivered [of "\<lambda>s. over env s (app t)"] by (simp add: life_def tell_def on_loop_def over_def)

lemma tell_closed: "owed env s (app t) \<Longrightarrow> life env (app (tell (Closed s) t))"
  using ledger_closed [of s "\<lambda>s. over env s (app t)"] by (simp add: owed_def life_def tell_def on_loop_def over_def)

text \<open>A handler first records what it is told, then acts as it likes, but for the ledger.\<close>

definition act_keeps :: "('w, 'z, LifeEvent list) Env \<Rightarrow> (('w, 'z, LifeEvent list) server \<Rightarrow> ('w, 'z, LifeEvent list) server option) \<Rightarrow> bool" where
  "act_keeps env f \<longleftrightarrow> (\<forall>t t'. life env (app t) \<longrightarrow> f t = Some t' \<longrightarrow> life env (app t'))"

definition first_records ::
  "('w, 'z, LifeEvent list) Env \<Rightarrow> LifeEvent \<Rightarrow> (('w, 'z, LifeEvent list) server \<Rightarrow> ('w, 'z, LifeEvent list) server option) \<Rightarrow> bool" where
  "first_records env ev f \<longleftrightarrow> (\<exists>act. act_keeps env act \<and> f = (\<lambda>t. act (tell ev t)))"

definition reports :: "('w, 'z, LifeEvent list) Env \<Rightarrow> bool" where
  "reports env \<longleftrightarrow> (\<forall>this. let c = contextData env this in
     (\<forall>h m op. messageHandler c = Some h \<longrightarrow> first_records env (Delivered this) (h this m op)) \<and>
     (\<forall>h p. pingHandler c = Some h \<longrightarrow> first_records env (Delivered this) (h this p)) \<and>
     (\<forall>h p. pongHandler c = Some h \<longrightarrow> first_records env (Delivered this) (h this p)) \<and>
     (\<forall>h. drainHandler c = Some h \<longrightarrow> first_records env (Delivered this) (h this)) \<and>
     (\<exists>h. closeHandler c = Some h \<and> (\<forall>code message. first_records env (Closed this) (h this code message))) \<and>
     (\<forall>h topic n before t t'. subscriptionHandler c = Some h \<longrightarrow> h this topic n before t = Some t' \<longrightarrow> still env (app t) (app t')))"

text \<open>The program of a server, and the library under it.\<close>

definition well_run :: "('w, 'z, LifeEvent list) Env \<Rightarrow> bool" where
  "well_run env \<longleftrightarrow> close_laws env \<and> dropped_still env \<and> reports env"

lemma delivered_keeps:
  "first_records env (Delivered s) f \<Longrightarrow> life env (app t) \<Longrightarrow> \<not> over env s (app t) \<Longrightarrow> f t = Some t' \<Longrightarrow> life env (app t')"
  using tell_delivered by (fastforce simp: first_records_def act_keeps_def)

lemma closed_keeps: "first_records env (Closed s) f \<Longrightarrow> owed env s (app t) \<Longrightarrow> f t = Some t' \<Longrightarrow> life env (app t')"
  using tell_closed by (fastforce simp: first_records_def act_keeps_def)

section \<open>Closing\<close>

lemma well_run_laws: "well_run env \<Longrightarrow> close_laws env" "well_run env \<Longrightarrow> dropped_still env"
  by (simp_all add: well_run_def)

lemma well_run_handlers:
  assumes "well_run env"
  shows "messageHandler (contextData env this) = Some h \<Longrightarrow> first_records env (Delivered this) (h this m op)"
    "pingHandler (contextData env this) = Some h' \<Longrightarrow> first_records env (Delivered this) (h' this p)"
    "pongHandler (contextData env this) = Some h' \<Longrightarrow> first_records env (Delivered this) (h' this p)"
    "drainHandler (contextData env this) = Some h'' \<Longrightarrow> first_records env (Delivered this) (h'' this)"
    "\<exists>h. closeHandler (contextData env this) = Some h \<and> (\<forall>code message. first_records env (Closed this) (h this code message))"
    "subscriptionHandler (contextData env this) = Some hs \<Longrightarrow> hs this topic n before t = Some t' \<Longrightarrow> still env (app t) (app t')"
  using assms by (simp_all add: well_run_def reports_def Let_def)

lemma for_topics_still:
  assumes "\<And>topic t t'. f topic t = Some t' \<Longrightarrow> still env (app t) (app t')"
  shows "for_topics f topics t = Some t' \<Longrightarrow> still env (app t) (app t')"
  by (induction topics arbitrary: t) (auto dest: assms intro: still_trans split: option.splits)

lemma announce_still:
  assumes "well_run env" and "announce_topics env this t = Some t'"
  shows "still env (app t) (app t')"
proof (cases "subscriber (data_of this t)"; cases "subscriptionHandler (contextData env this)")
  fix sub h
  assume "subscriber (data_of this t) = Some sub" and h: "subscriptionHandler (contextData env this) = Some h"
  then have "for_topics (\<lambda>topic t. h this topic (int (numSubscribers topic t) - 1) (int (numSubscribers topic t)) t) (sub_topics (subs t sub)) t = Some t'"
    using assms(2) by (simp add: announce_topics_def)
  then show ?thesis by (rule for_topics_still [rotated]) (rule well_run_handlers(6) [OF assms(1) h])
qed (use assms(2) in \<open>simp_all add: announce_topics_def\<close>)

lemma leave_still: "still env (app t) (app (leave_tree this t))"
  by (simp add: leave_tree_def on_loop_def on_socket_def still_def)

lemma emit_close_life:
  assumes run: "well_run env" and o: "owed env this (app t)" and e: "emit_close env this code message t = Some t'"
  shows "life env (app t')"
proof -
  obtain h where h: "closeHandler (contextData env this) = Some h" "first_records env (Closed this) (h this code message)"
    using well_run_handlers(5) [OF run] by blast
  obtain t1 where t1: "announce_topics env this t = Some t1" "h this code message (leave_tree this t1) = Some t'"
    using e h(1) by (auto simp: emit_close_def split: option.splits)
  have "owed env this (app (leave_tree this t1))"
    using o life_still(2) [OF announce_still [OF run t1(1)]] life_still(2) [OF leave_still [of env t1 this]] by blast
  then show ?thesis by (rule closed_keeps [OF h(2) _ t1(2)])
qed

lemma socket_close_life:
  assumes run: "well_run env" and l: "life env (app t)" and c: "socket_close env this reason t = Some t'"
  shows "life env (app t')"
proof (cases "socket_closed env this t")
  case True
  then show ?thesis using l c by (simp add: socket_close_def)
next
  case False
  let ?t = "on_loop (\<lambda>l. l\<lparr> kernel := kernel_close env this (kernel l) \<rparr>) t"
  have over: "over env s (app ?t) = (s = this \<or> over env s (app t))" for s
    using close_law(6) [OF well_run_laws(1) [OF run]] by (auto simp: over_def on_loop_def)
  have user: "user (app ?t) = user (app t)" by (simp add: on_loop_def)
  have e: "on_close env this reason ?t = Some t'" using c False by (simp add: socket_close_def)
  show ?thesis
  proof (cases "isShuttingDown (data_of this t)")
    case True
    then have "(\<lambda>s. s = this \<or> over env s (app t)) = (\<lambda>s. over env s (app t))" by (auto simp: over_def)
    then have "life env (app ?t)" using l by (simp add: life_def over user)
    moreover have "t' = ?t" using True e by (simp add: on_close_def on_loop_def)
    ultimately show ?thesis by simp
  next
    case 2: False
    have "\<not> over env this (app t)" using False 2 by (simp add: over_def)
    then have "(\<lambda>s. s \<noteq> this \<and> (s = this \<or> over env s (app t))) = (\<lambda>s. over env s (app t))" by auto
    then have "owed env this (app ?t)" using l by (simp add: owed_def life_def over user)
    moreover have "emit_close env this 1006 reason ?t = Some t'" using e 2 by (simp add: on_close_def on_loop_def)
    ultimately show ?thesis by (rule emit_close_life [OF run])
  qed
qed

lemma ws_close_life:
  "well_run env \<Longrightarrow> life env (app t) \<Longrightarrow> ws_close env this t = Some t' \<Longrightarrow> life env (app t')"
  by (auto simp: ws_close_def dest: socket_close_life split: if_splits)

text \<open>\<open>end\<close> is for sockets that are still there.\<close>

lemma ws_end_life:
  assumes run: "well_run env" and l: "life env (app t)" and there: "\<not> socket_closed env this t"
    and e: "ws_end env this code message t = Some t'"
  shows "life env (app t')"
proof (cases "isShuttingDown (data_of this t)")
  case True
  then show ?thesis using l e by (simp add: ws_end_def)
next
  case False
  note laws = well_run_laws [OF run]
  let ?t = "on_loop (on_socket this (\<lambda>d. d\<lparr> isShuttingDown := True \<rparr>)) t"
  let ?payload = "formatClosePayload (nat (code mod 2 ^ 16)) (map_option (take MAX_CLOSE_PAYLOAD) message)"
  have over: "over env s (app ?t) = (s = this \<or> over env s (app t))" for s
    by (auto simp: over_def on_loop_def on_socket_def)
  have user: "user (app ?t) = user (app t)" by (simp add: on_loop_def on_socket_def)
  have "\<not> over env this (app t)" using False there by (simp add: over_def)
  then have "(\<lambda>s. s \<noteq> this \<and> (s = this \<or> over env s (app t))) = (\<lambda>s. over env s (app t))" by auto
  then have o: "owed env this (app ?t)" using l by (simp add: owed_def life_def over user)
  obtain status t1 where s: "ws_send env this ?payload CLOSE 0 True ?t = Some (status, t1)"
    using e False unfolding ws_end_def Let_def by (auto split: option.splits)
  define t2 where "t2 = (if \<not> isCorked this (app t1) \<and> status_ok status then on_loop (shutdown (socket_ops env) this) t1 else t1)"
  define t3 where "t3 = on_loop (ws_timeout env this (snd (idleTimeoutComponents (contextData env this)))) t2"
  have "still env (app ?t) (app t1)" by (rule still_ws_send [OF laws s])
  moreover have "still env (app t1) (app t2)" using still_shutdown [OF laws(1)] by (simp add: t2_def on_loop_def)
  moreover have "still env (app t2) (app t3)" using still_timeout [OF laws(1)] by (simp add: t3_def on_loop_def)
  ultimately have "owed env this (app t3)" using o life_still(2) by blast
  moreover have "emit_close env this code (case message of None \<Rightarrow> [] | Some m \<Rightarrow> m) t3 = Some t'"
    using e False s unfolding ws_end_def Let_def t3_def t2_def by simp
  ultimately show ?thesis by (rule emit_close_life [OF run])
qed

section \<open>Frames\<close>

text \<open>The state while the parser may go on: the ledger is right and the socket is there.\<close>

definition going :: "('w, 'z, LifeEvent list) Env \<Rightarrow> nat \<Rightarrow> ('w, 'z, LifeEvent list) server \<Rightarrow> bool" where
  "going env this t \<longleftrightarrow> life env (app t) \<and> \<not> over env this (app t)"

definition sound_verdict :: "('w, 'z, LifeEvent list) Env \<Rightarrow> nat \<Rightarrow> ('w, 'z, LifeEvent list) verdict \<Rightarrow> bool" where
  "sound_verdict env this v \<longleftrightarrow> (case v of None \<Rightarrow> True | Some (broken, t) \<Rightarrow> if broken then life env (app t) else going env this t)"

lemma sound_verdict_simps [simp]:
  "sound_verdict env this None" "sound_verdict env this (Some (True, t)) = life env (app t)"
  "sound_verdict env this (Some (False, t)) = going env this t"
  by (simp_all add: sound_verdict_def)

lemma sound_verdictD:
  "sound_verdict env this (Some (broken, t)) \<Longrightarrow> life env (app t) \<and> (broken \<or> \<not> over env this (app t))"
  by (cases broken) (simp_all add: going_def)

lemma going_still: "going env this t \<Longrightarrow> still env (app t) (app t') \<Longrightarrow> going env this t'"
  by (simp add: going_def life_still)

lemma break_off_sound: "well_run env \<Longrightarrow> going env this t \<Longrightarrow> sound_verdict env this (break_off env this reason t)"
  using socket_close_life by (cases "socket_close env this reason t") (auto simp: break_off_def going_def)

lemma check_gone_sound:
  assumes "first_records env (Delivered this) f" and "going env this t"
  shows "sound_verdict env this (check_gone env this (f t))"
proof (cases "f t")
  case (Some t')
  then have "life env (app t')" using delivered_keeps assms by (auto simp: going_def)
  then show ?thesis using Some by (cases "over env this (app t')") (simp_all add: check_gone_def going_def over_def)
qed (simp add: check_gone_def)

lemma still_on_socket:
  "(\<And>d. isShuttingDown (f d) = isShuttingDown d) \<Longrightarrow> still env (app t) (app (on_loop (on_socket this f) t))"
  by (simp add: still_def on_loop_def on_socket_def)

lemma deliver_sound:
  assumes run: "well_run env" and g: "going env this t"
  shows "sound_verdict env this (deliver env this op payload t)"
proof -
  obtain m t1 where i: "inflate_message env this payload t = (m, t1)" by fastforce
  have "still env (app t) (app t1)"
    using i by (auto simp: inflate_message_def use_inflate_def on_loop_def on_socket_def still_def split: if_splits prod.splits)
  then have g1: "going env this t1" by (rule going_still [OF g])
  show ?thesis
    using break_off_sound [OF run g1] check_gone_sound [OF well_run_handlers(1) [OF run] g1] g1
    unfolding deliver_def i by (auto split: option.split)
qed

lemma data_frame_sound:
  assumes run: "well_run env" and g: "going env this t"
  shows "sound_verdict env this (data_frame env this data remaining op fin t)"
proof -
  let ?t1 = "on_loop (on_socket this (\<lambda>d. d\<lparr> fragmentBuffer := fragmentBuffer d @ data \<rparr>)) t"
  have g1: "going env this ?t1" by (rule going_still [OF g still_on_socket]) simp
  have fill: "going env this t \<Longrightarrow> going env this (on_loop (on_socket this (\<lambda>d. d\<lparr> fragmentBuffer := fragmentBuffer d @ bs \<rparr>)) t)" for t bs
    by (rule going_still [OF _ still_on_socket]) simp_all
  have clear: "going env this t \<Longrightarrow> going env this (on_loop (on_socket this (\<lambda>d. d\<lparr> fragmentBuffer := [] \<rparr>)) t)" for t
    by (rule going_still [OF _ still_on_socket]) simp_all
  have d: "sound_verdict env this (case deliver env this op p t of None \<Rightarrow> None | Some (True, t) \<Rightarrow> Some (True, t)
      | Some (False, t) \<Rightarrow> Some (False, on_loop (on_socket this (\<lambda>d. d\<lparr> fragmentBuffer := [] \<rparr>)) t))"
    if "going env this t" for p t
    using deliver_sound [OF run that, of op p] clear by (auto split: option.split bool.split)
  show ?thesis
    unfolding data_frame_def Let_def
    using deliver_sound [OF run g] break_off_sound [OF run g] g1 d [OF g1] d [OF fill [OF g1]] by auto
qed

lemma control_message_sound:
  assumes run: "well_run env" and g: "going env this t"
  shows "sound_verdict env this (control_message env this payload op t)"
proof -
  consider "op = CLOSE" | "op = PING" | "op = PONG" | "op \<noteq> CLOSE \<and> op \<noteq> PING \<and> op \<noteq> PONG" by blast
  then show ?thesis
  proof cases
    case 1
    have there: "life env (app t)" "\<not> socket_closed env this t" using g by (simp_all add: going_def over_def)
    show ?thesis
      using 1 ws_end_life [OF run there] by (cases "ws_end env this (int (close_code (parseClosePayload payload))) (Some (close_message (parseClosePayload payload))) t")
        (simp_all add: control_message_def Let_def)
  next
    case 2
    show ?thesis
    proof (cases "ws_send env this payload PONG 0 True t")
      case None
      then show ?thesis using 2 by (simp add: control_message_def)
    next
      case (Some r)
      then obtain status t1 where s: "ws_send env this payload PONG 0 True t = Some (status, t1)" by (cases r) simp
      have g1: "going env this t1" by (rule going_still [OF g still_ws_send [OF well_run_laws [OF run] s]])
      show ?thesis
        using 2 s g1 check_gone_sound [OF well_run_handlers(2) [OF run] g1]
        by (cases "pingHandler (contextData env this)") (simp_all add: control_message_def)
    qed
  next
    case 3
    then show ?thesis
      using g check_gone_sound [OF well_run_handlers(3) [OF run] g]
      by (cases "pongHandler (contextData env this)") (simp_all add: control_message_def)
  qed (use g in \<open>simp_all add: control_message_def\<close>)
qed

lemma control_frame_sound:
  assumes run: "well_run env" and g: "going env this t"
  shows "sound_verdict env this (control_frame env this data remaining op fin t)"
proof -
  let ?t1 = "on_loop (on_socket this (\<lambda>d. d\<lparr> fragmentBuffer := fragmentBuffer d @ data,
    controlTipLength := controlTipLength d + length data \<rparr>)) t"
  have g1: "going env this ?t1" by (rule going_still [OF g still_on_socket]) simp
  let ?cut = "\<lambda>d. d\<lparr> fragmentBuffer := take (length (fragmentBuffer d) - controlTipLength d) (fragmentBuffer d), controlTipLength := 0 \<rparr>"
  have cut: "going env this t \<Longrightarrow> going env this (on_loop (on_socket this ?cut) t)" for t
    by (rule going_still [OF _ still_on_socket]) simp_all
  have d: "sound_verdict env this (case control_message env this p op ?t1 of None \<Rightarrow> None | Some (True, t) \<Rightarrow> Some (True, t)
      | Some (False, t) \<Rightarrow> Some (False, on_loop (on_socket this ?cut) t))" for p
    using control_message_sound [OF run g1, of p op] cut by (auto split: option.split bool.split)
  show ?thesis
    unfolding control_frame_def Let_def using control_message_sound [OF run g] g1 d by auto
qed

lemma handle_fragment_sound:
  "well_run env \<Longrightarrow> going env this t \<Longrightarrow> sound_verdict env this (handle_fragment env this data remaining op fin t)"
  by (simp add: handle_fragment_def data_frame_sound control_frame_sound)

section \<open>The parser\<close>

text \<open>What calls the parser makes after the socket is gone: none.\<close>

locale parser_guard =
  fixes imp :: "'s Impl" and go :: "'s \<Rightarrow> bool" and settled :: "'s \<Rightarrow> bool"
  assumes go_settled: "go s \<Longrightarrow> settled s"
    and close_settles: "go s \<Longrightarrow> settled (forceClose imp reason s)"
    and compressed_goes: "go s \<Longrightarrow> go (snd (setCompressed imp s))"
    and fragment: "go s \<Longrightarrow> handleFragment imp d r op fin s = (broken, s') \<Longrightarrow> settled s' \<and> (broken \<or> go s')"
begin

lemma fragment_settled: "handleFragment imp d r op fin s = (broken, s') \<Longrightarrow> go s \<Longrightarrow> settled s'"
  using fragment by blast

lemma fragment_goes: "handleFragment imp d r op fin s = (False, s') \<Longrightarrow> go s \<Longrightarrow> go s'"
  using fragment by blast

lemma consumeMessage_guard:
  assumes "consumeMessage imp isServer header payLength m src len w s = Some (stop, m', src', len', w', s')" and "go s"
  shows "settled s' \<and> (stop \<or> go s')"
proof -
  have whole: "settled s' \<and> (stop \<or> go s')"
    if "consumeWhole imp isServer header payLength fin m src len w s = Some (stop, m', src', len', w', s')" for fin w
    using that assms(2) by (auto simp: consumeWhole_def Let_def dest: fragment_settled fragment_goes split: option.splits prod.splits if_splits)
  have part: "settled s' \<and> (stop \<or> go s')"
    if "consumePart imp isServer header payLength fin m src len w s = Some (stop, m', src', len', w', s')" for fin w
    using that assms(2) by (auto simp: consumePart_def Let_def dest: fragment_settled split: option.splits prod.splits if_splits)
  show ?thesis
    using assms(1) close_settles [OF assms(2)] whole part
    by (auto simp: consumeMessage_def Let_def split: option.splits if_splits)
qed

lemma consumeContinuation_guard:
  assumes "consumeContinuation imp isServer recvLength m src len w s = Some (proceed, m', src', len', w', s')" and "go s"
  shows "settled s' \<and> (\<not> proceed \<or> go s')"
proof -
  have "\<exists>d r op fin broken. handleFragment imp d r op fin s = (broken, s') \<and> (broken \<longrightarrow> \<not> proceed)"
    if "remainingBytes w \<le> len"
    using assms(1) unfolding consumeContinuation_def Let_def if_P [OF that]
    by (simp split: option.split_asm prod.split_asm if_split_asm) blast+
  moreover have "\<exists>d r op fin broken. handleFragment imp d r op fin s = (broken, s') \<and> \<not> proceed"
    if "\<not> remainingBytes w \<le> len"
    using assms(1) unfolding consumeContinuation_def Let_def if_not_P [OF that]
    by (simp split: option.split_asm prod.split_asm if_split_asm) blast+
  ultimately show ?thesis using assms(2) fragment_settled fragment_goes by metis
qed

lemma spill_rest_guard: "spill_rest isServer m src len w s = Some (m', w', s') \<Longrightarrow> s' = s"
  by (auto simp: spill_rest_def split: if_splits option.splits)

definition guarded where
  "guarded r \<longleftrightarrow> (case r of None \<Rightarrow> True | Some (Inl (m, w, s)) \<Rightarrow> settled s | Some (Inr (m, src, len, w, s)) \<Rightarrow> go s)"

lemma finish_guard: "go s \<Longrightarrow> guarded (finishMessage imp isServer m src len w s header payLength)"
  by (auto simp: guarded_def finishMessage_def dest: consumeMessage_guard split: option.splits)

lemma spill_guard: "go s \<Longrightarrow> guarded (map_option Inl (spill_rest isServer m src len w s))"
  by (cases "spill_rest isServer m src len w s") (auto simp: guarded_def dest: spill_rest_guard go_settled)

lemma head_turn_guard: "go s \<Longrightarrow> guarded (head_turn imp isServer m src len w s)"
proof (cases "rd m src 2")
  case (Some h)
  assume g: "go s"
  obtain bad s1 where c: "check_head imp (h ! 0) (h ! 1) s = (bad, s1)" by fastforce
  then have g1: "go s1" using g compressed_goes [OF g] by (auto simp: check_head_def split: if_splits prod.splits)
  have bad: "guarded (Some (Inl (m, w, forceClose imp ERR_PROTOCOL s1)))" using close_settles [OF g1] by (simp add: guarded_def)
  have none: "guarded None" by (simp add: guarded_def)
  show ?thesis
    using finish_guard [OF g1] spill_guard [OF g1] bad none
    unfolding head_turn_def Some c Let_def option.case prod.case by (auto split: option.split)
qed (simp add: head_turn_def guarded_def)

lemma parseNext_guard: "go s \<Longrightarrow> parseNext imp isServer m src len w s = Some (m', w', s') \<Longrightarrow> settled s'"
proof (induction len arbitrary: m src w s rule: less_induct)
  case (less len)
  show ?case
  proof (cases "SHORT_MESSAGE_HEADER isServer \<le> len")
    case True
    note g = head_turn_guard [OF less.prems(1), of isServer m src len w]
    show ?thesis
    proof (cases "head_turn imp isServer m src len w s")
      case None
      then show ?thesis using less.prems(2) True by (simp add: parseNext.simps)
    next
      case (Some r)
      show ?thesis
      proof (cases r)
        case (Inl res)
        then show ?thesis using less.prems(2) True Some g by (auto simp: parseNext.simps guarded_def)
      next
        case (Inr st)
        obtain m1 src1 len1 w1 s1 where st: "st = (m1, src1, len1, w1, s1)" by (metis prod_cases5)
        have turn: "head_turn imp isServer m src len w s = Some (Inr (m1, src1, len1, w1, s1))" using Some Inr st by simp
        have "go s1" using g by (simp add: guarded_def turn)
        then show ?thesis
          using less.IH [OF head_turn_Inr [OF turn True]] less.prems(2) True by (simp add: parseNext.simps [of imp isServer m src len] turn)
      qed
    qed
  next
    case False
    then show ?thesis
      using less.prems go_settled by (auto simp: parseNext.simps dest: spill_rest_guard)
  qed
qed

lemma consume_settles:
  assumes "consume imp isServer recvLength m src len w s = Some (m', w', s')" and "go s"
  shows "settled s'"
  using assms unfolding consume_def
  by (auto dest: parseNext_guard consumeContinuation_guard split: option.split_asm prod.split_asm if_split_asm)

end

text \<open>The parser over the server: None has no state to keep.\<close>

definition may_go :: "('w, 'z, LifeEvent list) Env \<Rightarrow> nat \<Rightarrow> ('w, 'z, LifeEvent list) server option \<Rightarrow> bool" where
  "may_go env this r \<longleftrightarrow> well_run env \<and> (\<forall>t. r = Some t \<longrightarrow> going env this t)"

definition life_kept :: "('w, 'z, LifeEvent list) server option \<Rightarrow> ('w, 'z, LifeEvent list) Env \<Rightarrow> bool" where
  "life_kept r env \<longleftrightarrow> (\<forall>t. r = Some t \<longrightarrow> life env (app t))"

interpretation frames: parser_guard "websocket_impl env this" "may_go env this" "\<lambda>r. life_kept r env"
  for env :: "('w, 'z, LifeEvent list) Env" and this
proof unfold_locales
  fix r :: "('w, 'z, LifeEvent list) server option" and r' reason d n op fin broken
  assume go: "may_go env this r"
  show "life_kept r env" using go by (simp add: may_go_def life_kept_def going_def)
  show "life_kept (forceClose (websocket_impl env this) reason r) env"
    using go by (cases r) (auto simp: websocket_impl_def may_go_def life_kept_def going_def dest: socket_close_life)
  show "may_go env this (snd (setCompressed (websocket_impl env this) r))"
    using go going_still [OF _ still_on_socket [where f = "compressionStatus_update (\<lambda>_. COMPRESSED_FRAME)"]]
    by (cases r) (auto simp: websocket_impl_def may_go_def set_compressed_def)
  assume h: "handleFragment (websocket_impl env this) d n op fin r = (broken, r')"
  show "life_kept r' env \<and> (broken \<or> may_go env this r')"
  proof (cases r)
    case None
    then show ?thesis using h by (simp add: websocket_impl_def life_kept_def)
  next
    case (Some t)
    have run: "well_run env" and g: "going env this t" using go Some by (simp_all add: may_go_def)
    show ?thesis
      using h Some run sound_verdictD [of env this broken] handle_fragment_sound [OF run g, of d n op fin]
      by (auto simp: websocket_impl_def life_kept_def may_go_def going_def split: option.splits)
  qed
qed

section \<open>Events\<close>

lemma run_parser_life:
  assumes run: "well_run env" and g: "going env this t" and r: "run_parser env this recvLength m src len t = Some t'"
  shows "life env (app t')"
proof -
  obtain m1 w1 t1 where c: "consume (websocket_impl env this) True recvLength m src len (ws_state (data_of this t)) (Some t) = Some (m1, w1, Some t1)"
    and t': "t' = on_loop (on_socket this (\<lambda>d. d\<lparr> ws_state := w1 \<rparr>)) t1"
    using r by (auto simp: run_parser_def split: option.splits prod.splits)
  have "life env (app t1)"
    using frames.consume_settles [OF c] run g by (simp add: may_go_def life_kept_def)
  moreover have "still env (app t1) (app t')" unfolding t' by (rule still_on_socket) simp
  ultimately show ?thesis by (simp add: life_still)
qed

lemma on_data_life:
  assumes run: "well_run env" and l: "life env (app t)" and there: "\<not> socket_closed env this t"
    and d: "on_data env this recvLength m src len t = Some t'"
  shows "life env (app t')"
proof (cases "isShuttingDown (data_of this t)")
  case True
  then show ?thesis using l d by (simp add: on_data_def)
next
  case False
  note laws = well_run_laws(1) [OF run]
  let ?t = "on_loop (refresh_timeout env this) t"
  have g: "going env this ?t"
    by (rule going_still [of env this t]) (use l there False still_refresh [OF laws] in \<open>simp_all add: going_def over_def on_loop_def\<close>)
  obtain l1 t1 where l1: "cork this (app ?t) = Some l1" and p: "run_parser env this recvLength m src len (?t\<lparr> app := l1 \<rparr>) = Some t1"
    and t': "t' = (let t = on_loop (\<lambda>l. snd (uncork (socket_ops env) this [] False l)) t1 in
      if getBufferedAmount this (app t) = 0 \<and> isShuttingDown (data_of this t) then on_loop (shutdown (socket_ops env) this) t else t)"
    using d False unfolding on_data_def Let_def by (auto split: option.splits)
  have "going env this (?t\<lparr> app := l1 \<rparr>)" by (rule going_still [OF g]) (simp add: still_cork [OF l1])
  from run_parser_life [OF run this p] have "life env (app t1)" .
  moreover define t2 where "t2 = on_loop (\<lambda>l. snd (uncork (socket_ops env) this [] False l)) t1"
  ultimately have t2: "life env (app t2)"
    using life_still(1) [OF still_uncork [OF laws]] by (simp add: on_loop_def)
  then have "life env (app (on_loop (shutdown (socket_ops env) this) t2))"
    using life_still(1) [OF still_shutdown [OF laws]] by (simp add: on_loop_def)
  then show ?thesis using t2 unfolding t' Let_def t2_def [symmetric] by simp
qed

lemma on_writable_life:
  assumes run: "well_run env" and l: "life env (app t)" and there: "\<not> socket_closed env this t" and d: "on_writable env this t = Some t'"
  shows "life env (app t')"
proof (cases "us_socket_is_shut_down (socket_ops env) this (kernel (app t))")
  case True
  then show ?thesis using l d by (simp add: on_writable_def)
next
  case False
  note laws = well_run_laws(1) [OF run]
  define t1 where "t1 = on_loop (\<lambda>l. snd (async_write (socket_ops env) this [] False 0 l)) t"
  define progress where "progress \<longleftrightarrow> getBufferedAmount this (app t) = 0 \<or> getBufferedAmount this (app t) > getBufferedAmount this (app t1)"
  define t2 where "t2 = (if progress then on_loop (refresh_timeout env this) t1 else t1)"
  have "still env (app t) (app t1)" using still_async_write [OF laws] by (simp add: t1_def on_loop_def)
  moreover have "still env (app t1) (app t2)" using still_refresh [OF laws] by (simp add: t2_def on_loop_def)
  ultimately have s: "still env (app t) (app t2)" by (rule still_trans)
  then have l2: "life env (app t2)" "\<not> isShuttingDown (data_of this t2) \<Longrightarrow> \<not> over env this (app t2)"
    using l there life_still(1, 3) [OF s] s by (auto simp: over_def still_def)
  have shut: "life env (app (on_loop (shutdown (socket_ops env) this) t2))"
    using l2(1) life_still(1) [OF still_shutdown [OF laws]] by (simp add: on_loop_def)
  have "t' = t2 \<or> t' = on_loop (shutdown (socket_ops env) this) t2 \<or>
    (\<not> isShuttingDown (data_of this t2) \<and> (\<exists>h. drainHandler (contextData env this) = Some h \<and> h this t2 = Some t'))"
    using d False unfolding on_writable_def Let_def t1_def [symmetric] progress_def [symmetric] t2_def [symmetric]
    by (auto split: if_splits option.splits)
  then show ?thesis
    using l2 shut delivered_keeps [OF well_run_handlers(4) [OF run]] by blast
qed

lemma on_timeout_life:
  assumes run: "well_run env" and l: "life env (app t)" and d: "on_timeout env this t = Some t'"
  shows "life env (app t')"
proof -
  note laws = well_run_laws(1) [OF run]
  let ?ping = "\<lambda>l. snd (async_write (socket_ops env) this [0x89, 0x00] False 0
    (ws_timeout env this (snd (idleTimeoutComponents (contextData env this))) (on_socket this (\<lambda>d. d\<lparr> hasTimedOut := True \<rparr>) l)))"
  have "still env l (on_socket this (\<lambda>d. d\<lparr> hasTimedOut := True \<rparr>) l)" for l :: "('a, 'b, LifeEvent list) ServerLoop"
    by (simp add: still_def on_socket_def)
  from still_trans [OF still_trans [OF this still_timeout [OF laws]] still_async_write [OF laws]] have "still env (app t) (app (on_loop ?ping t))"
    by (simp add: on_loop_def)
  then have "life env (app (on_loop ?ping t))" using l by (simp add: life_still)
  then show ?thesis
    using d socket_close_life [OF run l] unfolding on_timeout_def Let_def by (auto split: if_splits)
qed

lemma subscribe_app: "subscribe s topic t = Some (n, t') \<Longrightarrow> app t' = app t"
  by (auto simp: subscribe_def Let_def split: if_splits option.splits)

lemma unsubscribe_app: "unsubscribe s topic t = Some (x, t') \<Longrightarrow> app t' = app t"
  by (auto simp: unsubscribe_def Let_def split: if_splits option.splits)

lemma ws_subscribe_still:
  assumes "well_run env" and "ws_subscribe env this topic t = Some (r, t')"
  shows "still env (app t) (app t')"
proof -
  obtain s t1 where m: "make_subscriber this t = (s, t1)" by fastforce
  then have "still env (app t) (app t1)"
    by (auto simp: make_subscriber_def Let_def on_loop_def on_socket_def still_def split: option.splits if_splits)
  moreover obtain n t2 where sub: "subscribe s topic t1 = Some (n, t2)" using assms(2) m by (auto simp: ws_subscribe_def split: option.splits)
  moreover have "still env (app t2) (app t')"
    using assms(2) well_run_handlers(6) [OF assms(1)] unfolding ws_subscribe_def m prod.case sub
    by (auto split: option.splits)
  ultimately show ?thesis using subscribe_app [OF sub] by (auto intro: still_trans)
qed

lemma ws_unsubscribe_still:
  assumes "well_run env" and "ws_unsubscribe env this topic t = Some (r, t')"
  shows "still env (app t) (app t')"
  using assms(2) well_run_handlers(6) [OF assms(1)]
  by (auto simp: ws_unsubscribe_def dest!: unsubscribe_app split: option.splits if_splits) (metis)

text \<open>
  What happens to a server: events of its sockets, which the library reports for open sockets only, and
  calls of the program from elsewhere than the handlers.
\<close>

datatype ServerEvent =
  Arrives nat nat memory nat nat
| Writable nat
| FinArrives nat
| IdleTimeout nat
| LifetimeOver nat
| CallClose nat
| CallEnd nat int "byte list option"
| CallSend nat "byte list" byte nat bool
| CallSubscribe nat topic
| CallUnsubscribe nat topic
| CallPublish topic "byte list" byte bool
| DrainTopics

definition if_there :: "('w, 'z, 'u) Env \<Rightarrow> nat \<Rightarrow> (('w, 'z, 'u) server \<Rightarrow> ('w, 'z, 'u) server option) \<Rightarrow>
    ('w, 'z, 'u) server \<Rightarrow> ('w, 'z, 'u) server option" where
  "if_there env this f t = (if socket_closed env this t then Some t else f t)"

fun serve :: "('w, 'z, 'u) Env \<Rightarrow> ServerEvent \<Rightarrow> ('w, 'z, 'u) server \<Rightarrow> ('w, 'z, 'u) server option" where
  "serve env (Arrives this recvLength m src len) = if_there env this (on_data env this recvLength m src len)"
| "serve env (Writable this) = if_there env this (on_writable env this)"
| "serve env (FinArrives this) = if_there env this (on_end env this)"
| "serve env (IdleTimeout this) = if_there env this (on_timeout env this)"
| "serve env (LifetimeOver this) = if_there env this (on_long_timeout env this)"
| "serve env (CallClose this) = if_there env this (ws_close env this)"
| "serve env (CallEnd this code message) = if_there env this (ws_end env this code message)"
| "serve env (CallSend this message op compress fin) = if_there env this (\<lambda>t. map_option snd (ws_send env this message op compress fin t))"
| "serve env (CallSubscribe this topic) = if_there env this (\<lambda>t. map_option snd (ws_subscribe env this topic t))"
| "serve env (CallUnsubscribe this topic) = if_there env this (\<lambda>t. map_option snd (ws_unsubscribe env this topic t))"
| "serve env (CallPublish topic message op compress) = (\<lambda>t. map_option snd (app_publish env topic message op compress t))"
| "serve env DrainTopics = drain_topics env"

fun serve_all :: "('w, 'z, 'u) Env \<Rightarrow> ServerEvent list \<Rightarrow> ('w, 'z, 'u) server \<Rightarrow> ('w, 'z, 'u) server option" where
  "serve_all env [] t = Some t"
| "serve_all env (ev # evs) t = (case serve env ev t of None \<Rightarrow> None | Some t \<Rightarrow> serve_all env evs t)"

lemma if_there_life:
  "life env (app t) \<Longrightarrow> if_there env this f t = Some t' \<Longrightarrow>
    (\<not> socket_closed env this t \<Longrightarrow> f t = Some t' \<Longrightarrow> life env (app t')) \<Longrightarrow> life env (app t')"
  by (auto simp: if_there_def split: if_splits)

lemma serve_life:
  assumes run: "well_run env" and l: "life env (app t)" and s: "serve env ev t = Some t'"
  shows "life env (app t')"
proof -
  note laws = well_run_laws [OF run]
  have still: "still env (app t) (app t') \<Longrightarrow> life env (app t')" using l by (simp add: life_still)
  show ?thesis
  proof (cases ev)
    case (CallSend this message op compress fin)
    then show ?thesis using s by (auto intro!: still elim!: if_there_life [OF l] dest: still_ws_send [OF laws])
  next
    case (CallSubscribe this topic)
    then show ?thesis using s by (auto intro!: still elim!: if_there_life [OF l] dest: ws_subscribe_still [OF run])
  next
    case (CallUnsubscribe this topic)
    then show ?thesis using s by (auto intro!: still elim!: if_there_life [OF l] dest: ws_unsubscribe_still [OF run])
  next
    case (CallPublish topic message op compress)
    then show ?thesis using s by (auto simp: app_publish_def intro!: still dest: still_publish [OF laws])
  next
    case DrainTopics
    then show ?thesis
      using s draining.drain_all_keeps [of env t t' "app t"] laws by (auto simp: drain_topics_def calm_def intro!: still)
  qed (use s in \<open>auto simp: on_end_def on_long_timeout_def elim!: if_there_life [OF l]
      dest: on_data_life [OF run l] on_writable_life [OF run l] on_timeout_life [OF run l] socket_close_life [OF run l]
        ws_close_life [OF run l] ws_end_life [OF run l]\<close>)
qed


text \<open>A kernel that sends everything, and a program that ends a connection at its first message.\<close>

definition closing_ops :: "nat list SocketOps" where
  "closing_ops = \<lparr> us_socket_is_closed = (\<lambda>s w. s \<in> set w), us_socket_write = (\<lambda>s d coming w. (length d, w)),
     us_socket_write2 = (\<lambda>s h p w. (length h + length p, w)), us_socket_timeout = (\<lambda>s n w. w), us_socket_shutdown = (\<lambda>s w. w),
     us_socket_shutdown_read = (\<lambda>s w. w), us_socket_is_shut_down = (\<lambda>s w. False), us_poll_events = (\<lambda>s w. 0),
     us_poll_change = (\<lambda>s n w. w), us_socket_remote_address = (\<lambda>s w. []), us_socket_remote_port = (\<lambda>s w. 0) \<rparr>"

definition telling_env :: "(nat list, unit, LifeEvent list) Env" where
  "telling_env = (plain_env closing_ops)\<lparr> kernel_close := (#),
     contextData := (\<lambda>s. plain_context\<lparr> closeHandler := Some (\<lambda>s code m t. Some (tell (Closed s) t)) \<rparr>) \<rparr>"

definition ending_env :: "(nat list, unit, LifeEvent list) Env" where
  "ending_env = telling_env\<lparr> contextData := (\<lambda>s. plain_context\<lparr>
     pongHandler := Some (\<lambda>s p t. ws_close telling_env s (tell (Delivered s) t)),
     closeHandler := Some (\<lambda>s code m t. Some (tell (Closed s) t)) \<rparr>) \<rparr>"

definition two_pongs :: memory where
  "two_pongs = replicate 14 0 @ concat (replicate 2 [0x8A, 0x80, 0, 0, 0, 0]) @ replicate 32 0"

definition life_server :: "(nat list, unit, LifeEvent list) server" where
  "life_server = idle_server [] []"

definition life_events :: "ServerEvent list" where
  "life_events = [Arrives 5 58 two_pongs 14 12, Arrives 5 58 two_pongs 14 12, IdleTimeout 5, CallClose 5]"

lemma closing_laws: "close_laws telling_env" "close_laws ending_env"
  by (auto simp: close_laws_def telling_env_def ending_env_def plain_env_def closing_ops_def)

lemma telling_run: "well_run telling_env"
  unfolding well_run_def reports_def first_records_def act_keeps_def Let_def
  by (intro conjI allI)
    (use closing_laws in \<open>auto simp: telling_env_def plain_env_def plain_context_def dropped_still_def intro!: exI [of _ Some]\<close>)

lemma ending_life: "life ending_env = life telling_env"
  by (rule ext) (simp add: life_def over_def ending_env_def)

lemma ending_handlers:
  "messageHandler (contextData ending_env s) = None" "droppedHandler (contextData ending_env s) = None"
  "drainHandler (contextData ending_env s) = None" "subscriptionHandler (contextData ending_env s) = None"
  "pingHandler (contextData ending_env s) = None"
  "pongHandler (contextData ending_env s) = Some (\<lambda>s p t. ws_close telling_env s (tell (Delivered s) t))"
  "closeHandler (contextData ending_env s) = Some (\<lambda>s code m t. Some (tell (Closed s) t))"
  by (simp_all add: ending_env_def plain_context_def)

lemma ending_run: "well_run ending_env"
proof -
  have act: "act_keeps ending_env (ws_close telling_env s)" for s
    using ws_close_life [OF telling_run] by (auto simp: act_keeps_def ending_life)
  have close: "first_records ending_env (Closed s) (\<lambda>t. Some (tell (Closed s) t))" for s
    unfolding first_records_def by (intro exI [of _ Some]) (simp add: act_keeps_def)
  have pong: "first_records ending_env (Delivered s) (\<lambda>t. ws_close telling_env s (tell (Delivered s) t))" for s
    unfolding first_records_def using act by blast
  show ?thesis
    using closing_laws close pong by (simp add: well_run_def reports_def dropped_still_def ending_handlers)
qed

lemma life_example: "map_option (\<lambda>t. user (app t)) (serve_all ending_env life_events life_server) = Some [Delivered 5, Closed 5]"
  by code_simp


end
