(* ===== verification/Loop_Defer.thy ===== *)
theory Loop_Defer
  imports Uws_Prelude
begin

text \<open>
  The queues of deferred callbacks of \<open>src/src/LoopData.h\<close>: \<open>Loop::defer\<close>, which any thread may call, and
  the loop's wakeup handler \<open>Loop::wakeupCb\<close> (\<open>src/src/Loop.h\<close>), step by step under every interleaving.

  Thread 0 is the thread of the loop. A step is what one thread does between two points where another one
  may come in; the reads and writes of \<open>deferQueues\<close> outside the mutex are steps of their own. The wakeup of the
  uSockets library is a flag: \<open>us_wakeup_loop\<close> sets it, and the library clears it before it calls the handler.
  Two logs that the code does not have record the callbacks in the order they were queued and run.
\<close>

section \<open>Steps\<close>

datatype 'c DeferPc = Outside | Called 'c | HoldsMutex 'c | HasQueued | HasUnlocked

text \<open>\<open>oldDeferQueue\<close>, the number of callbacks run and the end of the range-based loop.\<close>

datatype WakeupPc = Asleep | Woken | HasMutex | Swapped nat | Draining nat nat nat | Running nat nat nat

record 'c DeferState =
  deferMutex :: "nat option"
  currentDeferQueue :: nat
  deferQueues :: "'c list list"
  wakeup :: bool
  deferring :: "nat \<Rightarrow> 'c DeferPc"
  handler :: WakeupPc
  queued_log :: "'c list"
  run_log :: "'c list"

definition defer_init :: "'c DeferState" where
  "defer_init = \<lparr> deferMutex = None, currentDeferQueue = 0, deferQueues = [[], []], wakeup = False,
     deferring = (\<lambda>t. Outside), handler = Asleep, queued_log = [], run_log = [] \<rparr>"

definition set_pc :: "nat \<Rightarrow> 'c DeferPc \<Rightarrow> 'c DeferState \<Rightarrow> 'c DeferState" where
  "set_pc t p s = s\<lparr> deferring := (deferring s)(t := p) \<rparr>"

text \<open>The thread of the loop may call \<open>defer\<close> from a deferred callback or any other handler.\<close>

fun in_user_code :: "WakeupPc \<Rightarrow> bool" where
  "in_user_code Asleep = True"
| "in_user_code (Running old i n) = True"
| "in_user_code _ = False"

inductive defer_step :: "nat \<Rightarrow> 'c DeferState \<Rightarrow> 'c DeferState \<Rightarrow> bool" for t where
  call: "deferring s t = Outside \<Longrightarrow> t \<noteq> 0 \<or> in_user_code (handler s) \<Longrightarrow> defer_step t s (set_pc t (Called cb) s)"
| lock: "deferring s t = Called cb \<Longrightarrow> deferMutex s = None \<Longrightarrow>
    defer_step t s (set_pc t (HoldsMutex cb) (s\<lparr> deferMutex := Some t \<rparr>))"
| emplace: "deferring s t = HoldsMutex cb \<Longrightarrow>
    defer_step t s (set_pc t HasQueued (s\<lparr> deferQueues := (deferQueues s)[currentDeferQueue s :=
        deferQueues s ! currentDeferQueue s @ [cb]], queued_log := queued_log s @ [cb] \<rparr>))"
| unlock: "deferring s t = HasQueued \<Longrightarrow> defer_step t s (set_pc t HasUnlocked (s\<lparr> deferMutex := None \<rparr>))"
| wake: "deferring s t = HasUnlocked \<Longrightarrow> defer_step t s (set_pc t Outside (s\<lparr> wakeup := True \<rparr>))"

inductive wakeup_step :: "'c DeferState \<Rightarrow> 'c DeferState \<Rightarrow> bool" where
  start: "handler s = Asleep \<Longrightarrow> wakeup s \<Longrightarrow> deferring s 0 = Outside \<Longrightarrow>
    wakeup_step s (s\<lparr> wakeup := False, handler := Woken \<rparr>)"
| wlock: "handler s = Woken \<Longrightarrow> deferMutex s = None \<Longrightarrow> wakeup_step s (s\<lparr> deferMutex := Some 0, handler := HasMutex \<rparr>)"
| swap: "handler s = HasMutex \<Longrightarrow>
    wakeup_step s (s\<lparr> currentDeferQueue := (currentDeferQueue s + 1) mod 2, handler := Swapped (currentDeferQueue s) \<rparr>)"
| wunlock: "handler s = Swapped old \<Longrightarrow>
    wakeup_step s (s\<lparr> deferMutex := None, handler := Draining old 0 (length (deferQueues s ! old)) \<rparr>)"
| run: "handler s = Draining old i n \<Longrightarrow> i < n \<Longrightarrow>
    wakeup_step s (s\<lparr> handler := Running old i n, run_log := run_log s @ [deferQueues s ! old ! i] \<rparr>)"
| return: "handler s = Running old i n \<Longrightarrow> deferring s 0 = Outside \<Longrightarrow>
    wakeup_step s (s\<lparr> handler := Draining old (i + 1) n \<rparr>)"
| clear: "handler s = Draining old i n \<Longrightarrow> \<not> i < n \<Longrightarrow>
    wakeup_step s (s\<lparr> deferQueues := (deferQueues s)[old := []], handler := Asleep \<rparr>)"

inductive defer_reach :: "'c DeferState \<Rightarrow> bool" where
  init: "defer_reach defer_init"
| thread: "defer_reach s \<Longrightarrow> defer_step t s s' \<Longrightarrow> defer_reach s'"
| loop: "defer_reach s \<Longrightarrow> wakeup_step s s' \<Longrightarrow> defer_reach s'"

section \<open>The invariant\<close>

definition in_section :: "'c DeferState \<Rightarrow> nat \<Rightarrow> bool" where
  "in_section s t \<longleftrightarrow> (\<exists>cb. deferring s t = HoldsMutex cb) \<or> deferring s t = HasQueued \<or>
     (t = 0 \<and> (handler s = HasMutex \<or> (\<exists>old. handler s = Swapped old)))"

text \<open>What was queued has been run, or is in the queue that is drained, or in the current one.\<close>

fun accounted :: "WakeupPc \<Rightarrow> 'c DeferState \<Rightarrow> bool" where
  "accounted (Swapped old) s \<longleftrightarrow> old < 2 \<and> old = 1 - currentDeferQueue s \<and> deferQueues s ! currentDeferQueue s = [] \<and>
     queued_log s = run_log s @ deferQueues s ! old"
| "accounted (Draining old i n) s \<longleftrightarrow> old < 2 \<and> old = 1 - currentDeferQueue s \<and> n = length (deferQueues s ! old) \<and> i \<le> n \<and>
     queued_log s = run_log s @ drop i (deferQueues s ! old) @ deferQueues s ! currentDeferQueue s"
| "accounted (Running old i n) s \<longleftrightarrow> old < 2 \<and> old = 1 - currentDeferQueue s \<and> n = length (deferQueues s ! old) \<and> i < n \<and>
     queued_log s = run_log s @ drop (i + 1) (deferQueues s ! old) @ deferQueues s ! currentDeferQueue s"
| "accounted _ s \<longleftrightarrow> deferQueues s ! (1 - currentDeferQueue s) = [] \<and>
     queued_log s = run_log s @ deferQueues s ! currentDeferQueue s"

text \<open>While something is queued, the handler is about to come or to swap.\<close>

definition will_wake :: "'c DeferState \<Rightarrow> bool" where
  "will_wake s \<longleftrightarrow> wakeup s \<or> (\<exists>t. deferring s t = HasQueued \<or> deferring s t = HasUnlocked) \<or>
     handler s = Woken \<or> handler s = HasMutex"

definition defer_inv :: "'c DeferState \<Rightarrow> bool" where
  "defer_inv s \<longleftrightarrow> length (deferQueues s) = 2 \<and> currentDeferQueue s < 2 \<and>
     (\<forall>t. in_section s t \<longleftrightarrow> deferMutex s = Some t) \<and>
     (in_user_code (handler s) \<or> deferring s 0 = Outside) \<and>
     accounted (handler s) s \<and>
     (deferQueues s ! currentDeferQueue s = [] \<or> will_wake s)"

lemma defer_init_inv: "defer_inv defer_init"
  by (simp add: defer_inv_def defer_init_def in_section_def)

lemma set_pc_simps [simp]:
  "deferring (set_pc t p s) = (deferring s)(t := p)" "deferMutex (set_pc t p s) = deferMutex s"
  "currentDeferQueue (set_pc t p s) = currentDeferQueue s" "deferQueues (set_pc t p s) = deferQueues s"
  "wakeup (set_pc t p s) = wakeup s" "handler (set_pc t p s) = handler s"
  "queued_log (set_pc t p s) = queued_log s" "run_log (set_pc t p s) = run_log s"
  by (simp_all add: set_pc_def)

lemma two_queues: "length qs = (2::nat) \<Longrightarrow> \<exists>a b. qs = [a, b]"
  by (cases qs; cases "tl qs") auto

lemma queue_update:
  assumes "length qs = 2" and "c < (2::nat)"
  shows "qs[c := x] ! c = x" "qs[c := x] ! (1 - c) = qs ! (1 - c)" "qs[1 - c := x] ! c = qs ! c" "qs[1 - c := x] ! (1 - c) = x"
proof -
  have "c = 0 \<or> c = 1" using assms(2) by auto
  then show "qs[c := x] ! c = x" "qs[c := x] ! (1 - c) = qs ! (1 - c)" "qs[1 - c := x] ! c = qs ! c" "qs[1 - c := x] ! (1 - c) = x"
    using two_queues [OF assms(1)] by auto
qed

text \<open>What the invariant says of the queues when a thread queues a callback.\<close>

lemma accounted_emplace:
  assumes a: "accounted (handler s) s" and q: "length (deferQueues s) = 2" "currentDeferQueue s < 2"
    and free: "handler s \<noteq> HasMutex" "\<And>old. handler s \<noteq> Swapped old"
    and s': "deferQueues s' = (deferQueues s)[currentDeferQueue s := deferQueues s ! currentDeferQueue s @ [cb]]"
      "queued_log s' = queued_log s @ [cb]" "run_log s' = run_log s" "currentDeferQueue s' = currentDeferQueue s"
  shows "accounted (handler s) s'"
proof -
  note u = queue_update [OF q, of "deferQueues s ! currentDeferQueue s @ [cb]"]
  show ?thesis using a free u(1, 2) by (cases "handler s") (auto simp: s')
qed

lemma accounted_same:
  "accounted p s \<Longrightarrow> deferQueues s' = deferQueues s \<Longrightarrow> queued_log s' = queued_log s \<Longrightarrow> run_log s' = run_log s \<Longrightarrow>
    currentDeferQueue s' = currentDeferQueue s \<Longrightarrow> accounted p s'"
  by (cases p) auto

lemma will_wake_mono:
  assumes "will_wake s" and "wakeup s' = wakeup s" and "handler s' = handler s"
    and "\<And>u. deferring s u = HasQueued \<or> deferring s u = HasUnlocked \<Longrightarrow> deferring s' u = deferring s u"
  shows "will_wake s'"
  using assms(1) unfolding will_wake_def assms(2, 3) by (metis assms(4))

lemma defer_invD:
  assumes "defer_inv s"
  shows "length (deferQueues s) = 2" "currentDeferQueue s < 2" "in_section s t \<longleftrightarrow> deferMutex s = Some t"
    "in_user_code (handler s) \<or> deferring s 0 = Outside" "accounted (handler s) s"
    "deferQueues s ! currentDeferQueue s = [] \<or> will_wake s"
  using assms by (simp_all add: defer_inv_def)

lemma defer_step_inv:
  assumes "defer_step t s s'" and inv: "defer_inv s"
  shows "defer_inv s'"
  using assms(1)
proof (cases rule: defer_step.cases)
  note D = defer_invD [OF inv]
  case (call cb)
  have "in_section s' u = in_section s u" for u using call by (simp add: in_section_def)
  moreover have "accounted (handler s) s'" by (rule accounted_same [OF D(5)]) (simp_all add: call)
  moreover have "will_wake s \<Longrightarrow> will_wake s'" by (rule will_wake_mono) (use call in auto)
  ultimately show ?thesis using call D unfolding defer_inv_def by auto
next
  note D = defer_invD [OF inv]
  case (lock cb)
  have free: "\<not> in_section s u" for u using D(3) lock by simp
  have "in_section s' u \<longleftrightarrow> u = t" for u
    using free [of u] lock by (auto simp: in_section_def)
  moreover have "accounted (handler s) s'" by (rule accounted_same [OF D(5)]) (simp_all add: lock)
  moreover have "will_wake s \<Longrightarrow> will_wake s'" by (rule will_wake_mono) (use lock in auto)
  ultimately show ?thesis using lock D unfolding defer_inv_def by auto
next
  note D = defer_invD [OF inv]
  case (emplace cb)
  have sec: "in_section s' u = in_section s u" for u using emplace by (auto simp: in_section_def)
  have t: "deferMutex s = Some t" using emplace D(3) [of t] by (simp add: in_section_def)
  then have "handler s \<noteq> HasMutex" "\<And>old. handler s \<noteq> Swapped old"
    using D(3) [of 0] D(4) emplace by (auto simp: in_section_def)
  then have "accounted (handler s) s'"
    using accounted_emplace [of s s' cb] D emplace by simp
  moreover have "will_wake s'" using emplace by (auto simp: will_wake_def)
  ultimately show ?thesis using emplace D sec unfolding defer_inv_def by auto
next
  note D = defer_invD [OF inv]
  case unlock
  have t: "deferMutex s = Some t" using unlock D(3) [of t] by (simp add: in_section_def)
  have "\<not> in_section s' u" for u
    using D(3) [of u] D(4) t unlock by (cases "u = t") (auto simp: in_section_def)
  moreover have "accounted (handler s) s'" by (rule accounted_same [OF D(5)]) (simp_all add: unlock)
  moreover have "will_wake s'" using unlock by (auto simp: will_wake_def)
  ultimately show ?thesis using unlock D unfolding defer_inv_def by auto
next
  note D = defer_invD [OF inv]
  case wake
  have "in_section s' u = in_section s u" for u using wake by (simp add: in_section_def)
  moreover have "accounted (handler s) s'" by (rule accounted_same [OF D(5)]) (simp_all add: wake)
  moreover have "will_wake s'" using wake by (auto simp: will_wake_def)
  ultimately show ?thesis using wake D unfolding defer_inv_def by auto
qed

lemma will_wake_woken: "handler s = Woken \<or> handler s = HasMutex \<Longrightarrow> will_wake s"
  by (auto simp: will_wake_def)

lemma wakeup_step_inv:
  assumes "wakeup_step s s'" and inv: "defer_inv s"
  shows "defer_inv s'"
  using assms(1)
proof (cases rule: wakeup_step.cases)
  note D = defer_invD [OF inv]
  case start
  have "in_section s' u = in_section s u" for u using start by (auto simp: in_section_def)
  then show ?thesis using start D will_wake_woken [of s'] unfolding defer_inv_def by auto
next
  note D = defer_invD [OF inv]
  case wlock
  have "in_section s' u \<longleftrightarrow> u = 0" for u using D(3) [of u] wlock by (auto simp: in_section_def)
  then show ?thesis using wlock D will_wake_woken [of s'] unfolding defer_inv_def by auto
next
  note D = defer_invD [OF inv]
  case swap
  have "in_section s' u = in_section s u" for u using swap by (auto simp: in_section_def)
  moreover have "currentDeferQueue s = 0 \<or> currentDeferQueue s = 1" using D(2) by auto
  ultimately show ?thesis using swap D unfolding defer_inv_def by auto
next
  note D = defer_invD [OF inv]
  case (wunlock old)
  have m: "deferMutex s = Some 0" using D(3) [of 0] wunlock by (auto simp: in_section_def)
  have "\<not> in_section s' u" for u
    using D(3) [of u] D(4) m wunlock by (cases "u = 0") (auto simp: in_section_def)
  then show ?thesis using wunlock D unfolding defer_inv_def by auto
next
  note D = defer_invD [OF inv]
  case (run old i n)
  have "in_section s' u = in_section s u" for u using run by (auto simp: in_section_def)
  moreover have "drop i (deferQueues s ! old) = deferQueues s ! old ! i # drop (i + 1) (deferQueues s ! old)"
    using D(5) run by (simp add: Cons_nth_drop_Suc)
  moreover have "will_wake s \<Longrightarrow> will_wake s'" using run by (auto simp: will_wake_def)
  ultimately show ?thesis using run D unfolding defer_inv_def by auto
next
  note D = defer_invD [OF inv]
  case (return old i n)
  have "in_section s' u = in_section s u" for u using return by (auto simp: in_section_def)
  moreover have "will_wake s \<Longrightarrow> will_wake s'" using return by (auto simp: will_wake_def)
  ultimately show ?thesis using return D unfolding defer_inv_def by auto
next
  note D = defer_invD [OF inv]
  case (clear old i n)
  have "in_section s' u = in_section s u" for u using clear by (auto simp: in_section_def)
  moreover have "will_wake s \<Longrightarrow> will_wake s'" using clear by (auto simp: will_wake_def)
  moreover note queue_update [OF D(1, 2), of "[]"]
  ultimately show ?thesis using clear D unfolding defer_inv_def by auto
qed

lemma defer_reach_inv: "defer_reach s \<Longrightarrow> defer_inv s"
  by (induction rule: defer_reach.induct) (auto intro: defer_init_inv defer_step_inv wakeup_step_inv)

section \<open>Exactly once, in order\<close>

fun drained :: "WakeupPc \<Rightarrow> nat option" where
  "drained (Draining old i n) = Some old"
| "drained (Running old i n) = Some old"
| "drained _ = None"

definition at_rest :: "'c DeferState \<Rightarrow> bool" where
  "at_rest s \<longleftrightarrow> \<not> wakeup s \<and> handler s = Asleep \<and> (\<forall>t. deferring s t = Outside)"

text \<open>A thread that is inside \<open>defer\<close> and the handler can go on, but for the mutex, and then its holder can.\<close>

lemma defer_goes_on:
  assumes "deferring s t \<noteq> Outside" and "deferMutex s = None \<or> (\<exists>cb. deferring s t = HoldsMutex cb) \<or> deferring s t = HasQueued"
  shows "\<exists>s'. defer_step t s s'"
  using assms by (cases "deferring s t") (auto intro: defer_step.intros)

lemma defer_progress:
  assumes "defer_inv s" and "\<not> at_rest s"
  shows "\<exists>s'. wakeup_step s s' \<or> (\<exists>t. deferring s t \<noteq> Outside \<and> defer_step t s s')"
proof -
  note D = defer_invD [OF assms(1)]
  show ?thesis
  proof (cases "deferMutex s")
    case (Some t)
    then have t: "in_section s t" using D(3) by simp
    show ?thesis
    proof (cases "deferring s t = Outside")
      case True
      then show ?thesis using t by (auto simp: in_section_def intro: wakeup_step.intros)
    next
      case False
      then have "(\<exists>cb. deferring s t = HoldsMutex cb) \<or> deferring s t = HasQueued"
        using t D(4) by (auto simp: in_section_def)
      then show ?thesis using defer_goes_on False by blast
    qed
  next
    case None
    show ?thesis
    proof (cases "\<exists>t. deferring s t \<noteq> Outside")
      case True
      then show ?thesis using defer_goes_on None by blast
    next
      case False
      then have out: "deferring s t = Outside" for t by blast
      show ?thesis
      proof (cases "handler s")
        case Asleep
        then show ?thesis using assms(2) out by (auto simp: at_rest_def intro: wakeup_step.intros)
      next
        case (Draining old i n)
        then show ?thesis by (cases "i < n") (auto intro: wakeup_step.intros)
      qed (use out None in \<open>auto intro: wakeup_step.intros\<close>)
    qed
  qed
qed

section \<open>Playing a schedule\<close>

text \<open>The next step of a thread, which calls \<open>defer\<close> with \<open>cb\<close> if it is not inside; the next step of the handler.\<close>

definition defer_move :: "nat \<Rightarrow> 'c \<Rightarrow> 'c DeferState \<Rightarrow> 'c DeferState option" where
  "defer_move t cb s =
     (case deferring s t of
        Outside \<Rightarrow> if t \<noteq> 0 \<or> in_user_code (handler s) then Some (set_pc t (Called cb) s) else None
      | Called c \<Rightarrow> if deferMutex s = None then Some (set_pc t (HoldsMutex c) (s\<lparr> deferMutex := Some t \<rparr>)) else None
      | HoldsMutex c \<Rightarrow> Some (set_pc t HasQueued (s\<lparr> deferQueues := (deferQueues s)[currentDeferQueue s :=
          deferQueues s ! currentDeferQueue s @ [c]], queued_log := queued_log s @ [c] \<rparr>))
      | HasQueued \<Rightarrow> Some (set_pc t HasUnlocked (s\<lparr> deferMutex := None \<rparr>))
      | HasUnlocked \<Rightarrow> Some (set_pc t Outside (s\<lparr> wakeup := True \<rparr>)))"

definition wakeup_move :: "'c DeferState \<Rightarrow> 'c DeferState option" where
  "wakeup_move s =
     (case handler s of
        Asleep \<Rightarrow> if wakeup s \<and> deferring s 0 = Outside then Some (s\<lparr> wakeup := False, handler := Woken \<rparr>) else None
      | Woken \<Rightarrow> if deferMutex s = None then Some (s\<lparr> deferMutex := Some 0, handler := HasMutex \<rparr>) else None
      | HasMutex \<Rightarrow>
          Some (s\<lparr> currentDeferQueue := (currentDeferQueue s + 1) mod 2, handler := Swapped (currentDeferQueue s) \<rparr>)
      | Swapped old \<Rightarrow> Some (s\<lparr> deferMutex := None, handler := Draining old 0 (length (deferQueues s ! old)) \<rparr>)
      | Draining old i n \<Rightarrow>
          if i < n then Some (s\<lparr> handler := Running old i n, run_log := run_log s @ [deferQueues s ! old ! i] \<rparr>)
          else Some (s\<lparr> deferQueues := (deferQueues s)[old := []], handler := Asleep \<rparr>)
      | Running old i n \<Rightarrow> if deferring s 0 = Outside then Some (s\<lparr> handler := Draining old (i + 1) n \<rparr>) else None)"

lemma defer_move_step: "defer_move t cb s = Some s' \<Longrightarrow> defer_step t s s'"
  by (auto simp: defer_move_def intro: defer_step.intros split: DeferPc.splits if_splits)

lemma wakeup_move_step: "wakeup_move s = Some s' \<Longrightarrow> wakeup_step s s'"
  by (auto simp: wakeup_move_def intro: wakeup_step.intros [simplified] split: WakeupPc.splits if_splits)

text \<open>A schedule: None is the handler, a thread comes with what it defers.\<close>

fun play :: "(nat \<times> 'c) option list \<Rightarrow> 'c DeferState \<Rightarrow> 'c DeferState option" where
  "play [] s = Some s"
| "play (None # ms) s = Option.bind (wakeup_move s) (play ms)"
| "play (Some (t, cb) # ms) s = Option.bind (defer_move t cb s) (play ms)"

lemma play_reach: "play ms s = Some s' \<Longrightarrow> defer_reach s \<Longrightarrow> defer_reach s'"
proof (induction ms s rule: play.induct)
  case (2 ms s)
  then show ?case by (auto split: bind_splits dest: wakeup_move_step intro: defer_reach.loop)
next
  case (3 t cb ms s)
  then show ?case by (auto split: bind_splits dest: defer_move_step intro: defer_reach.thread)
qed simp

text \<open>Thread 1 defers 7, and 7, when it runs, defers 8 while thread 2 defers 9.\<close>

definition defer_schedule :: "(nat \<times> nat) option list" where
  "defer_schedule = replicate 5 (Some (1, 7)) @ replicate 5 None @ replicate 4 (Some (0, 8)) @ replicate 5 (Some (2, 9)) @
     [Some (0, 8)] @ replicate 11 None"

lemma defer_example: "map_option (\<lambda>s. (queued_log s, run_log s, handler s, wakeup s, map (deferring s) [0, 1, 2]))
    (play defer_schedule defer_init) = Some ([7, 8, 9], [7, 8, 9], Asleep, False, [Outside, Outside, Outside])"
  by code_simp

text \<open>C7: Whatever threads call defer and however their steps and the loop's interleave: callbacks run once each and in
  the order in which they were queued; the queue that is drained, which is read without the mutex, is never the
  one that defer appends to; and unless everything is at rest some thread can go on, while at rest every
  callback that was deferred has been run: no wakeup is lost.\<close>

theorem deferred_once_in_order:
  assumes "defer_reach s"
  shows "(\<exists>rest. queued_log s = run_log s @ rest) \<and> drained (handler s) \<noteq> Some (currentDeferQueue s) \<and>
    (if at_rest s then run_log s = queued_log s
     else \<exists>s'. wakeup_step s s' \<or> (\<exists>t. deferring s t \<noteq> Outside \<and> defer_step t s s'))"
proof -
  have inv: "defer_inv s" by (rule defer_reach_inv [OF assms])
  note D = defer_invD [OF inv]
  have other: "1 - currentDeferQueue s \<noteq> currentDeferQueue s" using D(2) by arith
  have order: "(\<exists>rest. queued_log s = run_log s @ rest) \<and> drained (handler s) \<noteq> Some (currentDeferQueue s)"
    using other D(5) by (cases "handler s") auto
  show ?thesis
  proof (cases "at_rest s")
    case True
    then have "\<not> will_wake s" by (auto simp: at_rest_def will_wake_def)
    then show ?thesis using order True D(5, 6) by (simp add: at_rest_def)
  next
    case False
    then show ?thesis using order defer_progress [OF inv] by simp
  qed
qed

theorem deferred_once_in_order_witness:
  "\<exists>s. play defer_schedule defer_init = Some s \<and> queued_log s = [7, 8, 9] \<and>
    (\<exists>rest. queued_log s = run_log s @ rest) \<and> drained (handler s) \<noteq> Some (currentDeferQueue s)"
proof -
  obtain s where s: "play defer_schedule defer_init = Some s" "queued_log s = [7, 8, 9]" using defer_example by auto
  have "defer_reach s" by (rule play_reach [OF s(1) defer_reach.init])
  from deferred_once_in_order [OF this] s show ?thesis by blast
qed

end
