(* ===== verification/Per_Message_Deflate.thy ===== *)
theory Per_Message_Deflate
  imports Ws_Context
begin

text \<open>
  The compression streams of \<open>src/src/PerMessageDeflate.h\<close>, as compiled with zlib and without libdeflate:
  the loops around zlib's \<open>deflate\<close> and \<open>inflate\<close>, the tail that messages are sent without, and the limit on what
  a message may grow to.

  zlib is a parameter: a call gets the stream, the input and the room for output, and gives its result, the
  output, the input that is left and the stream. What is relied on is in \<open>deflate_law\<close> and \<open>inflate_law\<close>.
\<close>

section \<open>Streams\<close>

definition LARGE_BUFFER_SIZE :: nat where "LARGE_BUFFER_SIZE = 1024 * 16"

definition Z_OK :: int where "Z_OK = 0"
definition Z_STREAM_END :: int where "Z_STREAM_END = 1"
definition Z_BUF_ERROR :: int where "Z_BUF_ERROR = -5"

type_synonym 'z z_call = "'z \<Rightarrow> byte list \<Rightarrow> nat \<Rightarrow> int \<times> byte list \<times> byte list \<times> 'z"

record 'z Zlib =
  z_deflateInit2 :: "int \<Rightarrow> int \<Rightarrow> 'z"
  z_deflate :: "'z z_call"
  z_deflateReset :: "'z \<Rightarrow> 'z"
  z_inflateInit2 :: "int \<Rightarrow> 'z"
  z_inflate :: "'z z_call"
  z_inflateReset :: "'z \<Rightarrow> 'z"

definition deflationStream_new :: "'z Zlib \<Rightarrow> u16 \<Rightarrow> 'z" where
  "deflationStream_new zl compressOptions =
     z_deflateInit2 zl (- uint (drop_bit 4 (compressOptions AND COMPRESSOR_MASK))) (uint (compressOptions AND 0xF))"

definition inflationStream_new :: "'z Zlib \<Rightarrow> u16 \<Rightarrow> 'z" where
  "inflationStream_new zl compressOptions = z_inflateInit2 zl (- uint (drop_bit 8 compressOptions))"

section \<open>Deflate\<close>

text \<open>The loop returns \<open>dynamicDeflationBuffer\<close> and what the last call left in \<open>deflationBuffer\<close>.\<close>

partial_function (option) deflateLoop ::
  "'z Zlib \<Rightarrow> 'z \<Rightarrow> byte list \<Rightarrow> byte list \<Rightarrow> (byte list \<times> byte list \<times> 'z) option" where
  "deflateLoop zl z input dyn =
     (case z_deflate zl z input LARGE_BUFFER_SIZE of
        (err, out, rest, z) \<Rightarrow>
          if err = Z_OK \<and> LARGE_BUFFER_SIZE - length out = 0 then deflateLoop zl z rest (dyn @ out)
          else Some (dyn, out, z))"

text \<open>None is a loop without end, or the overflow of a length when there are not four bytes to leave out.\<close>

definition pmd_deflate :: "'z Zlib \<Rightarrow> 'z \<Rightarrow> byte list \<Rightarrow> bool \<Rightarrow> (byte list \<times> 'z) option" where
  "pmd_deflate zl z raw reset =
     (case deflateLoop zl z raw [] of
        None \<Rightarrow> None
      | Some (dyn, out, z) \<Rightarrow>
          let z = (if reset then z_deflateReset zl z else z) in
          if length dyn \<noteq> 0 then Some (take (length (dyn @ out) - 4) (dyn @ out), z)
          else if length out < 4 then None
          else Some (take (length out - 4) out, z))"

section \<open>Inflate\<close>

partial_function (option) inflateLoop ::
  "'z Zlib \<Rightarrow> nat \<Rightarrow> 'z \<Rightarrow> byte list \<Rightarrow> byte list \<Rightarrow> (int \<times> byte list \<times> byte list \<times> 'z) option" where
  "inflateLoop zl limit z input dyn =
     (case z_inflate zl z input LARGE_BUFFER_SIZE of
        (err, out, rest, z) \<Rightarrow>
          if err = Z_OK \<and> LARGE_BUFFER_SIZE - length out \<noteq> 0 then Some (err, dyn, out, z)
          else if LARGE_BUFFER_SIZE - length out = 0 \<and> length (dyn @ out) \<le> limit
          then inflateLoop zl limit z rest (dyn @ out)
          else Some (err, dyn @ out, out, z))"

definition inflate_tail :: "byte list" where "inflate_tail = [0x00, 0x00, 0xff, 0xff]"

text \<open>What the loop has left becomes the message, or none.\<close>

definition inflate_result :: "nat \<Rightarrow> int \<Rightarrow> byte list \<Rightarrow> byte list \<Rightarrow> byte list option" where
  "inflate_result limit err dyn out =
     (if (err \<noteq> Z_BUF_ERROR \<and> err \<noteq> Z_OK) \<or> length dyn > limit then None
      else if length dyn \<noteq> 0 then (if length (dyn @ out) > limit then None else Some (dyn @ out))
      else if length out > limit then None
      else Some out)"

text \<open>
  The message lies in the memory \<open>m\<close> at \<open>src\<close>; the tail overwrites four bytes behind it, which are put
  back. None is an access outside the memory or a loop without end.
\<close>

definition pmd_inflate ::
  "'z Zlib \<Rightarrow> 'z \<Rightarrow> memory \<Rightarrow> nat \<Rightarrow> nat \<Rightarrow> nat \<Rightarrow> bool \<Rightarrow> (byte list option \<times> memory \<times> 'z) option" where
  "pmd_inflate zl z m src len limit reset =
     (case rd m (src + len) 4 of
        None \<Rightarrow> None
      | Some preTailBytes \<Rightarrow>
        (case wr m (src + len) inflate_tail of
           None \<Rightarrow> None
         | Some m \<Rightarrow>
           (case rd m src (len + 4) of
              None \<Rightarrow> None
            | Some compressed \<Rightarrow>
              (case inflateLoop zl limit z compressed [] of
                 None \<Rightarrow> None
               | Some (err, dyn, out, z) \<Rightarrow>
                   let z = (if reset then z_inflateReset zl z else z) in
                   (case wr m (src + len) preTailBytes of
                      None \<Rightarrow> None
                    | Some m \<Rightarrow> Some (inflate_result limit err dyn out, m, z))))))"

section \<open>What zlib promises\<close>

text \<open>
  With \<open>Z_SYNC_FLUSH\<close>: for a stream and an input there is a whole output and a stream behind it; each call
  gives as much of that output as there is room for. A call that fills the room returns \<open>Z_OK\<close> and leaves the
  rest to the next.
\<close>

definition deflate_law :: "'z Zlib \<Rightarrow> ('z \<Rightarrow> byte list \<Rightarrow> byte list) \<Rightarrow> ('z \<Rightarrow> byte list \<Rightarrow> 'z) \<Rightarrow> bool" where
  "deflate_law zl whole behind \<longleftrightarrow> (\<forall>z input n err out rest z'. 0 < n \<longrightarrow> z_deflate zl z input n = (err, out, rest, z') \<longrightarrow>
     out = take n (whole z input) \<and>
     (if length out = n then err = Z_OK \<and> whole z' rest = drop n (whole z input) \<and> behind z' rest = behind z input
      else z' = behind z input))"

text \<open>
  A compressed message may be bad: then some output comes before the error. Without an error a call that does not
  fill the room returns \<open>Z_OK\<close>, or \<open>Z_BUF_ERROR\<close> if it made no progress.
\<close>

definition inflate_law ::
  "'z Zlib \<Rightarrow> ('z \<Rightarrow> byte list \<Rightarrow> byte list) \<Rightarrow> ('z \<Rightarrow> byte list \<Rightarrow> bool) \<Rightarrow> ('z \<Rightarrow> byte list \<Rightarrow> 'z) \<Rightarrow> bool" where
  "inflate_law zl whole good behind \<longleftrightarrow> (\<forall>z input n err out rest z'. 0 < n \<longrightarrow> z_inflate zl z input n = (err, out, rest, z') \<longrightarrow>
     out = take n (whole z input) \<and>
     (if length out = n then err = Z_OK \<and> whole z' rest = drop n (whole z input) \<and> good z' rest = good z input \<and>
        behind z' rest = behind z input
      else if good z input then (err = Z_OK \<or> (err = Z_BUF_ERROR \<and> out = [])) \<and> z' = behind z input
      else err \<noteq> Z_OK \<and> err \<noteq> Z_BUF_ERROR))"

lemma large_pos [simp]: "0 < LARGE_BUFFER_SIZE"
  by (simp add: LARGE_BUFFER_SIZE_def)

lemma deflateLoop_exact:
  assumes law: "deflate_law zl whole behind"
  shows "\<exists>dyn' out. deflateLoop zl z input dyn = Some (dyn', out, behind z input) \<and> dyn' @ out = dyn @ whole z input \<and>
    (dyn' = dyn \<or> LARGE_BUFFER_SIZE \<le> length dyn')"
proof (induction "length (whole z input)" arbitrary: z input dyn rule: less_induct)
  case less
  obtain err out rest z' where c: "z_deflate zl z input LARGE_BUFFER_SIZE = (err, out, rest, z')" by (metis prod_cases4)
  have l: "out = take LARGE_BUFFER_SIZE (whole z input)"
    "length out = LARGE_BUFFER_SIZE \<Longrightarrow> err = Z_OK \<and> whole z' rest = drop LARGE_BUFFER_SIZE (whole z input) \<and> behind z' rest = behind z input"
    "length out \<noteq> LARGE_BUFFER_SIZE \<Longrightarrow> z' = behind z input"
    using law c large_pos unfolding deflate_law_def by (metis)+
  show ?case
  proof (cases "length out = LARGE_BUFFER_SIZE")
    case True
    note n = l(2) [OF True]
    have "LARGE_BUFFER_SIZE \<le> length (whole z input)" using True l(1) by simp
    then have "length (whole z' rest) < length (whole z input)" using n large_pos by (metis diff_less length_drop less_le_trans)
    from less [OF this, of "dyn @ out"] n obtain dyn' out' where
      r: "deflateLoop zl z' rest (dyn @ out) = Some (dyn', out', behind z input)" "dyn' @ out' = (dyn @ out) @ whole z' rest"
      "dyn' = dyn @ out \<or> LARGE_BUFFER_SIZE \<le> length dyn'" by auto
    have "out @ whole z' rest = whole z input" using n l(1) append_take_drop_id [of LARGE_BUFFER_SIZE "whole z input"] by simp
    then show ?thesis
      using r True n by (subst deflateLoop.simps) (auto simp: c)
  next
    case False
    then have "length out < LARGE_BUFFER_SIZE" "out = whole z input" using l(1) by (auto simp: min_def split: if_splits)
    then show ?thesis using l(3) [OF False] by (subst deflateLoop.simps) (simp add: c)
  qed
qed

lemma deflate_exact:
  assumes "deflate_law zl whole behind" and "4 \<le> length (whole z raw)"
  shows "pmd_deflate zl z raw reset = Some (take (length (whole z raw) - 4) (whole z raw),
    if reset then z_deflateReset zl (behind z raw) else behind z raw)"
proof -
  obtain dyn out where r: "deflateLoop zl z raw [] = Some (dyn, out, behind z raw)" "dyn @ out = [] @ whole z raw"
    "dyn = [] \<or> LARGE_BUFFER_SIZE \<le> length dyn"
    using deflateLoop_exact [OF assms(1), of z raw "[]"] by metis
  have e: "dyn @ out = whole z raw" using r(2) by simp
  show ?thesis
  proof (cases "dyn = []")
    case True
    then have "out = whole z raw" using e by simp
    then show ?thesis using True r(1) assms(2) by (simp add: pmd_deflate_def)
  next
    case False
    then show ?thesis unfolding pmd_deflate_def r(1) option.case prod.case Let_def e by simp
  qed
qed

text \<open>The loop keeps inside the limit but for the last room.\<close>

lemma inflateLoop_exact:
  assumes law: "inflate_law zl whole good behind" and "length dyn \<le> limit" and "dyn = [] \<or> LARGE_BUFFER_SIZE \<le> length dyn"
  shows "\<exists>err dyn' out z'. inflateLoop zl limit z input dyn = Some (err, dyn', out, z') \<and>
    inflate_result limit err dyn' out = (if good z input \<and> length (dyn @ whole z input) \<le> limit then Some (dyn @ whole z input) else None) \<and>
    (good z input \<and> length (dyn @ whole z input) \<le> limit \<longrightarrow> z' = behind z input)"
  using assms(2, 3)
proof (induction "length (whole z input)" arbitrary: z input dyn rule: less_induct)
  case less
  obtain err out rest z' where c: "z_inflate zl z input LARGE_BUFFER_SIZE = (err, out, rest, z')" by (metis prod_cases4)
  have l: "out = take LARGE_BUFFER_SIZE (whole z input)"
    "length out = LARGE_BUFFER_SIZE \<Longrightarrow> err = Z_OK \<and> whole z' rest = drop LARGE_BUFFER_SIZE (whole z input) \<and> good z' rest = good z input \<and>
      behind z' rest = behind z input"
    "length out \<noteq> LARGE_BUFFER_SIZE \<Longrightarrow> good z input \<Longrightarrow> (err = Z_OK \<or> (err = Z_BUF_ERROR \<and> out = [])) \<and> z' = behind z input"
    "length out \<noteq> LARGE_BUFFER_SIZE \<Longrightarrow> \<not> good z input \<Longrightarrow> err \<noteq> Z_OK \<and> err \<noteq> Z_BUF_ERROR"
    using law c large_pos unfolding inflate_law_def by metis+
  show ?case
  proof (cases "length out = LARGE_BUFFER_SIZE")
    case True
    note n = l(2) [OF True]
    have "LARGE_BUFFER_SIZE \<le> length (whole z input)" using True l(1) by simp
    then have dec: "length (whole z' rest) < length (whole z input)" using n large_pos by (metis diff_less length_drop less_le_trans)
    have w: "out @ whole z' rest = whole z input" using n l(1) append_take_drop_id [of LARGE_BUFFER_SIZE "whole z input"] by simp
    show ?thesis
    proof (cases "length (dyn @ out) \<le> limit")
      case small: True
      have "dyn @ out = [] \<or> LARGE_BUFFER_SIZE \<le> length (dyn @ out)" using True by simp
      from less.hyps [OF dec small this] n obtain err' dyn' out' z'' where
        r: "inflateLoop zl limit z' rest (dyn @ out) = Some (err', dyn', out', z'')"
        "inflate_result limit err' dyn' out' = (if good z input \<and> length ((dyn @ out) @ whole z' rest) \<le> limit then Some ((dyn @ out) @ whole z' rest) else None)"
        "good z input \<and> length ((dyn @ out) @ whole z' rest) \<le> limit \<longrightarrow> z'' = behind z input" by metis
      have "inflateLoop zl limit z input dyn = Some (err', dyn', out', z'')"
        using r(1) True small n by (subst inflateLoop.simps) (simp add: c)
      then show ?thesis using r(2, 3) unfolding append_assoc w by blast
    next
      case big: False
      then have "inflateLoop zl limit z input dyn = Some (err, dyn @ out, out, z')"
        using True n by (subst inflateLoop.simps) (simp add: c)
      moreover have "\<not> length (dyn @ whole z input) \<le> limit" using big w by (metis length_append add_leD1 add.assoc)
      ultimately show ?thesis using big by (simp add: inflate_result_def)
    qed
  next
    case False
    then have out: "length out < LARGE_BUFFER_SIZE" "out = whole z input" using l(1) by (auto simp: min_def split: if_splits)
    show ?thesis
    proof (cases "err = Z_OK")
      case True
      then have "good z input" using l(4) [OF False] by blast
      then have "inflateLoop zl limit z input dyn = Some (err, dyn, out, behind z input)"
        using True out(1) l(3) [OF False] by (subst inflateLoop.simps) (simp add: c)
      moreover have "inflate_result limit err dyn out = (if length (dyn @ whole z input) \<le> limit then Some (dyn @ whole z input) else None)"
        using True less.prems out(2) by (cases dyn) (simp_all add: inflate_result_def)
      ultimately show ?thesis using \<open>good z input\<close> by simp
    next
      case err: False
      then have e: "inflateLoop zl limit z input dyn = Some (err, dyn @ out, out, z')"
        using out(1) by (subst inflateLoop.simps) (simp add: c)
      show ?thesis
      proof (cases "good z input")
        case True
        then have "err = Z_BUF_ERROR" "out = []" "z' = behind z input" using l(3) [OF False] err by auto
        then show ?thesis using e True less.prems out(2) by (simp add: inflate_result_def)
      next
        case bad: False
        then show ?thesis using e l(4) [OF False] by (simp add: inflate_result_def)
      qed
    qed
  qed
qed

section \<open>The memory is put back\<close>

lemma wr_split: "m = a @ b @ c \<Longrightarrow> length a = p \<Longrightarrow> length b = length bs \<Longrightarrow> wr m p bs = Some (a @ bs @ c)"
  by (auto simp: wr_def)

lemma rd_split: "m = a @ b @ c \<Longrightarrow> length a = p \<Longrightarrow> length b = n \<Longrightarrow> rd m p n = Some b"
  by (auto simp: rd_def)


section \<open>Messages through both streams\<close>

text \<open>
  Two ends: what one end deflates for a nonempty message ends with the tail, and the other end, at the same place of
  the stream, inflates it to the message; then both are at the same place again.
\<close>

definition paired ::
  "('z \<Rightarrow> byte list \<Rightarrow> byte list) \<Rightarrow> ('z \<Rightarrow> byte list \<Rightarrow> 'z) \<Rightarrow> ('z \<Rightarrow> byte list \<Rightarrow> byte list) \<Rightarrow> ('z \<Rightarrow> byte list \<Rightarrow> bool) \<Rightarrow>
   ('z \<Rightarrow> byte list \<Rightarrow> 'z) \<Rightarrow> ('z \<Rightarrow> 'z \<Rightarrow> bool) \<Rightarrow> bool" where
  "paired wholeD behindD wholeI good behindI sync \<longleftrightarrow> (\<forall>d i raw. sync d i \<longrightarrow> raw \<noteq> [] \<longrightarrow>
     (\<exists>c. wholeD d raw = c @ inflate_tail \<and> good i (wholeD d raw) \<and> wholeI i (wholeD d raw) = raw \<and>
        sync (behindD d raw) (behindI i (wholeD d raw))))"

text \<open>Messages are deflated by one end and inflated by the other, with any bytes behind them in the buffer.\<close>

fun exchange :: "'z Zlib \<Rightarrow> nat \<Rightarrow> 'z \<Rightarrow> 'z \<Rightarrow> (byte list \<times> byte list) list \<Rightarrow> (byte list option \<times> byte list) list option" where
  "exchange zl limit d i [] = Some []"
| "exchange zl limit d i ((raw, behind) # ms) =
     (case pmd_deflate zl d raw False of
        None \<Rightarrow> None
      | Some (c, d) \<Rightarrow>
          (case pmd_inflate zl i (c @ behind) 0 (length c) limit False of
             None \<Rightarrow> None
           | Some (result, m, i) \<Rightarrow> map_option ((#) (result, drop (length c) m)) (exchange zl limit d i ms)))"

lemma pmd_inflate_good:
  assumes "inflate_law zl whole good behind" and "4 \<le> length rest" and "good z (c @ inflate_tail)"
    and "length (whole z (c @ inflate_tail)) \<le> limit"
  shows "pmd_inflate zl z (c @ rest) 0 (length c) limit False = Some (Some (whole z (c @ inflate_tail)), c @ rest, behind z (c @ inflate_tail))"
proof -
  obtain tail more' where t: "rest = tail @ more'" "length tail = 4"
    using assms(2) by (metis append_take_drop_id length_take min.absorb2)
  have r1: "rd (c @ rest) (0 + length c) 4 = Some tail" by (rule rd_split [of _ c tail more']) (simp_all add: t)
  have w1: "wr (c @ rest) (0 + length c) inflate_tail = Some (c @ inflate_tail @ more')"
    using wr_split [of "c @ rest" c tail more' "length c" inflate_tail] t by (simp add: inflate_tail_def)
  have r2: "rd (c @ inflate_tail @ more') 0 (length c + 4) = Some (c @ inflate_tail)"
    by (rule rd_split [of _ "[]" "c @ inflate_tail" more']) (simp_all add: inflate_tail_def)
  have w2: "wr (c @ inflate_tail @ more') (0 + length c) tail = Some (c @ rest)"
    using wr_split [of "c @ inflate_tail @ more'" c inflate_tail more' "length c" tail] t by (simp add: inflate_tail_def)
  obtain err dyn out where loop: "inflateLoop zl limit z (c @ inflate_tail) [] = Some (err, dyn, out, behind z (c @ inflate_tail))"
    "inflate_result limit err dyn out = Some (whole z (c @ inflate_tail))"
    using inflateLoop_exact [OF assms(1), of "[]" limit z "c @ inflate_tail"] assms(3, 4) by auto
  show ?thesis unfolding pmd_inflate_def r1 w1 option.case r2 loop(1) prod.case Let_def w2 loop(2) by simp
qed


section \<open>A stream that stores\<close>

text \<open>Its state is the output that there was no room for.\<close>

definition stored_calls :: "(byte list \<Rightarrow> byte list) \<Rightarrow> byte list z_call" where
  "stored_calls f z input n =
     (let out = z @ (if input = [] then [] else f input) in
      (if z = [] \<and> input = [] then Z_BUF_ERROR else Z_OK, take n out, [], drop n out))"

definition stored_zlib :: "byte list Zlib" where
  "stored_zlib = \<lparr> z_deflateInit2 = (\<lambda>bits level. []), z_deflate = stored_calls (\<lambda>d. d @ inflate_tail), z_deflateReset = (\<lambda>z. []),
     z_inflateInit2 = (\<lambda>bits. []), z_inflate = stored_calls (\<lambda>d. take (length d - 4) d), z_inflateReset = (\<lambda>z. []) \<rparr>"

definition stored_whole :: "(byte list \<Rightarrow> byte list) \<Rightarrow> byte list \<Rightarrow> byte list \<Rightarrow> byte list" where
  "stored_whole f z input = z @ (if input = [] then [] else f input)"

lemma stored_deflate_law: "deflate_law stored_zlib (stored_whole (\<lambda>d. d @ inflate_tail)) (\<lambda>z input. [])"
  by (auto simp: deflate_law_def stored_zlib_def stored_calls_def stored_whole_def Let_def min_def split: if_splits)

lemma stored_inflate_law:
  "inflate_law stored_zlib (stored_whole (\<lambda>d. take (length d - 4) d)) (\<lambda>z input. True) (\<lambda>z input. [])"
  by (auto simp: inflate_law_def stored_zlib_def stored_calls_def stored_whole_def Let_def min_def split: if_splits)

lemma stored_paired: "paired (stored_whole (\<lambda>d. d @ inflate_tail)) (\<lambda>z input. []) (stored_whole (\<lambda>d. take (length d - 4) d))
    (\<lambda>z input. True) (\<lambda>z input. []) (\<lambda>d i. d = [] \<and> i = [])"
  by (auto simp: paired_def stored_whole_def inflate_tail_def)



section \<open>Final blocks\<close>

text \<open>A message whose last block is final (RFC 7692, section 7.2.3.4) is refused: the end of a stream is not \<open>Z_OK\<close>.\<close>

lemma final_block_refused:
  assumes "z_inflate zl z input LARGE_BUFFER_SIZE = (Z_STREAM_END, out, rest, z')" and "length out < LARGE_BUFFER_SIZE"
  shows "\<exists>dyn. inflateLoop zl limit z input [] = Some (Z_STREAM_END, dyn, out, z') \<and>
    inflate_result limit Z_STREAM_END dyn out = None"
proof -
  have "inflateLoop zl limit z input [] = Some (Z_STREAM_END, out, out, z')"
    using assms by (subst inflateLoop.simps) (simp add: Z_OK_def Z_STREAM_END_def)
  then show ?thesis by (simp add: inflate_result_def Z_OK_def Z_STREAM_END_def Z_BUF_ERROR_def)
qed

end
