(* ===== verification/Event_Loop.thy ===== *)
theory Event_Loop
  imports Per_Message_Deflate
begin

text \<open>
  What the event loop keeps beside the deferred callbacks: the cached date of \<open>src/src/LoopData.h\<close>, the handlers
  that run before and after each iteration, and prepared messages (\<open>src/src/Loop.h\<close>).
\<close>

section \<open>The calendar of the C library\<close>

text \<open>\<open>gmtime_r\<close> for a time of 1970 or later: years and months are counted off the days.\<close>

definition leap_year :: "nat \<Rightarrow> bool" where
  "leap_year y \<longleftrightarrow> y mod 4 = 0 \<and> (y mod 100 \<noteq> 0 \<or> y mod 400 = 0)"

definition year_days :: "nat \<Rightarrow> nat" where
  "year_days y = (if leap_year y then 366 else 365)"

definition month_days :: "nat \<Rightarrow> nat list" where
  "month_days y = [31, if leap_year y then 29 else 28, 31, 30, 31, 30, 31, 31, 30, 31, 30, 31]"

function year_of :: "nat \<Rightarrow> nat \<Rightarrow> nat \<times> nat" where
  "year_of y d = (if d < year_days y then (y, d) else year_of (y + 1) (d - year_days y))"
  by pat_completeness auto
termination
  by (relation "measure snd") (auto simp: year_days_def)

declare year_of.simps [simp del]

fun month_of :: "nat list \<Rightarrow> nat \<Rightarrow> nat \<times> nat" where
  "month_of [] d = (0, d)"
| "month_of (n # ns) d = (if d < n then (0, d) else (case month_of ns (d - n) of (m, r) \<Rightarrow> (m + 1, r)))"

record tm =
  tm_sec :: nat
  tm_min :: nat
  tm_hour :: nat
  tm_mday :: nat
  tm_mon :: nat
  tm_year :: nat
  tm_wday :: nat

definition gmtime_r :: "nat \<Rightarrow> tm" where
  "gmtime_r t =
     (let days = t div 86400; s = t mod 86400; yd = year_of 1970 days; md = month_of (month_days (fst yd)) (snd yd)
      in \<lparr> tm_sec = s mod 60, tm_min = s div 60 mod 60, tm_hour = s div 3600, tm_mday = snd md + 1, tm_mon = fst md,
           tm_year = fst yd - 1900, tm_wday = (days + 4) mod 7 \<rparr>)"

section \<open>The date header\<close>

definition wday_name :: "byte list list" where
  "wday_name = map bytes [''Sun'', ''Mon'', ''Tue'', ''Wed'', ''Thu'', ''Fri'', ''Sat'']"

definition mon_name :: "byte list list" where
  "mon_name = map bytes [''Jan'', ''Feb'', ''Mar'', ''Apr'', ''May'', ''Jun'',
     ''Jul'', ''Aug'', ''Sep'', ''Oct'', ''Nov'', ''Dec'']"

text \<open>\<open>%.2u\<close> and \<open>%.4u\<close>: at least that many digits.\<close>

definition digit :: "nat \<Rightarrow> byte" where "digit d = of_nat (48 + d)"

function dec_digits :: "nat \<Rightarrow> byte list" where
  "dec_digits n = (if n < 10 then [digit n] else dec_digits (n div 10) @ [digit (n mod 10)])"
  by pat_completeness auto
termination
  by (relation "measure id") auto

declare dec_digits.simps [simp del]

definition padded_decimal :: "nat \<Rightarrow> nat \<Rightarrow> byte list" where
  "padded_decimal w n = replicate (w - length (dec_digits n)) 48 @ dec_digits n"

text \<open>\<open>snprintf\<close> into 32 bytes, one of them for the terminator.\<close>

definition updateDate :: "nat \<Rightarrow> byte list" where
  "updateDate cacheTimepoint =
     (let tstruct = gmtime_r cacheTimepoint in
      take 31 (wday_name ! tm_wday tstruct @ bytes '', '' @ padded_decimal 2 (tm_mday tstruct mod 99) @ bytes '' '' @
        mon_name ! tm_mon tstruct @ bytes '' '' @ padded_decimal 4 ((1900 + tm_year tstruct) mod 9999) @ bytes '' '' @
        padded_decimal 2 (tm_hour tstruct mod 99) @ bytes '':'' @ padded_decimal 2 (tm_min tstruct mod 99) @ bytes '':'' @
        padded_decimal 2 (tm_sec tstruct mod 99) @ bytes '' GMT''))"

section \<open>Reading it back\<close>

text \<open>The grammar of RFC 9110, section 5.6.7, for \<open>IMF-fixdate\<close>.\<close>

definition number_at :: "nat \<Rightarrow> nat \<Rightarrow> byte list \<Rightarrow> nat" where
  "number_at p w s = foldl (\<lambda>n c. 10 * n + (unat c - 48)) 0 (take w (drop p s))"

definition name_at :: "nat \<Rightarrow> byte list list \<Rightarrow> byte list \<Rightarrow> nat" where
  "name_at p names s = length (takeWhile (\<lambda>n. n \<noteq> take 3 (drop p s)) names)"

definition years_before :: "nat \<Rightarrow> nat" where
  "years_before y = sum_list (map year_days [1970..<y])"

definition timegm :: "nat \<Rightarrow> nat \<Rightarrow> nat \<Rightarrow> nat \<Rightarrow> nat \<Rightarrow> nat \<Rightarrow> nat" where
  "timegm year mon mday hour minute sec =
     ((years_before year + sum_list (take mon (month_days year)) + (mday - 1)) * 24 + hour) * 3600 + minute * 60 + sec"

definition read_date :: "byte list \<Rightarrow> nat option" where
  "read_date s =
     (let t = timegm (number_at 12 4 s) (name_at 8 mon_name s) (number_at 5 2 s) (number_at 17 2 s) (number_at 20 2 s) (number_at 23 2 s)
      in if length s = 29 \<and> take 2 (drop 3 s) = bytes '', '' \<and> drop 25 s = bytes '' GMT'' \<and> name_at 0 wday_name s = (t div 86400 + 4) mod 7
         then Some t else None)"

lemma year_of_exact:
  "year_of y d = (y', r) \<Longrightarrow> y \<le> y' \<and> sum_list (map year_days [y..<y']) + r = d \<and> r < year_days y'"
proof (induction y d rule: year_of.induct)
  case (1 y d)
  show ?case
  proof (cases "d < year_days y")
    case True
    then show ?thesis using 1(2) by (simp add: year_of.simps [of y d])
  next
    case False
    then have r: "year_of (y + 1) (d - year_days y) = (y', r)" using 1(2) by (simp add: year_of.simps [of y d])
    from 1(1) [OF False r] have i: "y + 1 \<le> y'" "sum_list (map year_days [y + 1..<y']) + r = d - year_days y" "r < year_days y'" by auto
    then have "sum_list (map year_days [y..<y']) = year_days y + sum_list (map year_days [y + 1..<y'])"
      by (simp add: upt_conv_Cons)
    then show ?thesis using i False by simp
  qed
qed

lemma month_of_exact:
  "d < sum_list ns \<Longrightarrow> month_of ns d = (m, r) \<Longrightarrow> m < length ns \<and> sum_list (take m ns) + r = d \<and> r < ns ! m"
proof (induction ns d arbitrary: m rule: month_of.induct)
  case (2 n ns d)
  show ?case
  proof (cases "d < n")
    case True
    then show ?thesis using 2 by simp
  next
    case False
    obtain m' where m: "month_of ns (d - n) = (m', r)" "m = m' + 1" using 2(3) False by (auto split: prod.splits)
    have "d - n < sum_list ns" using 2(2) False by simp
    from 2(1) [OF False this m(1)] show ?thesis using False m(2) by auto
  qed
qed simp

lemma month_days_sum: "sum_list (month_days y) = year_days y" "length (month_days y) = 12" "n \<in> set (month_days y) \<Longrightarrow> n \<le> 31"
  by (auto simp: month_days_def year_days_def split: if_splits)

text \<open>The fields are in their ranges and count up to the time.\<close>

lemma gmtime_fields:
  fixes t
  defines "s \<equiv> gmtime_r t"
  shows "tm_sec s < 60" "tm_min s < 60" "tm_hour s < 24" "1 \<le> tm_mday s" "tm_mday s \<le> 31" "tm_mon s < 12" "70 \<le> tm_year s"
    "tm_wday s < 7" "tm_wday s = (t div 86400 + 4) mod 7"
    "timegm (1900 + tm_year s) (tm_mon s) (tm_mday s) (tm_hour s) (tm_min s) (tm_sec s) = t"
proof -
  obtain y r where y: "year_of 1970 (t div 86400) = (y, r)" by fastforce
  obtain m d where m: "month_of (month_days y) r = (m, d)" by fastforce
  have Y: "1970 \<le> y" "years_before y + r = t div 86400" "r < year_days y"
    using year_of_exact [OF y] by (simp_all add: years_before_def)
  have M: "m < 12" "sum_list (take m (month_days y)) + d = r" "d < month_days y ! m"
    using month_of_exact [of r "month_days y", OF _ m] Y(3) month_days_sum(1, 2) by simp_all
  have "month_days y ! m \<in> set (month_days y)" using M(1) month_days_sum(2) by simp
  then have "month_days y ! m \<le> 31" by (rule month_days_sum(3))
  then have d: "d < 31" using M(3) by simp
  have s: "s = \<lparr> tm_sec = t mod 86400 mod 60, tm_min = t mod 86400 div 60 mod 60, tm_hour = t mod 86400 div 3600, tm_mday = d + 1,
      tm_mon = m, tm_year = y - 1900, tm_wday = (t div 86400 + 4) mod 7 \<rparr>"
    by (simp add: s_def gmtime_r_def Let_def y m)
  show "tm_sec s < 60" "tm_min s < 60" "1 \<le> tm_mday s" "tm_mday s \<le> 31" "tm_mon s < 12" "70 \<le> tm_year s" "tm_wday s < 7"
    "tm_wday s = (t div 86400 + 4) mod 7" "tm_hour s < 24"
    using Y(1) M(1) d by (simp_all add: s less_mult_imp_div_less)
  have clock: "u div 3600 * 3600 + u div 60 mod 60 * 60 + u mod 60 = u" for u :: nat
  proof -
    have "u div 3600 = u div 60 div 60" using div_mult2_eq [of u 60 60] by simp
    then show ?thesis using div_mult_mod_eq [of u 60] div_mult_mod_eq [of "u div 60" 60] by linarith
  qed
  have "timegm (1900 + tm_year s) (tm_mon s) (tm_mday s) (tm_hour s) (tm_min s) (tm_sec s) =
      (t div 86400 * 24 + t mod 86400 div 3600) * 3600 + t mod 86400 div 60 mod 60 * 60 + t mod 86400 mod 60"
    using Y(1, 2) M(2) by (simp add: s timegm_def)
  also have "\<dots> = t div 86400 * 86400 + (t mod 86400 div 3600 * 3600 + t mod 86400 div 60 mod 60 * 60 + t mod 86400 mod 60)"
    by (simp add: add_mult_distrib)
  also have "\<dots> = t" unfolding clock by (rule div_mult_mod_eq)
  finally show "timegm (1900 + tm_year s) (tm_mon s) (tm_mday s) (tm_hour s) (tm_min s) (tm_sec s) = t" .
qed

lemma digit_byte: "d < 10 \<Longrightarrow> unat (digit d) - 48 = d"
  unfolding digit_def unat_of_nat by simp

lemma digit_0 [simp]: "digit 0 = 48"
  by (simp add: digit_def)

lemma decimal_2: "n < 100 \<Longrightarrow> padded_decimal 2 n = [digit (n div 10), digit (n mod 10)]"
  by (simp add: padded_decimal_def dec_digits.simps [of n] dec_digits.simps [of "n div 10"])

lemma decimal_4:
  assumes "1000 \<le> n" and "n < 10000"
  shows "padded_decimal 4 n = [digit (n div 1000), digit (n div 100 mod 10), digit (n div 10 mod 10), digit (n mod 10)]"
proof -
  have d: "n div 10 div 10 = n div 100" "n div 100 div 10 = n div 1000"
    using div_mult2_eq [of n 10 10] div_mult2_eq [of n 100 10] by simp_all
  have "\<not> n < 10" "\<not> n div 10 < 10" "\<not> n div 100 < 10" "n div 1000 < 10" using assms by simp_all
  then show ?thesis
    by (simp add: padded_decimal_def dec_digits.simps [of n] dec_digits.simps [of "n div 10"] dec_digits.simps [of "n div 100"]
        dec_digits.simps [of "n div 1000"] d)
qed

lemma digits_back:
  "n < 100 \<Longrightarrow> 10 * (unat (digit (n div 10)) - 48) + (unat (digit (n mod 10)) - 48) = n"
  "n < 10000 \<Longrightarrow> 10 * (10 * (10 * (unat (digit (n div 1000)) - 48) + (unat (digit (n div 100 mod 10)) - 48)) +
    (unat (digit (n div 10 mod 10)) - 48)) + (unat (digit (n mod 10)) - 48) = n"
proof -
  show "10 * (unat (digit (n div 10)) - 48) + (unat (digit (n mod 10)) - 48) = n" if "n < 100"
    using that by (simp add: digit_byte)
  show "10 * (10 * (10 * (unat (digit (n div 1000)) - 48) + (unat (digit (n div 100 mod 10)) - 48)) +
    (unat (digit (n div 10 mod 10)) - 48)) + (unat (digit (n mod 10)) - 48) = n" if "n < 10000"
  proof -
    have d: "n div 10 div 10 = n div 100" "n div 100 div 10 = n div 1000"
      using div_mult2_eq [of n 10 10] div_mult2_eq [of n 100 10] by simp_all
    have "10 * (n div 1000) + n div 100 mod 10 = n div 100" "10 * (n div 100) + n div 10 mod 10 = n div 10"
      unfolding d [symmetric] by simp_all
    then show ?thesis using that by (simp add: digit_byte)
  qed
qed

definition names_ok :: "byte list list \<Rightarrow> bool" where
  "names_ok names \<longleftrightarrow> list_all (\<lambda>i. length (names ! i) = 3 \<and> length (takeWhile (\<lambda>n. n \<noteq> names ! i) names) = i) [0..<length names]"

lemma names_ok: "names_ok wday_name" "length wday_name = 7" "names_ok mon_name" "length mon_name = 12"
  by code_simp+

lemma names_3:
  assumes "names_ok names" and "i < length names"
  obtains a b c where "names ! i = [a, b, c]" and "length (takeWhile (\<lambda>n. n \<noteq> [a, b, c]) names) = i"
proof -
  have n: "length (names ! i) = 3" "length (takeWhile (\<lambda>n. n \<noteq> names ! i) names) = i"
    using assms by (auto simp: names_ok_def list_all_iff)
  then obtain a b c where "names ! i = [a, b, c]" by (auto simp: numeral_3_eq_3 length_Suc_conv)
  then show thesis using n(2) that by simp
qed

lemma digits_number:
  "foldl (\<lambda>n c. 10 * n + (unat c - 48)) 0 [a, b :: byte] = 10 * (unat a - 48) + (unat b - 48)"
  "foldl (\<lambda>n c. 10 * n + (unat c - 48)) 0 [a, b, c, d :: byte] =
    10 * (10 * (10 * (unat a - 48) + (unat b - 48)) + (unat c - 48)) + (unat d - 48)"
  by simp_all

lemma layout:
  assumes "s = [w1, w2, w3, 44, 32, d1, d2, 32, m1, m2, m3, 32, y1, y2, y3, y4, 32, h1, h2, 58, n1, n2, 58, s1, s2, 32, 71, 77, 84]"
  shows "take 3 (drop 0 s) = [w1, w2, w3]" "take 2 (drop 5 s) = [d1, d2]" "take 3 (drop 8 s) = [m1, m2, m3]"
    "take 4 (drop 12 s) = [y1, y2, y3, y4]" "take 2 (drop 17 s) = [h1, h2]" "take 2 (drop 20 s) = [n1, n2]"
    "take 2 (drop 23 s) = [s1, s2]" "length s = 29" "take 2 (drop 3 s) = bytes '', ''" "drop 25 s = bytes '' GMT''"
  by (simp_all add: assms bytes_def)


lemma sample_days: "year_of 1970 9075 = (1994, 309)"
  by (simp add: year_of.simps year_days_def leap_year_def)

lemma sample_year: "tm_year (gmtime_r 784111777) = 94"
proof -
  have "(784111777::nat) div 86400 = 9075" by simp
  then have "year_of 1970 (784111777 div 86400) = (1994, 309)" by (simp only: sample_days)
  then show ?thesis by (simp only: gmtime_r_def Let_def tm.simps fst_conv)
qed


section \<open>Handlers of the loop\<close>

text \<open>
  \<open>std::map\<close> from a pointer to a handler, in the order of the keys. A handler that removes handlers while they
  are run is not in the model: the code calls that a bug.
\<close>

type_synonym 's loop_handlers = "(nat \<times> ('s \<Rightarrow> 's option)) list"

fun map_emplace :: "nat \<Rightarrow> 'h \<Rightarrow> (nat \<times> 'h) list \<Rightarrow> (nat \<times> 'h) list" where
  "map_emplace k h [] = [(k, h)]"
| "map_emplace k h ((k', h') # hs) =
     (if k < k' then (k, h) # (k', h') # hs else if k = k' then (k', h') # hs else (k', h') # map_emplace k h hs)"

definition addHandler :: "nat \<Rightarrow> ('s \<Rightarrow> 's option) \<Rightarrow> 's loop_handlers \<Rightarrow> 's loop_handlers" where
  "addHandler key h handlers = map_emplace key h handlers"

definition removeHandler :: "nat \<Rightarrow> 's loop_handlers \<Rightarrow> 's loop_handlers" where
  "removeHandler key handlers = filter (\<lambda>h. fst h \<noteq> key) handlers"

fun preCb :: "'s loop_handlers \<Rightarrow> 's \<Rightarrow> 's option" where
  "preCb [] s = Some s"
| "preCb ((k, h) # hs) s = (case h s of None \<Rightarrow> None | Some s \<Rightarrow> preCb hs s)"

definition postCb :: "('w, 'z, 'u) server loop_handlers \<Rightarrow> ('w, 'z, 'u) server \<Rightarrow> ('w, 'z, 'u) server option" where
  "postCb handlers t =
     (case preCb handlers t of
        None \<Rightarrow> None
      | Some t \<Rightarrow> if corkedSocket (app t) \<noteq> None then None else Some t)"

lemma map_emplace_sorted:
  "sorted_wrt (<) (map fst hs) \<Longrightarrow>
    sorted_wrt (<) (map fst (map_emplace k h hs)) \<and> set (map fst (map_emplace k h hs)) = insert k (set (map fst hs)) \<and>
    map_of (map_emplace k h hs) = (if k \<in> set (map fst hs) then map_of hs else (map_of hs)(k \<mapsto> h))"
proof (induction hs)
  case (Cons x hs)
  obtain k' h' where x: "x = (k', h')" by fastforce
  show ?case
  proof (cases "k < k'")
    case True
    then have "k \<notin> set (map fst (x # hs))" using Cons.prems by (auto simp: x)
    then show ?thesis using True Cons.prems by (auto simp: x)
  next
    case False
    then show ?thesis using Cons by (cases "k = k'") (auto simp: x fun_upd_twist)
  qed
qed simp

text \<open>With the handler of the app every iteration ends with everything published sent and the cork free.\<close>

lemma post_commits:
  assumes "postCb (addHandler key (drain_topics env) []) t = Some t'"
  shows "drainableSubscribers t' = None \<and> corkedSocket (app t') = None \<and> (drainableSubscribers t = None \<or> outgoingMessages t' = [])"
  using assms by (auto simp: postCb_def addHandler_def drain_topics_def drain_all_def split: option.splits if_splits)

section \<open>Prepared messages\<close>

definition DEDICATED_COMPRESSOR :: u16 where "DEDICATED_COMPRESSOR = push_bit 4 15 OR 8"
definition DEDICATED_DECOMPRESSOR :: u16 where "DEDICATED_DECOMPRESSOR = push_bit 8 15"

text \<open>The deflation stream of the loop is made at the first use of compression.\<close>

definition loop_deflation :: "'z Zlib \<Rightarrow> 'z option \<Rightarrow> 'z" where
  "loop_deflation zl shared = (case shared of None \<Rightarrow> deflationStream_new zl DEDICATED_COMPRESSOR | Some z \<Rightarrow> z)"

definition prepareMessage :: "'z Zlib \<Rightarrow> byte list \<Rightarrow> byte \<Rightarrow> bool \<Rightarrow> 'z option \<Rightarrow> (PreparedMessage \<times> 'z option) option" where
  "prepareMessage zl message op compress shared =
     (if compress
      then (case pmd_deflate zl (loop_deflation zl shared) message True of
              None \<Rightarrow> None
            | Some (c, z) \<Rightarrow> Some (\<lparr> originalMessage = message, compressedMessage = c, prepared_compressed = True, prepared_opCode = op \<rparr>, Some z))
      else Some (\<lparr> originalMessage = message, compressedMessage = [], prepared_compressed = False, prepared_opCode = op \<rparr>, shared))"

text \<open>Whoever gets the compressed form of a prepared message on a fresh stream reads the message.\<close>

lemma prepared_reads_back:
  assumes laws: "deflate_law zl wholeD behindD" "inflate_law zl wholeI good behindI" "paired wholeD behindD wholeI good behindI sync"
    and fresh: "sync (loop_deflation zl shared) i" and "message \<noteq> []" "length message \<le> limit" "4 \<le> length rest"
  shows "\<exists>p shared' z. prepareMessage zl message op True shared = Some (p, shared') \<and> originalMessage p = message \<and>
    pmd_inflate zl i (compressedMessage p @ rest) 0 (length (compressedMessage p)) limit False = Some (Some message, compressedMessage p @ rest, z)"
proof -
  obtain c where c: "wholeD (loop_deflation zl shared) message = c @ inflate_tail" "good i (c @ inflate_tail)" "wholeI i (c @ inflate_tail) = message"
    using laws(3) fresh assms(5) unfolding paired_def by metis
  have "length inflate_tail = 4" by (simp add: inflate_tail_def)
  then have "pmd_deflate zl (loop_deflation zl shared) message True = Some (c, z_deflateReset zl (behindD (loop_deflation zl shared) message))"
    using deflate_exact [OF laws(1), of "loop_deflation zl shared" message True] by (simp add: c(1))
  then show ?thesis
    using pmd_inflate_good [OF laws(2) assms(7) c(2), of limit] assms(6) c(3) by (simp add: prepareMessage_def)
qed

end
