(* ===== verification/Http_Response.thy ===== *)
theory Http_Response
  imports Ws_Context Utilities Proxy_Parser Http_Parser Ws_Extensions Ws_Handshake
begin

text \<open>
  The response side of HTTP, \<open>HttpResponse.h\<close> with \<open>HttpResponseData.h\<close>, and the upgrade of a
  connection to a WebSocket.

  HTTP connections and WebSockets live on one loop, so the state is that of \<open>Ws_Server\<close>, with the HTTP
  state as the user's part of the loop: the response data of each socket, the date, and what the
  context keeps while it parses. Handlers that a program attaches to a response while it runs are
  names \<open>'h\<close>; what the named handlers do is in the environment. None is a run that has ended.

  One call writes less than \<open>2 ^ 31\<close> bytes, so that the conversions of lengths to \<open>int\<close> are exact.
\<close>

section \<open>State\<close>

definition HTTP_STATUS_CALLED :: u32 where "HTTP_STATUS_CALLED = 1"
definition HTTP_WRITE_CALLED :: u32 where "HTTP_WRITE_CALLED = 2"
definition HTTP_END_CALLED :: u32 where "HTTP_END_CALLED = 4"
definition HTTP_RESPONSE_PENDING :: u32 where "HTTP_RESPONSE_PENDING = 8"
definition HTTP_CONNECTION_CLOSE :: u32 where "HTTP_CONNECTION_CLOSE = 16"

text \<open>\<open>callOnWritable\<close> puts a placeholder that does nothing in the place of the handler.\<close>

datatype 'h Writable = Placeholder | Attached 'h

record 'h HttpResponseData =
  onWritable :: "'h Writable option"
  onAborted :: "'h option"
  inStream :: "'h option"
  write_offset :: u64
  received_bytes_per_timeout :: u32
  res_state :: u32
  http_parser :: HttpParser
  proxyParser :: "ProxyParser option"

definition fresh_response :: "ProxyParser option \<Rightarrow> 'h HttpResponseData" where
  "fresh_response proxy = \<lparr> onWritable = None, onAborted = None, inStream = None, write_offset = 0,
     received_bytes_per_timeout = 0, res_state = 0, http_parser = \<lparr> fallback = [], remainingStreamingBytes = 0 \<rparr>,
     proxyParser = proxy \<rparr>"

record ('h, 'v) HttpSide =
  responses :: "nat \<Rightarrow> 'h HttpResponseData"
  date :: "byte list"
  noMark :: bool
  isParsingHttp :: bool
  upgradedWebSocket :: "nat option"
  http_user :: 'v

type_synonym ('w, 'z, 'h, 'v) hserver = "('w, 'z, ('h, 'v) HttpSide) server"

text \<open>
  \<open>us_socket_context_adopt_socket\<close> may move a socket: it returns the new one. A socket's filters are
  those of its context.
\<close>

record ('w, 'z, 'h, 'v) HttpEnv =
  ws_env :: "('w, 'z, ('h, 'v) HttpSide) Env"
  adopt_socket :: "nat \<Rightarrow> 'w \<Rightarrow> nat \<times> 'w"
  us_socket_long_timeout :: "nat \<Rightarrow> u16 \<Rightarrow> 'w \<Rightarrow> 'w"
  filterHandlers :: "(nat \<Rightarrow> int \<Rightarrow> ('w, 'z, 'h, 'v) hserver \<Rightarrow> ('w, 'z, 'h, 'v) hserver option) list"
  writable_handler :: "'h \<Rightarrow> u64 \<Rightarrow> ('w, 'z, 'h, 'v) hserver \<Rightarrow> (bool \<times> ('w, 'z, 'h, 'v) hserver) option"
  aborted_handler :: "'h \<Rightarrow> ('w, 'z, 'h, 'v) hserver \<Rightarrow> ('w, 'z, 'h, 'v) hserver option"
  stream_handler :: "'h \<Rightarrow> byte list \<Rightarrow> bool \<Rightarrow> ('w, 'z, 'h, 'v) hserver \<Rightarrow> ('w, 'z, 'h, 'v) hserver option"

abbreviation sops :: "('w, 'z, 'h, 'v) HttpEnv \<Rightarrow> 'w SocketOps" where
  "sops env \<equiv> socket_ops (ws_env env)"

abbreviation res_of :: "nat \<Rightarrow> ('w, 'z, 'h, 'v) hserver \<Rightarrow> 'h HttpResponseData" where
  "res_of this t \<equiv> responses (user (app t)) this"

definition on_side :: "(('h, 'v) HttpSide \<Rightarrow> ('h, 'v) HttpSide) \<Rightarrow> ('w, 'z, 'h, 'v) hserver \<Rightarrow> ('w, 'z, 'h, 'v) hserver" where
  "on_side f = on_loop (\<lambda>l. l\<lparr> user := f (user l) \<rparr>)"

definition on_res :: "nat \<Rightarrow> ('h HttpResponseData \<Rightarrow> 'h HttpResponseData) \<Rightarrow> ('w, 'z, 'h, 'v) hserver \<Rightarrow> ('w, 'z, 'h, 'v) hserver" where
  "on_res this f = on_side (\<lambda>u. u\<lparr> responses := (responses u)(this := f (responses u this)) \<rparr>)"

definition called :: "u32 \<Rightarrow> nat \<Rightarrow> ('w, 'z, 'h, 'v) hserver \<Rightarrow> bool" where
  "called flag this t \<longleftrightarrow> res_state (res_of this t) AND flag \<noteq> 0"

definition mark :: "u32 \<Rightarrow> nat \<Rightarrow> ('w, 'z, 'h, 'v) hserver \<Rightarrow> ('w, 'z, 'h, 'v) hserver" where
  "mark flag this = on_res this (\<lambda>d. d\<lparr> res_state := res_state d OR flag \<rparr>)"

definition markDone :: "nat \<Rightarrow> ('w, 'z, 'h, 'v) hserver \<Rightarrow> ('w, 'z, 'h, 'v) hserver" where
  "markDone this = on_res this (\<lambda>d. d\<lparr> onAborted := None, onWritable := None,
     res_state := res_state d AND NOT HTTP_RESPONSE_PENDING \<rparr>)"

definition hasResponded :: "nat \<Rightarrow> ('w, 'z, 'h, 'v) hserver \<Rightarrow> bool" where
  "hasResponded this t \<longleftrightarrow> \<not> called HTTP_RESPONSE_PENDING this t"

text \<open>A handler that is attached inside the call is replaced by the one that was called.\<close>

definition callOnWritable ::
  "('w, 'z, 'h, 'v) HttpEnv \<Rightarrow> nat \<Rightarrow> 'h Writable \<Rightarrow> u64 \<Rightarrow> ('w, 'z, 'h, 'v) hserver \<Rightarrow> (bool \<times> ('w, 'z, 'h, 'v) hserver) option" where
  "callOnWritable env this borrowed off t =
     (let t = on_res this (\<lambda>d. d\<lparr> onWritable := Some Placeholder \<rparr>) t in
      case (case borrowed of Placeholder \<Rightarrow> Some (True, t) | Attached h \<Rightarrow> writable_handler env h off t) of
        None \<Rightarrow> None
      | Some (ret, t) \<Rightarrow>
          Some (ret, if onWritable (res_of this t) \<noteq> None then on_res this (\<lambda>d. d\<lparr> onWritable := Some borrowed \<rparr>) t else t))"

section \<open>Writing\<close>

definition HTTP_200_OK :: "byte list" where "HTTP_200_OK = bytes ''200 OK''"
definition HTTP_TIMEOUT_S :: nat where "HTTP_TIMEOUT_S = 10"
definition INT_MAX :: nat where "INT_MAX = 2147483647"

definition super_write ::
  "('w, 'z, 'h, 'v) HttpEnv \<Rightarrow> nat \<Rightarrow> byte list \<Rightarrow> bool \<Rightarrow> ('w, 'z, 'h, 'v) hserver \<Rightarrow> (nat \<times> bool) \<times> ('w, 'z, 'h, 'v) hserver" where
  "super_write env this src optionally t =
     (case async_write (sops env) this src optionally 0 (app t) of (r, l) \<Rightarrow> (r, t\<lparr> app := l \<rparr>))"

definition put :: "('w, 'z, 'h, 'v) HttpEnv \<Rightarrow> nat \<Rightarrow> byte list \<Rightarrow> ('w, 'z, 'h, 'v) hserver \<Rightarrow> ('w, 'z, 'h, 'v) hserver" where
  "put env this src t = snd (super_write env this src False t)"

definition res_timeout :: "('w, 'z, 'h, 'v) HttpEnv \<Rightarrow> nat \<Rightarrow> nat \<Rightarrow> ('w, 'z, 'h, 'v) hserver \<Rightarrow> ('w, 'z, 'h, 'v) hserver" where
  "res_timeout env this seconds = on_loop (timeout (sops env) this seconds)"

definition writeUnsignedHex :: "('w, 'z, 'h, 'v) HttpEnv \<Rightarrow> nat \<Rightarrow> u32 \<Rightarrow> ('w, 'z, 'h, 'v) hserver \<Rightarrow> ('w, 'z, 'h, 'v) hserver" where
  "writeUnsignedHex env this v = put env this (u32toaHex v)"

definition writeUnsigned64 :: "('w, 'z, 'h, 'v) HttpEnv \<Rightarrow> nat \<Rightarrow> u64 \<Rightarrow> ('w, 'z, 'h, 'v) hserver \<Rightarrow> ('w, 'z, 'h, 'v) hserver" where
  "writeUnsigned64 env this v = put env this (u64toa v)"

definition writeContinue :: "('w, 'z, 'h, 'v) HttpEnv \<Rightarrow> nat \<Rightarrow> ('w, 'z, 'h, 'v) hserver \<Rightarrow> ('w, 'z, 'h, 'v) hserver" where
  "writeContinue env this = put env this (bytes ''HTTP/1.1 100 Continue'' @ CRLF @ CRLF)"

definition writeStatus :: "('w, 'z, 'h, 'v) HttpEnv \<Rightarrow> nat \<Rightarrow> byte list \<Rightarrow> ('w, 'z, 'h, 'v) hserver \<Rightarrow> ('w, 'z, 'h, 'v) hserver" where
  "writeStatus env this status t =
     (if called HTTP_STATUS_CALLED this t then t
      else put env this CRLF (put env this status (put env this (bytes ''HTTP/1.1 '') (mark HTTP_STATUS_CALLED this t))))"

definition writeHeader ::
  "('w, 'z, 'h, 'v) HttpEnv \<Rightarrow> nat \<Rightarrow> byte list \<Rightarrow> byte list \<Rightarrow> ('w, 'z, 'h, 'v) hserver \<Rightarrow> ('w, 'z, 'h, 'v) hserver" where
  "writeHeader env this key v t =
     put env this CRLF (put env this v (put env this (bytes '': '') (put env this key (writeStatus env this HTTP_200_OK t))))"

definition writeHeader_number ::
  "('w, 'z, 'h, 'v) HttpEnv \<Rightarrow> nat \<Rightarrow> byte list \<Rightarrow> u64 \<Rightarrow> ('w, 'z, 'h, 'v) hserver \<Rightarrow> ('w, 'z, 'h, 'v) hserver" where
  "writeHeader_number env this key v t =
     put env this CRLF (writeUnsigned64 env this v (put env this (bytes '': '') (put env this key (writeStatus env this HTTP_200_OK t))))"

definition writeMark :: "('w, 'z, 'h, 'v) HttpEnv \<Rightarrow> nat \<Rightarrow> ('w, 'z, 'h, 'v) hserver \<Rightarrow> ('w, 'z, 'h, 'v) hserver" where
  "writeMark env this t =
     (let t = writeHeader env this (bytes ''Date'') (take 29 (date (user (app t)))) t in
      if \<not> noMark (user (app t)) then writeHeader env this (bytes ''uWebSockets'') (bytes ''20'') t else t)"

section \<open>Closing\<close>

fun run_filters ::
  "(nat \<Rightarrow> int \<Rightarrow> ('w, 'z, 'h, 'v) hserver \<Rightarrow> ('w, 'z, 'h, 'v) hserver option) list \<Rightarrow> nat \<Rightarrow> int \<Rightarrow>
   ('w, 'z, 'h, 'v) hserver \<Rightarrow> ('w, 'z, 'h, 'v) hserver option" where
  "run_filters [] this n t = Some t"
| "run_filters (f # fs) this n t = (case f this n t of None \<Rightarrow> None | Some t \<Rightarrow> run_filters fs this n t)"

definition http_on_close :: "('w, 'z, 'h, 'v) HttpEnv \<Rightarrow> nat \<Rightarrow> ('w, 'z, 'h, 'v) hserver \<Rightarrow> ('w, 'z, 'h, 'v) hserver option" where
  "http_on_close env this t =
     (case run_filters (filterHandlers env) this (-1) t of
        None \<Rightarrow> None
      | Some t \<Rightarrow> (case onAborted (res_of this t) of None \<Rightarrow> Some t | Some h \<Rightarrow> aborted_handler env h t))"

definition http_close :: "('w, 'z, 'h, 'v) HttpEnv \<Rightarrow> nat \<Rightarrow> ('w, 'z, 'h, 'v) hserver \<Rightarrow> ('w, 'z, 'h, 'v) hserver option" where
  "http_close env this t =
     (if socket_closed (ws_env env) this t then Some t
      else http_on_close env this (on_loop (\<lambda>l. l\<lparr> kernel := kernel_close (ws_env env) this (kernel l) \<rparr>) t))"

text \<open>The block that ends a connection after its last response.\<close>

definition close_due :: "nat \<Rightarrow> ('w, 'z, 'h, 'v) hserver \<Rightarrow> bool" where
  "close_due this t \<longleftrightarrow> called HTTP_CONNECTION_CLOSE this t \<and> \<not> called HTTP_RESPONSE_PENDING this t \<and>
     getBufferedAmount this (app t) = 0"

definition shut_and_close :: "('w, 'z, 'h, 'v) HttpEnv \<Rightarrow> nat \<Rightarrow> ('w, 'z, 'h, 'v) hserver \<Rightarrow> ('w, 'z, 'h, 'v) hserver option" where
  "shut_and_close env this t = http_close env this (on_loop (shutdown (sops env) this) t)"

section \<open>Ending a response\<close>

text \<open>The loop that writes the body: None if the fuel does not suffice.\<close>

fun write_loop ::
  "nat \<Rightarrow> ('w, 'z, 'h, 'v) HttpEnv \<Rightarrow> nat \<Rightarrow> byte list \<Rightarrow> bool \<Rightarrow> nat \<Rightarrow> bool \<Rightarrow> ('w, 'z, 'h, 'v) hserver \<Rightarrow>
   ((nat \<times> bool) \<times> ('w, 'z, 'h, 'v) hserver) option" where
  "write_loop fuel env this data optional written failed t =
     (if written < length data \<and> \<not> failed
      then (case fuel of
              0 \<Rightarrow> None
            | Suc fuel \<Rightarrow>
                (case super_write env this (take (min (length data - written) INT_MAX) (drop written data)) optional t of
                   ((n, failed), t) \<Rightarrow> write_loop fuel env this data optional (written + n) failed t))
      else Some ((written, failed), t))"

declare write_loop.simps [simp del]

definition begin_end ::
  "('w, 'z, 'h, 'v) HttpEnv \<Rightarrow> nat \<Rightarrow> u64 \<Rightarrow> bool \<Rightarrow> ('w, 'z, 'h, 'v) hserver \<Rightarrow> ('w, 'z, 'h, 'v) hserver" where
  "begin_end env this totalSize allowContentLength t =
     (if \<not> called HTTP_END_CALLED this t
      then (let t = writeMark env this t;
                t = (if allowContentLength
                     then put env this (CRLF @ CRLF) (writeUnsigned64 env this totalSize (put env this (bytes ''Content-Length: '') t))
                     else put env this CRLF t)
            in mark HTTP_END_CALLED this t)
      else t)"

text \<open>The three parts of \<open>internalEnd\<close>: the status and the connection header, a chunked end, and an end with a length.\<close>

definition start_end :: "('w, 'z, 'h, 'v) HttpEnv \<Rightarrow> nat \<Rightarrow> bool \<Rightarrow> ('w, 'z, 'h, 'v) hserver \<Rightarrow> ('w, 'z, 'h, 'v) hserver" where
  "start_end env this closeConnection t =
     (let t = writeStatus env this HTTP_200_OK t in
      if closeConnection
      then mark HTTP_CONNECTION_CLOSE this
             (if \<not> called HTTP_CONNECTION_CLOSE this t
              then writeHeader env this (bytes ''Connection'') (bytes ''close'') t else t)
      else t)"

definition end_chunked ::
  "('w, 'z, 'h, 'v) HttpEnv \<Rightarrow> nat \<Rightarrow> byte list \<Rightarrow> ('w, 'z, 'h, 'v) hserver \<Rightarrow> (bool \<times> ('w, 'z, 'h, 'v) hserver) option" where
  "end_chunked env this data t =
     (let t = (if data \<noteq> []
               then put env this data (put env this CRLF (writeUnsignedHex env this (of_nat (length data)) (put env this CRLF t)))
               else t);
          t = markDone this (put env this (CRLF @ bytes ''0'' @ CRLF @ CRLF) t)
      in if \<not> isCorked this (app t) \<and> close_due this t
         then map_option (Pair True) (shut_and_close env this t)
         else Some (True, res_timeout env this HTTP_TIMEOUT_S t))"

definition end_length ::
  "('w, 'z, 'h, 'v) HttpEnv \<Rightarrow> nat \<Rightarrow> byte list \<Rightarrow> u64 \<Rightarrow> bool \<Rightarrow> bool \<Rightarrow> ('w, 'z, 'h, 'v) hserver \<Rightarrow>
   (bool \<times> ('w, 'z, 'h, 'v) hserver) option" where
  "end_length env this data totalSize optional allowContentLength t =
     (case write_loop (length data) env this data optional 0 False (begin_end env this totalSize allowContentLength t) of
        None \<Rightarrow> None
      | Some ((written, failed), t) \<Rightarrow>
          (let t = on_res this (\<lambda>d. d\<lparr> write_offset := write_offset d + of_nat written \<rparr>) t;
               success = (written = length data \<and> \<not> failed);
               t = (if \<not> success \<or> write_offset (res_of this t) = totalSize then res_timeout env this HTTP_TIMEOUT_S t else t)
           in if write_offset (res_of this t) = totalSize \<or> data = []
              then (let t = markDone this t in
                    if \<not> isCorked this (app t) \<and> close_due this t
                    then map_option (Pair success) (shut_and_close env this t)
                    else Some (success, t))
              else Some (success, t)))"

definition internalEnd ::
  "('w, 'z, 'h, 'v) HttpEnv \<Rightarrow> nat \<Rightarrow> byte list \<Rightarrow> u64 \<Rightarrow> bool \<Rightarrow> bool \<Rightarrow> bool \<Rightarrow> ('w, 'z, 'h, 'v) hserver \<Rightarrow>
   (bool \<times> ('w, 'z, 'h, 'v) hserver) option" where
  "internalEnd env this data totalSize optional allowContentLength closeConnection t =
     (let t = start_end env this closeConnection t;
          totalSize = (if totalSize = 0 then of_nat (length data) else totalSize)
      in if called HTTP_WRITE_CALLED this t then end_chunked env this data t
         else end_length env this data totalSize optional allowContentLength t)"

definition endWithoutBody ::
  "('w, 'z, 'h, 'v) HttpEnv \<Rightarrow> nat \<Rightarrow> u64 option \<Rightarrow> bool \<Rightarrow> ('w, 'z, 'h, 'v) hserver \<Rightarrow> ('w, 'z, 'h, 'v) hserver option" where
  "endWithoutBody env this reportedContentLength closeConnection t =
     map_option snd (case reportedContentLength of
        Some n \<Rightarrow> internalEnd env this [] n False True closeConnection t
      | None \<Rightarrow> internalEnd env this [] 0 False False closeConnection t)"

definition res_end ::
  "('w, 'z, 'h, 'v) HttpEnv \<Rightarrow> nat \<Rightarrow> byte list \<Rightarrow> bool \<Rightarrow> ('w, 'z, 'h, 'v) hserver \<Rightarrow> ('w, 'z, 'h, 'v) hserver option" where
  "res_end env this data closeConnection t =
     map_option snd (internalEnd env this data (of_nat (length data)) False True closeConnection t)"

definition tryEnd ::
  "('w, 'z, 'h, 'v) HttpEnv \<Rightarrow> nat \<Rightarrow> byte list \<Rightarrow> u64 \<Rightarrow> bool \<Rightarrow> ('w, 'z, 'h, 'v) hserver \<Rightarrow>
   ((bool \<times> bool) \<times> ('w, 'z, 'h, 'v) hserver) option" where
  "tryEnd env this data totalSize closeConnection t =
     map_option (\<lambda>(ok, t). ((ok, hasResponded this t), t)) (internalEnd env this data totalSize True True closeConnection t)"

definition res_write ::
  "('w, 'z, 'h, 'v) HttpEnv \<Rightarrow> nat \<Rightarrow> byte list \<Rightarrow> ('w, 'z, 'h, 'v) hserver \<Rightarrow> bool \<times> ('w, 'z, 'h, 'v) hserver" where
  "res_write env this data t =
     (let t = writeStatus env this HTTP_200_OK t in
      if data = [] then (True, t)
      else
        (let t = (if \<not> called HTTP_WRITE_CALLED this t
                  then mark HTTP_WRITE_CALLED this (writeHeader env this (bytes ''Transfer-Encoding'') (bytes ''chunked'') (writeMark env this t))
                  else t);
             t = put env this CRLF (writeUnsignedHex env this (of_nat (length data)) (put env this CRLF t))
         in case super_write env this data False t of
              ((written, failed), t) \<Rightarrow> (\<not> failed, if failed then res_timeout env this HTTP_TIMEOUT_S t else t)))"

section \<open>Other operations\<close>

definition res_pause where "res_pause env this t = res_timeout env this 0 (on_loop (pause (sops env) this) t)"
definition res_resume where "res_resume env this t = res_timeout env this HTTP_TIMEOUT_S (on_loop (resume (sops env) this) t)"

definition getWriteOffset :: "nat \<Rightarrow> ('w, 'z, 'h, 'v) hserver \<Rightarrow> u64" where
  "getWriteOffset this t = write_offset (res_of this t)"

definition overrideWriteOffset :: "nat \<Rightarrow> u64 \<Rightarrow> ('w, 'z, 'h, 'v) hserver \<Rightarrow> ('w, 'z, 'h, 'v) hserver" where
  "overrideWriteOffset this off = on_res this (\<lambda>d. d\<lparr> write_offset := off \<rparr>)"

definition res_maxRemainingBodyLength :: "nat \<Rightarrow> ('w, 'z, 'h, 'v) hserver \<Rightarrow> u64" where
  "res_maxRemainingBodyLength this t = maxRemainingBodyLength (http_parser (res_of this t))"

definition res_onWritable :: "nat \<Rightarrow> 'h \<Rightarrow> ('w, 'z, 'h, 'v) hserver \<Rightarrow> ('w, 'z, 'h, 'v) hserver" where
  "res_onWritable this h = on_res this (\<lambda>d. d\<lparr> onWritable := Some (Attached h) \<rparr>)"

definition res_onAborted :: "nat \<Rightarrow> 'h \<Rightarrow> ('w, 'z, 'h, 'v) hserver \<Rightarrow> ('w, 'z, 'h, 'v) hserver" where
  "res_onAborted this h = on_res this (\<lambda>d. d\<lparr> onAborted := Some h \<rparr>)"

definition res_onData :: "nat \<Rightarrow> 'h \<Rightarrow> ('w, 'z, 'h, 'v) hserver \<Rightarrow> ('w, 'z, 'h, 'v) hserver" where
  "res_onData this h = on_res this (\<lambda>d. d\<lparr> inStream := Some h, received_bytes_per_timeout := 0 \<rparr>)"

definition getProxiedRemoteAddress :: "nat \<Rightarrow> ('w, 'z, 'h, 'v) hserver \<Rightarrow> byte list option" where
  "getProxiedRemoteAddress this t = Option.bind (proxyParser (res_of this t)) getSourceAddress"

definition getProxiedRemoteAddressAsText :: "nat \<Rightarrow> ('w, 'z, 'h, 'v) hserver \<Rightarrow> byte list option" where
  "getProxiedRemoteAddressAsText this t = map_option addressAsText (getProxiedRemoteAddress this t)"

definition getProxiedRemotePort :: "nat \<Rightarrow> ('w, 'z, 'h, 'v) hserver \<Rightarrow> u32 option" where
  "getProxiedRemotePort this t = map_option getSourcePort (proxyParser (res_of this t))"

definition res_cork ::
  "('w, 'z, 'h, 'v) HttpEnv \<Rightarrow> nat \<Rightarrow> (('w, 'z, 'h, 'v) hserver \<Rightarrow> ('w, 'z, 'h, 'v) hserver option) \<Rightarrow>
   ('w, 'z, 'h, 'v) hserver \<Rightarrow> ('w, 'z, 'h, 'v) hserver option" where
  "res_cork env this handler t =
     (if \<not> isCorked this (app t) \<and> canCork (app t)
      then (case Option.bind (cork this (app t)) (\<lambda>l. handler (t\<lparr> app := l \<rparr>)) of
              None \<Rightarrow> None
            | Some t \<Rightarrow>
                (case corkedSocket (app t) of
                   None \<Rightarrow> Some t
                 | Some newCorkedSocket \<Rightarrow>
                     (case uncork (sops env) newCorkedSocket [] False (app t) of
                        ((written, failed), l) \<Rightarrow>
                          (let t = t\<lparr> app := l \<rparr> in
                           if this \<noteq> newCorkedSocket then Some t
                           else
                             (let t = (if failed then res_timeout env this HTTP_TIMEOUT_S t else t) in
                              if close_due this t then shut_and_close env this t else Some t)))))
      else handler t)"

section \<open>The upgrade to a WebSocket\<close>

definition DEDICATED_COMPRESSOR_3KB :: u16 where "DEDICATED_COMPRESSOR_3KB = push_bit 4 9 OR 1"

text \<open>The compression options of the new socket, and the answer to the client's offer.\<close>

definition negotiated_options :: "u16 \<Rightarrow> int \<Rightarrow> int \<Rightarrow> u16" where
  "negotiated_options settings negCompressionWindow negInflationWindow =
     (let compressOptions =
            (if negCompressionWindow = 0 then SHARED_COMPRESSOR
             else if settings AND DEDICATED_COMPRESSOR_3KB \<noteq> 0 then DEDICATED_COMPRESSOR_3KB
             else push_bit 4 (of_int negCompressionWindow) OR of_int (negCompressionWindow - 7))
      in if negInflationWindow = 0 then compressOptions OR SHARED_DECOMPRESSOR
         else compressOptions OR push_bit 8 (of_int negInflationWindow))"

definition upgrade_compression :: "u16 \<Rightarrow> byte list \<Rightarrow> (u16 \<times> byte list) option" where
  "upgrade_compression settings secWebSocketExtensions =
     (if secWebSocketExtensions \<noteq> [] \<and> settings \<noteq> 0
      then
        (let wantedInflationWindow =
               (if settings AND DECOMPRESSOR_MASK \<noteq> SHARED_DECOMPRESSOR then uint (drop_bit 8 (settings AND DECOMPRESSOR_MASK)) else 0);
             wantedCompressionWindow = uint (drop_bit 4 (settings AND COMPRESSOR_MASK))
         in case negotiateCompression True wantedCompressionWindow wantedInflationWindow secWebSocketExtensions of
              (negCompression, negCompressionWindow, negInflationWindow, negResponse) \<Rightarrow>
                if negCompression then Some (negotiated_options settings negCompressionWindow negInflationWindow, negResponse)
                else None)
      else None)"

text \<open>Everything of the response to the request for the upgrade.\<close>

definition upgrade_response ::
  "('w, 'z, 'h, 'v) HttpEnv \<Rightarrow> nat \<Rightarrow> byte list \<Rightarrow> byte list \<Rightarrow> (u16 \<times> byte list) option \<Rightarrow> ('w, 'z, 'h, 'v) hserver \<Rightarrow>
   (bool \<times> ('w, 'z, 'h, 'v) hserver) option" where
  "upgrade_response env this secWebSocketKey secWebSocketProtocol deflating t =
     (let t = writeStatus env this (bytes ''101 Switching Protocols'') t;
          t = writeHeader env this (bytes ''Upgrade'') (bytes ''websocket'') t;
          t = writeHeader env this (bytes ''Connection'') (bytes ''Upgrade'') t;
          t = writeHeader env this (bytes ''Sec-WebSocket-Accept'') (generate secWebSocketKey) t;
          t = (if secWebSocketProtocol \<noteq> []
               then writeHeader env this (bytes ''Sec-WebSocket-Protocol'') (takeWhile (\<lambda>b. b \<noteq> 44) secWebSocketProtocol) t else t);
          t = (case deflating of Some (options, answer) \<Rightarrow> writeHeader env this (bytes ''Sec-WebSocket-Extensions'') answer t | None \<Rightarrow> t)
      in internalEnd env this [] 0 False False False t)"

text \<open>The socket changes its context, and perhaps its place; its backpressure and the cork move with it.\<close>

definition adopt ::
  "('w, 'z, 'h, 'v) HttpEnv \<Rightarrow> nat \<Rightarrow> (u16 \<times> byte list) option \<Rightarrow> ('w, 'z, 'h, 'v) hserver \<Rightarrow> nat \<times> ('w, 'z, 'h, 'v) hserver" where
  "adopt env this deflating t =
     (let backpressure = buffers (app t) this;
          wasCorked = isCorked this (app t);
          t = on_loop (set_buffer this empty_backpressure) t
      in case adopt_socket env this (kernel (app t)) of
           (webSocket, w) \<Rightarrow>
             (let t = on_loop (\<lambda>l. l\<lparr> kernel := w \<rparr>) t;
                  t = (if wasCorked then on_loop (corkUnchecked webSocket) t else t);
                  t = on_loop (on_socket webSocket (\<lambda>d. webSocketData (deflating \<noteq> None) (case deflating of Some (options, _) \<Rightarrow> options | None \<Rightarrow> 0))) t;
                  t = on_loop (set_buffer webSocket backpressure) t;
                  t = (if isParsingHttp (user (app t)) then on_side (\<lambda>u. u\<lparr> upgradedWebSocket := Some webSocket \<rparr>) t else t)
              in (webSocket, t)))"

definition upgrade ::
  "('w, 'z, 'h, 'v) HttpEnv \<Rightarrow> nat \<Rightarrow> byte list \<Rightarrow> byte list \<Rightarrow> byte list \<Rightarrow> ('w, 'z, ('h, 'v) HttpSide) WsContext \<Rightarrow>
   ('w, 'z, 'h, 'v) hserver \<Rightarrow> ('w, 'z, 'h, 'v) hserver option" where
  "upgrade env this secWebSocketKey secWebSocketProtocol secWebSocketExtensions c t =
     (if length secWebSocketKey < 24 then None
      else
        (let deflating = upgrade_compression (compression c) secWebSocketExtensions in
         case upgrade_response env this secWebSocketKey secWebSocketProtocol deflating t of
           None \<Rightarrow> None
         | Some (_, t) \<Rightarrow>
             (case adopt env this deflating t of
                (webSocket, t) \<Rightarrow>
                  (let t = on_loop (\<lambda>l. l\<lparr> kernel := us_socket_long_timeout env webSocket (maxLifetime c) (kernel l) \<rparr>) t;
                       t = on_loop (timeout (sops env) webSocket (unat (fst (idleTimeoutComponents c)))) t
                   in case openHandler c of None \<Rightarrow> Some t | Some h \<Rightarrow> h webSocket t))))"

end
