(* ===== verification/Http_Context.thy ===== *)
theory Http_Context
  imports Http_Response Http_Router
begin

text \<open>
  The events of an HTTP connection, \<open>HttpContext.h\<close>: connections, data, writable, end and timeout, with
  the handlers it gives to the parser, and the registration of routes.

  A request handler of the program gets the socket and the request and returns the request, which it
  may have marked as yielded. The router is an argument: it is filled before the server runs.
  The parser only compares the pointers that its handlers return: \<open>the_socket\<close> is the pointer it
  is given, 0 the null pointer. The parser's state is the server, None after a run has ended.
\<close>

definition HTTP_IDLE_TIMEOUT_S :: nat where "HTTP_IDLE_TIMEOUT_S = 10"
definition HTTP_RECEIVE_THROUGHPUT_BYTES :: u32 where "HTTP_RECEIVE_THROUGHPUT_BYTES = 16 * 1024"

definition the_socket :: u64 where "the_socket = 1"

text \<open>The response data and handlers that a routed handler works on.\<close>

type_synonym ('w, 'z, 'h, 'v) routed = "nat \<times> HttpRequest \<times> ('w, 'z, 'h, 'v) hserver option"

type_synonym ('w, 'z, 'h, 'v) request_function =
  "nat \<Rightarrow> HttpRequest \<Rightarrow> ('w, 'z, 'h, 'v) hserver \<Rightarrow> (HttpRequest \<times> ('w, 'z, 'h, 'v) hserver) option"

section \<open>Routes\<close>

function parameter_offsets :: "byte list \<Rightarrow> nat \<Rightarrow> (byte list \<times> nat) list \<Rightarrow> (byte list \<times> nat) list" where
  "parameter_offsets [] n offsets = offsets"
| "parameter_offsets (c # cs) n offsets =
     (if c = COLON
      then parameter_offsets (drop 1 (dropWhile (\<lambda>b. b \<noteq> SLASH) cs)) (Suc n) ((takeWhile (\<lambda>b. b \<noteq> SLASH) cs, n) # offsets)
      else parameter_offsets cs n offsets)"
  by pat_completeness auto
termination
  by (relation "measure (\<lambda>(cs, n, offsets). length cs)")
    (auto simp: less_Suc_eq_le intro: order_trans [OF diff_le_self] length_dropWhile_le)

definition str_expect :: "byte list" where "str_expect = bytes ''expect''"
definition str_connection :: "byte list" where "str_connection = bytes ''connection''"

definition route_handler ::
  "('w, 'z, 'h, 'v) HttpEnv \<Rightarrow> (byte list \<times> nat) list \<Rightarrow> ('w, 'z, 'h, 'v) request_function \<Rightarrow> ('w, 'z, 'h, 'v) routed handler" where
  "route_handler env offsets handler ps u =
     (case u of
        (this, req, None) \<Rightarrow> (True, u)
      | (this, req, Some t) \<Rightarrow>
          (let req = setParameterOffsets (Some offsets) (setParameters (int (length ps) - 1, ps) (setYield False req));
               t = (if view (getHeader req str_expect) = bytes ''100-continue'' then writeContinue env this t else t)
           in case handler this req t of
                None \<Rightarrow> (True, (this, req, None))
              | Some (req, t) \<Rightarrow> (\<not> getYield req, (this, req, Some t))))"

definition onHttp ::
  "('w, 'z, 'h, 'v) HttpEnv \<Rightarrow> byte list \<Rightarrow> byte list \<Rightarrow> ('w, 'z, 'h, 'v) request_function option \<Rightarrow> bool \<Rightarrow>
   ('w, 'z, 'h, 'v) routed HttpRouter \<Rightarrow> ('w, 'z, 'h, 'v) routed HttpRouter option" where
  "onHttp env method_name pattern handler upgrading router =
     (let methods = [method_name];
          priority = (if method_name = ANY_METHOD_TOKEN then LOW_PRIORITY
                      else if upgrading then HIGH_PRIORITY else MEDIUM_PRIORITY)
      in case handler of
           None \<Rightarrow> map_option snd (remove_route (methods ! 0) pattern priority router)
         | Some h \<Rightarrow> add_route methods pattern (route_handler env (parameter_offsets pattern 0 []) h) priority router)"

section \<open>The handlers of the parser\<close>

definition request_handler ::
  "('w, 'z, 'h, 'v) HttpEnv \<Rightarrow> ('w, 'z, 'h, 'v) routed HttpRouter \<Rightarrow> nat \<Rightarrow> ('w, 'z, 'h, 'v) hserver option request_handler" where
  "request_handler env router this user_ptr req s =
     (case s of
        None \<Rightarrow> (0, None)
      | Some t \<Rightarrow>
          (let t = on_res this (\<lambda>d. d\<lparr> write_offset := 0 \<rparr>) (res_timeout env this 0 t) in
           if called HTTP_RESPONSE_PENDING this t then (0, http_close env this t)
           else
             (let t = on_res this (\<lambda>d. d\<lparr> res_state := HTTP_RESPONSE_PENDING \<rparr>) t;
                  t = (if isAncient req \<or> length (view (getHeader req str_connection)) = 5
                       then mark HTTP_CONNECTION_CLOSE this t else t)
              in case route (getCaseSensitiveMethod req) (getUrl req) (router\<lparr> userData := (this, req, Some t) \<rparr>) of
                   None \<Rightarrow> (0, None)
                 | Some (took, router) \<Rightarrow>
                     (case userData router of
                        (_, _, None) \<Rightarrow> (0, None)
                      | (_, _, Some t) \<Rightarrow>
                          if \<not> took then (0, http_close env this t)
                          else if upgradedWebSocket (user (app t)) \<noteq> None then (0, Some t)
                          else if socket_closed (ws_env env) this t then (0, Some t)
                          else if us_socket_is_shut_down (sops env) this (kernel (app t)) then (0, Some t)
                          else if \<not> hasResponded this t \<and> onAborted (res_of this t) = None then (0, None)
                          else (user_ptr, Some (if \<not> hasResponded this t \<and> inStream (res_of this t) \<noteq> None
                                                then res_timeout env this HTTP_IDLE_TIMEOUT_S t else t))))))"

definition receive_timeout :: "('w, 'z, 'h, 'v) HttpEnv \<Rightarrow> nat \<Rightarrow> byte list \<Rightarrow> bool \<Rightarrow> ('w, 'z, 'h, 'v) hserver \<Rightarrow> ('w, 'z, 'h, 'v) hserver" where
  "receive_timeout env this data fin t =
     (if fin then res_timeout env this 0 t
      else
        (let t = on_res this (\<lambda>d. d\<lparr> received_bytes_per_timeout := received_bytes_per_timeout d + of_nat (length data) \<rparr>) t in
         if received_bytes_per_timeout (res_of this t) \<ge> HTTP_RECEIVE_THROUGHPUT_BYTES * of_nat HTTP_IDLE_TIMEOUT_S
         then on_res this (\<lambda>d. d\<lparr> received_bytes_per_timeout := 0 \<rparr>) (res_timeout env this HTTP_IDLE_TIMEOUT_S t)
         else t))"

definition body_handler :: "('w, 'z, 'h, 'v) HttpEnv \<Rightarrow> nat \<Rightarrow> ('w, 'z, 'h, 'v) hserver option data_handler" where
  "body_handler env this user_ptr data fin s =
     (case s of
        None \<Rightarrow> (0, None)
      | Some t \<Rightarrow>
          (case inStream (res_of this t) of
             None \<Rightarrow> (user_ptr, Some t)
           | Some h \<Rightarrow>
               (case stream_handler env h data fin (receive_timeout env this data fin t) of
                  None \<Rightarrow> (0, None)
                | Some t \<Rightarrow>
                    if socket_closed (ws_env env) this t then (0, Some t)
                    else if us_socket_is_shut_down (sops env) this (kernel (app t)) then (0, Some t)
                    else (user_ptr, Some (if fin then on_res this (\<lambda>d. d\<lparr> inStream := None \<rparr>) t else t)))))"

section \<open>Events\<close>

definition http_on_open :: "('w, 'z, 'h, 'v) HttpEnv \<Rightarrow> nat \<Rightarrow> ProxyParser option \<Rightarrow> ('w, 'z, 'h, 'v) hserver \<Rightarrow> ('w, 'z, 'h, 'v) hserver option" where
  "http_on_open env this proxy t =
     run_filters (filterHandlers env) this 1
       (on_loop (set_buffer this empty_backpressure)
         (on_res this (\<lambda>d. fresh_response proxy) (res_timeout env this HTTP_IDLE_TIMEOUT_S t)))"

definition httpErrorResponses :: "byte list list" where
  "httpErrorResponses =
     [[],
      bytes ''HTTP/1.1 505 HTTP Version Not Supported'' @ CRLF @ bytes ''Connection: close'' @ CRLF @ CRLF
        @ bytes ''<h1>HTTP Version Not Supported</h1><p>This server does not support HTTP/1.0.</p><hr><i>uWebSockets/20 Server</i>'',
      bytes ''HTTP/1.1 431 Request Header Fields Too Large'' @ CRLF @ bytes ''Connection: close'' @ CRLF @ CRLF
        @ bytes ''<h1>Request Header Fields Too Large</h1><hr><i>uWebSockets/20 Server</i>'',
      bytes ''HTTP/1.1 400 Bad Request'' @ CRLF @ bytes ''Connection: close'' @ CRLF @ CRLF
        @ bytes ''<h1>Bad Request</h1><hr><i>uWebSockets/20 Server</i>'']"

text \<open>An error response is written past the cork buffer, once, whether or not it goes out.\<close>

definition parse_error ::
  "('w, 'z, 'h, 'v) HttpEnv \<Rightarrow> nat \<Rightarrow> nat \<Rightarrow> ('w, 'z, 'h, 'v) hserver \<Rightarrow> ('w, 'z, 'h, 'v) hserver option" where
  "parse_error env this err t =
     (if err < length httpErrorResponses
      then http_close env this
             (on_loop (\<lambda>l. shutdown (sops env) this (snd (socket_write (sops env) this (httpErrorResponses ! err) False l))) t)
      else None)"

definition finish_parse ::
  "('w, 'z, 'h, 'v) HttpEnv \<Rightarrow> nat \<Rightarrow> u64 \<Rightarrow> ('w, 'z, 'h, 'v) hserver \<Rightarrow> ('w, 'z, 'h, 'v) hserver option" where
  "finish_parse env this returnedSocket t =
     (if returnedSocket \<noteq> 0
      then
        (case uncork (sops env) this [] False (app t) of
           ((written, failed), l) \<Rightarrow>
             (let t = t\<lparr> app := l \<rparr>;
                  t = (if failed then res_timeout env this HTTP_IDLE_TIMEOUT_S t else t)
              in if close_due this t then shut_and_close env this t else Some t))
      else
        (case upgradedWebSocket (user (app t)) of
           Some webSocket \<Rightarrow>
             (case uncork (sops env) webSocket [] False (app t) of
                ((written, failed), l) \<Rightarrow>
                  (let t = t\<lparr> app := l \<rparr>;
                       t = (if \<not> failed \<and> isShuttingDown (data_of webSocket t)
                            then on_loop (shutdown (sops env) webSocket) t else t)
                   in Some (on_side (\<lambda>u. u\<lparr> upgradedWebSocket := None \<rparr>) t)))
         | None \<Rightarrow> Some (on_loop (\<lambda>l. snd (uncork (sops env) this [] False l)) t)))"

text \<open>Data arrives in the memory \<open>p\<close>; \<open>slack\<close> is what lies behind the fallback buffer's string.\<close>

definition http_on_data ::
  "('w, 'z, 'h, 'v) HttpEnv \<Rightarrow> ('w, 'z, 'h, 'v) routed HttpRouter \<Rightarrow> nat \<Rightarrow> byte list \<Rightarrow> byte list \<Rightarrow> nat \<Rightarrow>
   ('w, 'z, 'h, 'v) hserver \<Rightarrow> ('w, 'z, 'h, 'v) hserver option" where
  "http_on_data env router this slack p len t =
     (if us_socket_is_shut_down (sops env) this (kernel (app t)) then Some t
      else
        (case cork this (app t) of
           None \<Rightarrow> None
         | Some l \<Rightarrow>
             (let t = on_side (\<lambda>u. u\<lparr> isParsingHttp := True \<rparr>) (t\<lparr> app := l \<rparr>);
                  d = res_of this t
              in case consumePostPadded (request_handler env router this) (body_handler env this) slack the_socket p len
                        (proxyParser d) (http_parser d) (Some t) of
                   Some ((err, returnedSocket), parser, reserved, Some t) \<Rightarrow>
                     (let t = on_side (\<lambda>u. u\<lparr> isParsingHttp := False \<rparr>)
                                (on_res this (\<lambda>d. d\<lparr> http_parser := parser, proxyParser := reserved \<rparr>) t)
                      in if returnedSocket = FULLPTR
                         then Option.bind (parse_error env this err t) (finish_parse env this 0)
                         else finish_parse env this returnedSocket t)
                 | _ \<Rightarrow> None)))"

definition http_on_writable :: "('w, 'z, 'h, 'v) HttpEnv \<Rightarrow> nat \<Rightarrow> ('w, 'z, 'h, 'v) hserver \<Rightarrow> ('w, 'z, 'h, 'v) hserver option" where
  "http_on_writable env this t =
     (case onWritable (res_of this t) of
        Some h \<Rightarrow> map_option snd (callOnWritable env this h (write_offset (res_of this t)) (res_timeout env this 0 t))
      | None \<Rightarrow>
          (let t = snd (super_write env this [] True t) in
           map_option (res_timeout env this HTTP_IDLE_TIMEOUT_S) (if close_due this t then shut_and_close env this t else Some t)))"

definition http_on_end :: "('w, 'z, 'h, 'v) HttpEnv \<Rightarrow> nat \<Rightarrow> ('w, 'z, 'h, 'v) hserver \<Rightarrow> ('w, 'z, 'h, 'v) hserver option" where
  "http_on_end env this t = http_close env this t"

definition http_on_timeout :: "('w, 'z, 'h, 'v) HttpEnv \<Rightarrow> nat \<Rightarrow> ('w, 'z, 'h, 'v) hserver \<Rightarrow> ('w, 'z, 'h, 'v) hserver option" where
  "http_on_timeout env this t = http_close env this t"

end
