(* ===== verification/Http_Wire.thy ===== *)
theory Http_Wire
  imports Http_Context Ws_Send
begin

text \<open>
  What a response puts on the wire. The layer below is exact as long as a corked socket's cork buffer
  does not overflow (\<open>Socket_Stream\<close>): there it may lose data, so the theorems ask for the room.

  \<open>emits\<close> says of an operation which bytes it adds to the stream of the socket and what it does to the
  HTTP state, of which the bytes may depend; operations compose.
\<close>

section \<open>Writes that are not lost\<close>

definition room_for :: "nat \<Rightarrow> nat \<Rightarrow> ('w, 'z) LoopState_scheme \<Rightarrow> bool" where
  "room_for this n l \<longleftrightarrow> corkedSocket l \<noteq> Some this \<or> corkOffset l + n \<le> CORK_BUFFER_SIZE"

lemma async_write_exact:
  assumes laws: "socket_laws ops wire" and ok: "loop_ok l" and alive: "\<not> closed ops this l"
    and room: "room_for this (length src) l"
  obtains failed l' where "async_write ops this src False n l = ((length src, failed), l')"
    and "sent ops wire this src l l'" and "corkedSocket l' = corkedSocket l"
    and "\<And>k. room_for this (length src + k) l \<Longrightarrow> room_for this k l'"
proof (cases "corkedSocket l = Some this")
  case False
  obtain k failed l' where w: "async_write ops this src False n l = ((k, failed), l')" by (metis prod.collapse)
  have bp: "bp_ok (buffers l this)" using ok by (simp add: loop_ok_def)
  have u: "write_uncorked ops this src False n l = ((k, failed), l')"
    using w write_with_uncorked(1) [OF False, of "uncork ops this" ops src False n] by (simp add: async_write_def)
  have k: "k = length src" using write_uncorked_sent [OF laws bp False alive u] by simp
  have "corkedSocket l' = corkedSocket l"
    using write_with_uncorked(2) [OF False, of ops src False n] u by simp
  then show thesis
    using that [of failed l'] w k async_write_sent [OF laws ok w] False by (simp add: room_for_def)
next
  case True
  obtain drained l1 where d: "drain_first ops this src l = (drained, l1)" by fastforce
  have bp: "bp_ok (buffers l this)" using ok by (simp add: loop_ok_def)
  note s = drain_first_sent [OF laws bp d]
  have c1: "corkedSocket l1 = Some this" "corkBuffer l1 = corkBuffer l" using s(1) True by (simp_all add: sent_out_def)
  obtain k failed l' where w: "async_write ops this src False n l = ((k, failed), l')" by (metis prod.collapse)
  have fits: "length src \<le> CORK_BUFFER_SIZE - corkOffset l" using room True by (simp add: room_for_def)
  note e = w [unfolded async_write_def write_with_eq d prod.case]
  have "k = length src \<and> corkedSocket l' = Some this \<and> corkOffset l' \<le> corkOffset l + length src"
    using e alive c1 fits by (auto split: if_splits)
  then show thesis
    using that [of failed l'] w async_write_sent [OF laws ok w] True by (auto simp: room_for_def)
qed

section \<open>What an operation emits\<close>

definition http_ready :: "('w, 'z, 'h, 'v) HttpEnv \<Rightarrow> nat \<Rightarrow> nat \<Rightarrow> ('h, 'v) HttpSide \<Rightarrow> ('w, 'z, 'h, 'v) hserver \<Rightarrow> bool" where
  "http_ready env this n u t \<longleftrightarrow> loop_ok (app t) \<and> \<not> socket_closed (ws_env env) this t \<and> room_for this n (app t) \<and> user (app t) = u"

definition emitted ::
  "(nat \<Rightarrow> 'w \<Rightarrow> byte list) \<Rightarrow> ('w, 'z, 'h, 'v) HttpEnv \<Rightarrow> nat \<Rightarrow> byte list \<Rightarrow> ('h, 'v) HttpSide \<Rightarrow>
   ('w, 'z, 'h, 'v) hserver \<Rightarrow> ('w, 'z, 'h, 'v) hserver \<Rightarrow> bool" where
  "emitted wire env this bs u' t t' \<longleftrightarrow> sent (sops env) wire this bs (app t) (app t') \<and>
     corkedSocket (app t') = corkedSocket (app t) \<and> user (app t') = u' \<and>
     (\<forall>k. room_for this (length bs + k) (app t) \<longrightarrow> room_for this k (app t'))"

definition emits ::
  "(nat \<Rightarrow> 'w \<Rightarrow> byte list) \<Rightarrow> ('w, 'z, 'h, 'v) HttpEnv \<Rightarrow> nat \<Rightarrow> ('h, 'v) HttpSide \<Rightarrow> byte list \<Rightarrow> ('h, 'v) HttpSide \<Rightarrow>
   (('w, 'z, 'h, 'v) hserver \<Rightarrow> ('w, 'z, 'h, 'v) hserver) \<Rightarrow> bool" where
  "emits wire env this u bs u' f \<longleftrightarrow> (\<forall>t. http_ready env this (length bs) u t \<longrightarrow> emitted wire env this bs u' t (f t))"

lemma room_for_less: "room_for this (m + n) l \<Longrightarrow> room_for this m l"
  by (auto simp: room_for_def)

lemma emitted_ready:
  assumes "http_ready env this (length bs + k) u t" and "emitted wire env this bs u' t t'"
  shows "http_ready env this k u' t'"
  using assms by (auto simp: http_ready_def emitted_def sent_def)

lemma emitted_trans:
  assumes "emitted wire env this as u1 t t1" and "emitted wire env this bs u2 t1 t2"
  shows "emitted wire env this (as @ bs) u2 t t2"
  using assms sent_trans [of "sops env" wire this as "app t" "app t1" bs "app t2"]
  by (simp add: emitted_def add.assoc)

lemma emits_comp:
  assumes "emits wire env this u as u1 f" and "emits wire env this u1 bs u2 g"
  shows "emits wire env this u (as @ bs) u2 (\<lambda>t. g (f t))"
  unfolding emits_def
proof (intro allI impI)
  fix t assume r: "http_ready env this (length (as @ bs)) u t"
  then have "http_ready env this (length as) u t"
    using room_for_less [of this "length as" "length bs" "app t"] by (simp add: http_ready_def)
  then have 1: "emitted wire env this as u1 t (f t)" using assms(1) by (simp add: emits_def)
  have "http_ready env this (length bs) u1 (f t)" using emitted_ready [OF _ 1] r by simp
  then have "emitted wire env this bs u2 (f t) (g (f t))" using assms(2) by (simp add: emits_def)
  with 1 show "emitted wire env this (as @ bs) u2 t (g (f t))" by (rule emitted_trans)
qed

lemma emits_id: "emits wire env this u [] u (\<lambda>t. t)"
  by (simp add: emits_def emitted_def http_ready_def sent_refl)

text \<open>A choice that is decided by the HTTP state.\<close>

lemma emits_cong:
  assumes "emits wire env this u bs u' f" and "\<And>t. user (app t) = u \<Longrightarrow> g t = f t"
  shows "emits wire env this u bs u' g"
  using assms by (simp add: emits_def http_ready_def)

lemma put_emits:
  assumes "server_laws (sops env) wire"
  shows "emits wire env this u bs u (put env this bs)"
  unfolding emits_def
proof (intro allI impI)
  fix t assume r: "http_ready env this (length bs) u t"
  then have l: "loop_ok (app t)" "\<not> closed (sops env) this (app t)" "room_for this (length bs) (app t)" "user (app t) = u"
    by (simp_all add: http_ready_def)
  obtain failed l' where w: "async_write (sops env) this bs False 0 (app t) = ((length bs, failed), l')"
      "sent (sops env) wire this bs (app t) l'" "corkedSocket l' = corkedSocket (app t)"
      "\<And>k. room_for this (length bs + k) (app t) \<Longrightarrow> room_for this k l'"
    by (rule async_write_exact [OF server_socket_laws [OF assms] l(1-3)]) blast
  have "LoopState.more l' = LoopState.more (app t)"
    using async_write_more [of "sops env" this bs False 0 "app t"] w(1) by simp
  then have "same_server (app t) l'" by (rule same_serverI)
  then show "emitted wire env this bs u t (put env this bs t)"
    using w l(4) by (simp add: emitted_def put_def super_write_def same_server_def)
qed

lemma side_emits:
  "emits wire env this u [] (f u) (on_side f)"
  by (simp add: emits_def emitted_def http_ready_def on_side_def on_loop_def sent_def socket_stream_def out_stream_def
      corked_bytes_def loop_ok_def room_for_def)

lemma timeout_emits:
  assumes "server_laws (sops env) wire"
  shows "emits wire env this u [] u (res_timeout env this seconds)"
  using assms unfolding server_laws_def
  by (simp add: emits_def emitted_def http_ready_def res_timeout_def timeout_def on_loop_def sent_def socket_stream_def
      out_stream_def corked_bytes_def loop_ok_def room_for_def)

section \<open>The HTTP state\<close>

definition flagged :: "u32 \<Rightarrow> nat \<Rightarrow> ('h, 'v) HttpSide \<Rightarrow> bool" where
  "flagged flag this u \<longleftrightarrow> res_state (responses u this) AND flag \<noteq> 0"

definition set_res :: "nat \<Rightarrow> ('h HttpResponseData \<Rightarrow> 'h HttpResponseData) \<Rightarrow> ('h, 'v) HttpSide \<Rightarrow> ('h, 'v) HttpSide" where
  "set_res this f u = u\<lparr> responses := (responses u)(this := f (responses u this)) \<rparr>"

definition set_flag :: "u32 \<Rightarrow> nat \<Rightarrow> ('h, 'v) HttpSide \<Rightarrow> ('h, 'v) HttpSide" where
  "set_flag flag this = set_res this (\<lambda>d. d\<lparr> res_state := res_state d OR flag \<rparr>)"

definition set_done :: "nat \<Rightarrow> ('h, 'v) HttpSide \<Rightarrow> ('h, 'v) HttpSide" where
  "set_done this = set_res this (\<lambda>d. d\<lparr> onAborted := None, onWritable := None,
     res_state := res_state d AND NOT HTTP_RESPONSE_PENDING \<rparr>)"

lemma called_flagged: "called flag this t = flagged flag this (user (app t))"
  by (simp add: called_def flagged_def)

lemma set_res_fun: "set_res this f = (\<lambda>u. u\<lparr> responses := (responses u)(this := f (responses u this)) \<rparr>)"
  by (rule ext) (simp add: set_res_def)

lemma on_res_side: "on_res this f = on_side (set_res this f)"
  by (simp add: on_res_def set_res_fun)

lemma mark_side: "mark flag this = on_side (set_flag flag this)" "markDone this = on_side (set_done this)"
  by (simp_all add: mark_def markDone_def set_flag_def set_done_def on_res_side)

lemmas flag_values = HTTP_STATUS_CALLED_def HTTP_WRITE_CALLED_def HTTP_END_CALLED_def HTTP_RESPONSE_PENDING_def HTTP_CONNECTION_CLOSE_def

lemma flag_bits:
  "x AND HTTP_STATUS_CALLED \<noteq> 0 \<longleftrightarrow> bit x 0" "x AND HTTP_WRITE_CALLED \<noteq> 0 \<longleftrightarrow> bit x 1" "x AND HTTP_END_CALLED \<noteq> 0 \<longleftrightarrow> bit x 2"
  "x AND HTTP_RESPONSE_PENDING \<noteq> 0 \<longleftrightarrow> bit x 3" "x AND HTTP_CONNECTION_CLOSE \<noteq> 0 \<longleftrightarrow> bit x 4" for x :: u32
proof -
  have one: "x AND push_bit n 1 \<noteq> 0 \<longleftrightarrow> bit x n" if "n < 32" for n
    using that by (simp add: bit_iff_and_push_bit_not_eq_0)
  show "x AND HTTP_STATUS_CALLED \<noteq> 0 \<longleftrightarrow> bit x 0" "x AND HTTP_WRITE_CALLED \<noteq> 0 \<longleftrightarrow> bit x 1" "x AND HTTP_END_CALLED \<noteq> 0 \<longleftrightarrow> bit x 2"
    "x AND HTTP_RESPONSE_PENDING \<noteq> 0 \<longleftrightarrow> bit x 3" "x AND HTTP_CONNECTION_CLOSE \<noteq> 0 \<longleftrightarrow> bit x 4"
    using one [of 0] one [of 1] one [of 2] one [of 3] one [of 4] by (simp_all add: flag_values)
qed

lemma flag_push:
  "HTTP_STATUS_CALLED = push_bit 0 1" "HTTP_WRITE_CALLED = push_bit 1 1" "HTTP_END_CALLED = push_bit 2 1"
  "HTTP_RESPONSE_PENDING = push_bit 3 1" "HTTP_CONNECTION_CLOSE = push_bit 4 1"
  by (simp_all add: flag_values)

lemma flagged_set [simp]:
  "flagged HTTP_STATUS_CALLED this (set_flag HTTP_STATUS_CALLED this u)"
  "flagged HTTP_WRITE_CALLED this (set_flag HTTP_WRITE_CALLED this u)"
  "flagged HTTP_WRITE_CALLED this (set_flag HTTP_STATUS_CALLED this u) = flagged HTTP_WRITE_CALLED this u"
  "flagged HTTP_WRITE_CALLED this (set_flag HTTP_CONNECTION_CLOSE this u) = flagged HTTP_WRITE_CALLED this u"
  "flagged HTTP_STATUS_CALLED this (set_flag HTTP_WRITE_CALLED this u) = flagged HTTP_STATUS_CALLED this u"
  "flagged HTTP_STATUS_CALLED this (set_flag HTTP_CONNECTION_CLOSE this u) = flagged HTTP_STATUS_CALLED this u"
  "flagged HTTP_END_CALLED this (set_flag HTTP_STATUS_CALLED this u) = flagged HTTP_END_CALLED this u"
  "flagged HTTP_END_CALLED this (set_flag HTTP_CONNECTION_CLOSE this u) = flagged HTTP_END_CALLED this u"
  "flagged HTTP_CONNECTION_CLOSE this (set_flag HTTP_STATUS_CALLED this u) = flagged HTTP_CONNECTION_CLOSE this u"
  "flagged HTTP_CONNECTION_CLOSE this (set_flag HTTP_WRITE_CALLED this u) = flagged HTTP_CONNECTION_CLOSE this u"
  "flagged HTTP_CONNECTION_CLOSE this (set_flag HTTP_END_CALLED this u) = flagged HTTP_CONNECTION_CLOSE this u"
  "flagged HTTP_CONNECTION_CLOSE this (set_done this u) = flagged HTTP_CONNECTION_CLOSE this u"
  "\<not> flagged HTTP_RESPONSE_PENDING this (set_done this u)"
  unfolding flagged_def flag_bits by (simp_all add: set_flag_def set_res_def set_done_def flag_push bit_simps)

lemma set_res_simps [simp]:
  "date (set_res this f u) = date u" "noMark (set_res this f u) = noMark u"
  "isParsingHttp (set_res this f u) = isParsingHttp u" "upgradedWebSocket (set_res this f u) = upgradedWebSocket u"
  "http_user (set_res this f u) = http_user u" "responses (set_res this f u) = (responses u)(this := f (responses u this))"
  by (simp_all add: set_res_def)

section \<open>The parts of a response\<close>

definition status_line :: "byte list \<Rightarrow> byte list" where
  "status_line status = bytes ''HTTP/1.1 '' @ status @ CRLF"

definition header_line :: "byte list \<times> byte list \<Rightarrow> byte list" where
  "header_line h = fst h @ bytes '': '' @ snd h @ CRLF"

definition mark_lines :: "('h, 'v) HttpSide \<Rightarrow> byte list" where
  "mark_lines u = header_line (bytes ''Date'', take 29 (date u)) @
     (if noMark u then [] else header_line (bytes ''uWebSockets'', bytes ''20''))"

text \<open>The status line of a response that has none yet.\<close>

definition started :: "nat \<Rightarrow> ('h, 'v) HttpSide \<Rightarrow> ('h, 'v) HttpSide" where
  "started this u = (if flagged HTTP_STATUS_CALLED this u then u else set_flag HTTP_STATUS_CALLED this u)"

definition status_bytes :: "nat \<Rightarrow> byte list \<Rightarrow> ('h, 'v) HttpSide \<Rightarrow> byte list" where
  "status_bytes this status u = (if flagged HTTP_STATUS_CALLED this u then [] else status_line status)"

lemma mark_lines_set [simp]: "mark_lines (set_flag f this u) = mark_lines u"
  by (simp add: mark_lines_def set_flag_def)

lemma started_simps [simp]:
  "flagged HTTP_STATUS_CALLED this (started this u)"
  "flagged HTTP_WRITE_CALLED this (started this u) = flagged HTTP_WRITE_CALLED this u"
  "flagged HTTP_END_CALLED this (started this u) = flagged HTTP_END_CALLED this u"
  "flagged HTTP_CONNECTION_CLOSE this (started this u) = flagged HTTP_CONNECTION_CLOSE this u"
  "mark_lines (started this u) = mark_lines u" "status_bytes this s (started this u) = []"
  "started this (started this u) = started this u" "noMark (started this u) = noMark u" "date (started this u) = date u"
  by (simp_all add: started_def status_bytes_def) (simp_all add: set_flag_def)

lemma emits_by:
  assumes "emits wire env this u bs u' f" and "\<And>t. user (app t) = u \<Longrightarrow> g t = f t" and "bs' = bs" and "u'' = u'"
  shows "emits wire env this u bs' u'' g"
  using emits_cong [OF assms(1, 2)] assms(3, 4) by simp

lemma writeStatus_emits:
  assumes "server_laws (sops env) wire"
  shows "emits wire env this u (status_bytes this s u) (started this u) (writeStatus env this s)"
proof (cases "flagged HTTP_STATUS_CALLED this u")
  case True
  show ?thesis
    by (rule emits_by [OF emits_id]) (use True in \<open>simp_all add: writeStatus_def called_flagged status_bytes_def started_def\<close>)
next
  case False
  let ?u = "set_flag HTTP_STATUS_CALLED this u"
  have "emits wire env this u ((([] @ bytes ''HTTP/1.1 '') @ s) @ CRLF) ?u
      (\<lambda>t. put env this CRLF (put env this s (put env this (bytes ''HTTP/1.1 '') (mark HTTP_STATUS_CALLED this t))))"
    unfolding mark_side by (intro emits_comp [OF _ put_emits [OF assms]] side_emits)
  then show ?thesis
    by (rule emits_by) (use False in \<open>simp_all add: writeStatus_def called_flagged status_line_def status_bytes_def started_def\<close>)
qed

lemma writeHeader_emits:
  assumes "server_laws (sops env) wire"
  shows "emits wire env this u (status_bytes this HTTP_200_OK u @ header_line (k, v)) (started this u) (writeHeader env this k v)"
proof -
  have "emits wire env this u ((((status_bytes this HTTP_200_OK u @ k) @ bytes '': '') @ v) @ CRLF) (started this u)
      (\<lambda>t. put env this CRLF (put env this v (put env this (bytes '': '') (put env this k (writeStatus env this HTTP_200_OK t)))))"
    by (intro emits_comp [OF _ put_emits [OF assms]] writeStatus_emits [OF assms])
  then show ?thesis by (rule emits_by) (simp_all add: writeHeader_def header_line_def)
qed

lemma user_put [simp]: "user (app (put env this bs t)) = user (app t)"
proof -
  obtain r l' where w: "async_write (sops env) this bs False 0 (app t) = (r, l')" by fastforce
  then have "LoopState.more l' = LoopState.more (app t)" using async_write_more [of "sops env" this bs False 0 "app t"] by simp
  then have "same_server (app t) l'" by (rule same_serverI)
  then show ?thesis by (simp add: put_def super_write_def w same_server_def)
qed

lemma user_side [simp]: "user (app (on_side f t)) = f (user (app t))"
  by (simp add: on_side_def on_loop_def)

lemma user_timeout [simp]: "user (app (res_timeout env this n t)) = user (app t)"
  by (simp add: res_timeout_def on_loop_def timeout_def)

lemma user_writeStatus [simp]: "user (app (writeStatus env this s t)) = started this (user (app t))"
  by (simp add: writeStatus_def called_flagged started_def mark_side)

lemma user_writeHeader [simp]: "user (app (writeHeader env this k v t)) = started this (user (app t))"
  by (simp add: writeHeader_def)

lemma user_writeMark [simp]: "user (app (writeMark env this t)) = started this (user (app t))"
  by (simp add: writeMark_def Let_def)

lemma writeMark_emits:
  assumes "server_laws (sops env) wire"
  shows "emits wire env this (started this u) (mark_lines u) (started this u) (writeMark env this)"
proof -
  let ?u = "started this u"
  note h = writeHeader_emits [OF assms, of this ?u, unfolded started_simps append_Nil]
  note d = h [of "bytes ''Date''" "take 29 (date u)"]
  show ?thesis
  proof (cases "noMark u")
    case True
    show ?thesis by (rule emits_by [OF d]) (use True in \<open>simp_all add: writeMark_def mark_lines_def Let_def\<close>)
  next
    case False
    show ?thesis
      by (rule emits_by [OF emits_comp [OF d h [of "bytes ''uWebSockets''" "bytes ''20''"]]])
        (use False in \<open>simp_all add: writeMark_def mark_lines_def Let_def\<close>)
  qed
qed

section \<open>Chunks\<close>

definition chunk_bytes :: "byte list \<Rightarrow> byte list" where
  "chunk_bytes data = CRLF @ u32toaHex (of_nat (length data)) @ CRLF @ data"

lemma put_chunk_emits:
  assumes "server_laws (sops env) wire"
  shows "emits wire env this u (chunk_bytes data) u
    (\<lambda>t. put env this data (put env this CRLF (writeUnsignedHex env this (of_nat (length data)) (put env this CRLF t))))"
proof -
  have "emits wire env this u (((CRLF @ u32toaHex (of_nat (length data))) @ CRLF) @ data) u
    (\<lambda>t. put env this data (put env this CRLF (put env this (u32toaHex (of_nat (length data))) (put env this CRLF t))))"
    by (intro emits_comp [OF _ put_emits [OF assms]] put_emits [OF assms])
  then show ?thesis by (rule emits_by) (simp_all add: chunk_bytes_def writeUnsignedHex_def)
qed

text \<open>The head of a chunked response is written with the first chunk.\<close>

definition chunked_head :: "nat \<Rightarrow> ('h, 'v) HttpSide \<Rightarrow> byte list" where
  "chunked_head this u = (if flagged HTTP_WRITE_CALLED this u then []
     else mark_lines u @ header_line (bytes ''Transfer-Encoding'', bytes ''chunked''))"

definition writing :: "nat \<Rightarrow> ('h, 'v) HttpSide \<Rightarrow> ('h, 'v) HttpSide" where
  "writing this u = (if flagged HTTP_WRITE_CALLED this u then started this u else set_flag HTTP_WRITE_CALLED this (started this u))"

lemma writing_simps [simp]:
  "flagged HTTP_STATUS_CALLED this (writing this u)" "flagged HTTP_WRITE_CALLED this (writing this u)"
  "flagged HTTP_CONNECTION_CLOSE this (writing this u) = flagged HTTP_CONNECTION_CLOSE this u"
  "started this (writing this u) = writing this u" "writing this (writing this u) = writing this u"
  "mark_lines (writing this u) = mark_lines u"
  by (simp_all add: writing_def) (simp_all add: started_def)

lemma res_write_emits:
  assumes laws: "server_laws (sops env) wire" and data: "data \<noteq> []"
  shows "emits wire env this u (status_bytes this HTTP_200_OK u @ chunked_head this u @ chunk_bytes data) (writing this u)
    (\<lambda>t. snd (res_write env this data t))"
proof -
  define head where "head = (\<lambda>t. if \<not> called HTTP_WRITE_CALLED this t
      then mark HTTP_WRITE_CALLED this (writeHeader env this (bytes ''Transfer-Encoding'') (bytes ''chunked'') (writeMark env this t)) else t)"
  have head: "emits wire env this (started this u) (chunked_head this u) (writing this u) head"
  proof (cases "flagged HTTP_WRITE_CALLED this u")
    case True
    show ?thesis
      by (rule emits_by [OF emits_id])
        (use True in \<open>simp_all add: head_def called_flagged chunked_head_def writing_def\<close>)
  next
    case False
    note h = emits_comp [OF emits_comp [OF writeMark_emits [OF laws, of this u]
          writeHeader_emits [OF laws, of this "started this u" "bytes ''Transfer-Encoding''" "bytes ''chunked''", unfolded started_simps append_Nil]]
          side_emits [of wire env this "started this u" "set_flag HTTP_WRITE_CALLED this"]]
    show ?thesis
      by (rule emits_by [OF h]) (use False in \<open>simp_all add: head_def called_flagged chunked_head_def writing_def mark_side\<close>)
  qed
  define chunk where "chunk = (\<lambda>t. put env this data (put env this CRLF (writeUnsignedHex env this (of_nat (length data)) (put env this CRLF t))))"
  note body = emits_comp [OF emits_comp [OF writeStatus_emits [OF laws, of this u HTTP_200_OK] head] put_chunk_emits [OF laws, of this "writing this u" data]]
  define f where "f = (\<lambda>t. chunk (head (writeStatus env this HTTP_200_OK t)))"
  have body: "emits wire env this u ((status_bytes this HTTP_200_OK u @ chunked_head this u) @ chunk_bytes data) (writing this u) f"
    by (rule emits_by [OF body]) (simp_all add: f_def chunk_def)
  note late = emits_comp [OF body timeout_emits [OF laws, of this "writing this u" HTTP_TIMEOUT_S]]
  have "snd (res_write env this data t) = f t \<or> snd (res_write env this data t) = res_timeout env this HTTP_TIMEOUT_S (f t)" for t
    using data by (auto simp: res_write_def Let_def f_def chunk_def head_def put_def split: prod.splits)
  then show ?thesis
    using body late unfolding emits_def by (metis append.assoc append_Nil2)
qed

lemma res_write_Nil_emits:
  assumes "server_laws (sops env) wire"
  shows "emits wire env this u (status_bytes this HTTP_200_OK u) (started this u) (\<lambda>t. snd (res_write env this [] t))"
  by (rule emits_by [OF writeStatus_emits [OF assms]]) (simp_all add: res_write_def Let_def)

section \<open>The end of a response\<close>

lemma emits_at:
  assumes "emits wire env this u bs u' f" and "http_ready env this (length bs + k) u t"
  shows "emitted wire env this bs u' t (f t)" "http_ready env this k u' (f t)"
proof -
  have "http_ready env this (length bs) u t"
    using assms(2) room_for_less [of this "length bs" k "app t"] by (simp add: http_ready_def)
  then show e: "emitted wire env this bs u' t (f t)" using assms(1) by (simp add: emits_def)
  show "http_ready env this k u' (f t)" by (rule emitted_ready [OF assms(2) e])
qed

definition closing_bytes :: "nat \<Rightarrow> bool \<Rightarrow> ('h, 'v) HttpSide \<Rightarrow> byte list" where
  "closing_bytes this c u = (if c \<and> \<not> flagged HTTP_CONNECTION_CLOSE this u then header_line (bytes ''Connection'', bytes ''close'') else [])"

definition closing :: "nat \<Rightarrow> bool \<Rightarrow> ('h, 'v) HttpSide \<Rightarrow> ('h, 'v) HttpSide" where
  "closing this c u = (if c then set_flag HTTP_CONNECTION_CLOSE this (started this u) else started this u)"

lemma closing_simps [simp]:
  "flagged HTTP_STATUS_CALLED this (closing this c u)" "flagged HTTP_WRITE_CALLED this (closing this c u) = flagged HTTP_WRITE_CALLED this u"
  "flagged HTTP_END_CALLED this (closing this c u) = flagged HTTP_END_CALLED this u"
  "started this (closing this c u) = closing this c u" "mark_lines (closing this c u) = mark_lines u"
  by (simp_all add: closing_def) (simp add: started_def)

lemma start_end_emits:
  assumes laws: "server_laws (sops env) wire"
  shows "emits wire env this u (status_bytes this HTTP_200_OK u @ closing_bytes this c u) (closing this c u)
    (start_end env this c)"
proof -
  note s = writeStatus_emits [OF laws, of this u HTTP_200_OK]
  note flag = side_emits [of wire env this "started this u" "set_flag HTTP_CONNECTION_CLOSE this"]
  note h = writeHeader_emits [OF laws, of this "started this u" "bytes ''Connection''" "bytes ''close''", unfolded started_simps append_Nil]
  consider (keep) "\<not> c" | (had) "c" "flagged HTTP_CONNECTION_CLOSE this u" | (new) "c" "\<not> flagged HTTP_CONNECTION_CLOSE this u" by blast
  then show ?thesis
  proof cases
    case keep
    show ?thesis by (rule emits_by [OF s]) (use keep in \<open>simp_all add: closing_bytes_def closing_def start_end_def Let_def\<close>)
  next
    case had
    show ?thesis by (rule emits_by [OF emits_comp [OF s flag]])
        (use had in \<open>simp_all add: closing_bytes_def closing_def start_end_def Let_def called_flagged mark_side\<close>)
  next
    case new
    show ?thesis by (rule emits_by [OF emits_comp [OF s emits_comp [OF h flag]]])
        (use new in \<open>simp_all add: closing_bytes_def closing_def start_end_def Let_def called_flagged mark_side\<close>)
  qed
qed

definition last_chunk :: "byte list \<Rightarrow> byte list" where
  "last_chunk data = (if data = [] then [] else chunk_bytes data) @ CRLF @ bytes ''0'' @ CRLF @ CRLF"

lemma emitted_corked: "emitted wire env this bs u t t' \<Longrightarrow> isCorked this (app t') = isCorked this (app t)"
  by (simp add: emitted_def isCorked_def)

text \<open>The connection is not closed inside the call: it is corked, or to be kept.\<close>

lemma internalEnd_chunked:
  assumes laws: "server_laws (sops env) wire" and w: "flagged HTTP_WRITE_CALLED this u"
    and bs: "bs = status_bytes this HTTP_200_OK u @ closing_bytes this c u @ last_chunk data"
    and r: "http_ready env this (length bs) u t"
    and stays: "isCorked this (app t) \<or> \<not> c \<and> \<not> flagged HTTP_CONNECTION_CLOSE this u"
  shows "\<exists>t'. internalEnd env this data n optional allow c t = Some (True, t') \<and>
    emitted wire env this bs (set_done this (closing this c u)) t t'"
proof -
  note start = start_end_emits [OF laws, of this u c]
  define g where "g = (\<lambda>t. if data \<noteq> []
      then put env this data (put env this CRLF (writeUnsignedHex env this (of_nat (length data)) (put env this CRLF t))) else t)"
  have g: "emits wire env this (closing this c u) (if data = [] then [] else chunk_bytes data) (closing this c u) g"
    using put_chunk_emits [OF laws, of this "closing this c u" data] emits_id by (cases "data = []") (simp_all add: g_def)
  define h where "h = (\<lambda>t. markDone this (put env this (CRLF @ bytes ''0'' @ CRLF @ CRLF) (g (start_end env this c t))))"
  have h: "emits wire env this u bs (set_done this (closing this c u)) h"
    by (rule emits_by [OF emits_comp [OF emits_comp [OF emits_comp [OF start g] put_emits [OF laws, of this _ "CRLF @ bytes ''0'' @ CRLF @ CRLF"]]
            side_emits [of wire env this _ "set_done this"]]])
      (simp_all add: h_def bs last_chunk_def mark_side)
  have eh: "emitted wire env this bs (set_done this (closing this c u)) t (h t)" using h r by (simp add: emits_def)
  have late: "emitted wire env this bs (set_done this (closing this c u)) t (res_timeout env this HTTP_TIMEOUT_S (h t))"
    using emits_comp [OF h timeout_emits [OF laws]] r by (simp add: emits_def)
  have user: "user (app (start_end env this c t)) = closing this c u"
    using emits_at [OF start, of "length (last_chunk data)" t] r by (simp add: bs http_ready_def add.assoc)
  have "\<not> (\<not> isCorked this (app (h t)) \<and> close_due this (h t))"
    using stays emitted_corked [OF eh] eh by (auto simp: close_due_def called_flagged emitted_def closing_def)
  moreover have "called HTTP_WRITE_CALLED this (start_end env this c t)" using w by (simp add: called_flagged user)
  ultimately have "internalEnd env this data n optional allow c t = Some (True, res_timeout env this HTTP_TIMEOUT_S (h t))"
    by (cases "data = []") (auto simp: internalEnd_def end_chunked_def g_def h_def Let_def)
  then show ?thesis using late by blast
qed

lemma write_loop_emits:
  assumes laws: "server_laws (sops env) wire" and r: "http_ready env this (length data) u t" and small: "length data \<le> INT_MAX"
  shows "\<exists>failed t'. write_loop (length data) env this data False 0 False t = Some ((length data, failed), t') \<and>
    emitted wire env this data u t t'"
proof (cases "data = []")
  case True
  then show ?thesis using r emits_id [of wire env this u] by (auto simp: write_loop.simps emits_def)
next
  case False
  then obtain k where k: "length data = Suc k" by (cases data) auto
  have l: "loop_ok (app t)" "\<not> closed (sops env) this (app t)" "room_for this (length data) (app t)"
    using r by (simp_all add: http_ready_def)
  obtain failed l' where w: "async_write (sops env) this data False 0 (app t) = ((length data, failed), l')"
    by (rule async_write_exact [OF server_socket_laws [OF laws] l]) blast
  have p: "put env this data t = t\<lparr> app := l' \<rparr>" by (simp add: put_def super_write_def w)
  have "write_loop (length data) env this data False 0 False t = Some ((length data, failed), put env this data t)"
    using False small k by (simp add: write_loop.simps super_write_def w p min_absorb1)
  moreover have "emitted wire env this data u t (put env this data t)" using put_emits [OF laws] r by (simp add: emits_def)
  ultimately show ?thesis by blast
qed

definition length_lines :: "('h, 'v) HttpSide \<Rightarrow> byte list \<Rightarrow> byte list" where
  "length_lines u data = mark_lines u @ header_line (bytes ''Content-Length'', u64toa (of_nat (length data))) @ CRLF"

lemma flagged_offset [simp]: "flagged f this (set_res this (\<lambda>d. d\<lparr> write_offset := g d \<rparr>) u) = flagged f this u"
  by (simp add: flagged_def)

lemma content_length_name: "bytes ''Content-Length: '' = bytes ''Content-Length'' @ bytes '': ''"
  by (simp add: bytes_def)

definition ended :: "nat \<Rightarrow> byte list \<Rightarrow> ('h, 'v) HttpSide \<Rightarrow> ('h, 'v) HttpSide" where
  "ended this data u = set_done this (set_res this (\<lambda>d. d\<lparr> write_offset := write_offset d + of_nat (length data) \<rparr>)
     (set_flag HTTP_END_CALLED this u))"

lemma internalEnd_length:
  assumes laws: "server_laws (sops env) wire" and w: "\<not> flagged HTTP_WRITE_CALLED this u" "\<not> flagged HTTP_END_CALLED this u"
    and off: "write_offset (responses u this) = 0" and small: "length data \<le> INT_MAX"
    and bs: "bs = status_bytes this HTTP_200_OK u @ closing_bytes this c u @ length_lines u data @ data"
    and r: "http_ready env this (length bs) u t"
    and stays: "isCorked this (app t) \<or> \<not> c \<and> \<not> flagged HTTP_CONNECTION_CLOSE this u"
  shows "\<exists>ok t'. internalEnd env this data (of_nat (length data)) False True c t = Some (ok, t') \<and>
    emitted wire env this bs (ended this data (closing this c u)) t t'"
proof -
  let ?u = "closing this c u" and ?n = "of_nat (length data) :: u64"
  note start = start_end_emits [OF laws, of this u c]
  have ud: "started this ?u = ?u" by simp
  have head: "emits wire env this ?u (length_lines u data) (set_flag HTTP_END_CALLED this ?u) (begin_end env this ?n True)"
    by (rule emits_by [OF emits_comp [OF emits_comp [OF emits_comp [OF emits_comp [OF writeMark_emits [OF laws, of this ?u, unfolded ud]
            put_emits [OF laws, of this ?u "bytes ''Content-Length: ''"]] put_emits [OF laws, of this ?u "u64toa ?n"]]
            put_emits [OF laws, of this ?u "CRLF @ CRLF"]] side_emits [of wire env this ?u "set_flag HTTP_END_CALLED this"]]])
      (use w(2) in \<open>simp_all add: begin_end_def Let_def called_flagged length_lines_def header_line_def writeUnsigned64_def mark_side content_length_name\<close>)
  define t1 where "t1 = begin_end env this ?n True (start_end env this c t)"
  note pre = emits_comp [OF start head, folded t1_def]
  have e1: "emitted wire env this ((status_bytes this HTTP_200_OK u @ closing_bytes this c u) @ length_lines u data)
      (set_flag HTTP_END_CALLED this ?u) t t1" and r1: "http_ready env this (length data) (set_flag HTTP_END_CALLED this ?u) t1"
    using emits_at [OF pre, of "length data" t] r by (simp_all add: bs t1_def add.assoc)
  obtain failed t2 where loop: "write_loop (length data) env this data False 0 False t1 = Some ((length data, failed), t2)"
    and e2: "emitted wire env this data (set_flag HTTP_END_CALLED this ?u) t1 t2"
    using write_loop_emits [OF laws r1 small] by blast
  let ?u2 = "set_res this (\<lambda>d. d\<lparr> write_offset := write_offset d + of_nat (length data) \<rparr>) (set_flag HTTP_END_CALLED this ?u)"
  define t3 where "t3 = on_res this (\<lambda>d. d\<lparr> write_offset := write_offset d + of_nat (length data) \<rparr>) t2"
  define t4 where "t4 = markDone this (res_timeout env this HTTP_TIMEOUT_S t3)"
  have r2: "http_ready env this 0 (set_flag HTTP_END_CALLED this ?u) t2"
    using emitted_ready [OF _ e2, of 0] r1 by simp
  have tail: "emits wire env this (set_flag HTTP_END_CALLED this ?u) [] (ended this data ?u)
      (\<lambda>t. markDone this (res_timeout env this HTTP_TIMEOUT_S (on_res this (\<lambda>d. d\<lparr> write_offset := write_offset d + of_nat (length data) \<rparr>) t)))"
    by (rule emits_by [OF emits_comp [OF emits_comp [OF side_emits [of wire env this _ "set_res this (\<lambda>d. d\<lparr> write_offset := write_offset d + of_nat (length data) \<rparr>)"]
            timeout_emits [OF laws, of this _ HTTP_TIMEOUT_S]] side_emits [of wire env this _ "set_done this"]]])
      (simp_all add: ended_def mark_side on_res_side)
  have e4: "emitted wire env this [] (ended this data ?u) t2 t4"
    using tail r2 by (simp add: emits_def t4_def t3_def)
  have e: "emitted wire env this bs (ended this data ?u) t t4"
    using emitted_trans [OF emitted_trans [OF e1 e2] e4] by (simp add: bs)
  have user: "user (app (start_end env this c t)) = ?u"
    using emits_at [OF start, of "length (length_lines u data @ data)" t] r by (simp add: bs http_ready_def add.assoc)
  have off3: "write_offset (res_of this t3) = ?n"
    using e2 off by (simp add: t3_def on_res_side emitted_def set_flag_def closing_def started_def)
  have size: "(if ?n = 0 then ?n else ?n) = ?n" by simp
  have "\<not> (\<not> isCorked this (app t4) \<and> close_due this t4)"
    using stays emitted_corked [OF e] e by (auto simp: close_due_def called_flagged emitted_def closing_def ended_def)
  moreover have "\<not> called HTTP_WRITE_CALLED this (start_end env this c t)" using w(1) by (simp add: called_flagged user)
  moreover have "user (app t4) = ended this data ?u" using e by (simp add: emitted_def)
  ultimately have "internalEnd env this data ?n False True c t = Some (\<not> failed, t4)"
    using loop off3
    by (auto simp: internalEnd_def end_length_def t1_def [symmetric] t3_def [symmetric] t4_def [symmetric] Let_def)
  then show ?thesis using e by blast
qed

section \<open>A whole response\<close>

text \<open>What a request handler calls: a status, headers, any number of writes, and the end.\<close>

definition respond ::
  "('w, 'z, 'h, 'v) HttpEnv \<Rightarrow> nat \<Rightarrow> byte list \<Rightarrow> (byte list \<times> byte list) list \<Rightarrow> byte list list \<Rightarrow> byte list \<Rightarrow> bool \<Rightarrow>
   ('w, 'z, 'h, 'v) hserver \<Rightarrow> ('w, 'z, 'h, 'v) hserver option" where
  "respond env this status hs ds d closeConnection t =
     res_end env this d closeConnection
       (fold (\<lambda>d t. snd (res_write env this d t)) ds
         (fold (\<lambda>(k, v). writeHeader env this k v) hs (writeStatus env this status t)))"

definition nonempty :: "byte list list \<Rightarrow> byte list list" where
  "nonempty ds = filter (\<lambda>d. d \<noteq> []) ds"

text \<open>The message of RFC 9112: the body has its length in the head or is in chunks.\<close>

definition response_message ::
  "byte list \<Rightarrow> (byte list \<times> byte list) list \<Rightarrow> byte list list \<Rightarrow> byte list \<Rightarrow> ('h, 'v) HttpSide \<Rightarrow> byte list" where
  "response_message status hs ds d u =
     status_line status @ concat (map header_line hs) @ mark_lines u @
     (if nonempty ds = [] then header_line (bytes ''Content-Length'', u64toa (of_nat (length d))) @ CRLF @ d
      else header_line (bytes ''Transfer-Encoding'', bytes ''chunked'') @ CRLF @ encode_chunks (nonempty ds @ nonempty [d]))"

lemma headers_emit:
  assumes laws: "server_laws (sops env) wire"
  shows "emits wire env this (started this u) (concat (map header_line hs)) (started this u) (fold (\<lambda>(k, v). writeHeader env this k v) hs)"
proof (induction hs)
  case Nil
  show ?case by (rule emits_by [OF emits_id]) simp_all
next
  case (Cons h hs)
  obtain k v where h: "h = (k, v)" by fastforce
  note w = writeHeader_emits [OF laws, of this "started this u" k v, unfolded started_simps append_Nil]
  show ?case by (rule emits_by [OF emits_comp [OF w Cons.IH]]) (simp_all add: h)
qed

lemma writes_emit:
  assumes laws: "server_laws (sops env) wire"
  shows "emits wire env this (started this u)
    (if nonempty ds = [] then [] else chunked_head this u @ concat (map chunk_bytes (nonempty ds)))
    (if nonempty ds = [] then started this u else writing this u) (fold (\<lambda>d t. snd (res_write env this d t)) ds)"
proof (induction ds arbitrary: u)
  case Nil
  show ?case by (rule emits_by [OF emits_id]) (simp_all add: nonempty_def)
next
  case (Cons d ds)
  show ?case
  proof (cases "d = []")
    case True
    note w = res_write_Nil_emits [OF laws, of this "started this u", unfolded started_simps]
    show ?thesis by (rule emits_by [OF emits_comp [OF w Cons.IH [of u]]]) (simp_all add: True nonempty_def)
  next
    case False
    have u: "chunked_head this (started this u) = chunked_head this u" "writing this (started this u) = writing this u"
      "chunked_head this (writing this u) = []"
      by (simp_all add: chunked_head_def writing_def)
    note w = res_write_emits [OF laws False, of this "started this u", unfolded started_simps u append_Nil]
    note rest = Cons.IH [of "writing this u", unfolded writing_simps u append_Nil]
    show ?thesis by (rule emits_by [OF emits_comp [OF w rest]]) (use False in \<open>simp_all add: nonempty_def\<close>)
  qed
qed

lemma chunks_encoded: "concat (map chunk_bytes ds) @ CRLF @ bytes ''0'' @ CRLF @ CRLF = CRLF @ encode_chunks ds"
  by (induction ds) (simp_all add: chunk_bytes_def bytes_def)

lemma last_chunk_encoded: "concat (map chunk_bytes ds) @ last_chunk d = CRLF @ encode_chunks (ds @ nonempty [d])"
  using chunks_encoded [of "ds @ nonempty [d]"] by (cases "d = []") (simp_all add: last_chunk_def nonempty_def)

text \<open>A socket whose current request is not answered yet.\<close>

definition unanswered :: "nat \<Rightarrow> ('h, 'v) HttpSide \<Rightarrow> bool" where
  "unanswered this u \<longleftrightarrow> res_state (responses u this) = HTTP_RESPONSE_PENDING \<and> write_offset (responses u this) = 0"

lemma unanswered_flags:
  assumes "unanswered this u"
  shows "\<not> flagged HTTP_STATUS_CALLED this u" "\<not> flagged HTTP_WRITE_CALLED this u" "\<not> flagged HTTP_END_CALLED this u"
    "\<not> flagged HTTP_CONNECTION_CLOSE this u"
  using assms by (simp_all add: unanswered_def flagged_def flag_values)


definition plain_http :: "'w SocketOps \<Rightarrow> ('w, unit, unit, unit) HttpEnv" where
  "plain_http ops = \<lparr> ws_env = plain_env ops, adopt_socket = (\<lambda>s w. (s, w)), us_socket_long_timeout = (\<lambda>s n w. w),
     filterHandlers = [], writable_handler = (\<lambda>h n t. Some (True, t)), aborted_handler = (\<lambda>h. Some),
     stream_handler = (\<lambda>h d fin. Some) \<rparr>"

definition asked_side :: "(unit, unit) HttpSide" where
  "asked_side = \<lparr> responses = (\<lambda>s. (fresh_response None)\<lparr> res_state := HTTP_RESPONSE_PENDING \<rparr>), date = replicate 29 48,
     noMark = True, isParsingHttp = False, upgradedWebSocket = None, http_user = () \<rparr>"

definition asked_server :: "(nat \<times> (nat \<times> byte list) list, unit, unit, unit) hserver" where
  "asked_server = idle_server (40, []) asked_side"


section \<open>What the model shows beside\<close>

text \<open>
  After a write, an end that asks to close the connection puts its header into the body, where the
  line break that ends the last chunk has to be. The chunk decoder takes it for an error.
\<close>

lemma close_header_inside_body:
  assumes "server_laws (sops env) wire" and "isCorked this (app t)"
    and "flagged HTTP_STATUS_CALLED this u" "flagged HTTP_WRITE_CALLED this u" "\<not> flagged HTTP_CONNECTION_CLOSE this u"
    and "http_ready env this (length (header_line (bytes ''Connection'', bytes ''close'') @ last_chunk [])) u t"
  shows "\<exists>t'. res_end env this [] True t = Some t' \<and>
    sent (sops env) wire this (header_line (bytes ''Connection'', bytes ''close'') @ last_chunk []) (app t) (app t')"
  using internalEnd_chunked [OF assms(1, 4) _ assms(6), of True "[]" 0 False True] assms(2, 3, 5)
  by (auto simp: res_end_def status_bytes_def closing_bytes_def emitted_def)

lemma close_header_is_chunk_error:
  "prefix [49, CR, LF, 65, 67, 111, 110] (drop 2 (chunk_bytes [65]) @ header_line (bytes ''Connection'', bytes ''close''))"
  "isParsingInvalidChunkedEncoding (snd (snd (chunkLoop [49, CR, LF, 65, 67, 111, 110] STATE_IS_CHUNKED False)))"
proof -
  have "u32toaHex 1 = [49]" by code_simp
  then show "prefix [49, CR, LF, 65, 67, 111, 110] (drop 2 (chunk_bytes [65]) @ header_line (bytes ''Connection'', bytes ''close''))"
    by (simp add: chunk_bytes_def header_line_def bytes_def)
  show "isParsingInvalidChunkedEncoding (snd (snd (chunkLoop [49, CR, LF, 65, 67, 111, 110] STATE_IS_CHUNKED False)))"
    by code_simp
qed

text \<open>Every dedicated compressor is replaced by the one of 3 kB: the test with the option of 3 kB has four bits.\<close>

lemma every_compressor_3kb:
  "list_all (\<lambda>settings. negotiated_options settings 15 0 AND COMPRESSOR_MASK = DEDICATED_COMPRESSOR_3KB)
     [0x92, 0xA3, 0xB4, 0xC5, 0xD6, 0xE7, 0xF8]"
  by code_simp

text \<open>A handler for writability that is attached by the handler that runs is dropped.\<close>

lemma attached_handler_dropped:
  assumes "writable_handler env h off (on_res this (\<lambda>d. d\<lparr> onWritable := Some Placeholder \<rparr>) t) = Some (True, res_onWritable this h' t')"
  shows "\<exists>t''. callOnWritable env this (Attached h) off t = Some (True, t'') \<and> onWritable (res_of this t'') = Some (Attached h)"
  using assms by (simp add: callOnWritable_def res_onWritable_def on_res_side)

end
