(* ===== verification/Uws_App.thy ===== *)
theory Uws_App
  imports Http_Context Event_Loop
begin

text \<open>
  The app of \<open>src/src/App.h\<close>: the settings of a WebSocket route and their checks, the handler that upgrades,
  the routes by method, and the distribution of accepted sockets over child apps.
\<close>

section \<open>Browsers with broken compression\<close>

text \<open>\<open>std::from_chars\<close> for an unsigned int: the longest run of digits, its value and what is left.\<close>

definition isDigit :: "byte \<Rightarrow> bool" where "isDigit c \<longleftrightarrow> 48 \<le> c \<and> c \<le> 57"

definition from_chars :: "byte list \<Rightarrow> (nat \<times> byte list) option" where
  "from_chars s =
     (let digits = takeWhile isDigit s; n = foldl (\<lambda>n c. 10 * n + (unat c - 48)) 0 digits
      in if digits = [] \<or> n \<ge> 2 ^ 32 then None else Some (n, drop (length digits) s))"

definition find_from :: "byte list \<Rightarrow> nat \<Rightarrow> byte list \<Rightarrow> nat option" where
  "find_from pat p s = map_option ((+) p) (find_bytes pat (drop p s))"

definition str_version15 :: "byte list" where "str_version15 = bytes '' Version/15.''"
definition str_safari :: "byte list" where "str_safari = bytes '' Safari/''"

definition hasBrokenCompression :: "byte list \<Rightarrow> bool" where
  "hasBrokenCompression userAgent =
     (case find_from str_version15 0 userAgent of
        None \<Rightarrow> False
      | Some posStart \<Rightarrow>
          (let posStart = posStart + 12 in
           case find_from [SP] posStart userAgent of
             None \<Rightarrow> False
           | Some posEnd \<Rightarrow>
               (case from_chars (take (posEnd - posStart) (drop posStart userAgent)) of
                  None \<Rightarrow> False
                | Some (minorVersion, rest) \<Rightarrow>
                    if rest \<noteq> [] then False
                    else if minorVersion > 3 then False
                    else find_from str_safari posEnd userAgent \<noteq> None)))"

section \<open>WebSocket routes\<close>

text \<open>The handlers and settings of a route; \<open>ws_route\<close> are those that are copied to the context.\<close>

record ('w, 'z, 'h, 'v) WebSocketBehavior =
  ws_route :: "('w, 'z, ('h, 'v) HttpSide) WsContext"
  idleTimeout :: u16
  upgradeHandler :: "('w, 'z, 'h, 'v) request_function option"

text \<open>The defaults.\<close>

definition default_route :: "('w, 'z, 'u) WsContext" where
  "default_route = \<lparr> openHandler = None, messageHandler = None, droppedHandler = None, drainHandler = None,
     subscriptionHandler = None, closeHandler = None, pingHandler = None, pongHandler = None, maxPayloadLength = 16 * 1024,
     compression = 0, maxBackpressure = 64 * 1024, closeOnBackpressureLimit = False, resetIdleTimeoutOnSend = False,
     sendPingsAutomatically = True, maxLifetime = 0, idleTimeoutComponents = (0, 0) \<rparr>"

definition default_behavior :: "('w, 'z, 'h, 'v) WebSocketBehavior" where
  "default_behavior = \<lparr> ws_route = default_route, idleTimeout = 120, upgradeHandler = None \<rparr>"

text \<open>False is \<open>std::terminate\<close>.\<close>

definition settings_accepted :: "('w, 'z, 'h, 'v) WebSocketBehavior \<Rightarrow> bool" where
  "settings_accepted behavior \<longleftrightarrow>
     \<not> (idleTimeout behavior \<noteq> 0 \<and> idleTimeout behavior < 8) \<and> \<not> idleTimeout behavior > 240 * 4 \<and>
     \<not> maxLifetime (ws_route behavior) > 240"

definition ws_context :: "('w, 'z, 'h, 'v) WebSocketBehavior \<Rightarrow> ('w, 'z, ('h, 'v) HttpSide) WsContext" where
  "ws_context behavior = (ws_route behavior)\<lparr> idleTimeoutComponents :=
     calculateIdleTimeoutCompnents (sendPingsAutomatically (ws_route behavior)) (idleTimeout behavior) \<rparr>"

definition str_key :: "byte list" where "str_key = bytes ''sec-websocket-key''"
definition str_protocol :: "byte list" where "str_protocol = bytes ''sec-websocket-protocol''"
definition str_extensions :: "byte list" where "str_extensions = bytes ''sec-websocket-extensions''"
definition str_agent :: "byte list" where "str_agent = bytes ''user-agent''"

text \<open>\<open>memset\<close> on the value of a header, in place.\<close>

fun blank_value :: "byte list \<Rightarrow> Header list \<Rightarrow> Header list" where
  "blank_value key [] = []"
| "blank_value key (h # hs) =
     (if fst h = [] then h # hs else if fst h = key then (fst h, replicate (length (snd h)) SP) # hs else h # blank_value key hs)"

definition blank_header :: "byte list \<Rightarrow> HttpRequest \<Rightarrow> HttpRequest" where
  "blank_header key req =
     (if mightHave (bf req) key then req\<lparr> headers := take 1 (headers req) @ blank_value key (drop 1 (headers req)) \<rparr> else req)"

definition ws_request ::
  "('w, 'z, 'h, 'v) HttpEnv \<Rightarrow> ('w, 'z, 'h, 'v) WebSocketBehavior \<Rightarrow> ('w, 'z, 'h, 'v) request_function" where
  "ws_request env behavior this req t =
     (let secWebSocketKey = view (getHeader req str_key) in
      if length secWebSocketKey = 24
      then (case upgradeHandler behavior of
              Some h \<Rightarrow> h this (if hasBrokenCompression (view (getHeader req str_agent)) then blank_header str_extensions req else req) t
            | None \<Rightarrow>
                (let secWebSocketProtocol = view (getHeader req str_protocol);
                     secWebSocketExtensions = (if hasBrokenCompression (view (getHeader req str_agent)) then []
                                               else view (getHeader req str_extensions))
                 in map_option (Pair req)
                      (upgrade env this secWebSocketKey secWebSocketProtocol secWebSocketExtensions (ws_context behavior) t)))
      else Some (setYield True req, t))"

section \<open>Routes\<close>

text \<open>An app whose HTTP context could not be made has no router; routes are then ignored.\<close>

type_synonym ('w, 'z, 'h, 'v) app_router = "('w, 'z, 'h, 'v) routed HttpRouter option"

definition app_ws ::
  "('w, 'z, 'h, 'v) HttpEnv \<Rightarrow> byte list \<Rightarrow> ('w, 'z, 'h, 'v) WebSocketBehavior \<Rightarrow> ('w, 'z, 'h, 'v) app_router \<Rightarrow>
   ('w, 'z, 'h, 'v) app_router option" where
  "app_ws env pattern behavior r =
     (case r of
        None \<Rightarrow> Some None
      | Some router \<Rightarrow>
          if \<not> settings_accepted behavior then None
          else map_option Some (onHttp env (bytes ''GET'') pattern (Some (ws_request env behavior)) True router))"

definition app_method ::
  "byte list \<Rightarrow> ('w, 'z, 'h, 'v) HttpEnv \<Rightarrow> byte list \<Rightarrow> ('w, 'z, 'h, 'v) request_function option \<Rightarrow> ('w, 'z, 'h, 'v) app_router \<Rightarrow>
   ('w, 'z, 'h, 'v) app_router option" where
  "app_method name env pattern handler r =
     (case r of None \<Rightarrow> Some None | Some router \<Rightarrow> map_option Some (onHttp env name pattern handler False router))"

definition app_get where "app_get = app_method (bytes ''GET'')"
definition app_post where "app_post = app_method (bytes ''POST'')"
definition app_options where "app_options = app_method (bytes ''OPTIONS'')"
definition app_del where "app_del = app_method (bytes ''DELETE'')"
definition app_patch where "app_patch = app_method (bytes ''PATCH'')"
definition app_put where "app_put = app_method (bytes ''PUT'')"
definition app_head where "app_head = app_method (bytes ''HEAD'')"
definition app_connect where "app_connect = app_method (bytes ''CONNECT'')"
definition app_trace where "app_trace = app_method (bytes ''TRACE'')"
definition app_any where "app_any = app_method ANY_METHOD_TOKEN"

text \<open>The constructor registers the answer to everything that is not found.\<close>

definition not_found :: "('w, 'z, 'h, 'v) HttpEnv \<Rightarrow> ('w, 'z, 'h, 'v) request_function" where
  "not_found env this req t =
     map_option (Pair req)
       (res_end env this (bytes ''<html><body><h1>File Not Found</h1><hr><i>uWebSockets/20 Server</i></body></html>'') False
         (writeStatus env this (bytes ''404 File Not Found'') t))"

definition app_new :: "('w, 'z, 'h, 'v) HttpEnv \<Rightarrow> ('w, 'z, 'h, 'v) app_router \<Rightarrow> ('w, 'z, 'h, 'v) app_router option" where
  "app_new env r = app_any env (bytes ''/*'') (Some (not_found env)) r"

section \<open>Child apps\<close>

record ChildApps =
  childApps :: "nat list"
  roundRobin :: nat

definition addChildApp :: "nat \<Rightarrow> ChildApps \<Rightarrow> ChildApps" where
  "addChildApp a s = s\<lparr> childApps := childApps s @ [a] \<rparr>"

definition removeChildApp :: "nat \<Rightarrow> ChildApps \<Rightarrow> ChildApps" where
  "removeChildApp a s = s\<lparr> childApps := removeAll a (childApps s), roundRobin := 0 \<rparr>"

text \<open>
  An accepted descriptor: the app that adopts it, if it is not kept, and the descriptor that the library goes
  on with, where another one than the accepted means that it is taken. None is an index outside the vector.
\<close>

definition preOpen :: "int \<Rightarrow> ChildApps \<Rightarrow> (nat option \<times> int \<times> ChildApps) option" where
  "preOpen fd s =
     (if childApps s = [] then Some (None, fd, s)
      else if roundRobin s \<ge> length (childApps s) then None
      else (let receivingApp = childApps s ! roundRobin s;
                n = roundRobin s + 1
            in Some (Some receivingApp, fd + 1, s\<lparr> roundRobin := (if n = length (childApps s) then 0 else n) \<rparr>)))"

text \<open>Descriptors in a row and who gets them.\<close>

fun distribute :: "int list \<Rightarrow> ChildApps \<Rightarrow> (nat option list \<times> ChildApps) option" where
  "distribute [] s = Some ([], s)"
| "distribute (fd # fds) s =
     (case preOpen fd s of
        None \<Rightarrow> None
      | Some (a, fd', s) \<Rightarrow> map_option (\<lambda>(as, s). (a # as, s)) (distribute fds s))"

section \<open>What they promise\<close>

text \<open>The timeout of an accepted route is split without a wrap-around, unless it is 0.\<close>

lemma push_bit_margin: "push_bit 1 (4 :: u16) = 8" "push_bit 1 (8 :: u16) = 16"
  by simp_all

lemma idle_timeout_split:
  assumes "settings_accepted behavior" and "idleTimeout behavior \<noteq> 0"
  shows "(case idleTimeoutComponents (ws_context behavior) of (idle, ping) \<Rightarrow>
    uint idle + (if sendPingsAutomatically (ws_route behavior) then uint ping else 0) = uint (idleTimeout behavior) \<and>
    (ping = 4 \<or> ping = 8 \<or> ping = 16) \<and> uint ping \<le> uint idle)"
proof -
  define i where "i = idleTimeout behavior"
  have lo: "8 \<le> uint i" using assms by (auto simp: settings_accepted_def i_def word_less_def)
  have hi: "uint i < 65536" using uint_lt2p [of i] by simp
  define m where "m = idle_margin 3 i 4"
  have m: "(m = 4 \<or> m = 8 \<or> m = 16) \<and> uint m * 2 \<le> uint i"
    using lo by (auto simp: m_def numeral_3_eq_3 push_bit_margin)
  have um: "uint m \<in> {4, 8, 16}" using m by auto
  have c: "idleTimeoutComponents (ws_context behavior) = (of_int (uint i - (if sendPingsAutomatically (ws_route behavior) then uint m else 0)), m)"
    by (simp add: ws_context_def calculateIdleTimeoutCompnents_def Let_def m_def i_def)
  have fits: "uint (of_int k :: u16) = k" if "0 \<le> k" "k < 65536" for k
    using that by (simp add: unsigned_of_int take_bit_int_eq_self)
  have d: "uint (of_int (uint i - uint m) :: u16) = uint i - uint m" "uint (of_int (uint i) :: u16) = uint i"
    by (rule fits, use um m lo hi in auto)+
  show ?thesis unfolding c i_def [symmetric] using m um d by (cases "sendPingsAutomatically (ws_route behavior)") auto
qed

text \<open>A timeout of 0 is accepted and means none, but with pings it is extended to 65532 seconds.\<close>

lemma no_timeout_wraps:
  "settings_accepted (default_behavior\<lparr> idleTimeout := 0 \<rparr>) \<and>
    idleTimeoutComponents (ws_context (default_behavior\<lparr> idleTimeout := 0 \<rparr>)) = (65532, 4)"
  by (simp add: settings_accepted_def default_behavior_def default_route_def ws_context_def calculateIdleTimeoutCompnents_def
      numeral_3_eq_3 Let_def)

text \<open>A request without a key of 24 characters goes on to the next route; the others are upgraded.\<close>

lemma ws_request_yields:
  "length (view (getHeader req str_key)) \<noteq> 24 \<Longrightarrow> ws_request env behavior this req t = Some (setYield True req, t)"
  by (simp add: ws_request_def Let_def)

definition rr_ok :: "ChildApps \<Rightarrow> bool" where
  "rr_ok s \<longleftrightarrow> roundRobin s < length (childApps s) \<or> (childApps s = [] \<and> roundRobin s = 0)"

lemma rr_ok_changes: "rr_ok s \<Longrightarrow> rr_ok (addChildApp a s)" "rr_ok (removeChildApp a s)"
  by (auto simp: rr_ok_def addChildApp_def removeChildApp_def)

text \<open>Sockets go to the child apps in turn: one round from any state is the list of the apps from the next one on.\<close>

lemma distribute_round:
  assumes "roundRobin s \<le> length (childApps s)" and "childApps s = before @ turn @ after" and "length before = roundRobin s"
    and "length fds = length turn" and "turn \<noteq> []"
  shows "\<exists>s'. distribute fds s = Some (map Some turn, s') \<and> childApps s' = childApps s \<and>
    roundRobin s' = (if after = [] then 0 else roundRobin s + length turn)"
  using assms
proof (induction turn arbitrary: fds s before)
  case (Cons a turn)
  obtain fd fds' where fds: "fds = fd # fds'" using Cons.prems(4) by (cases fds) auto
  have at: "childApps s ! roundRobin s = a" "roundRobin s < length (childApps s)"
    using Cons.prems(2, 3) by (simp_all add: nth_append)
  define s1 where "s1 = s\<lparr> roundRobin := (if roundRobin s + 1 = length (childApps s) then 0 else roundRobin s + 1) \<rparr>"
  have p: "preOpen fd s = Some (Some a, fd + 1, s1)"
    using at by (auto simp: preOpen_def s1_def Let_def)
  show ?case
  proof (cases "turn = []")
    case True
    then have "after = [] \<longleftrightarrow> roundRobin s + 1 = length (childApps s)" using Cons.prems(2, 3) by auto
    then show ?thesis using True p fds Cons.prems(4) by (auto simp: s1_def)
  next
    case False
    then have rr: "roundRobin s1 = roundRobin s + 1" "childApps s1 = childApps s"
      using Cons.prems(2, 3) by (auto simp: s1_def)
    from Cons.IH [of s1 "before @ [a]" fds'] obtain s' where
      "distribute fds' s1 = Some (map Some turn, s')" "childApps s' = childApps s"
      "roundRobin s' = (if after = [] then 0 else roundRobin s + 1 + length turn)"
      using rr Cons.prems False fds at(2) by auto
    then show ?thesis using p fds by auto
  qed
qed simp

lemma distribute_append:
  "distribute (a @ b) s = (case distribute a s of None \<Rightarrow> None | Some (xs, s) \<Rightarrow> map_option (\<lambda>(ys, s). (xs @ ys, s)) (distribute b s))"
proof (induction a arbitrary: s)
  case Nil
  then show ?case by (cases "distribute b s") auto
next
  case (Cons fd a)
  then show ?case by (auto split: option.split simp: option.map_comp o_def case_prod_beta)
qed

lemma children_in_turn:
  assumes "rr_ok s" and "length fds = length (childApps s)"
  shows "distribute fds s = Some (map Some (rotate (roundRobin s) (childApps s)), s)"
proof (cases "childApps s = []")
  case True
  then show ?thesis using assms(2) by simp
next
  case False
  let ?n = "roundRobin s" and ?as = "childApps s"
  have n: "?n < length ?as" using assms(1) False by (auto simp: rr_ok_def)
  let ?f1 = "take (length ?as - ?n) fds" and ?f2 = "drop (length ?as - ?n) fds"
  obtain s1 where s1: "distribute ?f1 s = Some (map Some (drop ?n ?as), s1)" "childApps s1 = ?as" "roundRobin s1 = 0"
    using distribute_round [of s "take ?n ?as" "drop ?n ?as" "[]" ?f1] n assms(2) by auto
  have "\<exists>s2. distribute ?f2 s1 = Some (map Some (take ?n ?as), s2) \<and> childApps s2 = ?as \<and> roundRobin s2 = ?n"
  proof (cases "?n = 0")
    case True
    then show ?thesis using s1 assms(2) by simp
  next
    case 2: False
    then show ?thesis
      using distribute_round [of s1 "[]" "take ?n ?as" "drop ?n ?as" ?f2] n assms(2) s1 False by auto
  qed
  then obtain s2 where s2: "distribute ?f2 s1 = Some (map Some (take ?n ?as), s2)" "childApps s2 = ?as" "roundRobin s2 = ?n" by blast
  have "s2 = s" using s2(2, 3) by (cases s; cases s2) simp
  then have "distribute (?f1 @ ?f2) s = Some (map Some (drop ?n ?as @ take ?n ?as), s)"
    using s1(1) s2(1) by (simp add: distribute_append del: append_take_drop_id)
  moreover have "rotate ?n ?as = drop ?n ?as @ take ?n ?as" using n by (simp add: rotate_drop_take)
  ultimately show ?thesis by simp
qed

end
