(* ===== verification/Topic_Delivery.thy ===== *)
theory Topic_Delivery
  imports Topic_Tree
begin

text \<open>
  What publish and subscribe guarantee. The list of drainable subscribers stays well formed, and every
  subscriber is handed exactly the messages published to its topics while it was subscribed, except
  its own, each once and in the order of publication, although messages are only queued by index
  and drained at different times.
\<close>

section \<open>Doubly linked lists\<close>

text \<open>A segment from \<open>p\<close> through \<open>xs\<close> to \<open>q\<close>; \<open>pr\<close> comes before it and \<open>pr'\<close> is its last element.\<close>

fun seg :: "(nat \<Rightarrow> Subscriber) \<Rightarrow> nat option \<Rightarrow> nat option \<Rightarrow> nat list \<Rightarrow> nat option \<Rightarrow> nat option \<Rightarrow> bool" where
  "seg h pr p [] pr' q = (p = q \<and> pr = pr')"
| "seg h pr p (x # xs) pr' q = (p = Some x \<and> prev_sub (h x) = pr \<and> seg h (Some x) (next_sub (h x)) xs pr' q)"

definition linked :: "(nat \<Rightarrow> Subscriber) \<Rightarrow> nat option \<Rightarrow> nat list \<Rightarrow> bool" where
  "linked h p xs \<longleftrightarrow> (\<exists>pr'. seg h None p xs pr' None)"

lemma seg_append: "seg h pr p (xs @ ys) pr' q = (\<exists>a b. seg h pr p xs a b \<and> seg h a b ys pr' q)"
  by (induction xs arbitrary: pr p) auto

lemma seg_upd: "s \<notin> set xs \<Longrightarrow> seg (h(s := r)) pr p xs pr' q = seg h pr p xs pr' q"
  by (induction xs arbitrary: pr p) auto

lemma seg_same: "(\<And>x. x \<in> set xs \<Longrightarrow> prev_sub (h' x) = prev_sub (h x) \<and> next_sub (h' x) = next_sub (h x)) \<Longrightarrow>
   seg h' pr p xs pr' q = seg h pr p xs pr' q"
  by (induction xs arbitrary: pr p) auto

lemma linked_same:
  "linked h p xs \<Longrightarrow> (\<And>x. x \<in> set xs \<Longrightarrow> prev_sub (h' x) = prev_sub (h x) \<and> next_sub (h' x) = next_sub (h x)) \<Longrightarrow> linked h' p xs"
  unfolding linked_def using seg_same [of xs h' h] by blast

lemma linked_Nil [simp]: "linked h p [] \<longleftrightarrow> p = None"
  by (simp add: linked_def)

lemma linked_hd: "linked h p (x # xs) \<Longrightarrow> p = Some x \<and> prev_sub (h x) = None"
  by (auto simp: linked_def)

lemma linked_None: "linked h None xs \<Longrightarrow> xs = []"
  by (cases xs) (auto dest: linked_hd)

definition link_fields :: "Subscriber \<Rightarrow> nat list \<times> nat \<times> topic list" where
  "link_fields r = (messageIndices r, numMessageIndices r, sub_topics r)"

lemma unlink_simps [simp]:
  "iteratingSubscriber (unlinkDrainableSubscriber s t) = iteratingSubscriber t"
  "topic_map (unlinkDrainableSubscriber s t) = topic_map t" "outgoingMessages (unlinkDrainableSubscriber s t) = outgoingMessages t"
  "live (unlinkDrainableSubscriber s t) = live t" "app (unlinkDrainableSubscriber s t) = app t"
  by (simp_all add: unlinkDrainableSubscriber_def Let_def split: option.split)

lemma unlink_fields:
  "messageIndices (subs (unlinkDrainableSubscriber s t) x) = messageIndices (subs t x)"
  "numMessageIndices (subs (unlinkDrainableSubscriber s t) x) = numMessageIndices (subs t x)"
  "sub_topics (subs (unlinkDrainableSubscriber s t) x) = sub_topics (subs t x)"
  by (simp_all add: unlinkDrainableSubscriber_def Let_def split: option.split)

lemma seg_pr: "seg h pr p xs pr' q \<Longrightarrow> pr' = (if xs = [] then pr else Some (last xs))"
  by (induction xs arbitrary: pr p) auto

lemma seg_p: "seg h pr p xs pr' q \<Longrightarrow> p = (if xs = [] then q else Some (hd xs))"
  by (cases xs) auto

lemma unlink_linked:
  assumes "linked (subs t) (drainableSubscribers t) xs" "distinct xs" "s \<in> set xs"
  shows "linked (subs (unlinkDrainableSubscriber s t)) (drainableSubscribers (unlinkDrainableSubscriber s t)) (removeAll s xs)"
proof -
  obtain as bs where xs: "xs = as @ s # bs" using assms(3) by (meson split_list)
  have d: "s \<notin> set as" "s \<notin> set bs" "distinct as" "distinct bs" "set as \<inter> set bs = {}" using assms(2) xs by auto
  obtain pr' where sg: "seg (subs t) None (drainableSubscribers t) (as @ s # bs) pr' None" using assms(1) xs by (auto simp: linked_def)
  then obtain a where a: "seg (subs t) None (drainableSubscribers t) as a (Some s)" "prev_sub (subs t s) = a"
    "seg (subs t) (Some s) (next_sub (subs t s)) bs pr' None"
    by (auto simp: seg_append)
  have ra: "removeAll s xs = as @ bs" using d xs by simp
  have n: "next_sub (subs t s) = (if bs = [] then None else Some (hd bs))" using seg_p [OF a(3)] by simp
  show ?thesis
  proof (cases as rule: rev_cases)
    case Nil
    then have h: "drainableSubscribers t = Some s" "prev_sub (subs t s) = None" using a by auto
    show ?thesis
    proof (cases bs)
      case Nil
      then show ?thesis using h n ra \<open>as = []\<close> by (simp add: unlinkDrainableSubscriber_def)
    next
      case (Cons b bs')
      then show ?thesis using h n ra \<open>as = []\<close> a(3) d by (auto simp: unlinkDrainableSubscriber_def linked_def seg_upd)
    qed
  next
    case (snoc as' c)
    then have h: "prev_sub (subs t s) = Some c" "drainableSubscribers t \<noteq> Some s" "c \<noteq> s" using a d seg_pr [OF a(1)] seg_p [OF a(1)]
      by (auto simp: hd_append split: if_splits)
    obtain e where e: "seg (subs t) None (drainableSubscribers t) as' e (Some c)" "prev_sub (subs t c) = e"
      using a(1) snoc by (auto simp: seg_append)
    show ?thesis
    proof (cases bs)
      case Nil
      then have u: "unlinkDrainableSubscriber s t = set_sub c ((subs t c)\<lparr>next_sub := None\<rparr>) t"
        using h n by (simp add: unlinkDrainableSubscriber_def Let_def)
      have "seg ((subs t)(c := (subs t c)\<lparr>next_sub := None\<rparr>)) None (drainableSubscribers t) (as' @ [c]) (Some c) None"
        using e d snoc by (auto simp: seg_append seg_upd)
      then show ?thesis unfolding u ra Nil snoc linked_def by auto
    next
      case (Cons b bs')
      have bc: "b \<noteq> c" "b \<noteq> s" using d snoc Cons by auto
      have u: "unlinkDrainableSubscriber s t = set_sub b ((subs t b)\<lparr>prev_sub := Some c\<rparr>) (set_sub c ((subs t c)\<lparr>next_sub := Some b\<rparr>) t)"
        using h n Cons bc by (simp add: unlinkDrainableSubscriber_def Let_def)
      have "seg ((subs t)(c := (subs t c)\<lparr>next_sub := Some b\<rparr>, b := (subs t b)\<lparr>prev_sub := Some c\<rparr>)) None (drainableSubscribers t) (as' @ c # b # bs') pr' None"
        using e d snoc Cons a(3) bc by (auto simp: seg_append seg_upd)
      then show ?thesis unfolding u ra Cons snoc linked_def by auto
    qed
  qed
qed

lemma link_simps [simp]:
  "iteratingSubscriber (linkDrainableSubscriber s t) = iteratingSubscriber t"
  "topic_map (linkDrainableSubscriber s t) = topic_map t" "outgoingMessages (linkDrainableSubscriber s t) = outgoingMessages t"
  "live (linkDrainableSubscriber s t) = live t" "app (linkDrainableSubscriber s t) = app t"
  "messageIndices (subs (linkDrainableSubscriber s t) x) = messageIndices (subs t x)"
  "numMessageIndices (subs (linkDrainableSubscriber s t) x) = numMessageIndices (subs t x)"
  "sub_topics (subs (linkDrainableSubscriber s t) x) = sub_topics (subs t x)"
  "drainableSubscribers (linkDrainableSubscriber s t) = Some s"
  by (simp_all add: linkDrainableSubscriber_def Let_def split: option.split)

lemma link_linked:
  assumes "linked (subs t) (drainableSubscribers t) xs" "distinct xs" "s \<notin> set xs"
  shows "linked (subs (linkDrainableSubscriber s t)) (Some s) (s # xs)"
proof (cases xs)
  case Nil
  then show ?thesis using assms by (simp add: linked_def linkDrainableSubscriber_def Let_def)
next
  case (Cons x xs')
  have "x \<noteq> s" "s \<notin> set xs'" "x \<notin> set xs'" using assms Cons by auto
  then show ?thesis using assms(1) Cons
    by (auto simp: linked_def linkDrainableSubscriber_def Let_def seg_upd)
qed

section \<open>The invariant\<close>

text \<open>An application whose callback records what it is handed and never stops a drain.\<close>

type_synonym 'm log_tree = "('m, (nat \<times> 'm) list) TopicTree"

definition record_cb :: "('m, (nat \<times> 'm) list) drain_cb" where
  "record_cb s m isFirst isLast log = (False, log @ [(s, m)])"

definition delivered :: "nat \<Rightarrow> (nat \<times> 'm) list \<Rightarrow> 'm list" where
  "delivered s log = map snd (filter (\<lambda>p. fst p = s) log)"

definition indices :: "('m, 'u) TopicTree \<Rightarrow> nat \<Rightarrow> nat list" where
  "indices t s = take (numMessageIndices (subs t s)) (messageIndices (subs t s))"

text \<open>
  In the middle of a publication of \<open>m\<close>, the subscribers in \<open>P\<close> already have its index, although the
  message itself is only stored at the end.
\<close>

definition pending :: "'m \<Rightarrow> ('m, 'u) TopicTree \<Rightarrow> nat \<Rightarrow> 'm list" where
  "pending m t s = map (\<lambda>i. (outgoingMessages t @ [m]) ! i) (indices t s)"

definition list_ok :: "('m, 'u) TopicTree \<Rightarrow> nat list \<Rightarrow> bool" where
  "list_ok t xs \<longleftrightarrow> distinct xs \<and> linked (subs t) (drainableSubscribers t) xs \<and>
     (\<forall>s. s \<in> set xs \<longleftrightarrow> s \<in> set (live t) \<and> numMessageIndices (subs t s) \<noteq> 0)"

definition indices_ok :: "nat set \<Rightarrow> ('m, 'u) TopicTree \<Rightarrow> bool" where
  "indices_ok P t \<longleftrightarrow> length (outgoingMessages t) \<le> INDEX_LIMIT \<and> (\<forall>s. s \<in> set (live t) \<longrightarrow>
     length (messageIndices (subs t s)) = MESSAGE_LIMIT \<and> numMessageIndices (subs t s) \<le> MESSAGE_LIMIT \<and>
     (\<forall>i. i \<in> set (indices t s) \<longrightarrow> i < length (outgoingMessages t) + (if s \<in> P then 1 else 0)) \<and>
     (s \<in> P \<longrightarrow> numMessageIndices (subs t s) \<noteq> 0))"

definition topics_ok :: "('m, 'u) TopicTree \<Rightarrow> bool" where
  "topics_ok t \<longleftrightarrow> distinct (live t) \<and> distinct (map fst (topic_map t)) \<and>
     (\<forall>topic ss. lookupTopic topic t = Some ss \<longrightarrow> ss \<noteq> [] \<and> distinct ss \<and> set ss \<subseteq> set (live t)) \<and>
     (\<forall>s. s \<in> set (live t) \<longrightarrow> distinct (sub_topics (subs t s)) \<and>
        (\<forall>topic. topic \<in> set (sub_topics (subs t s)) \<longleftrightarrow> (\<exists>ss. lookupTopic topic t = Some ss \<and> s \<in> set ss)))"

definition owed_ok :: "'m \<Rightarrow> (nat \<Rightarrow> 'm list) \<Rightarrow> 'm log_tree \<Rightarrow> bool" where
  "owed_ok m w t \<longleftrightarrow> (\<forall>s. s \<in> set (live t) \<longrightarrow> delivered s (app t) @ pending m t s = w s)"

definition good :: "nat set \<Rightarrow> 'm \<Rightarrow> (nat \<Rightarrow> 'm list) \<Rightarrow> 'm log_tree \<Rightarrow> bool" where
  "good P m w t \<longleftrightarrow> (\<exists>xs. list_ok t xs) \<and> indices_ok P t \<and> topics_ok t \<and> owed_ok m w t \<and> P \<subseteq> set (live t)"

text \<open>What draining leaves alone.\<close>

definition same_topics :: "('m, 'u) TopicTree \<Rightarrow> ('m, 'u) TopicTree \<Rightarrow> bool" where
  "same_topics t t' \<longleftrightarrow> live t' = live t \<and> topic_map t' = topic_map t \<and> iteratingSubscriber t' = iteratingSubscriber t \<and>
     (\<forall>s. sub_topics (subs t' s) = sub_topics (subs t s))"

lemma topics_ok_same: "same_topics t t' \<Longrightarrow> topics_ok t \<Longrightarrow> topics_ok t'"
  by (simp add: same_topics_def topics_ok_def lookupTopic_def)

lemma same_topics_trans: "same_topics t t1 \<Longrightarrow> same_topics t1 t2 \<Longrightarrow> same_topics t t2"
  by (simp add: same_topics_def)

lemma drainLoop_records:
  "(\<And>i. i \<in> set is \<Longrightarrow> i < length out) \<Longrightarrow>
   drainLoop record_cb s out first is u = Some (u @ map (\<lambda>i. (s, out ! i)) is)"
  by (induction "is" arbitrary: first u) (simp_all add: record_cb_def)

lemma drainImpl_records:
  assumes "\<And>i. i \<in> set (indices t s) \<Longrightarrow> i < length (outgoingMessages t)"
  shows "drainImpl record_cb s t = Some ((set_sub s ((subs t s)\<lparr>numMessageIndices := 0\<rparr>) t)
    \<lparr>app := app t @ map (\<lambda>i. (s, outgoingMessages t ! i)) (indices t s)\<rparr>)"
  using drainLoop_records [of "indices t s" "outgoingMessages t" s True "app t"] assms
  by (simp add: drainImpl_def Let_def indices_def)

lemma delivered_simps [simp]:
  "delivered s [] = []" "delivered s (xs @ ys) = delivered s xs @ delivered s ys"
  "delivered s (map (\<lambda>i. (s, f i)) is) = map f is" "s \<noteq> x \<Longrightarrow> delivered s (map (\<lambda>i. (x, f i)) is) = []"
  "delivered s [(x, m)] = (if s = x then [m] else [])"
  by (auto simp: delivered_def filter_map comp_def)

section \<open>Draining\<close>

lemma good_drain:
  assumes g: "good P m w t" and s: "s \<in> set (live t)" "s \<notin> P"
  shows "\<exists>t'. drain_subscriber record_cb s t = Some t' \<and> good P m w t' \<and> numMessageIndices (subs t' s) = 0 \<and> same_topics t t' \<and>
    (length (outgoingMessages t') \<le> length (outgoingMessages t)) \<and> delivered s (app t') = w s"
proof (cases "numMessageIndices (subs t s) = 0")
  case True
  then have "pending m t s = []" by (simp add: pending_def indices_def)
  then show ?thesis using g s True by (auto simp: drain_subscriber_def needsDrainage_def same_topics_def good_def owed_ok_def)
next
  case False
  obtain xs where xs: "list_ok t xs" using g by (auto simp: good_def)
  have idx: "i < length (outgoingMessages t)" if "i \<in> set (indices t s)" for i
    using g s that by (fastforce simp: good_def indices_ok_def)
  let ?u = "unlinkDrainableSubscriber s t"
  have iu: "indices ?u x = indices t x" for x by (simp add: indices_def unlink_fields)
  define t1 where "t1 = (set_sub s ((subs ?u s)\<lparr>numMessageIndices := 0\<rparr>) ?u)
    \<lparr>app := app t @ map (\<lambda>i. (s, outgoingMessages t ! i)) (indices t s)\<rparr>"
  have d: "drainImpl record_cb s ?u = Some t1"
    using drainImpl_records [of ?u s] idx by (simp add: iu t1_def)
  have f: "live t1 = live t" "topic_map t1 = topic_map t" "outgoingMessages t1 = outgoingMessages t" "iteratingSubscriber t1 = iteratingSubscriber t"
    "app t1 = app t @ map (\<lambda>i. (s, outgoingMessages t ! i)) (indices t s)" "numMessageIndices (subs t1 x) = (if x = s then 0 else numMessageIndices (subs t x))"
    "messageIndices (subs t1 x) = messageIndices (subs t x)" "sub_topics (subs t1 x) = sub_topics (subs t x)" for x
    by (simp_all add: t1_def unlink_fields)
  have i1: "indices t1 x = (if x = s then [] else indices t x)" for x by (simp add: indices_def f)
  have sx: "s \<in> set xs" using xs s False by (simp add: list_ok_def)
  have "linked (subs t) (drainableSubscribers t) xs" "distinct xs" using xs by (simp_all add: list_ok_def)
  from unlink_linked [OF this sx] have "linked (subs ?u) (drainableSubscribers ?u) (removeAll s xs)" .
  from linked_same [OF this, of "subs t1"] have "linked (subs t1) (drainableSubscribers t1) (removeAll s xs)"
    by (simp add: t1_def)
  then have l1: "list_ok t1 (removeAll s xs)"
    using xs f by (auto simp: list_ok_def distinct_removeAll)
  have top1: "same_topics t t1" by (simp add: same_topics_def f)
  have p1: "pending m t1 x = (if x = s then [] else pending m t x)" for x by (simp add: pending_def i1 f)
  have ps: "pending m t s = map (\<lambda>i. outgoingMessages t ! i) (indices t s)"
    using idx by (auto simp: pending_def nth_append)
  have o1: "owed_ok m w t1" using g s by (auto simp: good_def owed_ok_def f p1 ps)
  have i_ok: "indices_ok P t1" using g s(2) unfolding good_def indices_ok_def i1 f(1, 3) by (auto simp: f)
  have g1: "good P m w t1"
    using g l1 i_ok o1 topics_ok_same [OF top1] f(1) by (auto simp: good_def)
  define t2 where "t2 = (if drainableSubscribers t1 = None then t1\<lparr>outgoingMessages := []\<rparr> else t1)"
  have e: "drain_subscriber record_cb s t = Some t2"
    using False d by (simp add: drain_subscriber_def needsDrainage_def t2_def)
  have "good P m w t2"
  proof (cases "drainableSubscribers t1 = None")
    case True
    then have "removeAll s xs = []" using l1 linked_None by (auto simp: list_ok_def)
    then have none: "numMessageIndices (subs t1 x) = 0" if "x \<in> set (live t1)" for x using l1 that by (auto simp: list_ok_def)
    have P: "P = {}" using g1 none by (auto simp: good_def indices_ok_def)
    have t2: "t2 = t1\<lparr>outgoingMessages := []\<rparr>" using True by (simp add: t2_def)
    have "indices t2 x = []" if "x \<in> set (live t1)" for x using none [OF that] by (simp add: indices_def t2)
    then have "indices_ok P t2" "owed_ok m w t2" using g1 none by (auto simp: good_def indices_ok_def owed_ok_def pending_def t2 P indices_def)
    moreover have "list_ok t2 (removeAll s xs)" using l1 by (simp add: list_ok_def t2)
    moreover have "topics_ok t2" using g1 by (simp add: good_def topics_ok_def lookupTopic_def t2)
    ultimately show ?thesis using P by (auto simp: good_def)
  next
    case False
    have "t2 = t1" unfolding t2_def by (rule if_not_P [OF False])
    then show ?thesis using g1 by simp
  qed
  moreover have "delivered s (app t2) = w s"
    using g1 s(1) p1 [of s] f(1) by (auto simp: good_def owed_ok_def t2_def)
  ultimately show ?thesis using e f top1 by (intro exI [of _ t2]) (auto simp: t2_def same_topics_def)
qed

text \<open>The walk of \<open>drain()\<close> ends, because the list does, and hands over everything.\<close>

lemma drainWalk_records:
  assumes "seg (subs t) pr p xs pr' None" "distinct xs"
    and "\<forall>s i. s \<in> set xs \<longrightarrow> i \<in> set (indices t s) \<longrightarrow> i < length (outgoingMessages t)"
  shows "\<exists>t'. drainWalk record_cb p t = Some t' \<and> same_topics t t' \<and> outgoingMessages t' = outgoingMessages t \<and>
    (\<forall>s. numMessageIndices (subs t' s) = (if s \<in> set xs then 0 else numMessageIndices (subs t s)) \<and>
         messageIndices (subs t' s) = messageIndices (subs t s) \<and>
         delivered s (app t') = delivered s (app t) @ (if s \<in> set xs then map ((!) (outgoingMessages t)) (indices t s) else []))"
  using assms
proof (induction xs arbitrary: t pr p)
  case Nil
  then show ?case by (simp add: drainWalk.simps [of _ None] same_topics_def)
next
  case (Cons x xs)
  define t1 where "t1 = (set_sub x ((subs t x)\<lparr>numMessageIndices := 0\<rparr>) t)
    \<lparr>app := app t @ map (\<lambda>i. (x, outgoingMessages t ! i)) (indices t x)\<rparr>"
  have d: "drainImpl record_cb x t = Some t1" unfolding t1_def by (rule drainImpl_records) (use Cons.prems(3) in auto)
  have p: "p = Some x" and sg: "seg (subs t) (Some x) (next_sub (subs t x)) xs pr' None" using Cons.prems(1) by simp_all
  have same: "seg (subs t1) (Some x) (next_sub (subs t1 x)) xs pr' None"
    using sg Cons.prems(2) by (simp add: t1_def seg_upd)
  have idx: "indices t1 s = (if s = x then [] else indices t s)" for s by (simp add: indices_def t1_def)
  have "\<forall>s i. s \<in> set xs \<longrightarrow> i \<in> set (indices t1 s) \<longrightarrow> i < length (outgoingMessages t1)"
    using Cons.prems(3) unfolding idx by (auto simp: t1_def split: if_splits)
  from Cons.IH [OF same _ this] Cons.prems(2) obtain t' where
    t': "drainWalk record_cb (next_sub (subs t1 x)) t1 = Some t'" "same_topics t1 t'" "outgoingMessages t' = outgoingMessages t1"
      "\<And>s. numMessageIndices (subs t' s) = (if s \<in> set xs then 0 else numMessageIndices (subs t1 s))"
      "\<And>s. messageIndices (subs t' s) = messageIndices (subs t1 s)"
      "\<And>s. delivered s (app t') = delivered s (app t1) @ (if s \<in> set xs then map ((!) (outgoingMessages t1)) (indices t1 s) else [])"
    by auto
  have w: "drainWalk record_cb p t = Some t'"
    by (subst drainWalk.simps) (simp add: p d t'(1))
  have "same_topics t t1" by (simp add: same_topics_def t1_def)
  from same_topics_trans [OF this t'(2)] have st: "same_topics t t'" .
  have o: "outgoingMessages t1 = outgoingMessages t" by (simp add: t1_def)
  have x: "x \<notin> set xs" using Cons.prems(2) by simp
  show ?case
  proof (intro exI [of _ t'] conjI allI)
    fix s
    show "numMessageIndices (subs t' s) = (if s \<in> set (x # xs) then 0 else numMessageIndices (subs t s))"
      by (simp add: t'(4)) (simp add: t1_def)
    show "messageIndices (subs t' s) = messageIndices (subs t s)" by (simp add: t'(5)) (simp add: t1_def)
    show "delivered s (app t') = delivered s (app t) @ (if s \<in> set (x # xs) then map ((!) (outgoingMessages t)) (indices t s) else [])"
      using x unfolding t'(6) o idx by (simp add: t1_def)
  qed (use w st t'(3) o in simp_all)
qed

lemma good_drain_all:
  assumes g: "good {} m w t"
  shows "\<exists>t'. drain_all record_cb t = Some t' \<and> good {} m w t' \<and> same_topics t t' \<and>
    (drainableSubscribers t \<noteq> None \<longrightarrow> outgoingMessages t' = []) \<and> (drainableSubscribers t = None \<longrightarrow> t' = t) \<and>
    (\<forall>s. s \<in> set (live t) \<longrightarrow> delivered s (app t') = w s)"
proof -
  obtain xs where xs: "list_ok t xs" using g by (auto simp: good_def)
  then obtain pr' where sg: "seg (subs t) None (drainableSubscribers t) xs pr' None" by (auto simp: list_ok_def linked_def)
  have idx: "i < length (outgoingMessages t)" if "s \<in> set (live t)" "i \<in> set (indices t s)" for s i
    using g that by (fastforce simp: good_def indices_ok_def)
  have live: "s \<in> set (live t)" if "s \<in> set xs" for s using xs that by (simp add: list_ok_def)
  have num: "numMessageIndices (subs t s) = 0" if "s \<in> set (live t)" "s \<notin> set xs" for s using xs that by (auto simp: list_ok_def)
  have pend: "pending m t s = (if s \<in> set xs then map ((!) (outgoingMessages t)) (indices t s) else [])" if "s \<in> set (live t)" for s
    using idx [OF that] num [OF that] by (auto simp: pending_def nth_append indices_def)
  have del: "delivered s (app t) @ pending m t s = w s" if "s \<in> set (live t)" for s using g that by (simp add: good_def owed_ok_def)
  show ?thesis
  proof (cases "drainableSubscribers t = None")
    case True
    then have "xs = []" using xs linked_None by (auto simp: list_ok_def)
    then show ?thesis using True g del pend by (auto simp: drain_all_def same_topics_def)
  next
    case False
    obtain t1 where t1: "drainWalk record_cb (drainableSubscribers t) t = Some t1" "same_topics t t1" "outgoingMessages t1 = outgoingMessages t"
      "\<And>s. numMessageIndices (subs t1 s) = (if s \<in> set xs then 0 else numMessageIndices (subs t s))"
      "\<And>s. messageIndices (subs t1 s) = messageIndices (subs t s)"
      "\<And>s. delivered s (app t1) = delivered s (app t) @ (if s \<in> set xs then map ((!) (outgoingMessages t)) (indices t s) else [])"
    proof -
      have "distinct xs" using xs by (simp add: list_ok_def)
      moreover have "\<forall>s i. s \<in> set xs \<longrightarrow> i \<in> set (indices t s) \<longrightarrow> i < length (outgoingMessages t)" using idx live by blast
      ultimately show thesis using drainWalk_records [OF sg] that by blast
    qed
    let ?t = "t1\<lparr>drainableSubscribers := None, outgoingMessages := []\<rparr>"
    have st: "same_topics t ?t" using t1(2) by (simp add: same_topics_def)
    then have lv: "live ?t = live t" by (simp add: same_topics_def)
    have n0: "numMessageIndices (subs ?t s) = 0" if "s \<in> set (live t)" for s using t1(4) num [OF that] by simp
    then have i0: "indices ?t s = []" if "s \<in> set (live t)" for s using that by (simp add: indices_def)
    have w: "delivered s (app ?t) = w s" if "s \<in> set (live t)" for s using t1(6) pend [OF that] del [OF that] by simp
    have "list_ok ?t []" using n0 lv by (auto simp: list_ok_def)
    moreover have "indices_ok {} ?t" using g n0 i0 lv t1(5) by (auto simp: good_def indices_ok_def)
    moreover have "topics_ok ?t" using g topics_ok_same [OF st] by (simp add: good_def)
    moreover have "owed_ok m w ?t" using w i0 lv by (simp add: owed_ok_def pending_def)
    ultimately have "good {} m w ?t" by (auto simp: good_def)
    moreover obtain d where "drainableSubscribers t = Some d" using False by blast
    ultimately show ?thesis using t1(1) st w by (intro exI [of _ ?t]) (simp add: drain_all_def)
  qed
qed

section \<open>Publishing\<close>

lemma indices_add:
  "length (messageIndices r) = MESSAGE_LIMIT \<Longrightarrow> numMessageIndices r < MESSAGE_LIMIT \<Longrightarrow>
   take (Suc (numMessageIndices r)) ((messageIndices r)[numMessageIndices r := i]) = take (numMessageIndices r) (messageIndices r) @ [i]"
  by (simp add: take_Suc_conv_app_nth)

lemma good_add:
  assumes g: "good P m w t" and s: "s \<in> set (live t)" "s \<notin> P" "numMessageIndices (subs t s) < MESSAGE_LIMIT"
  shows "good (insert s P) m (w(s := w s @ [m])) (addMessageIndex s t) \<and> same_topics t (addMessageIndex s t) \<and>
    outgoingMessages (addMessageIndex s t) = outgoingMessages t"
proof -
  let ?n = "numMessageIndices (subs t s)" let ?len = "length (outgoingMessages t)"
  have len: "?len mod 65536 = ?len" using g by (simp add: good_def indices_ok_def INDEX_LIMIT_def)
  have mi: "length (messageIndices (subs t s)) = MESSAGE_LIMIT" using g s by (simp add: good_def indices_ok_def)
  define t1 where "t1 = set_sub s ((subs t s)\<lparr>messageIndices := (messageIndices (subs t s))[?n := ?len], numMessageIndices := ?n + 1\<rparr>) t"
  let ?t = "addMessageIndex s t"
  have e: "?t = (if ?n = 0 then linkDrainableSubscriber s t1 else t1)"
    by (simp add: addMessageIndex_def Let_def len t1_def)
  have f: "outgoingMessages ?t = outgoingMessages t" "live ?t = live t" "topic_map ?t = topic_map t" "app ?t = app t"
    "iteratingSubscriber ?t = iteratingSubscriber t" "sub_topics (subs ?t x) = sub_topics (subs t x)"
    "numMessageIndices (subs ?t x) = (if x = s then Suc ?n else numMessageIndices (subs t x))"
    "messageIndices (subs ?t x) = (if x = s then (messageIndices (subs t s))[?n := ?len] else messageIndices (subs t x))" for x
    by (simp_all add: e) (simp_all add: t1_def)
  have idx: "indices ?t x = (if x = s then indices t s @ [?len] else indices t x)" for x
    using indices_add [OF mi s(3)] by (simp add: indices_def f)
  have pend: "pending m ?t x = (if x = s then pending m t s @ [m] else pending m t x)" for x
    by (simp add: pending_def idx f)
  obtain xs where xs: "list_ok t xs" using g by (auto simp: good_def)
  have l1: "linked (subs t1) (drainableSubscribers t1) xs"
    using xs linked_same [of "subs t" "drainableSubscribers t" xs "subs t1"] by (auto simp: list_ok_def t1_def)
  have "\<exists>ys. list_ok ?t ys"
  proof (cases "?n = 0")
    case True
    then have sx: "s \<notin> set xs" "distinct xs" using xs by (auto simp: list_ok_def)
    have "linked (subs ?t) (drainableSubscribers ?t) (s # xs)"
      using link_linked [OF l1 sx(2, 1)] True by (simp add: e)
    then have "list_ok ?t (s # xs)" using xs sx s(1) True by (auto simp: list_ok_def f)
    then show ?thesis by blast
  next
    case False
    then have "linked (subs ?t) (drainableSubscribers ?t) xs" using l1 by (simp add: e)
    then have "list_ok ?t xs" using xs s(1) False by (auto simp: list_ok_def f)
    then show ?thesis by blast
  qed
  moreover have st: "same_topics t ?t" by (simp add: same_topics_def f)
  moreover have "i < ?len" if "i \<in> set (indices t s)" for i using g s that by (fastforce simp: good_def indices_ok_def)
  then have "indices_ok (insert s P) ?t"
    using g s(3) mi unfolding good_def indices_ok_def idx f by (auto simp: less_Suc_eq)
  moreover have "owed_ok m (w(s := w s @ [m])) ?t" using g s(1) by (auto simp: good_def owed_ok_def pend f)
  moreover have "topics_ok ?t" using g topics_ok_same [OF st] by (simp add: good_def)
  moreover have "insert s P \<subseteq> set (live ?t)" using g s(1) by (auto simp: good_def f)
  ultimately show ?thesis unfolding good_def using f(1) by blast
qed

lemma good_publishTo:
  assumes g: "good P m w t" and s: "s \<in> set (live t)" "s \<notin> P"
  shows "\<exists>t'. publishTo record_cb s t = Some t' \<and> good (insert s P) m (w(s := w s @ [m])) t' \<and> same_topics t t' \<and>
    length (outgoingMessages t') \<le> length (outgoingMessages t)"
proof -
  obtain t1 where t1: "(if numMessageIndices (subs t s) = MESSAGE_LIMIT then drain_subscriber record_cb s t else Some t) = Some t1"
    "good P m w t1" "numMessageIndices (subs t1 s) < MESSAGE_LIMIT" "same_topics t t1" "length (outgoingMessages t1) \<le> length (outgoingMessages t)"
  proof (cases "numMessageIndices (subs t s) = MESSAGE_LIMIT")
    case True
    from good_drain [OF g s] obtain t' where "drain_subscriber record_cb s t = Some t'" "good P m w t'"
      "numMessageIndices (subs t' s) = 0" "same_topics t t'" "length (outgoingMessages t') \<le> length (outgoingMessages t)"
      by blast
    then show thesis by (intro that [of t']) (simp_all add: True MESSAGE_LIMIT_def)
  next
    case False
    moreover have "numMessageIndices (subs t s) \<le> MESSAGE_LIMIT" using g s(1) by (simp add: good_def indices_ok_def)
    ultimately have "numMessageIndices (subs t s) < MESSAGE_LIMIT" by linarith
    then show thesis by (intro that [of t]) (use False in \<open>simp_all add: g same_topics_def\<close>)
  qed
  have "s \<in> set (live t1)" using t1(4) s(1) by (simp add: same_topics_def)
  note a = good_add [OF t1(2) this s(2) t1(3)]
  have "publishTo record_cb s t = Some (addMessageIndex s t1)" unfolding publishTo_def t1(1) by simp
  then show ?thesis using a t1(5) same_topics_trans [OF t1(4)] by (intro exI [of _ "addMessageIndex s t1"]) simp
qed

definition receives :: "nat option \<Rightarrow> nat set \<Rightarrow> nat \<Rightarrow> bool" where
  "receives sender S s \<longleftrightarrow> s \<in> S \<and> sender \<noteq> Some s"

lemma good_publishLoop:
  assumes "good P m w t" "distinct ss" "set ss \<subseteq> set (live t)" "set ss \<inter> P = {}"
  shows "\<exists>t' P'. publishLoop record_cb sender ss r t = Some (r \<or> (\<exists>s. receives sender (set ss) s), t') \<and>
    good P' m (\<lambda>s. if receives sender (set ss) s then w s @ [m] else w s) t' \<and> same_topics t t' \<and>
    P' = P \<union> {s. receives sender (set ss) s} \<and> length (outgoingMessages t') \<le> length (outgoingMessages t)"
  using assms
proof (induction ss arbitrary: t w P r)
  case Nil
  then show ?case by (simp add: receives_def same_topics_def)
next
  case (Cons s ss)
  show ?case
  proof (cases "sender = Some s")
    case True
    have eq: "receives sender (set (s # ss)) x = receives sender (set ss) x" for x using True by (auto simp: receives_def)
    show ?thesis using Cons.IH [OF Cons.prems(1), of r] Cons.prems True unfolding eq by auto
  next
    case False
    obtain t1 where t1: "publishTo record_cb s t = Some t1" "good (insert s P) m (w(s := w s @ [m])) t1" "same_topics t t1"
      "length (outgoingMessages t1) \<le> length (outgoingMessages t)"
      using good_publishTo [OF Cons.prems(1), of s] Cons.prems by auto
    have l: "live t1 = live t" using t1(3) by (simp add: same_topics_def)
    have ns: "\<not> receives sender (set ss) s" using Cons.prems(2) by (simp add: receives_def)
    have c: "receives sender (set (s # ss)) x \<longleftrightarrow> x = s \<or> receives sender (set ss) x" for x
      using False by (auto simp: receives_def)
    have w: "(\<lambda>x. if receives sender (set ss) x then (w(s := w s @ [m])) x @ [m] else (w(s := w s @ [m])) x) =
        (\<lambda>x. if receives sender (set (s # ss)) x then w x @ [m] else w x)" unfolding c using ns by (auto simp: fun_eq_iff)
    obtain t' where t': "publishLoop record_cb sender ss True t1 = Some (True, t')"
      "good (insert s P \<union> {s. receives sender (set ss) s}) m (\<lambda>x. if receives sender (set (s # ss)) x then w x @ [m] else w x) t'"
      "same_topics t1 t'" "length (outgoingMessages t') \<le> length (outgoingMessages t1)"
      using Cons.IH [OF t1(2), of True] Cons.prems l unfolding w by auto
    have p: "insert s P \<union> {s. receives sender (set ss) s} = P \<union> {x. receives sender (set (s # ss)) x}" unfolding c by auto
    have "\<exists>x. receives sender (set (s # ss)) x" unfolding c by blast
    then show ?thesis using False t1(1, 4) t' same_topics_trans [OF t1(3) t'(3)] unfolding p by fastforce
  qed
qed

lemma good_push:
  assumes g: "good P m w t" and l: "length (outgoingMessages t) < INDEX_LIMIT"
  shows "good {} m' w (t\<lparr>outgoingMessages := outgoingMessages t @ [m]\<rparr>)"
proof -
  let ?t = "t\<lparr>outgoingMessages := outgoingMessages t @ [m]\<rparr>"
  have idx: "indices ?t s = indices t s" for s by (simp add: indices_def)
  have b: "i < Suc (length (outgoingMessages t))" if "s \<in> set (live t)" "i \<in> set (indices t s)" for s i
    using g that by (fastforce simp: good_def indices_ok_def split: if_splits)
  have "pending m' ?t s = pending m t s" if "s \<in> set (live t)" for s
    using b [OF that] unfolding pending_def idx by (auto simp: nth_append_left simp del: append_assoc)
  then have "owed_ok m' w ?t" using g by (simp add: good_def owed_ok_def)
  moreover have "indices_ok {} ?t" using g b l by (auto simp: good_def indices_ok_def idx)
  moreover have "list_ok ?t xs = list_ok t xs" for xs by (simp add: list_ok_def)
  moreover have "topics_ok ?t" using g by (simp add: good_def topics_ok_def lookupTopic_def)
  ultimately show ?thesis using g by (auto simp: good_def)
qed

lemma good_any_message: "good {} m w t \<Longrightarrow> good {} m' w t"
proof -
  assume g: "good {} m w t"
  have "pending m' t s = pending m t s" if "s \<in> set (live t)" for s
    using g that by (fastforce simp: good_def indices_ok_def pending_def nth_append)
  then show ?thesis using g by (simp add: good_def owed_ok_def)
qed

definition subscribers :: "topic \<Rightarrow> ('m, 'u) TopicTree \<Rightarrow> nat set" where
  "subscribers topic t = (case lookupTopic topic t of None \<Rightarrow> {} | Some ss \<Rightarrow> set ss)"

definition owed_after :: "nat option \<Rightarrow> nat set \<Rightarrow> 'm \<Rightarrow> (nat \<Rightarrow> 'm list) \<Rightarrow> nat \<Rightarrow> 'm list" where
  "owed_after sender S m w s = (if receives sender S s then w s @ [m] else w s)"

lemma owed_after_empty [simp]: "owed_after sender {} m w = w"
  by (simp add: owed_after_def receives_def fun_eq_iff)

lemma subscribers_same: "same_topics t t' \<Longrightarrow> subscribers topic t' = subscribers topic t"
  by (simp add: same_topics_def subscribers_def lookupTopic_def)

lemma good_publish:
  assumes g: "good {} m w t" and room: "length (outgoingMessages t) = INDEX_LIMIT \<longrightarrow> drainableSubscribers t \<noteq> None"
  shows "\<exists>t'. publish record_cb sender topic m t = Some (\<exists>s. receives sender (subscribers topic t) s, t') \<and>
    good {} m (owed_after sender (subscribers topic t) m w) t' \<and> same_topics t t'"
proof (cases "lookupTopic topic t")
  case None
  then show ?thesis using g by (simp add: publish_def subscribers_def receives_def owed_after_def same_topics_def)
next
  case (Some ss)
  have ss: "distinct ss" "set ss \<subseteq> set (live t)" using g Some by (auto simp: good_def topics_ok_def)
  have S: "subscribers topic t = set ss" using Some by (simp add: subscribers_def)
  obtain t1 where t1: "(if length (outgoingMessages t) = INDEX_LIMIT then drain_all record_cb t else Some t) = Some t1"
    "good {} m w t1" "same_topics t t1" "length (outgoingMessages t1) < INDEX_LIMIT"
  proof (cases "length (outgoingMessages t) = INDEX_LIMIT")
    case True
    from good_drain_all [OF g] obtain t' where "drain_all record_cb t = Some t'" "good {} m w t'" "same_topics t t'"
      "outgoingMessages t' = []" using room True by blast
    then show thesis by (intro that [of t']) (simp_all add: True INDEX_LIMIT_def)
  next
    case False
    moreover have "length (outgoingMessages t) \<le> INDEX_LIMIT" using g by (simp add: good_def indices_ok_def)
    ultimately have "length (outgoingMessages t) < INDEX_LIMIT" by linarith
    then show thesis by (intro that [of t]) (use False in \<open>simp_all add: g same_topics_def\<close>)
  qed
  have "set ss \<subseteq> set (live t1)" using ss(2) t1(3) by (simp add: same_topics_def)
  from good_publishLoop [OF t1(2) ss(1) this, of sender False] obtain t2 where
    t2: "publishLoop record_cb sender ss False t1 = Some (\<exists>s. receives sender (set ss) s, t2)"
      "good {s. receives sender (set ss) s} m (owed_after sender (set ss) m w) t2" "same_topics t1 t2"
      "length (outgoingMessages t2) \<le> length (outgoingMessages t1)"
    unfolding owed_after_def by auto
  note st = same_topics_trans [OF t1(3) t2(3)]
  show ?thesis
  proof (cases "\<exists>s. receives sender (set ss) s")
    case True
    let ?t = "t2\<lparr>outgoingMessages := outgoingMessages t2 @ [m]\<rparr>"
    have "good {} m (owed_after sender (set ss) m w) ?t" by (rule good_push [OF t2(2)]) (use t2(4) t1(4) in linarith)
    moreover have "publish record_cb sender topic m t = Some (True, ?t)"
      using Some t1(1) t2(1) True by (simp add: publish_def)
    moreover have "same_topics t ?t" using st by (simp add: same_topics_def)
    ultimately show ?thesis using True S by auto
  next
    case False
    then have "{s. receives sender (set ss) s} = {}" by blast
    then have "good {} m (owed_after sender (set ss) m w) t2" using t2(2) by simp
    moreover have "publish record_cb sender topic m t = Some (False, t2)"
      using Some t1(1) t2(1) False by (simp add: publish_def)
    ultimately show ?thesis using False S st by auto
  qed
qed

text \<open>A big message is handed over at once, behind what was queued: \<open>WebSocket::send\<close> drains first.\<close>

definition record_big :: "'m \<Rightarrow> nat \<Rightarrow> 'm log_tree \<Rightarrow> 'm log_tree option" where
  "record_big m s t = map_option (\<lambda>t. t\<lparr>app := app t @ [(s, m)]\<rparr>) (drain_subscriber record_cb s t)"

lemma good_big:
  assumes g: "good {} m w t" and s: "s \<in> set (live t)"
  shows "\<exists>t'. record_big m s t = Some t' \<and> good {} m (w(s := w s @ [m])) t' \<and> same_topics t t'"
proof -
  obtain t1 where t1: "drain_subscriber record_cb s t = Some t1" "good {} m w t1" "numMessageIndices (subs t1 s) = 0" "same_topics t t1"
    "delivered s (app t1) = w s"
    using good_drain [OF g s] by auto
  let ?t = "t1\<lparr>app := app t1 @ [(s, m)]\<rparr>"
  have idx: "indices ?t x = indices t1 x" for x by (simp add: indices_def)
  have "pending m t1 s = []" using t1(3) by (simp add: pending_def indices_def)
  then have "owed_ok m (w(s := w s @ [m])) ?t" using t1(2, 5) by (auto simp: good_def owed_ok_def pending_def idx)
  moreover have "list_ok ?t xs = list_ok t1 xs" for xs by (simp add: list_ok_def)
  moreover have "indices_ok {} ?t" "topics_ok ?t" using t1(2) by (simp_all add: good_def indices_ok_def idx topics_ok_def lookupTopic_def)
  ultimately have "good {} m (w(s := w s @ [m])) ?t" using t1(2) by (auto simp: good_def)
  then show ?thesis using t1(1, 4) by (intro exI [of _ ?t]) (simp add: record_big_def same_topics_def)
qed

lemma good_bigLoop:
  assumes "good {} m w t" "distinct ss" "set ss \<subseteq> set (live t)"
  shows "\<exists>t'. bigLoop sender (record_big m) ss t = Some t' \<and> good {} m (owed_after sender (set ss) m w) t' \<and> same_topics t t'"
  using assms
proof (induction ss arbitrary: t w)
  case Nil
  then show ?case by (simp add: receives_def owed_after_def same_topics_def)
next
  case (Cons s ss)
  show ?case
  proof (cases "sender = Some s")
    case True
    then have eq: "owed_after sender (set (s # ss)) m w = owed_after sender (set ss) m w" by (auto simp: receives_def owed_after_def fun_eq_iff)
    show ?thesis using Cons.IH [OF Cons.prems(1)] Cons.prems True unfolding eq by simp
  next
    case False
    obtain t1 where t1: "record_big m s t = Some t1" "good {} m (w(s := w s @ [m])) t1" "same_topics t t1"
      using good_big [OF Cons.prems(1), of s] Cons.prems(3) by auto
    have w: "owed_after sender (set ss) m (w(s := w s @ [m])) = owed_after sender (set (s # ss)) m w"
      using False Cons.prems(2) by (auto simp: receives_def owed_after_def fun_eq_iff)
    have "set ss \<subseteq> set (live t1)" using Cons.prems(3) t1(3) by (simp add: same_topics_def)
    from Cons.IH [OF t1(2) _ this] Cons.prems(2) obtain t' where
      "bigLoop sender (record_big m) ss t1 = Some t'" "good {} m (owed_after sender (set (s # ss)) m w) t'" "same_topics t1 t'"
      unfolding w by auto
    then show ?thesis using False t1(1) same_topics_trans [OF t1(3)] by auto
  qed
qed

lemma good_publishBig:
  assumes g: "good {} m w t"
  shows "\<exists>t'. publishBig sender topic (record_big m) t = Some (lookupTopic topic t \<noteq> None, t') \<and>
    good {} m (owed_after sender (subscribers topic t) m w) t' \<and> same_topics t t'"
proof (cases "lookupTopic topic t")
  case None
  then show ?thesis using g by (simp add: publishBig_def subscribers_def receives_def owed_after_def same_topics_def)
next
  case (Some ss)
  then have "distinct ss" "set ss \<subseteq> set (live t)" using g by (auto simp: good_def topics_ok_def)
  from good_bigLoop [OF g this, of sender] show ?thesis using Some by (auto simp: publishBig_def subscribers_def)
qed

end
