(* ===== verification/Topic_Run.thy ===== *)
theory Topic_Run
  imports Topic_Delivery
begin

text \<open>
  Creating, subscribing, unsubscribing and freeing keep the invariant of the topic tree; then any
  sequence of operations, as a step relation in lockstep with a specification that only knows who is
  subscribed to what and which messages each subscriber must get.
\<close>

section \<open>Topics\<close>

lemma map_of_set_topic:
  "map_of (map (\<lambda>p. if fst p = topic then (topic, ss) else p) xs) x =
   (if x = topic \<and> map_of xs topic \<noteq> None then Some ss else map_of xs x)"
  by (induction xs) auto

lemma lookup_set_topic:
  "lookupTopic x (set_topic topic ss t) = (if x = topic \<and> lookupTopic topic t \<noteq> None then Some ss else lookupTopic x t)"
  by (simp add: lookupTopic_def set_topic_def map_of_set_topic)

lemma map_of_erase: "map_of (filter (\<lambda>p. fst p \<noteq> topic) xs) x = (if x = topic then None else map_of xs x)"
  by (induction xs) auto

lemma lookup_erase_topic: "lookupTopic x (erase_topic topic t) = (if x = topic then None else lookupTopic x t)"
  by (simp add: lookupTopic_def erase_topic_def map_of_erase)

lemma keys_set_topic: "map fst (topic_map (set_topic topic ss t)) = map fst (topic_map t)"
  by (simp add: set_topic_def)

lemma keys_erase_topic: "distinct (map fst (topic_map t)) \<Longrightarrow> distinct (map fst (topic_map (erase_topic topic t)))"
  by (simp add: erase_topic_def distinct_map_filter)

lemma topic_simps [simp]:
  "subs (set_topic topic ss t) = subs t" "live (set_topic topic ss t) = live t" "app (set_topic topic ss t) = app t"
  "drainableSubscribers (set_topic topic ss t) = drainableSubscribers t" "outgoingMessages (set_topic topic ss t) = outgoingMessages t"
  "iteratingSubscriber (set_topic topic ss t) = iteratingSubscriber t"
  "subs (erase_topic topic t) = subs t" "live (erase_topic topic t) = live t" "app (erase_topic topic t) = app t"
  "drainableSubscribers (erase_topic topic t) = drainableSubscribers t" "outgoingMessages (erase_topic topic t) = outgoingMessages t"
  "iteratingSubscriber (erase_topic topic t) = iteratingSubscriber t"
  by (simp_all add: set_topic_def erase_topic_def)

text \<open>An operation that leaves queues and links alone only has to keep the topics consistent.\<close>

definition same_queues :: "('m, 'u) TopicTree \<Rightarrow> ('m, 'u) TopicTree \<Rightarrow> bool" where
  "same_queues t t' \<longleftrightarrow> live t' = live t \<and> app t' = app t \<and> drainableSubscribers t' = drainableSubscribers t \<and>
     outgoingMessages t' = outgoingMessages t \<and> iteratingSubscriber t' = iteratingSubscriber t \<and>
     (\<forall>s. prev_sub (subs t' s) = prev_sub (subs t s) \<and> next_sub (subs t' s) = next_sub (subs t s) \<and>
        messageIndices (subs t' s) = messageIndices (subs t s) \<and> numMessageIndices (subs t' s) = numMessageIndices (subs t s))"

lemma good_same_queues:
  assumes "good P m w t" "same_queues t t'" "topics_ok t'"
  shows "good P m w t'"
proof -
  obtain xs where xs: "list_ok t xs" using assms(1) by (auto simp: good_def)
  have "indices t' s = indices t s" for s using assms(2) by (simp add: same_queues_def indices_def)
  moreover from this have "pending m t' s = pending m t s" for s using assms(2) by (simp add: pending_def same_queues_def)
  moreover have "list_ok t' xs"
    using xs assms(2) linked_same [of "subs t" "drainableSubscribers t" xs "subs t'"] by (auto simp: list_ok_def same_queues_def)
  ultimately show ?thesis using assms
    by (auto simp: good_def indices_ok_def owed_ok_def same_queues_def)
qed

definition subscriptions :: "('m, 'u) TopicTree \<Rightarrow> (nat \<times> topic) set" where
  "subscriptions t = {(s, topic). s \<in> set (live t) \<and> topic \<in> set (sub_topics (subs t s))}"

lemma subscribers_subscriptions: "topics_ok t \<Longrightarrow> subscribers topic t = {s. (s, topic) \<in> subscriptions t}"
proof -
  assume tk: "topics_ok t"
  have "topic \<in> set (sub_topics (subs t x)) \<longleftrightarrow> (\<exists>ss. lookupTopic topic t = Some ss \<and> x \<in> set ss)" if "x \<in> set (live t)" for x
    using tk that by (simp add: topics_ok_def)
  moreover have "set ss \<subseteq> set (live t)" if "lookupTopic topic t = Some ss" for ss using tk that by (simp add: topics_ok_def)
  ultimately show ?thesis by (fastforce simp: subscribers_def subscriptions_def split: option.splits)
qed

lemma lookup_subscriptions: "topics_ok t \<Longrightarrow> lookupTopic topic t \<noteq> None \<longleftrightarrow> (\<exists>s. (s, topic) \<in> subscriptions t)"
proof -
  assume tk: "topics_ok t"
  have "ss \<noteq> []" if "lookupTopic topic t = Some ss" for ss using tk that by (simp add: topics_ok_def)
  then have "lookupTopic topic t \<noteq> None \<longleftrightarrow> subscribers topic t \<noteq> {}"
    by (auto simp: subscribers_def split: option.split)
  then show ?thesis using subscribers_subscriptions [OF tk] by auto
qed

lemma subscriptions_same: "same_topics t t' \<Longrightarrow> subscriptions t' = subscriptions t"
  by (simp add: same_topics_def subscriptions_def)

section \<open>Subscribing and unsubscribing\<close>

lemma good_subscribe:
  assumes g: "good {} m w t" and s: "s \<in> set (live t)" "iteratingSubscriber t \<noteq> Some s"
  shows "\<exists>n t'. subscribe s topic t = Some (n, t') \<and> good {} m w t' \<and> subscriptions t' = insert (s, topic) (subscriptions t) \<and>
    live t' = live t \<and> app t' = app t \<and> outgoingMessages t' = outgoingMessages t \<and> iteratingSubscriber t' = iteratingSubscriber t \<and>
    n = (if (s, topic) \<in> subscriptions t then None else Some (card {x. (x, topic) \<in> insert (s, topic) (subscriptions t)}))"
proof -
  have tk: "topics_ok t" using g by (simp add: good_def)
  show ?thesis
  proof (cases "topic \<in> set (sub_topics (subs t s))")
    case True
    then obtain ss where "lookupTopic topic t = Some ss" using tk s(1) by (auto simp: topics_ok_def)
    then have "subscribe s topic t = Some (None, t)" using True s(2) by (simp add: subscribe_def checkIteratingSubscriber_def)
    then show ?thesis using g True s(1) by (auto simp: subscriptions_def)
  next
    case False
    define ss where "ss = (case lookupTopic topic t of None \<Rightarrow> [] | Some ss \<Rightarrow> ss)"
    define t0 where "t0 = (case lookupTopic topic t of None \<Rightarrow> t\<lparr>topic_map := (topic, []) # topic_map t\<rparr> | Some _ \<Rightarrow> t)"
    define t' where "t' = set_topic topic (s # ss) (set_sub s ((subs t s)\<lparr>sub_topics := topic # sub_topics (subs t s)\<rparr>) t0)"
    have t0: "subs t0 = subs t" "live t0 = live t" "app t0 = app t" "drainableSubscribers t0 = drainableSubscribers t"
      "outgoingMessages t0 = outgoingMessages t" "iteratingSubscriber t0 = iteratingSubscriber t"
      "lookupTopic x t0 = (if x = topic then Some ss else lookupTopic x t)" for x
      by (auto simp: t0_def ss_def lookupTopic_def split: option.split)
    have "s \<notin> set ss" using False tk s(1) by (auto simp: ss_def topics_ok_def split: option.splits)
    then have e: "subscribe s topic t = Some (Some (length (s # ss)), t')"
      using False s(2) t0(7) [of topic]
      by (simp add: subscribe_def checkIteratingSubscriber_def Let_def t'_def t0 flip: t0_def)
    have lk: "lookupTopic x t' = (if x = topic then Some (s # ss) else lookupTopic x t)" for x
    proof -
      have "lookupTopic x (set_sub s r t0) = lookupTopic x t0" for x r by (simp add: lookupTopic_def)
      then show ?thesis by (simp add: t'_def lookup_set_topic t0)
    qed
    have f: "live t' = live t" "app t' = app t" "iteratingSubscriber t' = iteratingSubscriber t"
      "sub_topics (subs t' x) = (if x = s then topic # sub_topics (subs t s) else sub_topics (subs t x))" for x
      by (simp_all add: t'_def t0)
    have q: "same_queues t t'" by (simp add: same_queues_def t'_def t0)
    have keys: "distinct (map fst (topic_map t'))"
      using tk unfolding t'_def keys_set_topic
      by (auto simp: t0_def topics_ok_def lookupTopic_def map_of_eq_None_iff split: option.split)
    have "ss = [] \<or> lookupTopic topic t = Some ss" by (cases "lookupTopic topic t") (simp_all add: ss_def)
    then have ss: "distinct ss" "set ss \<subseteq> set (live t)" using tk by (auto simp: topics_ok_def)
    have st: "topic' \<in> set (sub_topics (subs t x)) \<longleftrightarrow> (\<exists>ss. lookupTopic topic' t = Some ss \<and> x \<in> set ss)" if "x \<in> set (live t)" for x topic'
      using tk that by (simp add: topics_ok_def)
    have lt: "topic \<in> set (sub_topics (subs t x)) \<longleftrightarrow> x \<in> set ss" if "x \<in> set (live t)" for x
      using st [OF that, of topic] by (cases "lookupTopic topic t") (simp_all add: ss_def)
    have "topics_ok t'"
      using tk keys ss s(1) False \<open>s \<notin> set ss\<close> lt unfolding topics_ok_def lk f by (auto split: if_splits)
    from good_same_queues [OF g q this] have "good {} m w t'" .
    moreover have sub: "subscriptions t' = insert (s, topic) (subscriptions t)" using s(1) by (auto simp: subscriptions_def f split: if_splits)
    moreover have "card {x. (x, topic) \<in> insert (s, topic) (subscriptions t)} = length (s # ss)"
    proof -
      have "{x. (x, topic) \<in> insert (s, topic) (subscriptions t)} = set (s # ss)" using lt ss s(1) by (auto simp: subscriptions_def)
      then show ?thesis using distinct_card [of "s # ss"] ss(1) \<open>s \<notin> set ss\<close> by simp
    qed
    moreover have "(s, topic) \<notin> subscriptions t" using False by (simp add: subscriptions_def)
    moreover have "outgoingMessages t' = outgoingMessages t" using q by (simp add: same_queues_def)
    ultimately show ?thesis using e f(1-3) by simp
  qed
qed

lemma good_unsubscribe:
  assumes g: "good {} m w t" and s: "s \<in> set (live t)" "iteratingSubscriber t \<noteq> Some s"
  shows "\<exists>res t'. unsubscribe s topic t = Some (res, t') \<and> good {} m w t' \<and> subscriptions t' = subscriptions t - {(s, topic)} \<and>
    live t' = live t \<and> app t' = app t \<and> iteratingSubscriber t' = iteratingSubscriber t \<and>
    fst res = ((s, topic) \<in> subscriptions t)"
proof -
  have tk: "topics_ok t" using g by (simp add: good_def)
  show ?thesis
  proof (cases "topic \<in> set (sub_topics (subs t s))")
    case False
    then have "unsubscribe s topic t = Some ((False, False, -1), t)"
      using s(2) by (simp add: unsubscribe_def checkIteratingSubscriber_def split: option.split)
    then show ?thesis using g False by (auto simp: subscriptions_def)
  next
    case True
    then obtain ss where ss: "lookupTopic topic t = Some ss" "s \<in> set ss" using tk s(1) by (auto simp: topics_ok_def)
    define t0 where "t0 = set_sub s ((subs t s)\<lparr>sub_topics := removeAll topic (sub_topics (subs t s))\<rparr>) t"
    define ss' where "ss' = removeAll s ss"
    define t' where "t' = (if ss' = [] then erase_topic topic t0 else set_topic topic ss' t0)"
    have e: "unsubscribe s topic t = Some ((True, sub_topics (subs t' s) = [], int (length ss')), t')"
      using True s(2) ss(1) by (simp add: unsubscribe_def checkIteratingSubscriber_def Let_def t'_def t0_def ss'_def)
    have l0: "lookupTopic x t0 = lookupTopic x t" for x by (simp add: lookupTopic_def t0_def)
    have lk: "lookupTopic x t' = (if x = topic then (if ss' = [] then None else Some ss') else lookupTopic x t)" for x
      using ss(1) by (simp add: t'_def lookup_set_topic lookup_erase_topic l0)
    have f: "live t' = live t" "app t' = app t" "iteratingSubscriber t' = iteratingSubscriber t"
      "sub_topics (subs t' x) = (if x = s then removeAll topic (sub_topics (subs t s)) else sub_topics (subs t x))" for x
      by (simp_all add: t'_def t0_def)
    have q: "same_queues t t'" by (simp add: same_queues_def t'_def t0_def)
    have "distinct (map fst (topic_map t0))" using tk by (simp add: topics_ok_def t0_def)
    then have keys: "distinct (map fst (topic_map t'))" using keys_erase_topic [of t0 topic] by (simp add: t'_def keys_set_topic)
    have d: "distinct ss'" "set ss' \<subseteq> set (live t)" "set ss' = set ss - {s}" using tk ss by (auto simp: ss'_def topics_ok_def distinct_removeAll)
    have st: "topic' \<in> set (sub_topics (subs t x)) \<longleftrightarrow> (\<exists>ss. lookupTopic topic' t = Some ss \<and> x \<in> set ss)" if "x \<in> set (live t)" for x topic'
      using tk that by (simp add: topics_ok_def)
    have "topics_ok t'"
      using tk keys d s(1) ss st unfolding topics_ok_def lk f by (auto simp: distinct_removeAll split: if_splits)
    from good_same_queues [OF g q this] have "good {} m w t'" .
    moreover have "subscriptions t' = subscriptions t - {(s, topic)}" by (auto simp: subscriptions_def f split: if_splits)
    moreover have "(s, topic) \<in> subscriptions t" using True s(1) by (simp add: subscriptions_def)
    ultimately show ?thesis using e f(1-3) by simp
  qed
qed

section \<open>Creating and freeing\<close>

lemma good_create:
  assumes g: "good {} m w t" and s: "s \<notin> set (live t)" "delivered s (app t) = []"
  shows "good {} m (w(s := [])) (createSubscriber s t) \<and> subscriptions (createSubscriber s t) = subscriptions t"
proof -
  let ?t = "createSubscriber s t"
  have f: "live ?t = s # live t" "app ?t = app t" "topic_map ?t = topic_map t" "outgoingMessages ?t = outgoingMessages t"
    "drainableSubscribers ?t = drainableSubscribers t" "x \<noteq> s \<Longrightarrow> subs ?t x = subs t x"
    "numMessageIndices (subs ?t s) = 0" "messageIndices (subs ?t s) = replicate MESSAGE_LIMIT 0" "sub_topics (subs ?t s) = []" for x
    by (simp_all add: createSubscriber_def)
  obtain xs where xs: "list_ok t xs" using g by (auto simp: good_def)
  have idx: "indices ?t x = (if x = s then [] else indices t x)" for x by (simp add: indices_def f)
  have "list_ok ?t xs"
    using xs s(1) linked_same [of "subs t" "drainableSubscribers t" xs "subs ?t"] f by (auto simp: list_ok_def) metis+
  moreover have "indices_ok {} ?t"
    using g s(1) unfolding good_def indices_ok_def f(1, 4) idx by (auto simp: f)
  moreover have "topics_ok ?t"
  proof -
    have lk: "lookupTopic x ?t = lookupTopic x t" for x by (simp add: lookupTopic_def f)
    have "sub_topics (subs ?t x) = (if x = s then [] else sub_topics (subs t x))" for x by (simp add: f)
    then show ?thesis using g s(1) unfolding good_def topics_ok_def lk f(1, 3) by (auto split: if_splits)
  qed
  moreover have "owed_ok m (w(s := [])) ?t"
    using g s by (auto simp: good_def owed_ok_def pending_def idx f)
  moreover have "sub_topics (subs ?t x) = (if x = s then [] else sub_topics (subs t x))" for x by (simp add: f)
  then have "subscriptions ?t = subscriptions t" using s(1) unfolding subscriptions_def f(1) by (auto split: if_splits)
  ultimately show ?thesis by (auto simp: good_def)
qed

lemma leave_topics:
  assumes "distinct ts"
  shows "lookupTopic x (fold (leaveTopic s) ts t) =
    (if x \<in> set ts then (case lookupTopic x t of None \<Rightarrow> None | Some ss \<Rightarrow> if length ss = 1 then None else Some (removeAll s ss))
     else lookupTopic x t)"
  using assms
proof (induction ts arbitrary: t)
  case (Cons y ts)
  have l: "lookupTopic x (leaveTopic s y t) =
      (if x = y then (case lookupTopic x t of None \<Rightarrow> None | Some ss \<Rightarrow> if length ss = 1 then None else Some (removeAll s ss))
       else lookupTopic x t)"
    by (auto simp: leaveTopic_def lookup_set_topic lookup_erase_topic split: option.split)
  have "lookupTopic x (fold (leaveTopic s) (y # ts) t) = lookupTopic x (fold (leaveTopic s) ts (leaveTopic s y t))" by simp
  also have "\<dots> = (if x \<in> set ts then (case lookupTopic x (leaveTopic s y t) of None \<Rightarrow> None | Some ss \<Rightarrow> if length ss = 1 then None else Some (removeAll s ss))
     else lookupTopic x (leaveTopic s y t))" using Cons by simp
  also have "\<dots> = (if x \<in> set (y # ts) then (case lookupTopic x t of None \<Rightarrow> None | Some ss \<Rightarrow> if length ss = 1 then None else Some (removeAll s ss))
     else lookupTopic x t)" using Cons.prems unfolding l by auto
  finally show ?case .
qed simp

lemma leave_simps:
  "subs (fold (leaveTopic s) ts t) = subs t" "live (fold (leaveTopic s) ts t) = live t" "app (fold (leaveTopic s) ts t) = app t"
  "drainableSubscribers (fold (leaveTopic s) ts t) = drainableSubscribers t"
  "outgoingMessages (fold (leaveTopic s) ts t) = outgoingMessages t" "iteratingSubscriber (fold (leaveTopic s) ts t) = iteratingSubscriber t"
  "distinct (map fst (topic_map t)) \<Longrightarrow> distinct (map fst (topic_map (fold (leaveTopic s) ts t)))"
  by (induction ts arbitrary: t) (simp_all add: leaveTopic_def keys_set_topic keys_erase_topic split: option.split)

lemma good_free:
  assumes g: "good {} m w t" and s: "s \<in> set (live t)"
  shows "good {} m w (freeSubscriber (Some s) t) \<and> subscriptions (freeSubscriber (Some s) t) = {p \<in> subscriptions t. fst p \<noteq> s} \<and>
    live (freeSubscriber (Some s) t) = removeAll s (live t) \<and> app (freeSubscriber (Some s) t) = app t \<and>
    iteratingSubscriber (freeSubscriber (Some s) t) = iteratingSubscriber t"
proof -
  define t0 where "t0 = fold (leaveTopic s) (sub_topics (subs t s)) t"
  define t1 where "t1 = (if numMessageIndices (subs t s) \<noteq> 0 then unlinkDrainableSubscriber s t0 else t0)"
  let ?t = "freeSubscriber (Some s) t"
  have e: "?t = t1\<lparr>live := removeAll s (live t)\<rparr>"
    by (simp add: freeSubscriber_def Let_def t1_def t0_def leave_simps needsDrainage_def)
  have f: "live ?t = removeAll s (live t)" "app ?t = app t" "outgoingMessages ?t = outgoingMessages t" "topic_map ?t = topic_map t0"
    "iteratingSubscriber ?t = iteratingSubscriber t"
    "numMessageIndices (subs ?t x) = numMessageIndices (subs t x)" "messageIndices (subs ?t x) = messageIndices (subs t x)"
    "sub_topics (subs ?t x) = sub_topics (subs t x)" for x
    by (simp_all add: e t1_def unlink_fields) (simp_all add: t0_def leave_simps)
  have idx: "indices ?t x = indices t x" for x by (simp add: indices_def f)
  have tk: "topics_ok t" using g by (simp add: good_def)
  obtain xs where xs: "list_ok t xs" using g by (auto simp: good_def)
  have l0: "linked (subs t0) (drainableSubscribers t0) xs" using xs by (simp add: list_ok_def t0_def leave_simps)
  have "list_ok ?t (removeAll s xs)"
  proof (cases "numMessageIndices (subs t s) = 0")
    case True
    then have "s \<notin> set xs" using xs by (simp add: list_ok_def)
    then show ?thesis using xs l0 True by (auto simp: list_ok_def f) (auto simp: e t1_def)
  next
    case False
    then have "s \<in> set xs" "distinct xs" using xs s by (simp_all add: list_ok_def)
    from unlink_linked [OF l0 this(2, 1)] have "linked (subs ?t) (drainableSubscribers ?t) (removeAll s xs)"
      using False by (simp add: e t1_def)
    then show ?thesis using xs by (auto simp: list_ok_def f distinct_removeAll)
  qed
  moreover have "indices_ok {} ?t" using g unfolding good_def indices_ok_def idx f by auto
  moreover have "owed_ok m w ?t" using g by (auto simp: good_def owed_ok_def pending_def idx f)
  moreover have "topics_ok ?t"
  proof -
    have dt: "distinct (sub_topics (subs t s))" using tk s by (simp add: topics_ok_def)
    have lk: "lookupTopic x ?t = (if x \<in> set (sub_topics (subs t s)) then
        (case lookupTopic x t of None \<Rightarrow> None | Some ss \<Rightarrow> if length ss = 1 then None else Some (removeAll s ss)) else lookupTopic x t)" for x
      using leave_topics [OF dt, of x s t] by (simp add: lookupTopic_def f t0_def)
    have st: "topic \<in> set (sub_topics (subs t x)) \<longleftrightarrow> (\<exists>ss. lookupTopic topic t = Some ss \<and> x \<in> set ss)" if "x \<in> set (live t)" for x topic
      using tk that by (simp add: topics_ok_def)
    have ss: "ss \<noteq> []" "distinct ss" "set ss \<subseteq> set (live t)" if "lookupTopic topic t = Some ss" for ss topic
      using tk that by (simp_all add: topics_ok_def)
    have one: "ss = [x]" if "length ss = 1" "x \<in> set ss" for ss and x :: nat using that by (cases ss) auto
    have two: "removeAll s ss \<noteq> []" if "length ss \<noteq> 1" "s \<in> set ss" "distinct ss" for ss
    proof
      assume "removeAll s ss = []"
      then have "set ss \<subseteq> {s}" by (metis Diff_eq_empty_iff empty_set set_removeAll)
      then have "card (set ss) \<le> 1" by (metis card.empty card_mono card_Suc_eq finite.emptyI finite_insert insert_absorb One_nat_def empty_iff)
      then show False using that distinct_card [of ss] by (cases ss) auto
    qed
    have gone: "lookupTopic x ?t = (case lookupTopic x t of None \<Rightarrow> None | Some ss \<Rightarrow> if set ss \<subseteq> {s} then None else Some (removeAll s ss))" for x
    proof (cases "lookupTopic x t")
      case (Some ss)
      show ?thesis
      proof (cases "s \<in> set ss")
        case True
        then have "x \<in> set (sub_topics (subs t s))" using st [OF s] Some by blast
        moreover have "length ss = 1 \<longleftrightarrow> set ss \<subseteq> {s}"
          using one [of ss s] two [of ss] True ss(2) [OF Some] by (metis Diff_eq_empty_iff empty_set list.set(1, 2) set_empty set_removeAll subset_refl)
        ultimately show ?thesis using Some by (simp add: lk)
      next
        case False
        then have "x \<notin> set (sub_topics (subs t s))" using st [OF s] Some by auto
        moreover have "removeAll s ss = ss" "\<not> set ss \<subseteq> {s}" using False ss(1) [OF Some] by (auto simp: neq_Nil_conv)
        ultimately show ?thesis using Some by (simp add: lk)
      qed
    qed (simp add: lk)
    have keys: "distinct (map fst (topic_map ?t))" using leave_simps(7) [of t s "sub_topics (subs t s)"] tk by (simp add: topics_ok_def f t0_def)
    have d: "distinct (live ?t)" using tk by (simp add: topics_ok_def f distinct_removeAll)
    have "ss' \<noteq> [] \<and> distinct ss' \<and> set ss' \<subseteq> set (live ?t)" if h: "lookupTopic topic ?t = Some ss'" for topic ss'
    proof -
      obtain ss0 where "lookupTopic topic t = Some ss0" "\<not> set ss0 \<subseteq> {s}" "ss' = removeAll s ss0"
        using h [unfolded gone] by (cases "lookupTopic topic t") (auto split: if_splits)
      moreover from this obtain x where "x \<in> set ss0" "x \<noteq> s" by blast
      ultimately have "x \<in> set ss'" by simp
      then have "ss' \<noteq> []" by auto
      then show ?thesis using ss(2, 3) [OF \<open>lookupTopic topic t = Some ss0\<close>] \<open>ss' = removeAll s ss0\<close> by (auto simp: f distinct_removeAll)
    qed
    moreover have "topic \<in> set (sub_topics (subs ?t x)) \<longleftrightarrow> (\<exists>ss. lookupTopic topic ?t = Some ss \<and> x \<in> set ss)" if "x \<in> set (live ?t)" for x topic
      using st [of x topic] that by (auto simp: f gone split: option.split)
    moreover have "distinct (sub_topics (subs ?t x))" if "x \<in> set (live ?t)" for x using tk that by (simp add: f topics_ok_def)
    ultimately show ?thesis using keys d unfolding topics_ok_def by blast
  qed
  moreover have "subscriptions ?t = {p \<in> subscriptions t. fst p \<noteq> s}" by (auto simp: subscriptions_def f)
  ultimately show ?thesis unfolding good_def using f(1, 2, 5) by auto
qed

section \<open>Any sequence of operations\<close>

text \<open>
  The tree beside its specification: \<open>A\<close> is who is subscribed to what, \<open>w s\<close> all messages that
  subscriber \<open>s\<close> must have got once everything is drained. A subscriber is created at a pointer that
  has not got messages before. The premise on publication excludes one state, see
  \<open>stale_message_delivered\<close>.
\<close>

inductive tree_run :: "'m log_tree \<Rightarrow> (nat \<times> topic) set \<Rightarrow> (nat \<Rightarrow> 'm list) \<Rightarrow> bool" where
  run_empty: "tree_run (empty_tree []) {} (\<lambda>s. [])"
| run_create: "tree_run t A w \<Longrightarrow> s \<notin> set (live t) \<Longrightarrow> delivered s (app t) = [] \<Longrightarrow> tree_run (createSubscriber s t) A (w(s := []))"
| run_subscribe: "tree_run t A w \<Longrightarrow> s \<in> set (live t) \<Longrightarrow> subscribe s topic t = Some (n, t') \<Longrightarrow> tree_run t' (insert (s, topic) A) w"
| run_unsubscribe: "tree_run t A w \<Longrightarrow> s \<in> set (live t) \<Longrightarrow> unsubscribe s topic t = Some (res, t') \<Longrightarrow> tree_run t' (A - {(s, topic)}) w"
| run_free: "tree_run t A w \<Longrightarrow> s \<in> set (live t) \<Longrightarrow> tree_run (freeSubscriber (Some s) t) {p \<in> A. fst p \<noteq> s} w"
| run_publish: "tree_run t A w \<Longrightarrow> length (outgoingMessages t) < INDEX_LIMIT \<or> drainableSubscribers t \<noteq> None \<Longrightarrow>
    publish record_cb sender topic m t = Some (r, t') \<Longrightarrow> tree_run t' A (owed_after sender {s. (s, topic) \<in> A} m w)"
| run_publishBig: "tree_run t A w \<Longrightarrow> publishBig sender topic (record_big m) t = Some (r, t') \<Longrightarrow>
    tree_run t' A (owed_after sender {s. (s, topic) \<in> A} m w)"
| run_drain: "tree_run t A w \<Longrightarrow> s \<in> set (live t) \<Longrightarrow> drain_subscriber record_cb s t = Some t' \<Longrightarrow> tree_run t' A w"
| run_drain_all: "tree_run t A w \<Longrightarrow> drain_all record_cb t = Some t' \<Longrightarrow> tree_run t' A w"

definition run_ok :: "'m log_tree \<Rightarrow> (nat \<times> topic) set \<Rightarrow> (nat \<Rightarrow> 'm list) \<Rightarrow> bool" where
  "run_ok t A w \<longleftrightarrow> (\<forall>m. good {} m w t) \<and> A = subscriptions t \<and> iteratingSubscriber t = None"

lemma run_okI:
  assumes "good {} m w t'" "A = subscriptions t'" "iteratingSubscriber t' = None"
  shows "run_ok t' A w"
  unfolding run_ok_def using good_any_message [OF assms(1)] assms(2, 3) by simp

lemma run_ok_same:
  assumes "run_ok t A w" "good {} m w' t'" "same_topics t t'"
  shows "run_ok t' A w'"
  using assms subscriptions_same [OF assms(3)] by (intro run_okI) (auto simp: run_ok_def same_topics_def)

lemma run_ok_subscribers: "run_ok t A w \<Longrightarrow> subscribers topic t = {s. (s, topic) \<in> A}"
  using subscribers_subscriptions by (auto simp: run_ok_def good_def)

lemma empty_tree_good: "good {} undefined (\<lambda>s. []) (empty_tree [])"
  unfolding good_def
  by (intro conjI exI [of _ "[]"] empty_subsetI)
    (simp_all add: list_ok_def indices_ok_def topics_ok_def owed_ok_def empty_tree_def lookupTopic_def)

lemma empty_tree_ok: "run_ok (empty_tree []) {} (\<lambda>s. [])"
  by (rule run_okI [OF empty_tree_good]) (simp_all add: subscriptions_def empty_tree_def)

lemma publish_ok:
  assumes "run_ok t A w" "length (outgoingMessages t) < INDEX_LIMIT \<or> drainableSubscribers t \<noteq> None"
  shows "\<exists>t'. publish record_cb sender topic m t = Some (\<exists>s. (s, topic) \<in> A \<and> sender \<noteq> Some s, t') \<and>
    run_ok t' A (owed_after sender {s. (s, topic) \<in> A} m w) \<and> same_topics t t'"
proof -
  have g: "good {} m w t" using assms(1) by (simp add: run_ok_def)
  have "length (outgoingMessages t) = INDEX_LIMIT \<longrightarrow> drainableSubscribers t \<noteq> None" using assms(2) by auto
  from good_publish [OF g this, of sender topic] obtain t' where
    t': "publish record_cb sender topic m t = Some (\<exists>s. receives sender {s. (s, topic) \<in> A} s, t')"
      "good {} m (owed_after sender {s. (s, topic) \<in> A} m w) t'" "same_topics t t'"
    unfolding run_ok_subscribers [OF assms(1)] by blast
  then show ?thesis using run_ok_same [OF assms(1) t'(2, 3)] by (auto simp: receives_def)
qed

lemma publishBig_ok:
  assumes "run_ok t A w"
  shows "\<exists>t'. publishBig sender topic (record_big m) t = Some (\<exists>s. (s, topic) \<in> A, t') \<and>
    run_ok t' A (owed_after sender {s. (s, topic) \<in> A} m w) \<and> same_topics t t'"
proof -
  have g: "good {} m w t" "topics_ok t" "A = subscriptions t" using assms by (auto simp: run_ok_def good_def)
  have lk: "lookupTopic topic t \<noteq> None \<longleftrightarrow> (\<exists>s. (s, topic) \<in> A)" using lookup_subscriptions [OF g(2)] g(3) by simp
  from good_publishBig [OF g(1), of sender topic] obtain t' where
    t': "publishBig sender topic (record_big m) t = Some (\<exists>s. (s, topic) \<in> A, t')"
      "good {} m (owed_after sender {s. (s, topic) \<in> A} m w) t'" "same_topics t t'"
    unfolding run_ok_subscribers [OF assms] lk by blast
  then show ?thesis using run_ok_same [OF assms t'(2, 3)] by blast
qed

lemma tree_run_ok: "tree_run t A w \<Longrightarrow> run_ok t A w"
proof (induction rule: tree_run.induct)
  case run_empty
  then show ?case by (rule empty_tree_ok)
next
  case (run_create t A w s)
  then have "good {} m w t" for m by (simp add: run_ok_def)
  moreover have "iteratingSubscriber (createSubscriber s t) = iteratingSubscriber t" by (simp add: createSubscriber_def)
  moreover note good_create [OF calculation(1) [of undefined] run_create(2, 3)]
  ultimately show ?case using run_create.IH unfolding run_ok_def by (intro run_okI [of undefined, unfolded run_ok_def]) (simp_all del: fun_upd_apply)
next
  case (run_subscribe t A w s topic n t')
  then show ?case using good_subscribe [of undefined w t s topic] by (intro run_okI [of undefined]) (auto simp: run_ok_def)
next
  case (run_unsubscribe t A w s topic res t')
  then show ?case using good_unsubscribe [of undefined w t s topic] by (intro run_okI [of undefined]) (auto simp: run_ok_def)
next
  case (run_free t A w s)
  then show ?case using good_free [of undefined w t s] by (intro run_okI [of undefined]) (auto simp: run_ok_def)
next
  case (run_publish t A w sender topic m r t')
  then show ?case using publish_ok [OF run_publish.IH run_publish(2), of sender topic m] by fastforce
next
  case (run_publishBig t A w sender topic m r t')
  then show ?case using publishBig_ok [OF run_publishBig.IH, of sender topic m] by fastforce
next
  case (run_drain t A w s t')
  then have "good {} undefined w t" by (simp add: run_ok_def)
  from good_drain [OF this run_drain(2)] show ?case using run_drain run_ok_same [OF run_drain.IH] by fastforce
next
  case (run_drain_all t A w t')
  then have "good {} undefined w t" by (simp add: run_ok_def)
  from good_drain_all [OF this] show ?case using run_drain_all run_ok_same [OF run_drain_all.IH] by fastforce
qed



section \<open>An example\<close>

text \<open>Two subscribers of one topic; the first publishes 5, then the application a big 6.\<close>

lemma example_subscribed:
  "\<exists>(t :: nat log_tree) w. tree_run t {(1, [97]), (2, [97])} w \<and> w 1 = [] \<and> w 2 = [] \<and> set (live t) = {1, 2} \<and>
     length (outgoingMessages t) < INDEX_LIMIT"
proof -
  define t2 :: "nat log_tree" where "t2 = createSubscriber 2 (createSubscriber 1 (empty_tree []))"
  have r2: "tree_run t2 {} (((\<lambda>s. [])(1 := []))(2 := []))" unfolding t2_def
    by (intro run_create run_empty) (simp_all add: empty_tree_def createSubscriber_def)
  have l2: "set (live t2) = {1, 2}" "outgoingMessages t2 = []" by (auto simp: t2_def createSubscriber_def empty_tree_def)
  have sub: "\<exists>n t'. subscribe s topic t = Some (n, t') \<and> tree_run t' (insert (s, topic) A) w \<and> live t' = live t \<and>
      outgoingMessages t' = outgoingMessages t" if "tree_run t A w" "s \<in> set (live t)" for s topic and t :: "nat log_tree" and A w
    using good_subscribe [of undefined w t s topic] tree_run_ok [OF that(1)] that(2) run_subscribe [OF that] by (fastforce simp: run_ok_def)
  obtain t3 where t3: "tree_run t3 (insert (2, [97]) {}) (((\<lambda>s. [])(1 := []))(2 := []))" "live t3 = live t2" "outgoingMessages t3 = outgoingMessages t2"
    using sub [OF r2, of 2 "[97]"] l2 by auto
  obtain t4 where t4: "tree_run t4 (insert (1, [97]) (insert (2, [97]) {})) (((\<lambda>s. [])(1 := []))(2 := []))" "live t4 = live t3" "outgoingMessages t4 = outgoingMessages t3"
    using sub [OF t3(1), of 1 "[97]"] t3(2) l2 by auto
  have "live t4 = live t2" "length (outgoingMessages t4) < INDEX_LIMIT" using t4 t3 l2 by (simp_all add: INDEX_LIMIT_def)
  then show ?thesis using t4(1) l2(1)
    by (intro exI [of _ t4] exI [of _ "((\<lambda>s. [])(1 := []))(2 := [])"] conjI) simp_all
qed

lemma example_published:
  "\<exists>(t :: nat log_tree) w. tree_run t {(1, [97]), (2, [97])} w \<and> w 1 = [6] \<and> w 2 = [5, 6] \<and> set (live t) = {1, 2}"
proof -
  obtain t :: "nat log_tree" and w where t: "tree_run t {(1, [97]), (2, [97])} w" "w 1 = []" "w 2 = []" "set (live t) = {1, 2}"
    "length (outgoingMessages t) < INDEX_LIMIT" using example_subscribed by blast
  obtain t5 r where t5: "publish record_cb (Some 1) [97] 5 t = Some (r, t5)" "same_topics t t5"
    using publish_ok [OF tree_run_ok [OF t(1)] disjI1 [OF t(5)], of "Some 1" "[97]" 5] by blast
  note r5 = run_publish [OF t(1) disjI1 [OF t(5)] t5(1)]
  obtain t6 r where t6: "publishBig None [97] (record_big 6) t5 = Some (r, t6)" "same_topics t5 t6"
    using publishBig_ok [OF tree_run_ok [OF r5], of None "[97]" 6] by blast
  note r6 = run_publishBig [OF r5 t6(1)]
  have "set (live t6) = {1, 2}" using t(4) t5(2) t6(2) by (simp add: same_topics_def)
  then show ?thesis by - (rule exI, rule exI, rule conjI, rule r6, simp add: owed_after_def receives_def t(3) t(2) [unfolded One_nat_def])
qed



section \<open>Where the indices wrap\<close>

text \<open>
  When all subscribers with queued messages are freed, the message palette stays, and \<open>drain()\<close> does
  nothing without drainable subscribers. If it holds 65535 messages then, a publication passes the
  check for a full palette once; the index of the next one wraps to 0, and its subscriber is handed a
  message that was meant for somebody else.
\<close>

lemma stale_message_delivered:
  fixes t :: "nat log_tree"
  assumes "length (outgoingMessages t) = INDEX_LIMIT" "hd (outgoingMessages t) = 7" "drainableSubscribers t = None"
    and "lookupTopic topic t = Some [s]" "numMessageIndices (subs t s) = 0" "length (messageIndices (subs t s)) = MESSAGE_LIMIT"
    and "app t = []"
  shows "\<exists>t1 t2 t3. publish record_cb None topic 1 t = Some (True, t1) \<and> publish record_cb None topic 2 t1 = Some (True, t2) \<and>
    drain_subscriber record_cb s t2 = Some t3 \<and> app t3 = [(s, 1), (s, 7)]"
proof -
  let ?o = "outgoingMessages t"
  define t1 where "t1 = (addMessageIndex s t)\<lparr>outgoingMessages := ?o @ [1]\<rparr>"
  define t2 where "t2 = (addMessageIndex s t1)\<lparr>outgoingMessages := ?o @ [1, 2]\<rparr>"
  have len: "length ?o = 65535" using assms(1) by (simp add: INDEX_LIMIT_def)
  have a1: "outgoingMessages (addMessageIndex s t) = ?o" "lookupTopic topic (addMessageIndex s t) = Some [s]"
    "numMessageIndices (subs (addMessageIndex s t) s) = 1" "indices (addMessageIndex s t) s = [65535]"
    "length (messageIndices (subs (addMessageIndex s t) s)) = MESSAGE_LIMIT" "app (addMessageIndex s t) = []"
    using assms(3-7) len
    by (auto simp: addMessageIndex_def linkDrainableSubscriber_def Let_def indices_def lookupTopic_def take_Suc_conv_app_nth MESSAGE_LIMIT_def)
  have p1: "publish record_cb None topic 1 t = Some (True, t1)"
    using assms a1 by (simp add: publish_def publishTo_def drain_all_def t1_def MESSAGE_LIMIT_def)
  have p2: "publish record_cb None topic 2 t1 = Some (True, t2)"
  proof -
    have "lookupTopic topic t1 = Some [s]" "length (outgoingMessages t1) = 65536" "numMessageIndices (subs t1 s) = 1"
      using a1 len by (simp_all add: t1_def lookupTopic_def)
    then show ?thesis by (simp add: publish_def publishTo_def t2_def MESSAGE_LIMIT_def INDEX_LIMIT_def)
      (simp add: addMessageIndex_def Let_def t1_def)
  qed
  have f2: "numMessageIndices (subs t2 s) = 2" "indices t2 s = [65535, 0]" "app t2 = []" "outgoingMessages t2 = ?o @ [1, 2]"
  proof -
    have n1: "numMessageIndices (subs t1 s) = 1" "length (messageIndices (subs t1 s)) = 32" "take 1 (messageIndices (subs t1 s)) = [65535]"
      "length (outgoingMessages t1) mod 65536 = 0" "app t1 = []"
      using a1 len by (simp_all add: t1_def indices_def MESSAGE_LIMIT_def)
    then have "take 2 ((messageIndices (subs t1 s))[1 := 0]) = [65535, 0]"
      by (simp add: numeral_2_eq_2 take_Suc_conv_app_nth)
    then show "numMessageIndices (subs t2 s) = 2" "indices t2 s = [65535, 0]" "app t2 = []" "outgoingMessages t2 = ?o @ [1, 2]"
      using n1 by (simp_all add: t2_def addMessageIndex_def Let_def indices_def numeral_2_eq_2)
  qed
  have "prev_sub (subs t2 s) = None" "next_sub (subs t2 s) = None" "drainableSubscribers t2 = Some s"
    using assms(3, 5) a1(3) by (simp_all add: t2_def t1_def addMessageIndex_def linkDrainableSubscriber_def Let_def)
  then have u: "unlinkDrainableSubscriber s t2 = t2\<lparr>drainableSubscribers := None\<rparr>" by (simp add: unlinkDrainableSubscriber_def)
  have "(?o @ [1, 2]) ! 65535 = 1" "(?o @ [1, 2]) ! 0 = 7" using assms(2) len by (cases ?o; simp add: nth_append)+
  then have "drainLoop record_cb s (?o @ [1, 2]) True [65535, 0] [] = Some [(s, 1), (s, 7)]"
    using len by (simp add: record_cb_def)
  then have "\<exists>t3. drain_subscriber record_cb s t2 = Some t3 \<and> app t3 = [(s, 1), (s, 7)]"
    using f2 by (simp add: drain_subscriber_def needsDrainage_def u drainImpl_def Let_def indices_def)
  then show ?thesis using p1 p2 by blast
qed

end
