(* ===== verification/Spec2Isabelle.thy ===== *)
theory Spec2Isabelle
  imports Uws_Prelude Bloom_Filter Utilities Chunked_Encoding Query_Parser Proxy_Parser Http_Scan Http_Head
    Http_Parser Http_Router Router_Dispatch Router_Update Router_Routes Ws_Utf8 Ws_Protocol Ws_Memory Ws_Safe Ws_Stream
    Ws_Close Ws_Handshake Ws_Extensions Multipart Ws_Server Ws_Context Ws_Send Ws_Session Ws_Lifecycle Loop_Defer Per_Message_Deflate Event_Loop Http_Response Http_Context Http_Wire Uws_App Async_Socket Socket_Stream Topic_Tree Topic_Delivery Topic_Run
begin

text \<open>
  uWebSockets: the server library under \<open>src/src/\<close>, header by header, as it is compiled with zlib and without
  libdeflate, simdutf and SSL. The whole library is templates in headers over uSockets, which is a
  submodule that is not in the repository and therefore a parameter here.

  The program. uSockets owns sockets and timers and calls back into a loop (\<open>Loop.h\<close>, \<open>LoopData.h\<close>). A socket is an
  HTTP connection first: \<open>HttpContext.h\<close> hands what was read to \<open>HttpParser.h\<close>, which parses heads and streams
  bodies (\<open>ChunkedEncoding.h\<close>, \<open>ProxyParser.h\<close>, \<open>BloomFilter.h\<close>, \<open>QueryParser.h\<close>) and calls back with requests;
  \<open>HttpRouter.h\<close> finds the handler of the program, which answers over \<open>HttpResponse.h\<close> or upgrades the connection
  (\<open>WebSocketHandshake.h\<close>, \<open>WebSocketExtensions.h\<close>). It is then a WebSocket: \<open>WebSocketContext.h\<close> hands what was
  read to \<open>WebSocketProtocol.h\<close>, whose frames come back to the context and from there to the program, and
  \<open>WebSocket.h\<close> is what the program calls. Both write through \<open>AsyncSocket.h\<close>: cork buffer of the loop first,
  then the kernel, then the backpressure of the socket. Publishing goes through \<open>TopicTree.h\<close>, which queues
  indices of messages per subscriber and drains them after the loop's iteration. \<open>App.h\<close> ties all of this up.

  Conventions. Memory is a list of bytes, and a routine that may write gets the list and returns it; a pointer
  is the rest of the list or an offset in it, and reading outside is a value of its own (\<open>Uws_Prelude\<close>). Integers
  are words of the width the code has, except offsets and lengths, which are \<open>nat\<close> where the theorems show that
  nothing wraps. Errors are \<open>option\<close> or a datatype. Handlers of the program are functions on the whole state, so
  that they may call back into everything below; None is a run that ended in \<open>std::terminate\<close> or outside a
  container. Theories build on each other in the order in which the parts call each other.

  Parsing of HTTP.
  \<^item> \<open>Uws_Prelude\<close>: bytes, little-endian words, lists and memory. \<open>Utilities\<close>: the number printers of \<open>Utilities.h\<close>,
    which read back and stay inside their local arrays.
  \<^item> \<open>Bloom_Filter\<close>: \<open>BloomFilter.h\<close>, an instance of the locale \<open>approx_filter\<close>, which has no false negatives.
  \<^item> \<open>Chunked_Encoding\<close>: the 64-bit state of \<open>ChunkedEncoding.h\<close>. Well-formed bodies are decoded in whatever pieces
    they come, sizes are exact or refused, every view lies inside the read.
  \<^item> \<open>Query_Parser\<close>, \<open>Proxy_Parser\<close>: \<open>QueryParser.h\<close> with the decoding in place, and the PROXY preamble.
  \<^item> \<open>Http_Scan\<close>, \<open>Http_Head\<close>, \<open>Http_Parser\<close>: \<open>HttpParser.h\<close>. Scanning eight bytes at a time equals a scan byte by
    byte; \<open>getHeaders\<close> takes exactly a grammar of heads and reads nothing behind the fence; \<open>consumePostPadded\<close> with
    its fallback buffer stays inside memory over any sequence of reads and any handlers, hands out only requests
    with one host and one body framing, and streams bodies exactly.
  \<^item> \<open>Multipart\<close>: \<open>Multipart.h\<close> and \<open>MessageParser.h\<close>, safe on any body, and a round trip.

  Routing.
  \<^item> \<open>Http_Router\<close>: the tree of \<open>HttpRouter.h\<close> with \<open>add\<close>, \<open>remove\<close> and \<open>route\<close>. \<open>Router_Dispatch\<close>, \<open>Router_Update\<close> and
    \<open>Router_Routes\<close> refine it to a table: \<open>candidates\<close> is the documented order of the matching routes, a lookup calls
    just these, \<open>add\<close> and \<open>remove\<close> change one route, and the tree stays sorted and culled.

  Sockets.
  \<^item> \<open>Async_Socket\<close>: \<open>AsyncSocket.h\<close>, \<open>AsyncSocketData.h\<close> and the cork buffer of \<open>LoopData.h\<close>. \<open>Socket_Stream\<close>: the
    stream of a socket is wire, backpressure and cork buffer in this order, and holds each accepted byte once. Only
    the write of a corked socket behind a full cork buffer may lose bytes (see \<open>write_drops_data\<close>); therefore later
    theorems ask for the room.

  HTTP connections.
  \<^item> \<open>Http_Response\<close>: \<open>HttpResponse.h\<close>, \<open>HttpResponseData.h\<close> and the upgrade; \<open>Http_Context\<close>: the events of
    \<open>HttpContext.h\<close>, with the parser and the router. \<open>Http_Wire\<close>: the calls of a handler put exactly one message on
    the stream of the socket.

  WebSockets.
  \<^item> \<open>Ws_Utf8\<close>, \<open>Ws_Protocol\<close>: \<open>WebSocketProtocol.h\<close>, that is, validation, close payloads, the writer of frames
    and the parser on a receive buffer with its spill area. \<open>Ws_Memory\<close> and \<open>Ws_Safe\<close>: unmasking and the parser
    stay inside the padded buffer. \<open>Ws_Stream\<close>: frames cut into reads anywhere come out whole, for every consumer
    of the locale \<open>fragment_consumer\<close>. \<open>Ws_Close\<close>: close frames, and what the parser takes against RFC 6455.
  \<^item> \<open>Ws_Handshake\<close> (\<open>WebSocketHandshake.h\<close> against FIPS 180-4), \<open>Ws_Extensions\<close> (\<open>WebSocketExtensions.h\<close>),
    \<open>Per_Message_Deflate\<close> (\<open>PerMessageDeflate.h\<close>: the loops around zlib).
  \<^item> \<open>Ws_Server\<close>: \<open>WebSocketData.h\<close>, \<open>WebSocketContextData.h\<close>, \<open>WebSocket.h\<close> and publishing in \<open>App.h\<close>;
    \<open>Ws_Context\<close>: the events of \<open>WebSocketContext.h\<close>. \<open>Ws_Send\<close>: a send puts its frame on the stream.
    \<open>Ws_Session\<close>: the parser, the context and the sends together, from bytes to handlers and back, as an instance
    of \<open>fragment_consumer\<close>. \<open>Ws_Lifecycle\<close>: sequences of events (\<open>serve_all\<close>) tell each close once; the locale
    \<open>drain_invariant\<close> carries an invariant through a drain, \<open>parser_guard\<close> says when the parser stops calling.

  Publishing.
  \<^item> \<open>Topic_Tree\<close>: \<open>TopicTree.h\<close> with its linked list. \<open>Topic_Delivery\<close>: well-formedness and what one operation owes
    to whom. \<open>Topic_Run\<close>: the step relation \<open>tree_run\<close> against a specification that knows subscriptions and owed
    messages only.

  The loop and the app.
  \<^item> \<open>Loop_Defer\<close>: \<open>defer\<close> and the wakeup under every interleaving of threads, one step for each access to shared
    state. \<open>Event_Loop\<close>: date, handlers around an iteration, prepared messages. \<open>Uws_App\<close>: settings, routes by
    method, the upgrading handler, child apps.

  Termination and fuel. Nearly all loops are total functions with measures. \<open>write_loop\<close> of \<open>Http_Response\<close> has the
  length of the data as fuel: each pass of the code writes a byte at least, and \<open>write_loop_emits\<close> shows that it
  suffices. \<open>drainWalk\<close> of \<open>Topic_Tree\<close> follows pointers, and \<open>deflateLoop\<close> and \<open>inflateLoop\<close> ask zlib again; they are
  partial functions whose value None is a loop that does not end, and the theorems on
  the operations of a tree and on both streams exclude it.

  What is assumed of code outside the repository, each as a named predicate with a concrete instance in a witness:
  \<open>socket_laws\<close> and \<open>server_laws\<close> (a write of uSockets sends a prefix and returns its length), \<open>close_laws\<close> (only
  \<open>us_socket_close\<close> closes), \<open>deflate_law\<close> and \<open>inflate_law\<close> (how zlib hands out its output and reports its end).

  Not modelled. HTTP/3 (\<open>Http3*.h\<close>) wraps the QUIC calls of uSockets. \<open>CachingApp.h\<close>, \<open>ClientApp.h\<close> and
  \<open>LocalCluster.h\<close> are unfinished: the first derives from \<open>TemplatedAppBase\<close>, which does not exist, the second has
  empty bodies, the third says that it is experimental. \<open>MoveOnlyFunction.h\<close> is a vendored copy of a type of the
  standard library; handlers are functions here. Creating, listening, adopting, server names and freeing only call
  uSockets. The quote servers of \<open>src/main.cpp\<close> and \<open>src/app/\<close>, the examples, benchmarks, tests and fuzzing
  targets are programs around the library.
\<close>

end
